(* ===== verification/Prelude.thy ===== *)
theory Prelude
  imports Main "HOL-Library.Word" "HOL-Library.List_Lexorder" "HOL-Library.Char_ord"
begin

text \<open>
  Shared vocabulary of the development: the machine types the sources use, the error values
  the operations return, and the small part of the C++ standard library the components rely
  on (ordered maps, \<open>std::optional\<close>, the selection of a largest element) together with the
  facts about it the component proofs share.

  Octet strings are lists of 8 bit words; the order on them is the lexicographic one, which is
  the order of \<open>std::vector<std::uint8_t>\<close>.
\<close>

section \<open>Machine types\<close>

type_synonym octet = "8 word"
type_synonym octets = "octet list"
type_synonym u8 = "8 word"
type_synonym u32 = "32 word"
type_synonym u64 = "64 word"

type_synonym public_key_id = octets
type_synonym record_tag = octets
type_synonym storage_id = octets
type_synonym data_id = octets
type_synonym digest = octets

section \<open>Errors\<close>

text \<open>
  The error codes of the record and data protocols, of the client core and of the base library
  as far as the modelled code returns or compares them. \<open>Database\<close> is an exception of the
  database layer (a constraint of a table refused a row), \<open>Io\<close> one of the file system.
\<close>

datatype protocol_errc =
    no_such_storage
  | record_already_committed
  | invalid_record
  | conflicting_record
  | record_out_of_sync
  | invalid_client_key
  | protocol_invalid_state
  | storage_mode_mismatch
  | unknown_signer
  | invalid_storage_modes
  | storage_syncing
  | record_too_big
  | invalid_data_ticket
  | data_ticket_expired
  | invalid_data_manifest
  | invalid_data_chunk
  | no_such_upload
  | data_quota_exceeded
  | data_too_big
  | unknown_data
  | no_data_servers
  | data_not_held
  | data_transfer_quota_exceeded
  | data_pruned
  | origin_diverged
  | origin_condemned

datatype sync_errc =
    no_encryption_key_set
  | no_encryption_key_found
  | invalid_record_chain_state
  | constraint_violation
  | invalid_record_state
  | not_authentic
  | invalid_configuration
  | sync_record_too_big

datatype general_errc =
    general_invalid_state
  | general_invalid_data
  | general_invalid_argument
  | general_timeout
  | general_exception_occurred
  | general_not_supported
  | general_unknown_error
  | no_such_key
  | signature_not_authentic

datatype error =
    Protocol protocol_errc
  | Sync sync_errc
  | General general_errc
  | Retry protocol_errc u32
  | Database
  | Io

type_synonym 'a result = "error + 'a"

text \<open>Sequencing of operations that return a result: the first error ends the sequence.\<close>

definition bind_result :: "'a result \<Rightarrow> ('a \<Rightarrow> 'b result) \<Rightarrow> 'b result" where
  "bind_result r f = (case r of Inl e \<Rightarrow> Inl e | Inr x \<Rightarrow> f x)"

definition is_error :: "'a result \<Rightarrow> bool" where
  "is_error r = (case r of Inl _ \<Rightarrow> True | Inr _ \<Rightarrow> False)"

fun value_or :: "'a option \<Rightarrow> 'a \<Rightarrow> 'a" where
  "value_or None d = d"
| "value_or (Some x) _ = x"

lemma bind_result_simps [simp]:
  "bind_result (Inl e) f = Inl e"
  "bind_result (Inr x) f = f x"
  by (simp_all add: bind_result_def)

lemma is_error_simps [simp]: "is_error (Inl e)" "\<not> is_error (Inr x)"
  by (simp_all add: is_error_def)

lemma bind_result_Inr: "bind_result r f = Inr y \<longleftrightarrow> (\<exists>x. r = Inr x \<and> f x = Inr y)"
  by (cases r) simp_all

section \<open>Collections of facts\<close>

named_theorems seq_simps \<open>sequence number arithmetic that does not wrap\<close>
named_theorems map_simps \<open>look-ups in ordered maps after an update\<close>

section \<open>Words\<close>

lemma word_inc_nonzero [seq_simps]: "x \<noteq> - 1 \<Longrightarrow> x + 1 \<noteq> 0" for x :: "'a::len word"
  using add_eq_0_iff2 by blast

lemma word_inc_unat [seq_simps]: "x \<noteq> - 1 \<Longrightarrow> unat (x + 1) = Suc (unat x)" for x :: "'a::len word"
  using unatSuc [of x] word_inc_nonzero [of x] by (simp add: add.commute)

lemma word_less_inc [seq_simps]: "x \<noteq> - 1 \<Longrightarrow> x < x + 1" for x :: "'a::len word"
  by (simp add: word_less_nat_alt word_inc_unat)

lemma word_less_not_max: "x < y \<Longrightarrow> x \<noteq> - 1" for x :: "'a::len word"
  by (metis not_less word_order.extremum)

lemma word_less_inc_iff [seq_simps]: "x \<noteq> - 1 \<Longrightarrow> y < x + 1 \<longleftrightarrow> y \<le> x" for x :: "'a::len word"
  by (simp add: word_less_nat_alt word_le_nat_alt word_inc_unat less_Suc_eq_le)

lemma word_inc_le_iff [seq_simps]: "x \<noteq> - 1 \<Longrightarrow> x + 1 \<le> y \<longleftrightarrow> x < y" for x :: "'a::len word"
  by (simp add: word_less_nat_alt word_le_nat_alt word_inc_unat Suc_le_eq)

lemma word_count_down: "r < n \<Longrightarrow> unat n - unat (r + 1) < unat n - unat r" for r :: "'a::len word"
proof -
  assume r: "r < n"
  then have "unat (r + 1) = Suc (unat r)" using word_less_not_max word_inc_unat by blast
  then show ?thesis using r by (simp add: word_less_nat_alt)
qed

lemma word_sub_unat: "y \<le> x \<Longrightarrow> unat (x - y) = unat x - unat y" for x :: "'a::len word"
  by (rule unat_sub)

lemma unat_of_nat_small: "n < 2 ^ LENGTH('a) \<Longrightarrow> unat (of_nat n :: 'a::len word) = n"
  by (simp add: unsigned_of_nat take_bit_nat_eq_self)

lemma unat_2p: "i < LENGTH('a) \<Longrightarrow> unat (2 ^ i :: 'a::len word) = 2 ^ i"
  using unat_of_nat_small [of "2 ^ i", where 'a = 'a] by simp

lemma word_ge_1: "x \<noteq> 0 \<Longrightarrow> 1 \<le> x" for x :: "'a::len word"
  using word_inc_le_iff [of 0 x] by (simp add: word_neq_0_conv)

lemma unat_min: "unat (min x y) = min (unat x) (unat y)" for x :: "'a::len word"
  by (simp add: min_def word_le_nat_alt)

lemma unat_max_u64: "unat (- 1 :: u64) = 2 ^ 64 - 1"
  by (simp add: unsigned_minus_1_eq_mask mask_eq_exp_minus_1)

lemma u64_not_maxI: "unat x + 1 < 2 ^ 64 \<Longrightarrow> x \<noteq> (- 1 :: u64)"
  using unat_max_u64 by auto

lemma unat_less_2_64: "unat (x :: u64) < 18446744073709551616"
  using unsigned_less [of x, where ?'a = nat] by simp

lemma unat_less_2_32: "unat (x :: u32) < 4294967296"
  using unsigned_less [of x, where ?'a = nat] by simp

section \<open>Selecting the largest element\<close>

text \<open>
  \<open>argmax f xs\<close> is the row an \<open>ORDER BY f DESC LIMIT 1\<close> returns: the first element of \<open>xs\<close>
  among those with the largest \<open>f\<close>. \<open>max_of f xs\<close> is \<open>max(f)\<close> with \<open>0\<close> for no row.
\<close>

fun argmax :: "('a \<Rightarrow> 'b::linorder) \<Rightarrow> 'a list \<Rightarrow> 'a option" where
  "argmax f [] = None"
| "argmax f (x # xs) = (case argmax f xs of None \<Rightarrow> Some x | Some y \<Rightarrow> if f x < f y then Some y else Some x)"

definition argmin :: "('a \<Rightarrow> 'b::linorder) \<Rightarrow> 'a list \<Rightarrow> 'a option" where
  "argmin f xs = (case xs of [] \<Rightarrow> None | y # ys \<Rightarrow> Some (fold (\<lambda>x b. if f x < f b then x else b) ys y))"

definition max_of :: "('a \<Rightarrow> u64) \<Rightarrow> 'a list \<Rightarrow> u64" where
  "max_of f xs = fold (\<lambda>x. max (f x)) xs 0"

lemma argmax_None [simp]: "argmax f xs = None \<longleftrightarrow> xs = []"
  by (cases xs) (auto split: option.splits)

lemma argmax_SomeD: "argmax f xs = Some x \<Longrightarrow> x \<in> set xs \<and> (\<forall>y\<in>set xs. f y \<le> f x)"
proof (induction xs arbitrary: x)
  case (Cons a xs)
  then show ?case
    by (cases "argmax f xs") (fastforce split: if_splits)+
qed simp

lemma argmax_unique:
  assumes "x \<in> set xs" "\<And>y. y \<in> set xs \<Longrightarrow> y \<noteq> x \<Longrightarrow> f y < f x"
  shows "argmax f xs = Some x"
proof -
  obtain z where z: "argmax f xs = Some z" using assms(1) by (cases "argmax f xs") auto
  then have "z \<in> set xs" "f x \<le> f z" using argmax_SomeD assms(1) by fastforce+
  then show ?thesis using assms(2) [of z] z by force
qed

lemma fold_max_ge: "a \<le> fold (\<lambda>x. max (f x)) xs (a :: 'b::linorder)"
proof (induction xs arbitrary: a)
  case (Cons x xs)
  have "a \<le> max (f x) a" by simp
  also have "\<dots> \<le> fold (\<lambda>x. max (f x)) xs (max (f x) a)" by (rule Cons.IH)
  finally show ?case by simp
qed simp

lemma fold_max_upper: "x \<in> set xs \<Longrightarrow> f x \<le> fold (\<lambda>x. max (f x)) xs (a :: 'b::linorder)"
proof (induction xs arbitrary: a)
  case (Cons y ys)
  have "f y \<le> fold (\<lambda>x. max (f x)) ys (max (f y) a)"
    by (rule order_trans [OF max.cobounded1 fold_max_ge])
  then show ?case using Cons by auto
qed simp

lemma fold_max_in: "fold (\<lambda>x. max (f x)) xs (a :: 'b::linorder) \<in> insert a (f ` set xs)"
proof (induction xs arbitrary: a)
  case (Cons y ys)
  then show ?case using Cons.IH [of "max (f y) a"] by (auto simp: max_def split: if_splits)
qed simp

lemma max_of_Nil [simp]: "max_of f [] = 0"
  by (simp add: max_of_def)

lemma max_of_upper: "x \<in> set xs \<Longrightarrow> f x \<le> max_of f xs"
  unfolding max_of_def by (rule fold_max_upper)

lemma max_of_in: "max_of f xs = 0 \<or> (\<exists>x\<in>set xs. max_of f xs = f x)"
  using fold_max_in [of f xs 0] by (auto simp: max_of_def)

lemma max_of_le: "max_of f xs \<le> m \<longleftrightarrow> (\<forall>x\<in>set xs. f x \<le> m)"
proof
  show "max_of f xs \<le> m \<Longrightarrow> \<forall>x\<in>set xs. f x \<le> m" using order_trans [OF max_of_upper] by fast
  show "\<forall>x\<in>set xs. f x \<le> m \<Longrightarrow> max_of f xs \<le> m" using max_of_in [of f xs] by force
qed

lemma max_of_eqI: "(\<And>x. x \<in> set xs \<Longrightarrow> f x \<le> m) \<Longrightarrow> m = 0 \<or> m \<in> f ` set xs \<Longrightarrow> max_of f xs = m"
  by (rule antisym) (auto simp: max_of_le max_of_upper)

lemma max_of_append_one: "max_of f (xs @ [x]) = max (f x) (max_of f xs)"
  by (simp add: max_of_def)

section \<open>Finding a row\<close>

lemma find_None_all: "find P xs = None \<longleftrightarrow> (\<forall>x\<in>set xs. \<not> P x)"
  by (auto simp: find_None_iff)

lemma find_SomeD: "find P xs = Some x \<Longrightarrow> x \<in> set xs \<and> P x"
  by (metis find_Some_iff nth_mem)

lemma find_append: "find P (xs @ ys) = (case find P xs of Some x \<Rightarrow> Some x | None \<Rightarrow> find P ys)"
  by (induction xs) auto

lemma find_distinct:
  "distinct (map f xs) \<Longrightarrow> x \<in> set xs \<Longrightarrow> find (\<lambda>y. f y = f x) xs = Some x"
  by (induction xs) (auto simp: rev_image_eqI)

section \<open>Ordered maps\<close>

text \<open>
  \<open>std::map\<close> is an association list in the order of its keys: \<open>find\<close> is \<^const>\<open>map_of\<close>,
  \<open>m[k] = v\<close> is \<open>map_put\<close>, \<open>erase\<close> is \<open>map_del\<close>; iteration visits the list.
\<close>

fun map_put :: "'k::linorder \<Rightarrow> 'v \<Rightarrow> ('k \<times> 'v) list \<Rightarrow> ('k \<times> 'v) list" where
  "map_put k v [] = [(k, v)]"
| "map_put k v ((k', v') # m) =
     (if k < k' then (k, v) # (k', v') # m
      else if k = k' then (k, v) # m
      else (k', v') # map_put k v m)"

definition map_del :: "'k::linorder \<Rightarrow> ('k \<times> 'v) list \<Rightarrow> ('k \<times> 'v) list" where
  "map_del k m = filter (\<lambda>p. fst p \<noteq> k) m"

definition keys_sorted :: "('k::linorder \<times> 'v) list \<Rightarrow> bool" where
  "keys_sorted m = sorted_wrt (<) (map fst m)"

lemma set_map_put: "set (map fst (map_put k v m)) = insert k (set (map fst m))"
  by (induction k v m rule: map_put.induct) auto

lemma keys_sorted_Nil: "keys_sorted []"
  by (simp add: keys_sorted_def)

lemma keys_sorted_put: "keys_sorted m \<Longrightarrow> keys_sorted (map_put k v m)"
proof (induction k v m rule: map_put.induct)
  case (2 k v k' v' m)
  then show ?case using set_map_put [of k v m] by (auto simp: keys_sorted_def)
qed (simp add: keys_sorted_def)

lemma keys_sorted_del: "keys_sorted m \<Longrightarrow> keys_sorted (map_del k m)"
  by (induction m) (auto simp: keys_sorted_def map_del_def)

lemma map_of_put: "keys_sorted m \<Longrightarrow> map_of (map_put k v m) k' = (if k' = k then Some v else map_of m k')"
  by (induction k v m rule: map_put.induct) (auto simp: keys_sorted_def)

lemma map_of_del: "map_of (map_del k m) k' = (if k' = k then None else map_of m k')"
  by (induction m) (auto simp: map_del_def)

lemma keys_sorted_distinct: "keys_sorted m \<Longrightarrow> distinct (map fst m)"
  unfolding keys_sorted_def by (metis strict_sorted_iff)

lemma keys_sorted_ext:
  assumes "keys_sorted m" "keys_sorted n" "map_of m = map_of n"
  shows "m = n"
proof (rule map_sorted_distinct_set_unique [where f = fst])
  show "sorted (map fst m)" "distinct (map fst m)" "sorted (map fst n)" "distinct (map fst n)"
    using assms(1,2) by (simp_all add: keys_sorted_def strict_sorted_iff)
  show "set m = set n"
    using assms keys_sorted_distinct map_of_inject_set by blast
  show "inj_on fst (set m \<union> set n)"
    using \<open>set m = set n\<close> keys_sorted_distinct [OF assms(1)] by (simp add: distinct_map)
qed

end
