(* ===== verification/Sync_Mode.thy ===== *)
theory Sync_Mode
  imports Prelude
begin

text \<open>
  The immutable modes of a storage (core/sync_mode.hpp) and their packet form
  (protocol/wire_modes.hpp): the enumerations, the validity limits with their ranges, how
  stated modes are completed and compared, and the encoding of optional modes.
\<close>

section \<open>Modes and limits\<close>

datatype sync_mode = allow_all | require_special_seen | require_data_add_remove_seen | require_all_seen

datatype auth_mode = only_tag | sign_records

datatype replication_mode = repl_none | repl_weak | repl_strict

record storage_limits =
  max_record_size :: u32
  lim_chunk_size :: u32
  kept_data_versions :: u32

record limit_range =
  lowest :: u32
  highest :: u32

definition range_contains :: "limit_range \<Rightarrow> u32 \<Rightarrow> bool" where
  "range_contains r v = (v \<ge> lowest r \<and> v \<le> highest r)"

definition max_record_size_range :: limit_range where
  "max_record_size_range = \<lparr>lowest = 4 * 1024, highest = 2 * 1024 * 1024\<rparr>"

definition default_max_record_size :: u32 where
  "default_max_record_size = 1024 * 1024"

definition chunk_size_range :: limit_range where
  "chunk_size_range = \<lparr>lowest = 256 * 1024, highest = 8 * 1024 * 1024\<rparr>"

definition default_chunk_size :: u32 where
  "default_chunk_size = 1024 * 1024"

definition keep_all_data_versions :: u32 where
  "keep_all_data_versions = 0xFFFFFFFF"

definition kept_data_versions_range :: limit_range where
  "kept_data_versions_range = \<lparr>lowest = 1, highest = keep_all_data_versions\<rparr>"

definition default_kept_data_versions :: u32 where
  "default_kept_data_versions = 1"

definition default_storage_limits :: storage_limits where
  "default_storage_limits = \<lparr>max_record_size = default_max_record_size,
     lim_chunk_size = default_chunk_size, kept_data_versions = default_kept_data_versions\<rparr>"

definition no_limits :: storage_limits where
  "no_limits = \<lparr>max_record_size = 0, lim_chunk_size = 0, kept_data_versions = 0\<rparr>"

definition valid_storage_limits :: "storage_limits \<Rightarrow> bool" where
  "valid_storage_limits l =
     (let record_ok = (max_record_size l = 0 \<or> range_contains max_record_size_range (max_record_size l));
          chunk_ok = (lim_chunk_size l = 0 \<or> range_contains chunk_size_range (lim_chunk_size l));
          kept_ok = (kept_data_versions l = 0 \<or> range_contains kept_data_versions_range (kept_data_versions l))
      in record_ok \<and> chunk_ok \<and> kept_ok)"

definition limits_or :: "storage_limits \<Rightarrow> storage_limits \<Rightarrow> storage_limits" where
  "limits_or stated others =
     (let s1 = (if max_record_size stated = 0 then stated\<lparr>max_record_size := max_record_size others\<rparr> else stated);
          s2 = (if lim_chunk_size s1 = 0 then s1\<lparr>lim_chunk_size := lim_chunk_size others\<rparr> else s1);
          s3 = (if kept_data_versions s2 = 0 then s2\<lparr>kept_data_versions := kept_data_versions others\<rparr> else s2)
      in s3)"

record storage_modes =
  sm_mode :: sync_mode
  sm_auth :: auth_mode
  sm_replication :: replication_mode
  sm_limits :: storage_limits

definition default_storage_modes :: storage_modes where
  "default_storage_modes = \<lparr>sm_mode = require_all_seen, sm_auth = only_tag,
     sm_replication = repl_none, sm_limits = no_limits\<rparr>"

definition valid_storage_modes :: "storage_modes \<Rightarrow> bool" where
  "valid_storage_modes m =
     ((sm_replication m = repl_none \<or> sm_auth m = sign_records) \<and> valid_storage_limits (sm_limits m))"

definition modes_match :: "storage_modes \<Rightarrow> storage_modes \<Rightarrow> bool" where
  "modes_match stated actual =
     (let s1 = (if sm_replication stated = repl_none then stated\<lparr>sm_replication := sm_replication actual\<rparr> else stated);
          s2 = s1\<lparr>sm_limits := limits_or (sm_limits s1) (sm_limits actual)\<rparr>
      in s2 = actual)"

lemmas limit_defs = range_contains_def max_record_size_range_def chunk_size_range_def
  kept_data_versions_range_def keep_all_data_versions_def default_storage_limits_def
  default_max_record_size_def default_chunk_size_def default_kept_data_versions_def no_limits_def

text \<open>The limits that are all stated; what a storage persists at its creation.\<close>

definition fully_stated :: "storage_limits \<Rightarrow> bool" where
  "fully_stated l = (max_record_size l \<noteq> 0 \<and> lim_chunk_size l \<noteq> 0 \<and> kept_data_versions l \<noteq> 0)"

lemma limits_or_sel [simp]:
  "max_record_size (limits_or s t) = (if max_record_size s = 0 then max_record_size t else max_record_size s)"
  "lim_chunk_size (limits_or s t) = (if lim_chunk_size s = 0 then lim_chunk_size t else lim_chunk_size s)"
  "kept_data_versions (limits_or s t) = (if kept_data_versions s = 0 then kept_data_versions t else kept_data_versions s)"
  by (simp_all add: limits_or_def Let_def)

lemma limits_eqI:
  "max_record_size s = max_record_size t \<Longrightarrow> lim_chunk_size s = lim_chunk_size t
    \<Longrightarrow> kept_data_versions s = kept_data_versions t \<Longrightarrow> s = (t :: storage_limits)"
  by (cases s, cases t) simp

lemma limits_or_stated: "fully_stated s \<Longrightarrow> limits_or s t = s"
  by (rule limits_eqI) (auto simp: fully_stated_def)

lemma limits_or_self [simp]: "limits_or s s = s"
  by (rule limits_eqI) auto

lemma limits_or_assoc: "limits_or (limits_or a b) c = limits_or a (limits_or b c)"
  by (rule limits_eqI) auto

lemma limits_or_fully_stated: "fully_stated t \<Longrightarrow> fully_stated (limits_or s t)"
  by (auto simp: fully_stated_def)

lemma limits_or_valid: "valid_storage_limits s \<Longrightarrow> valid_storage_limits t \<Longrightarrow> valid_storage_limits (limits_or s t)"
  by (auto simp: valid_storage_limits_def Let_def)

lemma default_limits_stated: "fully_stated default_storage_limits"
  by (simp add: fully_stated_def limit_defs)

lemma default_limits_valid: "valid_storage_limits default_storage_limits"
  by (simp add: valid_storage_limits_def limit_defs)

lemma modes_match_iff:
  "modes_match s a \<longleftrightarrow>
     sm_mode s = sm_mode a \<and> sm_auth s = sm_auth a
     \<and> (sm_replication s = repl_none \<or> sm_replication s = sm_replication a)
     \<and> limits_or (sm_limits s) (sm_limits a) = sm_limits a"
  by (cases s, cases a) (auto simp: modes_match_def Let_def)

section \<open>Wire form\<close>

fun sync_mode_value :: "sync_mode \<Rightarrow> u32" where
  "sync_mode_value allow_all = 0"
| "sync_mode_value require_special_seen = 1"
| "sync_mode_value require_data_add_remove_seen = 2"
| "sync_mode_value require_all_seen = 3"

fun auth_mode_value :: "auth_mode \<Rightarrow> u32" where
  "auth_mode_value only_tag = 0"
| "auth_mode_value sign_records = 1"

fun replication_mode_value :: "replication_mode \<Rightarrow> u32" where
  "replication_mode_value repl_none = 0"
| "replication_mode_value repl_weak = 1"
| "replication_mode_value repl_strict = 2"

definition to_wire_sync :: "sync_mode \<Rightarrow> u32" where
  "to_wire_sync m = sync_mode_value m + 1"

definition to_wire_auth :: "auth_mode \<Rightarrow> u32" where
  "to_wire_auth m = auth_mode_value m + 1"

definition to_wire_repl :: "replication_mode \<Rightarrow> u32" where
  "to_wire_repl m = replication_mode_value m + 1"

text \<open>The C++ conversion of a value to the enumeration, for the values it has.\<close>

definition sync_mode_of :: "u32 \<Rightarrow> sync_mode" where
  "sync_mode_of v = (if v = 0 then allow_all else if v = 1 then require_special_seen
     else if v = 2 then require_data_add_remove_seen else require_all_seen)"

definition auth_mode_of :: "u32 \<Rightarrow> auth_mode" where
  "auth_mode_of v = (if v = 0 then only_tag else sign_records)"

definition replication_mode_of :: "u32 \<Rightarrow> replication_mode" where
  "replication_mode_of v = (if v = 0 then repl_none else if v = 1 then repl_weak else repl_strict)"

record wire_modes =
  wm_mode :: u32
  wm_amode :: u32
  wm_repl :: u32
  wm_max_record_size :: u32
  wm_chunk_size :: u32
  wm_kept_data_versions :: u32

definition wire_limits :: "wire_modes \<Rightarrow> storage_limits" where
  "wire_limits w = \<lparr>max_record_size = wm_max_record_size w, lim_chunk_size = wm_chunk_size w,
     kept_data_versions = wm_kept_data_versions w\<rparr>"

definition to_wire :: "storage_modes option \<Rightarrow> wire_modes" where
  "to_wire mo = (case mo of
     Some m \<Rightarrow> \<lparr>wm_mode = to_wire_sync (sm_mode m), wm_amode = to_wire_auth (sm_auth m),
       wm_repl = to_wire_repl (sm_replication m), wm_max_record_size = max_record_size (sm_limits m),
       wm_chunk_size = lim_chunk_size (sm_limits m), wm_kept_data_versions = kept_data_versions (sm_limits m)\<rparr>
   | None \<Rightarrow> \<lparr>wm_mode = 0, wm_amode = 0, wm_repl = 0, wm_max_record_size = 0, wm_chunk_size = 0,
       wm_kept_data_versions = 0\<rparr>)"

definition modes_from_values :: "u32 \<Rightarrow> u32 \<Rightarrow> u32 \<Rightarrow> storage_limits \<Rightarrow> storage_modes option" where
  "modes_from_values mode amode repl limits =
     (if mode \<noteq> 0 \<and> amode \<noteq> 0 \<and> repl \<noteq> 0
         \<and> mode - 1 \<le> sync_mode_value require_all_seen
         \<and> amode - 1 \<le> auth_mode_value sign_records
         \<and> repl - 1 \<le> replication_mode_value repl_strict
      then Some \<lparr>sm_mode = sync_mode_of (mode - 1), sm_auth = auth_mode_of (amode - 1),
        sm_replication = replication_mode_of (repl - 1), sm_limits = limits\<rparr>
      else None)"

definition modes_from_wire :: "wire_modes \<Rightarrow> storage_modes option" where
  "modes_from_wire w = modes_from_values (wm_mode w) (wm_amode w) (wm_repl w) (wire_limits w)"

lemma mode_values_inverse:
  "sync_mode_of (sync_mode_value m) = m"
  "auth_mode_of (auth_mode_value a) = a"
  "replication_mode_of (replication_mode_value r) = r"
  by (cases m; cases a; cases r; simp add: sync_mode_of_def auth_mode_of_def replication_mode_of_def)+

lemma mode_values_bounds:
  "sync_mode_value m + 1 \<noteq> 0" "sync_mode_value m \<le> 3"
  "auth_mode_value a + 1 \<noteq> 0" "auth_mode_value a \<le> 1"
  "replication_mode_value r + 1 \<noteq> 0" "replication_mode_value r \<le> 2"
  by (cases m; cases a; cases r; simp)+

lemma le_3_cases: "(v :: u32) \<le> 3 \<Longrightarrow> v = 0 \<or> v = 1 \<or> v = 2 \<or> v = 3"
  unfolding word_le_nat_alt by (auto simp: word_unat_eq_iff)

lemma le_2_cases: "(v :: u32) \<le> 2 \<Longrightarrow> v = 0 \<or> v = 1 \<or> v = 2"
  unfolding word_le_nat_alt by (auto simp: word_unat_eq_iff)

lemma le_1_cases: "(v :: u32) \<le> 1 \<Longrightarrow> v = 0 \<or> v = 1"
  unfolding word_le_nat_alt by (auto simp: word_unat_eq_iff)

lemma mode_of_inverse:
  "v \<le> 3 \<Longrightarrow> sync_mode_value (sync_mode_of v) = v"
  "v \<le> 1 \<Longrightarrow> auth_mode_value (auth_mode_of v) = v"
  "v \<le> 2 \<Longrightarrow> replication_mode_value (replication_mode_of v) = v"
  using le_3_cases [of v] le_1_cases [of v] le_2_cases [of v]
  by (auto simp: sync_mode_of_def auth_mode_of_def replication_mode_of_def)

lemma modes_from_to_wire: "modes_from_wire (to_wire (Some m)) = Some m"
  by (simp add: modes_from_wire_def to_wire_def modes_from_values_def wire_limits_def to_wire_sync_def
      to_wire_auth_def to_wire_repl_def mode_values_bounds mode_values_inverse)

lemma to_from_wire: "modes_from_wire w = Some m \<Longrightarrow> to_wire (Some m) = w"
  by (cases w) (auto simp: modes_from_wire_def to_wire_def modes_from_values_def wire_limits_def
      to_wire_sync_def to_wire_auth_def to_wire_repl_def mode_of_inverse split: if_splits)

text \<open>The packet form of optional modes is exact: decoding an encoded value gives it back,
  the unstated modes included, and a packet decodes to given modes only if it is their encoding,
  so no value out of an enumeration's range is ever taken for a mode.\<close>

theorem wire_modes_roundtrip:
  "modes_from_wire (to_wire mo) = mo \<and> (modes_from_wire w = Some m \<longleftrightarrow> w = to_wire (Some m))"
proof
  show "modes_from_wire (to_wire mo) = mo"
    by (cases mo) (simp_all only: modes_from_to_wire,
        simp add: modes_from_wire_def to_wire_def modes_from_values_def)
  show "modes_from_wire w = Some m \<longleftrightarrow> w = to_wire (Some m)"
    using modes_from_to_wire to_from_wire by metis
qed

end
