(* ===== verification/Util.thy ===== *)
theory Util
  imports Prelude
begin

unbundle bit_operations_syntax

text \<open>
  The value types of util/ and the identifiers of core/: sequence numbers, block identifiers,
  object identifiers, metadata, the buffer a signature digest is taken over and the content
  authentication of a record. Hashing, signing and the look-up of public keys belong to the
  base library; they are the fields of \<open>crypto\<close> and the function of type \<open>key_access\<close>, which
  every definition that needs them takes as an argument.
\<close>

section \<open>Sequence numbers and block identifiers\<close>

type_synonym sequence_number = u64

definition seq_is_valid :: "sequence_number \<Rightarrow> bool" where
  "seq_is_valid s = (s \<noteq> 0)"

record chain_block_id =
  bid_sequence :: sequence_number
  bid_hash :: octets

definition no_block :: chain_block_id where
  "no_block = \<lparr>bid_sequence = 0, bid_hash = []\<rparr>"

definition bid_is_valid :: "chain_block_id \<Rightarrow> bool" where
  "bid_is_valid b = (seq_is_valid (bid_sequence b) \<and> bid_hash b \<noteq> [])"

record origin_head =
  oh_origin :: public_key_id
  oh_term :: u64
  oh_block :: chain_block_id

record origin_samples =
  os_origin :: public_key_id
  os_blocks :: "chain_block_id list"

lemma no_block_sel [simp]: "bid_sequence no_block = 0" "bid_hash no_block = []"
  by (simp_all add: no_block_def)

lemma no_block_invalid [simp]: "\<not> bid_is_valid no_block"
  by (simp add: bid_is_valid_def)

section \<open>Object identifiers\<close>

type_synonym object_id = octets

definition object_id_size :: nat where
  "object_id_size = 16"

definition object_id_is_valid :: "object_id \<Rightarrow> bool" where
  "object_id_is_valid i = (length i = object_id_size)"

section \<open>Metadata\<close>

record metadata =
  md_data :: "(string \<times> octets) list"
  md_trailing :: octets

definition metadata_init :: "(string \<times> octets) list \<Rightarrow> metadata" where
  "metadata_init kvs = \<lparr>md_data = fold (\<lambda>kv m. case map_of m (fst kv) of
       None \<Rightarrow> map_put (fst kv) (snd kv) m | Some _ \<Rightarrow> m) kvs [], md_trailing = []\<rparr>"

definition metadata_insert :: "string \<Rightarrow> octets \<Rightarrow> metadata \<Rightarrow> metadata" where
  "metadata_insert k v m = m\<lparr>md_data := map_put k v (md_data m)\<rparr>"

definition metadata_find :: "string \<Rightarrow> metadata \<Rightarrow> octets option" where
  "metadata_find k m = map_of (md_data m) k"

definition metadata_erase :: "string \<Rightarrow> metadata \<Rightarrow> metadata" where
  "metadata_erase k m = m\<lparr>md_data := map_del k (md_data m)\<rparr>"

definition metadata_empty :: "metadata \<Rightarrow> bool" where
  "metadata_empty m = (md_data m = [])"

section \<open>The digest buffer\<close>

definition ascii :: "string \<Rightarrow> octets" where
  "ascii s = map of_char s"

definition append_big_endian :: "octets \<Rightarrow> u64 \<Rightarrow> nat \<Rightarrow> octets" where
  "append_big_endian out v n = out @ map (\<lambda>i. ucast (drop_bit (8 * i) v)) (rev [0..<n])"

definition digest_buffer :: "string \<Rightarrow> octets" where
  "digest_buffer ctxt = ascii ctxt"

definition buf_u32 :: "u32 \<Rightarrow> octets \<Rightarrow> octets" where
  "buf_u32 v buf = append_big_endian buf (ucast v) 4"

definition buf_u64 :: "u64 \<Rightarrow> octets \<Rightarrow> octets" where
  "buf_u64 v buf = append_big_endian buf v 8"

definition buf_sized :: "octets \<Rightarrow> octets \<Rightarrow> octets" where
  "buf_sized v buf = buf_u32 (of_nat (length v)) buf @ v"

definition big_endian :: "u64 \<Rightarrow> nat \<Rightarrow> octets" where
  "big_endian v n = map (\<lambda>i. ucast (drop_bit (8 * i) v)) (rev [0..<n])"

lemma append_big_endian_eq: "append_big_endian out v n = out @ big_endian v n"
  by (simp add: append_big_endian_def big_endian_def)

lemma length_big_endian [simp]: "length (big_endian v n) = n"
  by (simp add: big_endian_def)

lemma big_endian_nth: "i < n \<Longrightarrow> big_endian v n ! (n - Suc i) = ucast (drop_bit (8 * i) v)"
  by (simp add: big_endian_def rev_nth)

lemma big_endian_bits:
  assumes "big_endian v n = big_endian w n" "k < 8 * n"
  shows "bit v k = bit w k"
proof -
  have i: "k div 8 < n" using assms(2) by (simp add: less_mult_imp_div_less mult.commute)
  have "(ucast (drop_bit (8 * (k div 8)) v) :: octet) = ucast (drop_bit (8 * (k div 8)) w)"
    using big_endian_nth [OF i, of v] big_endian_nth [OF i, of w] assms(1) by simp
  then have "bit (ucast (drop_bit (8 * (k div 8)) v) :: octet) (k mod 8)
           = bit (ucast (drop_bit (8 * (k div 8)) w) :: octet) (k mod 8)" by simp
  then show ?thesis by (simp add: bit_simps)
qed

lemma big_endian_u64_inj: "big_endian v 8 = big_endian w 8 \<Longrightarrow> v = w"
proof (rule bit_word_eqI)
  fix k assume "big_endian v 8 = big_endian w 8" "k < LENGTH(64)"
  then show "bit v k = bit w k" by (intro big_endian_bits [of v 8]) simp_all
qed

lemma big_endian_u32_inj: "big_endian (ucast v) 4 = big_endian (ucast w) 4 \<Longrightarrow> v = w" for v w :: u32
proof (rule bit_word_eqI)
  fix k assume *: "big_endian (ucast v) 4 = big_endian (ucast w) 4" "k < LENGTH(32)"
  then have "bit (ucast v :: u64) k = bit (ucast w :: u64) k"
    by (intro big_endian_bits [of _ 4]) simp_all
  then show "bit v k = bit w k" using *(2) by (simp add: bit_simps)
qed

lemma big_endian_eq_iff [simp]:
  "big_endian v 8 = big_endian w 8 \<longleftrightarrow> v = w"
  "big_endian (ucast a) 4 = big_endian (ucast b) 4 \<longleftrightarrow> a = (b :: u32)"
  by (auto dest: big_endian_u64_inj big_endian_u32_inj)

text \<open>
  What each appended field adds to the buffer. A sized field is the length and the octets; it
  determines the octets and what follows as long as the length fits its 32 bits.
\<close>

definition sized_octets :: "octets \<Rightarrow> octets" where
  "sized_octets v = big_endian (ucast (of_nat (length v) :: u32)) 4 @ v"

definition fits_u32 :: "octets \<Rightarrow> bool" where
  "fits_u32 v = (length v < 2 ^ 32)"

lemma buf_u32_eq: "buf_u32 v buf = buf @ big_endian (ucast v) 4"
  by (simp add: buf_u32_def append_big_endian_eq)

lemma buf_u64_eq: "buf_u64 v buf = buf @ big_endian v 8"
  by (simp add: buf_u64_def append_big_endian_eq)

lemma buf_sized_eq: "buf_sized v buf = buf @ sized_octets v"
  by (simp add: buf_sized_def buf_u32_eq sized_octets_def)

lemmas buf_eqs = buf_u32_eq buf_u64_eq buf_sized_eq

lemma sized_octets_append_iff:
  assumes "fits_u32 v" "fits_u32 w"
  shows "sized_octets v @ r = sized_octets w @ s \<longleftrightarrow> v = w \<and> r = s"
proof
  assume "sized_octets v @ r = sized_octets w @ s"
  then have "(of_nat (length v) :: u32) = of_nat (length w)" and rest: "v @ r = w @ s"
    by (auto simp: sized_octets_def)
  then have "unat (of_nat (length v) :: u32) = unat (of_nat (length w) :: u32)" by simp
  then have "length v = length w" using assms by (simp add: unat_of_nat_small fits_u32_def)
  then show "v = w \<and> r = s" using rest by (simp add: append_eq_append_conv)
qed simp

lemma sized_octets_iff: "fits_u32 v \<Longrightarrow> fits_u32 w \<Longrightarrow> sized_octets v = sized_octets w \<longleftrightarrow> v = w"
  using sized_octets_append_iff [of v w "[]" "[]"] by simp

section \<open>Signatures and content authentication\<close>

text \<open>
  The base library's signature carries its issuer; everything else of it is opaque. A private
  key signs a digest. \<open>cr_key_verify k s d\<close> is the public key's check of a signature over a
  digest, \<open>cr_sig_valid\<close> whether a signature object holds a signature at all, and
  \<open>cr_key_id_valid\<close> whether a key identifier names a key.
\<close>

record signature =
  sig_issuer :: public_key_id
  sig_data :: octets

type_synonym public_key = octets
type_synonym key_access = "public_key_id \<Rightarrow> public_key option"

record private_key =
  key_id :: public_key_id
  key_sign :: "octets \<Rightarrow> signature"

record crypto =
  cr_hash :: "octets \<Rightarrow> digest"
  cr_sig_valid :: "signature \<Rightarrow> bool"
  cr_key_id_valid :: "public_key_id \<Rightarrow> bool"
  cr_key_verify :: "public_key \<Rightarrow> signature \<Rightarrow> digest \<Rightarrow> bool"

record content_auth =
  gcm_tag :: octets
  ca_signature :: "signature option"
  digest_version :: u32
  ca_trailing :: octets

definition content_auth_of_tag :: "octets \<Rightarrow> content_auth" where
  "content_auth_of_tag tag = \<lparr>gcm_tag = tag, ca_signature = None, digest_version = 1, ca_trailing = []\<rparr>"

definition current_digest_version :: u32 where
  "current_digest_version = 1"

definition signing_octets :: "octets \<Rightarrow> octets \<Rightarrow> octets" where
  "signing_octets record_bytes tag = ascii ''spsync-record'' @ record_bytes @ tag"

definition signing_digest :: "crypto \<Rightarrow> octets \<Rightarrow> octets \<Rightarrow> digest" where
  "signing_digest cr record_bytes tag = cr_hash cr (signing_octets record_bytes tag)"

definition auth_sign :: "crypto \<Rightarrow> private_key \<Rightarrow> octets \<Rightarrow> content_auth \<Rightarrow> content_auth" where
  "auth_sign cr key record_bytes a =
     a\<lparr>digest_version := current_digest_version,
       ca_signature := Some (key_sign key (signing_digest cr record_bytes (gcm_tag a)))\<rparr>"

definition has_signature :: "content_auth \<Rightarrow> bool" where
  "has_signature a = (ca_signature a \<noteq> None)"

definition signature_issuer :: "content_auth \<Rightarrow> public_key_id option" where
  "signature_issuer a = map_option sig_issuer (ca_signature a)"

text \<open>\<open>None\<close> is the default constructed error: the signature is authentic.\<close>

definition auth_verify :: "crypto \<Rightarrow> key_access \<Rightarrow> octets \<Rightarrow> content_auth \<Rightarrow> error option" where
  "auth_verify cr keys record_bytes a =
     (case ca_signature a of
        Some sig \<Rightarrow>
          (if digest_version a \<noteq> current_digest_version then Some (General general_invalid_state)
           else case keys (sig_issuer sig) of
               Some pkey \<Rightarrow>
                 (if \<not> cr_key_verify cr pkey sig (signing_digest cr record_bytes (gcm_tag a))
                  then Some (General signature_not_authentic) else None)
             | None \<Rightarrow> Some (General no_such_key))
      | None \<Rightarrow> Some (General general_invalid_state))"

lemma auth_verify_None_iff:
  "auth_verify cr keys bytes a = None \<longleftrightarrow>
     (\<exists>sig k. ca_signature a = Some sig \<and> digest_version a = current_digest_version
        \<and> keys (sig_issuer sig) = Some k
        \<and> cr_key_verify cr k sig (signing_digest cr bytes (gcm_tag a)))"
  by (auto simp: auth_verify_def split: option.splits if_splits)

lemma signing_octets_inj:
  "length t = length t' \<Longrightarrow> signing_octets b t = signing_octets b' t' \<longleftrightarrow> b = b' \<and> t = t'"
  by (auto simp: signing_octets_def append_eq_append_conv)

end
