(* ===== verification/Divergence.thy ===== *)
theory Divergence
  imports Util
begin

text \<open>
  Where two servers' views of an origin's history part (core/divergence.hpp, divergence.cpp):
  the sampled sequences behind a head, the bounds the samples give on the fork, and the ranges
  anti-entropy pulls. The log is the function \<open>held\<close> (the hash held at a sequence, empty for
  nothing), as in the source.
\<close>

section \<open>Definitions\<close>

record divergence =
  last_common :: sequence_number
  first_divergent :: sequence_number

definition no_divergence :: divergence where
  "no_divergence = \<lparr>last_common = 0, first_divergent = 0\<rparr>"

definition diverged :: "divergence \<Rightarrow> bool" where
  "diverged d = seq_is_valid (first_divergent d)"

definition div_exact :: "divergence \<Rightarrow> bool" where
  "div_exact d = (diverged d \<and> last_common d + 1 = first_divergent d)"

function sample_loop :: "nat \<Rightarrow> u64 \<Rightarrow> sequence_number list" where
  "sample_loop shift head =
     (if shift < 63 \<and> push_bit shift 1 < head
      then (head - push_bit shift 1) # sample_loop (Suc shift) head else [])"
  by pat_completeness auto
termination by (relation "measure (\<lambda>(shift, _). 63 - shift)") auto

declare sample_loop.simps [simp del]

definition sample_sequences :: "sequence_number \<Rightarrow> sequence_number list" where
  "sample_sequences head =
     (if seq_is_valid head
      then let ret = head # sample_loop 0 head
           in if last ret \<noteq> 1 then ret @ [1] else ret
      else [])"

definition div_step :: "(sequence_number \<Rightarrow> octets) \<Rightarrow> chain_block_id \<Rightarrow> divergence \<Rightarrow> divergence" where
  "div_step held sample ret =
     (let hash = (if seq_is_valid (bid_sequence sample) then held (bid_sequence sample) else [])
      in if hash \<noteq> []
         then if hash = bid_hash sample
              then ret\<lparr>last_common := max (last_common ret) (bid_sequence sample)\<rparr>
              else if \<not> seq_is_valid (first_divergent ret) \<or> bid_sequence sample < first_divergent ret
              then ret\<lparr>first_divergent := bid_sequence sample\<rparr>
              else ret
         else ret)"

definition find_divergence :: "chain_block_id list \<Rightarrow> (sequence_number \<Rightarrow> octets) \<Rightarrow> divergence" where
  "find_divergence samples held = fold (div_step held) samples no_divergence"

record pull_range =
  pull_from :: sequence_number
  pull_to :: sequence_number

definition no_pull :: pull_range where
  "no_pull = \<lparr>pull_from = 0, pull_to = 0\<rparr>"

definition pull_wanted :: "pull_range \<Rightarrow> bool" where
  "pull_wanted r = seq_is_valid (pull_from r)"

definition plan_pull :: "sequence_number \<Rightarrow> sequence_number \<Rightarrow> divergence \<Rightarrow> pull_range" where
  "plan_pull known peer_head d =
     (let held = max known (last_common d)
      in if \<not> diverged d \<and> seq_is_valid peer_head \<and> held < peer_head
         then \<lparr>pull_from = held + 1, pull_to = peer_head\<rparr> else no_pull)"

definition plan_push :: "sequence_number \<Rightarrow> sequence_number \<Rightarrow> pull_range" where
  "plan_push known pushed =
     (let nxt = (if seq_is_valid known then known + 1 else 1)
      in if pushed > nxt then \<lparr>pull_from = nxt, pull_to = pushed\<rparr> else no_pull)"

section \<open>The samples\<close>

lemma unat_push_bit_1: "i < 64 \<Longrightarrow> unat (push_bit i 1 :: u64) = 2 ^ i"
  using unat_2p [of i, where 'a = 64] by simp

text \<open>\<open>k\<close> distances fit behind the head: the loop runs while the distance is below the head.\<close>

definition fits :: "nat \<Rightarrow> nat \<Rightarrow> bool" where
  "fits h k = (k \<le> 63 \<and> (\<forall>i<k. 2 ^ i < h) \<and> (k = 63 \<or> h \<le> 2 ^ k))"

lemma fits_exists: "0 < h \<Longrightarrow> \<exists>k. fits h k"
proof -
  assume "0 < h"
  obtain m where m: "h \<le> 2 ^ m" by (metis less_exp less_imp_le)
  define k where "k = (LEAST k. h \<le> (2::nat) ^ k)"
  have k: "h \<le> 2 ^ k" unfolding k_def by (rule LeastI [of "\<lambda>k. h \<le> 2 ^ k", OF m])
  have below: "2 ^ i < h" if "i < k" for i using not_less_Least [of i "\<lambda>k. h \<le> 2 ^ k"] that k_def by auto
  show ?thesis
  proof (cases "k \<le> 63")
    case True then show ?thesis using k below fits_def by blast
  next
    case False then have "fits h 63" using below by (simp add: fits_def)
    then show ?thesis by blast
  qed
qed

lemma sample_loop_eq:
  assumes "fits (unat head) k" "s \<le> k"
  shows "sample_loop s head = map (\<lambda>i. head - push_bit i 1) [s..<k]"
  using assms(2)
proof (induction "k - s" arbitrary: s)
  case 0
  then have "s = k" by simp
  then have "\<not> (s < 63 \<and> push_bit s 1 < head)"
    using assms(1) unat_push_bit_1 [of s] by (auto simp: fits_def word_less_nat_alt)
  then show ?case using \<open>s = k\<close> by (simp add: sample_loop.simps)
next
  case (Suc n)
  then have s: "s < k" "s < 63" using assms(1) by (auto simp: fits_def)
  then have "push_bit s 1 < head"
    using assms(1) unat_push_bit_1 [of s] by (auto simp: fits_def word_less_nat_alt)
  then show ?case using s Suc.hyps(1) [of "Suc s"] Suc.hyps(2)
    by (subst sample_loop.simps) (simp add: upt_conv_Cons)
qed

lemma sample_nat: "i < 64 \<Longrightarrow> 2 ^ i < unat head \<Longrightarrow> unat (head - push_bit i 1) = unat head - 2 ^ i"
  for head :: u64
proof -
  assume "i < 64" "2 ^ i < unat head"
  then have "unat (2 ^ i :: u64) = 2 ^ i" "(2 ^ i :: u64) \<le> head"
    using unat_2p [of i, where 'a = 64] unfolding word_le_nat_alt by simp_all
  then show ?thesis using word_sub_unat [of "2 ^ i" head] by simp
qed

lemma sample_sequences_set:
  assumes "fits (unat head) k" "head \<noteq> 0"
  shows "set (sample_sequences head) = insert head (insert 1 ((\<lambda>i. head - push_bit i 1) ` {0..<k}))"
proof -
  have *: "sample_loop 0 head = map (\<lambda>i. head - push_bit i 1) [0..<k]"
    using sample_loop_eq [OF assms(1)] by simp
  show ?thesis
  proof (cases "last (head # sample_loop 0 head) = 1")
    case True
    then have "1 \<in> set (head # sample_loop 0 head)" by (metis last_in_set list.distinct(1))
    then have "1 \<in> insert head ((\<lambda>i. head - push_bit i 1) ` {0..<k})" using * by auto
    moreover have "set (sample_sequences head) = set (head # sample_loop 0 head)"
      using True assms(2) by (simp add: sample_sequences_def seq_is_valid_def Let_def)
    ultimately show ?thesis using * by auto
  next
    case False
    then show ?thesis using * assms(2) by (auto simp: sample_sequences_def seq_is_valid_def Let_def)
  qed
qed

lemma sample_loop_bounds:
  "x \<in> set (sample_loop s head) \<Longrightarrow> x \<noteq> 0 \<and> x < head"
proof (induction s head rule: sample_loop.induct)
  case (1 s head)
  show ?case
  proof (cases "s < 63 \<and> push_bit s 1 < head")
    case True
    then have "unat (head - push_bit s 1) = unat head - 2 ^ s" "(2::nat) ^ s < unat head"
      using sample_nat [of s head] unat_push_bit_1 [of s] by (auto simp: word_less_nat_alt)
    moreover have "(0::nat) < 2 ^ s" by simp
    ultimately have "0 < unat (head - push_bit s 1)" "unat (head - push_bit s 1) < unat head" by linarith+
    then have "head - push_bit s 1 \<noteq> 0" "head - push_bit s 1 < head"
      unfolding word_less_nat_alt by (metis unat_0 less_irrefl, simp)
    then show ?thesis using 1 True by (subst (asm) (2) sample_loop.simps) auto
  next
    case False
    then show ?thesis using 1 by (subst (asm) (2) sample_loop.simps) auto
  qed
qed

lemma sample_sequences_bounds: "x \<in> set (sample_sequences head) \<Longrightarrow> x \<noteq> 0 \<and> x \<le> head"
  by (auto simp: sample_sequences_def seq_is_valid_def Let_def split: if_splits
      dest: sample_loop_bounds intro: less_imp_le word_ge_1)

lemma sample_loop_length: "length (sample_loop s head) \<le> 63 - s"
proof (induction s head rule: sample_loop.induct)
  case (1 s head)
  then show ?case by (subst sample_loop.simps) auto
qed

lemma sample_sequences_length: "length (sample_sequences head) \<le> 65"
  using sample_loop_length [of 0 head] by (simp add: sample_sequences_def Let_def)

section \<open>The bounds the samples give\<close>

definition common_sample :: "(sequence_number \<Rightarrow> octets) \<Rightarrow> chain_block_id \<Rightarrow> bool" where
  "common_sample held s =
     (bid_sequence s \<noteq> 0 \<and> held (bid_sequence s) \<noteq> [] \<and> held (bid_sequence s) = bid_hash s)"

definition divergent_sample :: "(sequence_number \<Rightarrow> octets) \<Rightarrow> chain_block_id \<Rightarrow> bool" where
  "divergent_sample held s =
     (bid_sequence s \<noteq> 0 \<and> held (bid_sequence s) \<noteq> [] \<and> held (bid_sequence s) \<noteq> bid_hash s)"

lemma div_step_eq:
  "div_step held s r =
     (if common_sample held s then r\<lparr>last_common := max (last_common r) (bid_sequence s)\<rparr>
      else if divergent_sample held s \<and> (first_divergent r = 0 \<or> bid_sequence s < first_divergent r)
      then r\<lparr>first_divergent := bid_sequence s\<rparr> else r)"
  by (auto simp: div_step_def Let_def seq_is_valid_def common_sample_def divergent_sample_def)

lemma find_divergence_snoc: "find_divergence (xs @ [x]) held = div_step held x (find_divergence xs held)"
  by (simp add: find_divergence_def)

lemma find_divergence_Nil [simp]: "find_divergence [] held = no_divergence"
  by (simp add: find_divergence_def)

lemma last_common_is_max:
  "last_common (find_divergence samples held) = max_of bid_sequence (filter (common_sample held) samples)"
  by (induction samples rule: rev_induct)
    (auto simp: find_divergence_snoc div_step_eq max_of_append_one no_divergence_def max.commute)

lemma samples_exclusive: "common_sample held s \<Longrightarrow> \<not> divergent_sample held s"
  by (simp add: common_sample_def divergent_sample_def)

lemma first_divergent_lower:
  assumes "s \<in> set samples" "divergent_sample held s"
  shows "first_divergent (find_divergence samples held) \<noteq> 0
    \<and> first_divergent (find_divergence samples held) \<le> bid_sequence s"
  using assms(1)
proof (induction samples rule: rev_induct)
  case (snoc x xs)
  let ?d = "first_divergent (find_divergence xs held)"
  have x0: "divergent_sample held x \<Longrightarrow> bid_sequence x \<noteq> 0" by (simp add: divergent_sample_def)
  show ?case
  proof (cases "s \<in> set xs")
    case True
    then have "?d \<noteq> 0" "?d \<le> bid_sequence s" using snoc.IH by auto
    then show ?thesis using x0 by (auto simp: find_divergence_snoc div_step_eq intro: order_trans less_imp_le)
  next
    case False
    then have "s = x" using snoc.prems by simp
    then show ?thesis using x0 assms(2) samples_exclusive [of held s]
      by (auto simp: find_divergence_snoc div_step_eq not_less)
  qed
qed simp

lemma first_divergent_in:
  "first_divergent (find_divergence samples held) \<noteq> 0 \<Longrightarrow>
   \<exists>s\<in>set samples. divergent_sample held s \<and> first_divergent (find_divergence samples held) = bid_sequence s"
  by (induction samples rule: rev_induct)
    (auto simp: find_divergence_snoc div_step_eq no_divergence_def split: if_splits)

lemma last_common_upper: "s \<in> set samples \<Longrightarrow> common_sample held s \<Longrightarrow> bid_sequence s \<le> last_common (find_divergence samples held)"
  unfolding last_common_is_max by (rule max_of_upper) simp

lemma last_common_in:
  "last_common (find_divergence samples held) = 0
   \<or> (\<exists>s\<in>set samples. common_sample held s \<and> last_common (find_divergence samples held) = bid_sequence s)"
  using max_of_in [of bid_sequence "filter (common_sample held) samples"] by (auto simp: last_common_is_max)

text \<open>The samples of a history whose block at sequence \<open>s\<close> has the hash \<open>peer s\<close>.\<close>

definition samples_of_history :: "(sequence_number \<Rightarrow> octets) \<Rightarrow> sequence_number \<Rightarrow> chain_block_id list" where
  "samples_of_history peer head = map (\<lambda>s. \<lparr>bid_sequence = s, bid_hash = peer s\<rparr>) (sample_sequences head)"

text \<open>Two histories that agree exactly before the fork \<open>f\<close>, the log holding all up to the head.\<close>

definition forks_at :: "(sequence_number \<Rightarrow> octets) \<Rightarrow> (sequence_number \<Rightarrow> octets) \<Rightarrow> sequence_number \<Rightarrow> sequence_number \<Rightarrow> bool" where
  "forks_at peer held f head = (\<forall>s. 1 \<le> s \<longrightarrow> s \<le> head \<longrightarrow> held s \<noteq> [] \<and> (held s = peer s \<longleftrightarrow> s < f))"

lemma sample_common:
  assumes "forks_at peer held f head" "s \<in> set (sample_sequences head)" "s < f"
  shows "s \<le> last_common (find_divergence (samples_of_history peer head) held)"
proof -
  let ?b = "\<lparr>bid_sequence = s, bid_hash = peer s\<rparr>"
  have "s \<noteq> 0" "s \<le> head" using sample_sequences_bounds assms(2) by blast+
  then have "common_sample held ?b" using assms(1,3) word_ge_1 [of s] by (auto simp: common_sample_def forks_at_def)
  moreover have "?b \<in> set (samples_of_history peer head)" using assms(2) by (auto simp: samples_of_history_def)
  ultimately show ?thesis using last_common_upper [of ?b] by simp
qed

lemma sample_divergent:
  assumes "forks_at peer held f head" "s \<in> set (sample_sequences head)" "f \<le> s"
  shows "diverged (find_divergence (samples_of_history peer head) held)
    \<and> first_divergent (find_divergence (samples_of_history peer head) held) \<le> s"
proof -
  let ?b = "\<lparr>bid_sequence = s, bid_hash = peer s\<rparr>"
  have "s \<noteq> 0" "s \<le> head" using sample_sequences_bounds assms(2) by blast+
  then have "divergent_sample held ?b" using assms(1,3) word_ge_1 [of s] by (auto simp: divergent_sample_def forks_at_def)
  moreover have "?b \<in> set (samples_of_history peer head)" using assms(2) by (auto simp: samples_of_history_def)
  ultimately show ?thesis using first_divergent_lower [of ?b] by (simp add: diverged_def seq_is_valid_def)
qed

lemma bounds_of_fork:
  assumes "forks_at peer held f head" "f \<noteq> 0"
  shows "last_common (find_divergence (samples_of_history peer head) held) < f"
    and "diverged (find_divergence (samples_of_history peer head) held) \<Longrightarrow>
      f \<le> first_divergent (find_divergence (samples_of_history peer head) held)"
proof -
  let ?r = "find_divergence (samples_of_history peer head) held"
  have in_s: "bid_sequence b \<noteq> 0 \<and> bid_sequence b \<le> head \<and> bid_hash b = peer (bid_sequence b)"
    if "b \<in> set (samples_of_history peer head)" for b
    using that sample_sequences_bounds by (auto simp: samples_of_history_def)
  show "last_common ?r < f"
    using last_common_in [of "samples_of_history peer head" held]
  proof
    assume "last_common ?r = 0" then show ?thesis using assms(2) by (simp add: word_neq_0_conv)
  next
    assume "\<exists>b\<in>set (samples_of_history peer head). common_sample held b \<and> last_common ?r = bid_sequence b"
    then obtain b where "b \<in> set (samples_of_history peer head)" "common_sample held b" "last_common ?r = bid_sequence b"
      by blast
    then show ?thesis using in_s [of b] assms(1) word_ge_1 [of "bid_sequence b"]
      by (auto simp: forks_at_def common_sample_def)
  qed
  assume "diverged ?r"
  then obtain b where "b \<in> set (samples_of_history peer head)" "divergent_sample held b" "first_divergent ?r = bid_sequence b"
    using first_divergent_in by (auto simp: diverged_def seq_is_valid_def)
  then show "f \<le> first_divergent ?r" using in_s [of b] assms(1) word_ge_1 [of "bid_sequence b"]
    by (auto simp: forks_at_def divergent_sample_def not_less)
qed

lemma samples_around:
  assumes fits: "fits h k" and f: "1 < f" "f < h" and h: "h \<le> 2 ^ 63"
  shows "\<exists>i<k. f \<le> h - 2 ^ i \<and> (Suc i < k \<and> h - 2 ^ Suc i < f \<or> h - 1 \<le> 2 * 2 ^ i)"
proof -
  have "0 < k" using fits f by (cases k) (auto simp: fits_def)
  let ?P = "\<lambda>i. i < k \<and> f \<le> h - 2 ^ i"
  have "?P 0" using \<open>0 < k\<close> f by simp
  define i where "i = (GREATEST i. ?P i)"
  have i: "?P i" "?P y \<Longrightarrow> y \<le> i" for y
    using GreatestI_nat [of ?P 0 k] Greatest_le_nat [of ?P y k] \<open>?P 0\<close> unfolding i_def by auto
  show ?thesis
  proof (cases "Suc i < k")
    case True
    then have "h - 2 ^ Suc i < f" using i(2) [of "Suc i"] by force
    then show ?thesis using i(1) True by blast
  next
    case False
    then have "k = Suc i" using i by simp
    moreover have "h \<le> 2 ^ k" using fits h by (auto simp: fits_def)
    ultimately show ?thesis using i(1) by (intro exI [of _ i]) auto
  qed
qed

lemma sample_at_distance:
  assumes "fits (unat head) k" "i < k"
  shows "head - push_bit i 1 \<in> set (sample_sequences head)" "unat (head - push_bit i 1) = unat head - 2 ^ i"
proof -
  have "2 ^ i < unat head" "i < 64" using assms by (auto simp: fits_def)
  then have "head \<noteq> 0" by auto
  then show "head - push_bit i 1 \<in> set (sample_sequences head)"
    using sample_sequences_set [OF assms(1)] assms(2) by auto
  show "unat (head - push_bit i 1) = unat head - 2 ^ i"
    using sample_nat \<open>2 ^ i < unat head\<close> \<open>i < 64\<close> by blast
qed

lemma fork_at_head:
  assumes fork: "forks_at peer held head head" and h: "1 < head" and k: "fits (unat head) k"
  defines "d \<equiv> find_divergence (samples_of_history peer head) held"
  shows "div_exact d"
proof -
  have nat: "1 < unat head" using h by (simp add: word_less_nat_alt)
  then have "head \<noteq> 0" by auto
  then have mem: "head \<in> set (sample_sequences head)" using sample_sequences_set [OF k] by auto
  note dv = sample_divergent [OF fork mem order.refl, folded d_def]
  note bnd = bounds_of_fork [OF fork \<open>head \<noteq> 0\<close>, folded d_def]
  have "0 < k" using k nat by (cases k) (auto simp: fits_def)
  then have s: "head - 1 \<in> set (sample_sequences head)" "unat (head - 1) = unat head - 1"
    using sample_at_distance [OF k, of 0] by simp_all
  then have "head - 1 < head" using nat by (simp add: word_less_nat_alt)
  then have "head - 1 \<le> last_common d" using sample_common [OF fork s(1)] by (simp add: d_def)
  then have "unat (last_common d) = unat (head - 1)"
    using bnd(1) s(2) by (simp add: word_less_nat_alt word_le_nat_alt)
  then have "last_common d = head - 1" by (simp add: word_unat_eq_iff)
  moreover have "first_divergent d = head" using dv bnd(2) by (auto intro: antisym)
  ultimately show ?thesis using dv by (simp add: div_exact_def)
qed

lemma fork_below_head:
  assumes fork: "forks_at peer held f head" and f: "1 < f" "f < head" and h: "unat head \<le> 2 ^ 63"
    and k: "fits (unat head) k"
  defines "d \<equiv> find_divergence (samples_of_history peer head) held"
  shows "unat head - unat (last_common d) \<le> 2 * (unat head - unat (first_divergent d))"
proof -
  have "1 < unat f" "unat f < unat head" using f by (auto simp: word_less_nat_alt)
  from samples_around [OF k this h] obtain i where i: "i < k" "unat f \<le> unat head - 2 ^ i"
    "Suc i < k \<and> unat head - 2 ^ Suc i < unat f \<or> unat head - 1 \<le> 2 * 2 ^ i" by blast
  note a = sample_at_distance [OF k i(1)]
  have "first_divergent d \<le> head - push_bit i 1"
    using sample_divergent [OF fork a(1)] i(2) a(2) by (simp add: d_def word_le_nat_alt)
  then have "unat (first_divergent d) \<le> unat head - 2 ^ i" using a(2) by (simp add: word_le_nat_alt)
  moreover have "2 ^ i < unat head" using k i(1) by (auto simp: fits_def)
  ultimately have hi: "2 ^ i \<le> unat head - unat (first_divergent d)" by linarith
  have "unat head - unat (last_common d) \<le> 2 * 2 ^ i"
    using i(3)
  proof
    assume n: "Suc i < k \<and> unat head - 2 ^ Suc i < unat f"
    note b = sample_at_distance [OF k conjunct1 [OF n]]
    have "head - push_bit (Suc i) 1 \<le> last_common d"
      using sample_common [OF fork b(1)] n b(2) by (simp add: d_def word_less_nat_alt)
    then show ?thesis using b(2) by (simp add: word_le_nat_alt)
  next
    assume "unat head - 1 \<le> 2 * 2 ^ i"
    moreover have "head \<noteq> 0" using f by (auto simp: word_less_nat_alt)
    then have "1 \<in> set (sample_sequences head)" using sample_sequences_set [OF k] by auto
    ultimately show ?thesis using sample_common [OF fork _ f(1)] by (fastforce simp: d_def word_le_nat_alt)
  qed
  then show ?thesis using hi by linarith
qed

text \<open>C30. One exchange of samples places a fork: when a complete log and a peer's history agree
  exactly before sequence \<open>f\<close>, the bounds the samples give enclose the fork, and either name it
  exactly or are within a factor of two of each other in their distance from the head. (Beyond
  a head of \<open>2 ^ 63\<close> the doubling distance stops before the first record.)\<close>

theorem fork_within_factor_two:
  assumes fork: "forks_at peer held f head" and f: "1 < f" "f \<le> head" and h: "unat head \<le> 2 ^ 63"
  defines "d \<equiv> find_divergence (samples_of_history peer head) held"
  shows "diverged d \<and> last_common d < f \<and> f \<le> first_divergent d
    \<and> (div_exact d \<or> unat head - unat (last_common d) \<le> 2 * (unat head - unat (first_divergent d)))"
proof -
  have nz: "f \<noteq> 0" "head \<noteq> 0" using f by (auto simp: word_less_nat_alt word_le_nat_alt)
  then obtain k where k: "fits (unat head) k" using fits_exists [of "unat head"] by (auto simp: unat_gt_0)
  have mem: "head \<in> set (sample_sequences head)" using sample_sequences_set [OF k nz(2)] by auto
  note dv = sample_divergent [OF fork mem f(2), folded d_def]
  note bnd = bounds_of_fork [OF fork nz(1), folded d_def]
  have "div_exact d \<or> unat head - unat (last_common d) \<le> 2 * (unat head - unat (first_divergent d))"
    using fork_at_head [OF _ _ k] fork_below_head [OF fork f(1) _ h k] fork f
    unfolding d_def by (cases "f = head") auto
  then show ?thesis using dv bnd by blast
qed

theorem fork_within_factor_two_witness:
  "forks_at (\<lambda>_. [1]) (\<lambda>s. if s < 3 then [1] else [2]) 3 5
   \<and> diverged (find_divergence (samples_of_history (\<lambda>_. [1]) 5) (\<lambda>s. if s < 3 then [1] else [2]))"
proof -
  have fork: "forks_at (\<lambda>_. [1]) (\<lambda>s. if s < 3 then [1] else [2]) 3 5" by (simp add: forks_at_def)
  then show ?thesis using fork_within_factor_two [OF fork] by simp
qed

section \<open>The ranges to pull\<close>

text \<open>C36. A pushed record never moves the held head past records that did not arrive: every
  sequence after the held head up to the pushed record is the record itself, taken as the next
  one, or lies in the range that is pulled instead; the range never reaches back to records that
  are held.\<close>

theorem plan_push_covers_gap:
  assumes "known \<noteq> - 1" "known < seq" "seq \<le> pushed"
  defines "r \<equiv> plan_push known pushed"
  shows "if pull_wanted r then pull_from r \<le> seq \<and> seq \<le> pull_to r \<and> known < pull_from r else seq = pushed"
proof -
  have "1 \<le> seq" using assms(2) by (intro word_ge_1) auto
  then show ?thesis using assms word_inc_nonzero [OF assms(1)] word_less_inc [OF assms(1)] word_inc_le_iff [OF assms(1)]
    by (auto simp: plan_push_def pull_wanted_def seq_is_valid_def no_pull_def Let_def not_less intro: antisym order_trans)
qed

theorem plan_push_covers_gap_witness:
  "pull_wanted (plan_push 3 7) \<and> pull_from (plan_push 3 7) \<le> 5 \<and> 5 \<le> pull_to (plan_push 3 7)"
  using plan_push_covers_gap [of 3 5 7] by (simp add: plan_push_def pull_wanted_def seq_is_valid_def)

end
