(* ===== verification/Have_Bitmap.thy ===== *)
theory Have_Bitmap
  imports Prelude
begin

unbundle bit_operations_syntax

text \<open>
  Which chunks of a data are held (core/data/have_bitmap.cpp): one bit per chunk in a vector of
  octets. The operations are translated with their octet and bit arithmetic; the set of held
  chunk numbers is the abstraction every client reasons with. The interface \<open>chunk_set\<close> states
  what the clients rely on, and the bitmap is its instance.
\<close>

section \<open>Operations\<close>

record have_bitmap =
  hb_bits :: octets
  hb_chunk_count :: u64

definition bitmap_octets :: "u64 \<Rightarrow> nat" where
  "bitmap_octets chunk_count = unat ((chunk_count + 7) div 8)"

definition have_none :: "u64 \<Rightarrow> have_bitmap" where
  "have_none chunk_count = \<lparr>hb_bits = replicate (bitmap_octets chunk_count) 0, hb_chunk_count = chunk_count\<rparr>"

definition vector_resize :: "nat \<Rightarrow> octets \<Rightarrow> octets" where
  "vector_resize n xs = take n xs @ replicate (n - length xs) 0"

definition bm_normalise :: "have_bitmap \<Rightarrow> have_bitmap" where
  "bm_normalise b =
     (let bits = vector_resize (bitmap_octets (hb_chunk_count b)) (hb_bits b);
          used = unat (hb_chunk_count b mod 8)
      in b\<lparr>hb_bits := (if used \<noteq> 0
            then bits[length bits - 1 := bits ! (length bits - 1) AND (push_bit used 1 - 1)]
            else bits)\<rparr>)"

definition have_of_octets :: "u64 \<Rightarrow> octets \<Rightarrow> have_bitmap" where
  "have_of_octets chunk_count bits = bm_normalise \<lparr>hb_bits = bits, hb_chunk_count = chunk_count\<rparr>"

definition bm_test :: "have_bitmap \<Rightarrow> u64 \<Rightarrow> bool" where
  "bm_test b chunk_no =
     (chunk_no < hb_chunk_count b
      \<and> (hb_bits b ! unat (chunk_no div 8) AND push_bit (unat (chunk_no mod 8)) 1) \<noteq> 0)"

definition bm_set :: "have_bitmap \<Rightarrow> u64 \<Rightarrow> bool \<Rightarrow> have_bitmap" where
  "bm_set b chunk_no held =
     (if chunk_no < hb_chunk_count b
      then let bit = push_bit (unat (chunk_no mod 8)) 1;
               i = unat (chunk_no div 8)
           in b\<lparr>hb_bits := (hb_bits b)[i := (if held then hb_bits b ! i OR bit else hb_bits b ! i AND NOT bit)]\<rparr>
      else b)"

definition bm_set_all :: "have_bitmap \<Rightarrow> have_bitmap" where
  "bm_set_all b = bm_normalise (b\<lparr>hb_bits := map (\<lambda>_. 0xFF) (hb_bits b)\<rparr>)"

definition bm_clear :: "have_bitmap \<Rightarrow> have_bitmap" where
  "bm_clear b = b\<lparr>hb_bits := map (\<lambda>_. 0) (hb_bits b)\<rparr>"

definition popcount :: "octet \<Rightarrow> nat" where
  "popcount w = length (filter (bit w) [0..<8])"

definition bm_count :: "have_bitmap \<Rightarrow> u64" where
  "bm_count b = fold (\<lambda>oct acc. acc + of_nat (popcount oct)) (hb_bits b) 0"

definition bm_complete :: "have_bitmap \<Rightarrow> bool" where
  "bm_complete b = (bm_count b = hb_chunk_count b)"

function first_missing_loop :: "have_bitmap \<Rightarrow> u64 \<Rightarrow> u64" where
  "first_missing_loop b r =
     (if r < hb_chunk_count b \<and> bm_test b r then first_missing_loop b (r + 1) else r)"
  by pat_completeness auto
termination
  by (relation "measure (\<lambda>(b, r). unat (hb_chunk_count b) - unat r)")
    (auto simp: word_count_down)

declare first_missing_loop.simps [simp del]

definition first_missing :: "have_bitmap \<Rightarrow> u64 \<Rightarrow> u64" where
  "first_missing b from = first_missing_loop b (min from (hb_chunk_count b))"

section \<open>The held chunks\<close>

definition octet_bit :: "octets \<Rightarrow> nat \<Rightarrow> bool" where
  "octet_bit bits k = (k div 8 < length bits \<and> bit (bits ! (k div 8)) (k mod 8))"

definition held_chunks :: "have_bitmap \<Rightarrow> nat set" where
  "held_chunks b = {k. octet_bit (hb_bits b) k}"

text \<open>
  A well-formed bitmap has the octets its chunk count needs (computed without wrapping) and no
  stray bit in the last one.
\<close>

definition bitmap_wf :: "have_bitmap \<Rightarrow> bool" where
  "bitmap_wf b = (unat (hb_chunk_count b) + 7 < 2 ^ 64
     \<and> length (hb_bits b) = bitmap_octets (hb_chunk_count b)
     \<and> (\<forall>k\<in>held_chunks b. k < unat (hb_chunk_count b)))"

lemma bitmap_octets_nat: "unat cc + 7 < 2 ^ 64 \<Longrightarrow> bitmap_octets cc = (unat cc + 7) div 8"
  by (simp add: bitmap_octets_def unat_div unat_add_lem [THEN iffD1])

lemma chunk_in_octets: "unat cc + 7 < 2 ^ 64 \<Longrightarrow> k < unat cc \<Longrightarrow> k div 8 < bitmap_octets cc"
  by (simp add: bitmap_octets_nat)

lemma octet_bit_less: "octet_bit bits k \<Longrightarrow> k < 8 * length bits"
  unfolding octet_bit_def by linarith

lemma octet_bit_resize:
  "octet_bit (vector_resize n xs) k \<longleftrightarrow> k div 8 < n \<and> octet_bit xs k"
  by (auto simp: octet_bit_def vector_resize_def nth_append)

lemma octet_bit_update:
  assumes "i < length bits"
  shows "octet_bit (bits[i := v]) k \<longleftrightarrow> (if k div 8 = i then bit v (k mod 8) else octet_bit bits k)"
  using assms by (auto simp: octet_bit_def nth_list_update)

lemma bit_2p: "bit (2 ^ n :: octet) k \<longleftrightarrow> k = n \<and> n < 8"
  by (auto simp: bit_simps)

lemma bit_low_mask: "bit (2 ^ n - 1 :: octet) k \<longleftrightarrow> k < n \<and> k < 8"
  by (auto simp: mask_eq_exp_minus_1 [symmetric] bit_simps)

lemma div_mod_8: "k div 8 = i div 8 \<Longrightarrow> k mod 8 = i mod 8 \<Longrightarrow> k = (i::nat)"
  by (metis div_mult_mod_eq)

lemma octets_exact:
  fixes n k :: nat
  shows "n mod 8 = 0 \<Longrightarrow> k div 8 < (n + 7) div 8 \<longleftrightarrow> k < n"
    and "n mod 8 \<noteq> 0 \<Longrightarrow> (n + 7) div 8 = Suc (n div 8)"
    and "k div 8 = n div 8 \<Longrightarrow> k mod 8 < n mod 8 \<longleftrightarrow> k < n"
    and "k div 8 \<noteq> n div 8 \<Longrightarrow> k div 8 < Suc (n div 8) \<longleftrightarrow> k < n"
proof -
  show "k div 8 < (n + 7) div 8 \<longleftrightarrow> k < n" if "n mod 8 = 0"
    using that by (auto simp: div_less_iff_less_mult elim!: dvdE simp flip: dvd_eq_mod_eq_0)
  show "(n + 7) div 8 = Suc (n div 8)" if "n mod 8 \<noteq> 0"
  proof -
    define r where "r = n mod 8"
    have "1 \<le> r" "r < 8" using that by (auto simp: r_def)
    then have "(r + 7) div 8 = 1" by simp
    moreover have "n + 7 = 8 * (n div 8) + (r + 7)" by (simp add: r_def)
    then have "(n + 7) div 8 = n div 8 + (r + 7) div 8" by (metis div_mult_self2 zero_neq_numeral add.commute)
    ultimately show ?thesis by simp
  qed
  have kn: "k = 8 * (k div 8) + k mod 8" "n = 8 * (n div 8) + n mod 8" by simp_all
  show "k mod 8 < n mod 8 \<longleftrightarrow> k < n" if "k div 8 = n div 8" using kn that by linarith
  show "k div 8 < Suc (n div 8) \<longleftrightarrow> k < n" if "k div 8 \<noteq> n div 8" using that by linarith
qed

lemma held_normalise:
  assumes "unat (hb_chunk_count b) + 7 < 2 ^ 64"
  shows "held_chunks (bm_normalise b) = {k \<in> held_chunks b. k < unat (hb_chunk_count b)}"
proof -
  let ?cc = "unat (hb_chunk_count b)" and ?bits = "vector_resize (bitmap_octets (hb_chunk_count b)) (hb_bits b)"
  have len: "length ?bits = (?cc + 7) div 8" using assms by (simp add: vector_resize_def bitmap_octets_nat)
  have used: "unat (hb_chunk_count b mod 8) = ?cc mod 8" by (simp add: unat_mod)
  have res: "octet_bit ?bits k \<longleftrightarrow> k div 8 < (?cc + 7) div 8 \<and> octet_bit (hb_bits b) k" for k
    using assms by (simp add: octet_bit_resize bitmap_octets_nat)
  have "octet_bit (hb_bits (bm_normalise b)) k \<longleftrightarrow> octet_bit (hb_bits b) k \<and> k < ?cc" for k
  proof (cases "?cc mod 8 = 0")
    case True
    then have "k div 8 < (?cc + 7) div 8 \<longleftrightarrow> k < ?cc" by (rule octets_exact(1))
    then show ?thesis using True used res [of k] by (auto simp: bm_normalise_def Let_def)
  next
    case False
    then have l: "(?cc + 7) div 8 = Suc (?cc div 8)" by (rule octets_exact(2))
    let ?v = "?bits ! (?cc div 8) AND (push_bit (?cc mod 8) 1 - 1)"
    have n: "hb_bits (bm_normalise b) = ?bits[?cc div 8 := ?v]"
      using False used len l by (simp add: bm_normalise_def Let_def)
    have "octet_bit (?bits[?cc div 8 := ?v]) k \<longleftrightarrow>
      (if k div 8 = ?cc div 8 then octet_bit ?bits k \<and> k mod 8 < ?cc mod 8 else octet_bit ?bits k)"
      using len l by (subst octet_bit_update) (auto simp: bit_and_iff bit_low_mask octet_bit_def)
    then show ?thesis using n l res [of k] octets_exact(3,4) [of k ?cc] by (auto split: if_splits)
  qed
  then show ?thesis by (auto simp: held_chunks_def)
qed

lemma wf_normalise: "unat (hb_chunk_count b) + 7 < 2 ^ 64 \<Longrightarrow> bitmap_wf (bm_normalise b)"
  using held_normalise [of b]
  by (auto simp: bitmap_wf_def bm_normalise_def Let_def vector_resize_def split: if_splits)

lemma normalise_count [simp]: "hb_chunk_count (bm_normalise b) = hb_chunk_count b"
  by (simp add: bm_normalise_def Let_def)

lemma octet_bits_ext:
  assumes "length xs = length ys" "\<And>k. octet_bit xs k \<longleftrightarrow> octet_bit ys k"
  shows "xs = ys"
proof (rule nth_equalityI [OF assms(1)])
  fix i assume i: "i < length xs"
  show "xs ! i = ys ! i"
  proof (rule bit_word_eqI)
    fix j assume "j < LENGTH(8)"
    then have "(8 * i + j) div 8 = i" "(8 * i + j) mod 8 = j" by simp_all
    then show "bit (xs ! i) j = bit (ys ! i) j"
      using assms(2) [of "8 * i + j"] i assms(1) by (simp add: octet_bit_def)
  qed
qed

lemma held_ext:
  assumes "bitmap_wf a" "bitmap_wf b" "hb_chunk_count a = hb_chunk_count b" "held_chunks a = held_chunks b"
  shows "a = (b :: have_bitmap)"
proof -
  have "hb_bits a = hb_bits b"
    using assms by (intro octet_bits_ext) (auto simp: bitmap_wf_def held_chunks_def)
  then show ?thesis using assms(3) by (cases a, cases b) simp
qed

lemma bm_test_iff: "bitmap_wf b \<Longrightarrow> bm_test b c \<longleftrightarrow> unat c \<in> held_chunks b"
proof -
  assume wf: "bitmap_wf b"
  have *: "(hb_bits b ! unat (c div 8) AND push_bit (unat (c mod 8)) 1) \<noteq> 0
    \<longleftrightarrow> bit (hb_bits b ! (unat c div 8)) (unat c mod 8)"
    by (simp only: bit_iff_and_push_bit_not_eq_0 unat_div unat_mod) simp
  show ?thesis
  proof (cases "c < hb_chunk_count b")
    case True
    then have "unat c div 8 < length (hb_bits b)"
      using wf chunk_in_octets by (auto simp: bitmap_wf_def word_less_nat_alt)
    then show ?thesis using True * by (simp add: bm_test_def held_chunks_def octet_bit_def)
  next
    case False
    then show ?thesis using wf by (auto simp: bm_test_def bitmap_wf_def word_less_nat_alt)
  qed
qed

lemma bm_set_bit:
  assumes "bitmap_wf b" "c < hb_chunk_count b"
  shows "octet_bit (hb_bits (bm_set b c h)) k \<longleftrightarrow> (if k = unat c then h else octet_bit (hb_bits b) k)"
proof -
  have i: "unat c div 8 < length (hb_bits b)"
    using assms chunk_in_octets by (auto simp: bitmap_wf_def word_less_nat_alt)
  have d: "unat (c div 8) = unat c div 8" "unat (c mod 8) = unat c mod 8" by (simp_all add: unat_div unat_mod)
  have k: "k = unat c \<longleftrightarrow> k div 8 = unat c div 8 \<and> k mod 8 = unat c mod 8" using div_mod_8 by blast
  have same: "k div 8 = unat c div 8 \<Longrightarrow> octet_bit (hb_bits b) k \<longleftrightarrow> bit (hb_bits b ! (unat c div 8)) (k mod 8)"
    using i by (simp add: octet_bit_def)
  then show ?thesis
    using assms(2) i k unfolding bm_set_def Let_def d
    by (cases "k div 8 = unat c div 8") (auto simp: octet_bit_update bit_and_iff bit_or_iff bit_not_iff bit_2p)
qed

lemma bm_set_length [simp]: "length (hb_bits (bm_set b c h)) = length (hb_bits b)"
  by (simp add: bm_set_def Let_def)

lemma bm_set_count [simp]: "hb_chunk_count (bm_set b c h) = hb_chunk_count b"
  by (simp add: bm_set_def Let_def)

lemma held_bm_set:
  assumes "bitmap_wf b"
  shows "held_chunks (bm_set b c h) =
    (if unat c < unat (hb_chunk_count b) then if h then insert (unat c) (held_chunks b) else held_chunks b - {unat c}
     else held_chunks b)"
proof (cases "c < hb_chunk_count b")
  case True
  then show ?thesis using bm_set_bit [OF assms True] by (auto simp: held_chunks_def word_less_nat_alt split: if_splits)
qed (auto simp: bm_set_def word_less_nat_alt)

lemma wf_bm_set: "bitmap_wf b \<Longrightarrow> bitmap_wf (bm_set b c h)"
  using held_bm_set [of b c h] by (auto simp: bitmap_wf_def split: if_splits)

lemma wf_have_none: "unat cc + 7 < 2 ^ 64 \<Longrightarrow> bitmap_wf (have_none cc)"
  by (auto simp: bitmap_wf_def have_none_def held_chunks_def octet_bit_def)

lemma held_have_none: "held_chunks (have_none cc) = {}"
  by (auto simp: have_none_def held_chunks_def octet_bit_def)

lemma held_bm_clear: "held_chunks (bm_clear b) = {}"
  by (auto simp: bm_clear_def held_chunks_def octet_bit_def)

lemma wf_bm_clear: "bitmap_wf b \<Longrightarrow> bitmap_wf (bm_clear b)"
  using held_bm_clear [of b] by (auto simp: bitmap_wf_def bm_clear_def)

lemma bit_all_ones: "bit (0xFF :: octet) k \<longleftrightarrow> k < 8"
proof -
  have "(0xFF :: octet) = - 1" by simp
  then show ?thesis by (simp only: bit_minus_1_iff possible_bit_word) simp
qed

lemma octet_bit_ones: "octet_bit (map (\<lambda>_. 0xFF) bits) k \<longleftrightarrow> k div 8 < length bits"
proof -
  have "bit (0xFF :: octet) (k mod 8)" unfolding bit_all_ones by simp
  then show ?thesis unfolding octet_bit_def by (metis length_map nth_map)
qed

lemma held_bm_set_all:
  assumes "bitmap_wf b"
  shows "held_chunks (bm_set_all b) = {..<unat (hb_chunk_count b)}"
proof -
  have l: "unat (hb_chunk_count b) + 7 < 2 ^ 64" "length (hb_bits b) = bitmap_octets (hb_chunk_count b)"
    using assms by (auto simp: bitmap_wf_def)
  have "held_chunks (bm_set_all b) =
      {k \<in> held_chunks (b\<lparr>hb_bits := map (\<lambda>_. 0xFF) (hb_bits b)\<rparr>). k < unat (hb_chunk_count b)}"
    unfolding bm_set_all_def using l(1) by (subst held_normalise) simp_all
  also have "\<dots> = {k. k div 8 < length (hb_bits b) \<and> k < unat (hb_chunk_count b)}"
    by (simp add: held_chunks_def octet_bit_ones)
  finally show ?thesis using chunk_in_octets [OF l(1)] l(2) by auto
qed

lemma wf_bm_set_all: "bitmap_wf b \<Longrightarrow> bitmap_wf (bm_set_all b)"
  unfolding bm_set_all_def by (intro wf_normalise) (simp add: bitmap_wf_def)

subsection \<open>Counting\<close>

lemma popcount_card: "popcount w = card {j. j < 8 \<and> bit w j}"
proof -
  have "set (filter (bit w) [0..<8]) = {j. j < 8 \<and> bit w j}" by auto
  then show ?thesis unfolding popcount_def by (metis distinct_card distinct_filter distinct_upt)
qed

lemma octet_bit_snoc:
  "{k. octet_bit (bits @ [x]) k} = {k. octet_bit bits k} \<union> (\<lambda>j. 8 * length bits + j) ` {j. j < 8 \<and> bit x j}"
proof (rule set_eqI)
  fix k :: nat
  have "k = 8 * length bits + k mod 8" if "k div 8 = length bits" using that by (metis mult_div_mod_eq)
  then have "k \<in> (\<lambda>j. 8 * length bits + j) ` {j. j < 8 \<and> bit x j} \<longleftrightarrow> k div 8 = length bits \<and> bit x (k mod 8)"
    by (auto simp: image_iff intro!: exI [of _ "k mod 8"])
  then show "k \<in> {k. octet_bit (bits @ [x]) k}
    \<longleftrightarrow> k \<in> {k. octet_bit bits k} \<union> (\<lambda>j. 8 * length bits + j) ` {j. j < 8 \<and> bit x j}"
    by (auto simp: octet_bit_def nth_append)
qed

lemma finite_octet_bit: "finite {k. octet_bit bits k}"
  by (rule finite_subset [of _ "{..<8 * length bits}"]) (auto dest: octet_bit_less)

lemma sum_popcount: "sum_list (map popcount bits) = card {k. octet_bit bits k}"
proof (induction bits rule: rev_induct)
  case (snoc x bits)
  have "card {k. octet_bit (bits @ [x]) k} =
      card {k. octet_bit bits k} + card ((\<lambda>j. 8 * length bits + j) ` {j. j < 8 \<and> bit x j})"
    unfolding octet_bit_snoc by (rule card_Un_disjoint) (auto simp: finite_octet_bit dest: octet_bit_less)
  also have "card ((\<lambda>j. 8 * length bits + j) ` {j. j < 8 \<and> bit x j}) = popcount x"
    unfolding popcount_card by (rule card_image) simp
  finally show ?case using snoc by simp
qed (simp add: octet_bit_def)

lemma bm_count_card: "bm_count b = of_nat (card (held_chunks b))"
proof -
  have "fold (\<lambda>oct acc. acc + of_nat (popcount oct)) bits acc = (acc :: u64) + of_nat (sum_list (map popcount bits))"
    for bits and acc :: u64
    by (induction bits arbitrary: acc) (simp_all add: add.assoc)
  then show ?thesis by (simp add: bm_count_def sum_popcount held_chunks_def)
qed

lemma held_subset: "bitmap_wf b \<Longrightarrow> held_chunks b \<subseteq> {..<unat (hb_chunk_count b)}"
  by (auto simp: bitmap_wf_def)

section \<open>The interface of a chunk set\<close>

text \<open>
  What the transfers, the data table and the stores rely on: a set of chunk numbers below a
  bound, tested and marked by 64 bit chunk numbers, that can be counted.
\<close>

locale chunk_set =
  fixes inv :: "'b \<Rightarrow> bool"
    and chunks :: "'b \<Rightarrow> u64"
    and held :: "'b \<Rightarrow> nat set"
    and test :: "'b \<Rightarrow> u64 \<Rightarrow> bool"
    and mark :: "'b \<Rightarrow> u64 \<Rightarrow> bool \<Rightarrow> 'b"
    and cnt :: "'b \<Rightarrow> u64"
  assumes held_bound: "inv b \<Longrightarrow> held b \<subseteq> {..<unat (chunks b)}"
    and test_held: "inv b \<Longrightarrow> test b c \<longleftrightarrow> unat c \<in> held b"
    and inv_mark: "inv b \<Longrightarrow> inv (mark b c h)"
    and chunks_mark: "chunks (mark b c h) = chunks b"
    and held_mark: "inv b \<Longrightarrow> held (mark b c h) =
      (if unat c < unat (chunks b) then if h then insert (unat c) (held b) else held b - {unat c} else held b)"
    and cnt_held: "inv b \<Longrightarrow> cnt b = of_nat (card (held b))"
begin

lemma card_bound: "inv b \<Longrightarrow> card (held b) \<le> unat (chunks b)"
  using held_bound [of b] card_mono [of "{..<unat (chunks b)}" "held b"] by simp

lemma cnt_nat: "inv b \<Longrightarrow> unat (cnt b) = card (held b)"
  using card_bound [of b] unat_less_2_64 [of "chunks b"] by (simp add: cnt_held unat_of_nat_small)

lemma complete_iff: "inv b \<Longrightarrow> cnt b = chunks b \<longleftrightarrow> held b = {..<unat (chunks b)}"
proof -
  assume i: "inv b"
  have "cnt b = chunks b \<longleftrightarrow> card (held b) = card {..<unat (chunks b)}"
    using cnt_nat [OF i] by (simp add: word_unat_eq_iff)
  then show ?thesis using card_subset_eq [OF finite_lessThan held_bound [OF i]] by metis
qed

lemma test_mark: "inv b \<Longrightarrow> test (mark b c h) c' \<longleftrightarrow> (if c' = c \<and> c < chunks b then h else test b c')"
proof -
  assume "inv b"
  then have "unat c \<in> held b \<Longrightarrow> unat c < unat (chunks b)" using held_bound by blast
  then show ?thesis using \<open>inv b\<close>
    by (simp add: test_held inv_mark held_mark word_less_nat_alt word_unat_eq_iff)
qed

lemma mark_all:
  assumes "inv b"
  shows "inv (fold (\<lambda>c b. mark b c True) cs b)"
    and "chunks (fold (\<lambda>c b. mark b c True) cs b) = chunks b"
    and "held (fold (\<lambda>c b. mark b c True) cs b) = held b \<union> (unat ` set cs \<inter> {..<unat (chunks b)})"
  using assms by (induction cs arbitrary: b) (auto simp: inv_mark chunks_mark held_mark)

lemma complete_after:
  assumes "inv b" "held b = {}"
  shows "cnt (fold (\<lambda>c b. mark b c True) cs b) = chunks b \<longleftrightarrow> (\<forall>c<chunks b. c \<in> set cs)"
proof -
  let ?b = "fold (\<lambda>c b. mark b c True) cs b"
  have "cnt ?b = chunks b \<longleftrightarrow> unat ` set cs \<inter> {..<unat (chunks b)} = {..<unat (chunks b)}"
    using complete_iff [OF mark_all(1) [OF assms(1)], of cs] mark_all [OF assms(1), of cs] assms(2) by simp
  also have "\<dots> \<longleftrightarrow> (\<forall>n<unat (chunks b). n \<in> unat ` set cs)" by auto
  also have "\<dots> \<longleftrightarrow> (\<forall>c<chunks b. c \<in> set cs)"
  proof
    assume *: "\<forall>n<unat (chunks b). n \<in> unat ` set cs"
    show "\<forall>c<chunks b. c \<in> set cs"
    proof (intro allI impI)
      fix c assume "c < chunks b"
      then have "unat c \<in> unat ` set cs" using * by (simp add: word_less_nat_alt)
      then show "c \<in> set cs" by (metis imageE word_unat_eq_iff)
    qed
  next
    assume *: "\<forall>c<chunks b. c \<in> set cs"
    show "\<forall>n<unat (chunks b). n \<in> unat ` set cs"
    proof (intro allI impI)
      fix n assume n: "n < unat (chunks b)"
      then have u: "unat (of_nat n :: u64) = n" using unat_less_2_64 [of "chunks b"] by (intro unat_of_nat_small) simp
      then have "of_nat n < chunks b" using n by (simp add: word_less_nat_alt)
      then show "n \<in> unat ` set cs" using * u by (metis image_eqI)
    qed
  qed
  finally show ?thesis .
qed

end

interpretation bitmap: chunk_set bitmap_wf hb_chunk_count held_chunks bm_test bm_set bm_count
  by unfold_locales
    (auto simp: held_subset bm_test_iff wf_bm_set held_bm_set bm_count_card dest: held_subset)

section \<open>Properties\<close>

lemma first_missing_loop_spec:
  assumes "r \<le> hb_chunk_count b"
  defines "m \<equiv> first_missing_loop b r"
  shows "r \<le> m \<and> m \<le> hb_chunk_count b \<and> (\<forall>c. r \<le> c \<longrightarrow> c < m \<longrightarrow> bm_test b c) \<and> \<not> bm_test b m"
  using assms(1) unfolding m_def
proof (induction b r rule: first_missing_loop.induct)
  case (1 b r)
  show ?case
  proof (cases "r < hb_chunk_count b \<and> bm_test b r")
    case True
    then have r: "r \<noteq> - 1" "r + 1 \<le> hb_chunk_count b" using word_less_not_max word_inc_le_iff by blast+
    let ?m = "first_missing_loop b (r + 1)"
    have ih: "r + 1 \<le> ?m" "?m \<le> hb_chunk_count b" "\<forall>c. r + 1 \<le> c \<longrightarrow> c < ?m \<longrightarrow> bm_test b c" "\<not> bm_test b ?m"
      using 1 True r by auto
    moreover have "r \<le> ?m" using ih(1) word_inc_le_iff [OF r(1)] by (simp add: less_imp_le)
    moreover have "bm_test b c" if "r \<le> c" "c < ?m" for c
      using that ih(3) True word_inc_le_iff [OF r(1), of c] by (cases "c = r") auto
    ultimately show ?thesis using True by (subst (1 2 3 4) first_missing_loop.simps) auto
  next
    case False
    then have "first_missing_loop b r = r" by (subst first_missing_loop.simps) (simp only: if_False)
    then show ?thesis using 1(2) False by (auto simp: bm_test_def)
  qed
qed

text \<open>The stored octets are the bitmap: whatever blob is read back, the result is well formed
  and holds exactly the blob's chunks below the chunk count, so reading the octets of a bitmap
  gives it back, and two bitmaps of a data are equal when they hold the same chunks.\<close>

theorem have_bitmap_stored:
  assumes "unat cc + 7 < 2 ^ 64"
  shows "bitmap_wf (have_of_octets cc bits)
    \<and> held_chunks (have_of_octets cc bits) = {k. octet_bit bits k \<and> k < unat cc}
    \<and> (bitmap_wf b \<and> hb_chunk_count b = cc \<longrightarrow> have_of_octets cc (hb_bits b) = b)"
proof -
  have wf: "bitmap_wf (have_of_octets cc bits')" for bits'
    using assms by (simp add: have_of_octets_def wf_normalise)
  have held: "held_chunks (have_of_octets cc bits') = {k. octet_bit bits' k \<and> k < unat cc}" for bits'
    using assms unfolding have_of_octets_def by (subst held_normalise) (auto simp: held_chunks_def)
  have "have_of_octets cc (hb_bits b) = b" if "bitmap_wf b" "hb_chunk_count b = cc"
  proof (rule held_ext [OF wf that(1)])
    show "hb_chunk_count (have_of_octets cc (hb_bits b)) = hb_chunk_count b" using that(2) by (simp add: have_of_octets_def)
    show "held_chunks (have_of_octets cc (hb_bits b)) = held_chunks b"
      using held [of "hb_bits b"] that held_subset [OF that(1)] by (auto simp: held_chunks_def)
  qed
  then show ?thesis using wf held by blast
qed

theorem have_bitmap_stored_witness:
  "have_of_octets 10 [0xFF, 0x03] = \<lparr>hb_bits = [0xFF, 0x03], hb_chunk_count = 10\<rparr>
   \<and> bitmap_wf (have_of_octets 10 [0xFF, 0xFF, 7])"
proof -
  have n: "have_of_octets 10 [0xFF, 0x03] = \<lparr>hb_bits = [0xFF, 0x03], hb_chunk_count = 10\<rparr>"
    by (simp add: have_of_octets_def bm_normalise_def Let_def vector_resize_def bitmap_octets_def)
  then show ?thesis using have_bitmap_stored [of 10 "[0xFF, 0xFF, 7]"] by simp
qed

text \<open>A transfer completes exactly when every chunk arrived: marking the chunks of a data in any
  order, repeated or out of range ones included, makes the bitmap complete if and only if each
  chunk number below the count was among them.\<close>

theorem bitmap_complete_iff_all_marked:
  assumes "unat cc + 7 < 2 ^ 64"
  shows "bm_complete (fold (\<lambda>c b. bm_set b c True) cs (have_none cc)) \<longleftrightarrow> (\<forall>c<cc. c \<in> set cs)"
proof -
  have n: "bitmap_wf (have_none cc)" "held_chunks (have_none cc) = {}" "hb_chunk_count (have_none cc) = cc"
    using wf_have_none [OF assms] held_have_none by (auto simp: have_none_def)
  show ?thesis
    unfolding bm_complete_def bitmap.mark_all(2) [OF n(1)]
    using bitmap.complete_after [OF n(1,2), of cs] n(3) by simp
qed

theorem bitmap_complete_iff_all_marked_witness:
  "bm_complete (fold (\<lambda>c b. bm_set b c True) [2, 0, 7, 1, 0] (have_none 3))"
proof -
  have "\<forall>c<(3::u64). c \<in> set [2, 0, 7, 1, 0]"
  proof (intro allI impI)
    fix c :: u64 assume "c < 3"
    then have "unat c = 0 \<or> unat c = 1 \<or> unat c = 2" by (auto simp: word_less_nat_alt)
    then show "c \<in> set [2, 0, 7, 1, 0]" by (auto simp: word_unat_eq_iff)
  qed
  then show ?thesis using bitmap_complete_iff_all_marked [of 3 "[2, 0, 7, 1, 0]"] by simp
qed

text \<open>Resuming a transfer asks for the right chunk: the first missing chunk at or after a
  position is not held, everything between is, and the chunk count is returned exactly when
  nothing is missing from there on.\<close>

theorem first_missing_correct:
  assumes "bitmap_wf b" "from \<le> hb_chunk_count b"
  shows "from \<le> first_missing b from \<and> first_missing b from \<le> hb_chunk_count b
    \<and> (\<forall>c. from \<le> c \<longrightarrow> c < first_missing b from \<longrightarrow> unat c \<in> held_chunks b)
    \<and> unat (first_missing b from) \<notin> held_chunks b"
proof -
  have "first_missing b from = first_missing_loop b from" using assms(2) by (simp add: first_missing_def min_def)
  then show ?thesis using first_missing_loop_spec [OF assms(2)] bm_test_iff [OF assms(1)] by simp
qed

theorem first_missing_correct_witness:
  "unat (first_missing (have_of_octets 10 [0x0F, 0]) 1) \<notin> held_chunks (have_of_octets 10 [0x0F, 0])"
proof -
  have "bitmap_wf (have_of_octets 10 [0x0F, 0])" by (simp add: have_of_octets_def wf_normalise)
  moreover have "1 \<le> hb_chunk_count (have_of_octets 10 [0x0F, 0])" by (simp add: have_of_octets_def)
  ultimately show ?thesis using first_missing_correct [of "have_of_octets 10 [0x0F, 0]" 1] by blast
qed

end
