(* ===== verification/Data_Descriptor.thy ===== *)
theory Data_Descriptor
  imports Util Sync_Mode
begin

unbundle bit_operations_syntax

text \<open>
  The description of record data (core/data/data_descriptor.hpp and .cpp), the size-class padding
  (size_padding.hpp), the manifest of chunk digests (data_manifest.cpp), the encryption of one
  chunk (chunk_crypto.cpp) and the signed data ticket (data_ticket.cpp).

  AES-GCM, HKDF and their sizes belong to the base library: they are the fields of \<open>aead\<close>.
  Sizes that come from the wire stay 64 bit words, since the code relies on not wrapping them.
\<close>

section \<open>Chunk encryption\<close>

record aead =
  ae_tag_size :: nat
  ae_iv_size :: nat
  ae_key_size :: nat
  ae_hkdf :: "nat \<Rightarrow> octets \<Rightarrow> octets \<Rightarrow> octets \<Rightarrow> octets"
  ae_encrypt :: "octets \<Rightarrow> octets \<Rightarrow> octets \<Rightarrow> octets \<Rightarrow> octets \<times> octets"
  ae_decrypt :: "octets \<Rightarrow> octets \<Rightarrow> octets \<Rightarrow> octets \<Rightarrow> octets \<times> octets"

definition data_nonce_size :: nat where
  "data_nonce_size = 16"

definition chunk_tag_size :: "aead \<Rightarrow> nat" where
  "chunk_tag_size ae = ae_tag_size ae"

definition derive_data_key :: "aead \<Rightarrow> octets \<Rightarrow> octets \<Rightarrow> octets" where
  "derive_data_key ae group_key nonce =
     ae_hkdf ae (ae_key_size ae) group_key nonce (ascii ''spsync record data key v1'')"

definition chunk_iv :: "aead \<Rightarrow> u64 \<Rightarrow> octets" where
  "chunk_iv ae chunk_no = append_big_endian (replicate (ae_iv_size ae - 8) 0) chunk_no 8"

definition chunk_aad :: "octets \<Rightarrow> u64 \<Rightarrow> octets" where
  "chunk_aad nonce chunk_no = append_big_endian nonce chunk_no 8"

definition encrypt_chunk :: "aead \<Rightarrow> octets \<Rightarrow> octets \<Rightarrow> u64 \<Rightarrow> octets \<Rightarrow> octets" where
  "encrypt_chunk ae data_key nonce chunk_no plain =
     (let (out, tag) = ae_encrypt ae data_key (chunk_iv ae chunk_no) (chunk_aad nonce chunk_no) plain
      in out @ tag)"

definition decrypt_chunk :: "aead \<Rightarrow> octets \<Rightarrow> octets \<Rightarrow> u64 \<Rightarrow> octets \<Rightarrow> octets option" where
  "decrypt_chunk ae data_key nonce chunk_no encrypted =
     (let tag_size = chunk_tag_size ae
      in if length encrypted \<ge> tag_size
         then let cipher = take (length encrypted - tag_size) encrypted;
                  tag = drop (length encrypted - tag_size) encrypted;
                  (plain, computed) = ae_decrypt ae data_key (chunk_iv ae chunk_no) (chunk_aad nonce chunk_no) cipher
              in if computed = tag then Some plain else None
         else None)"

definition chunk_digest :: "crypto \<Rightarrow> octets \<Rightarrow> digest" where
  "chunk_digest cr encrypted = cr_hash cr encrypted"

text \<open>
  What the code relies on of AES-GCM: the cipher text has the length of the plain text, the tag
  its fixed size, and decrypting with the same key, iv and associated data gives the plain text
  and computes the same tag.
\<close>

definition aead_ok :: "aead \<Rightarrow> bool" where
  "aead_ok ae = (\<forall>k iv aad p.
     length (fst (ae_encrypt ae k iv aad p)) = length p
     \<and> length (snd (ae_encrypt ae k iv aad p)) = ae_tag_size ae
     \<and> ae_decrypt ae k iv aad (fst (ae_encrypt ae k iv aad p)) = (p, snd (ae_encrypt ae k iv aad p)))"

lemma encrypt_chunk_parts:
  assumes "aead_ok ae"
  obtains out tag where "encrypt_chunk ae k n c p = out @ tag" "length out = length p"
    "length tag = chunk_tag_size ae" "ae_decrypt ae k (chunk_iv ae c) (chunk_aad n c) out = (p, tag)"
proof -
  obtain out tag where e: "ae_encrypt ae k (chunk_iv ae c) (chunk_aad n c) p = (out, tag)" by (meson surj_pair)
  then show thesis using assms that [of out tag] unfolding aead_ok_def encrypt_chunk_def chunk_tag_size_def
    by (metis (no_types, lifting) case_prod_conv fst_conv snd_conv)
qed

lemma decrypt_encrypt_chunk:
  assumes "aead_ok ae"
  shows "decrypt_chunk ae k n c (encrypt_chunk ae k n c p) = Some p"
  by (rule encrypt_chunk_parts [OF assms, of k n c p]) (simp add: decrypt_chunk_def Let_def)

lemma length_encrypt_chunk:
  assumes "aead_ok ae"
  shows "length (encrypt_chunk ae k n c p) = length p + chunk_tag_size ae"
  by (rule encrypt_chunk_parts [OF assms, of k n c p]) simp

lemma chunk_iv_inj: "chunk_iv ae c = chunk_iv ae c' \<longleftrightarrow> c = c'"
  by (auto simp: chunk_iv_def append_big_endian_eq dest: big_endian_u64_inj)

lemma chunk_aad_inj: "length n = length n' \<Longrightarrow> chunk_aad n c = chunk_aad n' c' \<longleftrightarrow> n = n' \<and> c = c'"
  by (auto simp: chunk_aad_def append_big_endian_eq dest: big_endian_u64_inj)

section \<open>The descriptor\<close>

record data_descriptor =
  enc_size :: u64
  dd_chunk_size :: u32
  manifest_digest :: digest
  dd_trailing :: octets

record data_header =
  plain_size :: u64
  content_digest :: digest
  dh_nonce :: octets
  key_seq :: sequence_number
  dh_flags :: u32
  dh_trailing :: octets

definition max_data_chunks :: u64 where
  "max_data_chunks = 200000"

definition per_chunk :: "nat \<Rightarrow> data_descriptor \<Rightarrow> u64" where
  "per_chunk tag_size d = ucast (dd_chunk_size d) + of_nat tag_size"

definition chunk_count :: "nat \<Rightarrow> data_descriptor \<Rightarrow> u64" where
  "chunk_count tag_size d =
     (if dd_chunk_size d \<noteq> 0
      then enc_size d div per_chunk tag_size d + (if enc_size d mod per_chunk tag_size d \<noteq> 0 then 1 else 0)
      else 0)"

definition chunk_enc_size :: "nat \<Rightarrow> data_descriptor \<Rightarrow> u64 \<Rightarrow> u64" where
  "chunk_enc_size tag_size d chunk_no =
     (if chunk_no < chunk_count tag_size d
      then min (per_chunk tag_size d) (enc_size d - chunk_no * per_chunk tag_size d)
      else 0)"

definition chunk_holds_range :: "nat \<Rightarrow> data_descriptor \<Rightarrow> u64 \<Rightarrow> u64 \<Rightarrow> u64 \<Rightarrow> bool" where
  "chunk_holds_range tag_size d chunk_no offset sz =
     (let chunk = chunk_enc_size tag_size d chunk_no in offset \<le> chunk \<and> sz \<le> chunk - offset)"

definition usable_data_descriptor :: "nat \<Rightarrow> data_descriptor \<Rightarrow> bool" where
  "usable_data_descriptor tag_size d =
     (let chunks = chunk_count tag_size d
      in manifest_digest d \<noteq> [] \<and> chunks \<ge> 1 \<and> chunks \<le> max_data_chunks
         \<and> chunk_enc_size tag_size d (chunks - 1) > of_nat tag_size)"

definition valid_data_descriptor :: "nat \<Rightarrow> nat \<Rightarrow> data_descriptor \<Rightarrow> bool" where
  "valid_data_descriptor tag_size hash_digest_size d =
     (let chunking_ok = (dd_chunk_size d \<ge> lowest chunk_size_range \<and> dd_chunk_size d \<le> highest chunk_size_range)
      in chunking_ok \<and> length (manifest_digest d) = hash_digest_size \<and> usable_data_descriptor tag_size d)"

subsection \<open>In natural numbers\<close>

text \<open>The tag is 16 octets; all that matters is that it is not empty and far below \<open>2 ^ 32\<close>.\<close>

abbreviation tag_ok :: "nat \<Rightarrow> bool" where
  "tag_ok ts \<equiv> ts < 2 ^ 32"

lemma unat_per_chunk: "tag_ok ts \<Longrightarrow> unat (per_chunk ts d) = unat (dd_chunk_size d) + ts"
proof -
  assume ts: "tag_ok ts"
  have "unat (dd_chunk_size d) + ts < 2 ^ LENGTH(64)"
    using unat_less_2_32 [of "dd_chunk_size d"] ts by simp
  moreover have "per_chunk ts d = of_nat (unat (dd_chunk_size d) + ts)" by (simp add: per_chunk_def)
  ultimately show ?thesis by (simp only: unat_of_nat_small)
qed

lemma ceil_div_bound: "0 < p \<Longrightarrow> e div p + (if e mod p \<noteq> 0 then 1 else 0) \<le> (e::nat)"
proof (cases "e mod p = 0")
  case False
  assume "0 < p"
  then have "p \<noteq> 1" using False by auto
  then have "2 \<le> p" using \<open>0 < p\<close> by simp
  then have "e div p \<le> e div 2" by (rule div_le_mono2 [rotated]) simp
  moreover have "e \<noteq> 0" using False by (metis mod_0)
  ultimately show ?thesis using False by simp
qed simp

lemma unat_chunk_count:
  assumes "tag_ok ts" "dd_chunk_size d \<noteq> 0"
  shows "unat (chunk_count ts d) =
    unat (enc_size d) div (unat (dd_chunk_size d) + ts)
    + (if unat (enc_size d) mod (unat (dd_chunk_size d) + ts) \<noteq> 0 then 1 else 0)"
proof -
  let ?p = "unat (dd_chunk_size d) + ts" and ?e = "unat (enc_size d)"
  have p: "0 < ?p" using assms(2) by (simp add: unat_gt_0)
  have q: "unat (enc_size d div per_chunk ts d) = ?e div ?p" "unat (enc_size d mod per_chunk ts d) = ?e mod ?p"
    using assms(1) by (simp_all add: unat_div unat_mod unat_per_chunk)
  show ?thesis
  proof (cases "?e mod ?p = 0")
    case True
    then have "enc_size d mod per_chunk ts d = 0" using q(2) by (simp add: word_unat_eq_iff)
    then show ?thesis using assms(2) True q(1) by (simp add: chunk_count_def)
  next
    case False
    then have "enc_size d mod per_chunk ts d \<noteq> 0" using q(2) by (metis unat_0)
    moreover have "?e div ?p + 1 < 2 ^ 64"
      using ceil_div_bound [OF p, of ?e] False unat_less_2_64 [of "enc_size d"] by simp
    then have "enc_size d div per_chunk ts d \<noteq> - 1" using q(1) by (intro u64_not_maxI) simp
    ultimately show ?thesis using assms(2) False q(1) by (simp add: chunk_count_def word_inc_unat)
  qed
qed

lemma ceil_div_covers: "0 < p \<Longrightarrow> e \<le> (e div p + (if e mod p \<noteq> 0 then 1 else 0)) * (p::nat)"
proof -
  assume "0 < p"
  then have m: "e = e div p * p + e mod p" "e mod p < p" by simp_all
  show ?thesis
  proof (cases "e mod p = 0")
    case True then show ?thesis using m(1) by (metis add_0_right order_refl)
  next
    case False
    have "(e div p + 1) * p = e div p * p + p" by simp
    then show ?thesis using m False by (metis add_left_mono less_imp_le)
  qed
qed

lemma chunk_start_below:
  assumes "0 < p" "i < e div p + (if e mod p \<noteq> 0 then 1 else 0)"
  shows "i * p < (e::nat)"
proof -
  have *: "e div p * p + e mod p = e" by simp
  show ?thesis
  proof (cases "i < e div p")
    case True
    then have "i * p + p \<le> e div p * p" by (metis Suc_leI mult_Suc mult_le_mono1 add.commute)
    then show ?thesis using * assms(1) by linarith
  next
    case False
    then have "i = e div p" "0 < e mod p" using assms(2) by (auto split: if_splits)
    then show ?thesis using * by (metis less_add_same_cancel1)
  qed
qed

lemma unat_chunk_enc_size:
  assumes "tag_ok ts" "i < chunk_count ts d"
  shows "unat (chunk_enc_size ts d i) =
      min (unat (dd_chunk_size d) + ts) (unat (enc_size d) - unat i * (unat (dd_chunk_size d) + ts))"
    and "unat i * (unat (dd_chunk_size d) + ts) < unat (enc_size d)"
proof -
  have cs: "dd_chunk_size d \<noteq> 0" using assms(2) by (auto simp: chunk_count_def)
  then have p: "0 < unat (dd_chunk_size d) + ts" by (simp add: unat_gt_0)
  show below: "unat i * (unat (dd_chunk_size d) + ts) < unat (enc_size d)"
    using chunk_start_below [OF p, of "unat i" "unat (enc_size d)"] assms(2)
    unfolding word_less_nat_alt unat_chunk_count [OF assms(1) cs] by blast
  then have "unat i * unat (per_chunk ts d) < 2 ^ 64"
    using unat_less_2_64 [of "enc_size d"] assms(1) by (simp add: unat_per_chunk)
  then have prod: "unat (i * per_chunk ts d) = unat i * (unat (dd_chunk_size d) + ts)"
    using assms(1) by (simp add: unat_mult_lem [THEN iffD1] unat_per_chunk)
  then have "i * per_chunk ts d \<le> enc_size d" using below by (simp add: word_le_nat_alt)
  then show "unat (chunk_enc_size ts d i) =
      min (unat (dd_chunk_size d) + ts) (unat (enc_size d) - unat i * (unat (dd_chunk_size d) + ts))"
    using assms prod by (simp add: chunk_enc_size_def unat_min word_sub_unat unat_per_chunk)
qed

lemma sum_chunks: "(\<Sum>i<n. min p (e - i * p)) = min (n * p) (e::nat)"
  by (induction n) auto

lemma chunk_sizes_total:
  assumes "tag_ok ts" "dd_chunk_size d \<noteq> 0"
  shows "(\<Sum>i<unat (chunk_count ts d). unat (chunk_enc_size ts d (of_nat i))) = unat (enc_size d)"
proof -
  let ?p = "unat (dd_chunk_size d) + ts" and ?e = "unat (enc_size d)" and ?n = "unat (chunk_count ts d)"
  have "unat (chunk_enc_size ts d (of_nat i)) = min ?p (?e - i * ?p)" if "i < ?n" for i
  proof -
    have "i < 2 ^ LENGTH(64)" using that unat_less_2_64 [of "chunk_count ts d"] by simp
    then have u: "unat (of_nat i :: u64) = i" by (rule unat_of_nat_small)
    then have "(of_nat i :: u64) < chunk_count ts d" using that by (simp add: word_less_nat_alt)
    then show ?thesis using unat_chunk_enc_size(1) [OF assms(1)] u by metis
  qed
  then have "(\<Sum>i<?n. unat (chunk_enc_size ts d (of_nat i))) = min (?n * ?p) ?e"
    using sum_chunks [of ?p ?e ?n] by simp
  moreover have "?e \<le> ?n * ?p"
    unfolding unat_chunk_count [OF assms] using assms(2) by (intro ceil_div_covers) (simp add: unat_gt_0)
  ultimately show ?thesis by simp
qed

text \<open>The encrypted chunks of a data partition it: whatever size the wire states, the sizes of
  its chunks add up to the encrypted size, nothing wrapping on the way.\<close>

theorem chunk_sizes_partition:
  assumes "tag_ok ts" "dd_chunk_size d \<noteq> 0"
  shows "(\<Sum>i<unat (chunk_count ts d). unat (chunk_enc_size ts d (of_nat i))) = unat (enc_size d)"
  using assms by (rule chunk_sizes_total)

theorem chunk_sizes_partition_witness:
  "(\<Sum>i<unat (chunk_count 16 \<lparr>enc_size = 1000, dd_chunk_size = 300, manifest_digest = [1], dd_trailing = []\<rparr>).
      unat (chunk_enc_size 16 \<lparr>enc_size = 1000, dd_chunk_size = 300, manifest_digest = [1], dd_trailing = []\<rparr> (of_nat i))) = 1000"
  using chunk_sizes_partition [of 16 "\<lparr>enc_size = 1000, dd_chunk_size = 300, manifest_digest = [1], dd_trailing = []\<rparr>"]
  by simp

text \<open>A requested range is accepted exactly when it lies inside the chunk as natural numbers,
  for every 64 bit offset and size a peer may send: the check cannot be passed by wrapping, and
  beyond the last chunk only an empty range at offset 0 passes.\<close>

theorem chunk_holds_range_exact:
  "chunk_holds_range ts d c offset sz \<longleftrightarrow> unat offset + unat sz \<le> unat (chunk_enc_size ts d c)"
proof -
  let ?c = "chunk_enc_size ts d c"
  have "unat (?c - offset) = unat ?c - unat offset" if "offset \<le> ?c" using that by (rule word_sub_unat)
  then show ?thesis by (auto simp: chunk_holds_range_def Let_def word_le_nat_alt)
qed

lemma usable_chunks:
  assumes "usable_data_descriptor ts d" "tag_ok ts"
  shows "1 \<le> unat (chunk_count ts d)" "unat (chunk_count ts d) \<le> 200000" "dd_chunk_size d \<noteq> 0"
    "manifest_digest d \<noteq> []"
proof -
  have *: "1 \<le> chunk_count ts d" "chunk_count ts d \<le> 200000"
    using assms(1) by (auto simp: usable_data_descriptor_def Let_def max_data_chunks_def)
  then show "1 \<le> unat (chunk_count ts d)" "unat (chunk_count ts d) \<le> 200000"
    by (simp_all add: word_le_nat_alt)
  then show "dd_chunk_size d \<noteq> 0" by (auto simp: chunk_count_def)
  show "manifest_digest d \<noteq> []" using assms(1) by (auto simp: usable_data_descriptor_def Let_def)
qed

lemma usable_chunk_above_tag:
  assumes "usable_data_descriptor ts d" "tag_ok ts" "i < chunk_count ts d"
  shows "ts < unat (chunk_enc_size ts d i)"
proof -
  let ?p = "unat (dd_chunk_size d) + ts" and ?n = "chunk_count ts d"
  have n: "1 \<le> unat ?n" "dd_chunk_size d \<noteq> 0" using usable_chunks [OF assms(1,2)] by auto
  then have l: "unat (?n - 1) = unat ?n - 1" "?n - 1 < ?n"
    by (simp_all add: word_sub_unat word_le_nat_alt word_less_nat_alt)
  have ts: "unat (of_nat ts :: u64) = ts" using assms(2) by (intro unat_of_nat_small) simp
  have "of_nat ts < chunk_enc_size ts d (?n - 1)"
    using assms(1) by (auto simp: usable_data_descriptor_def Let_def)
  then have "ts < unat (enc_size d) - (unat ?n - 1) * ?p"
    using unat_chunk_enc_size(1) [OF assms(2) l(2)] l(1) ts by (simp add: word_less_nat_alt)
  moreover have "unat i * ?p \<le> (unat ?n - 1) * ?p" using assms(3) unfolding word_less_nat_alt by (intro mult_le_mono1) linarith
  moreover have "ts < ?p" using n(2) by (simp add: unat_gt_0)
  ultimately show ?thesis using unat_chunk_enc_size(1) [OF assms(2,3)] by linarith
qed

section \<open>Size-class padding\<close>

text \<open>\<open>bit_width n\<close> is the number of bits of \<open>n\<close>; \<open>std::countl_zero\<close> of a word is what is left.\<close>

fun bit_width :: "nat \<Rightarrow> nat" where
  "bit_width n = (if n = 0 then 0 else Suc (bit_width (n div 2)))"

declare bit_width.simps [simp del]

definition countl_zero :: "nat \<Rightarrow> nat \<Rightarrow> nat" where
  "countl_zero width n = width - bit_width n"

definition min_padded_data_size :: u64 where
  "min_padded_data_size = 4096"

definition min_padded_header_size :: u64 where
  "min_padded_header_size = 256"

definition padded_size :: "u64 \<Rightarrow> u64 \<Rightarrow> u64" where
  "padded_size sz flr =
     (if sz > flr
      then let e = 63 - countl_zero 64 (unat sz);
               s = 32 - countl_zero 32 e;
               last_bits = e - s;
               mask = push_bit last_bits 1 - 1
           in (sz + mask) AND NOT mask
      else flr)"

lemma bit_width_bounds: "0 < n \<Longrightarrow> 2 ^ (bit_width n - 1) \<le> n \<and> n < 2 ^ bit_width n \<and> 0 < bit_width n"
proof (induction n rule: bit_width.induct)
  case (1 n)
  show ?case
  proof (cases "n = 1")
    case True then show ?thesis by (simp add: bit_width.simps)
  next
    case False
    let ?w = "bit_width (n div 2)"
    have w: "bit_width n = Suc ?w" using 1 by (simp add: bit_width.simps [of n])
    have ih: "2 ^ (?w - 1) \<le> n div 2" "n div 2 < 2 ^ ?w" "0 < ?w" using 1 False by auto
    then have "(2::nat) ^ ?w = 2 * 2 ^ (?w - 1)" by (cases ?w) auto
    then have "2 ^ ?w \<le> n" "n < 2 * 2 ^ ?w" using ih by linarith+
    then show ?thesis using w by simp
  qed
qed

lemma bit_width_mono: "m \<le> n \<Longrightarrow> bit_width m \<le> bit_width n"
proof (cases "m = 0")
  case False
  assume "m \<le> n"
  then have "2 ^ (bit_width m - 1) \<le> m" "n < 2 ^ bit_width n" using False bit_width_bounds by auto
  then have "(2::nat) ^ (bit_width m - 1) < 2 ^ bit_width n" using \<open>m \<le> n\<close> by linarith
  then have "bit_width m - 1 < bit_width n" using power_less_imp_less_exp [of 2] by simp
  then show ?thesis by simp
qed (simp add: bit_width.simps [of 0])

lemma bit_width_eq: "2 ^ e \<le> n \<Longrightarrow> n < 2 ^ Suc e \<Longrightarrow> bit_width n = Suc e"
proof -
  assume a: "2 ^ e \<le> n" "n < 2 ^ Suc e"
  then have "0 < n" by (metis gr_zeroI not_le zero_less_numeral zero_less_power)
  then have b: "2 ^ (bit_width n - 1) \<le> n" "n < 2 ^ bit_width n" "0 < bit_width n" using bit_width_bounds by auto
  have "(2::nat) ^ e < 2 ^ bit_width n" "(2::nat) ^ (bit_width n - 1) < 2 ^ Suc e" using a b by linarith+
  then have "e < bit_width n" "bit_width n - 1 < Suc e" by (auto intro: power_less_imp_less_exp [of "2::nat"] simp del: power_Suc)
  then show ?thesis by simp
qed

lemma bit_width_63: "bit_width 63 = 6"
  using bit_width_eq [of 5 63] by simp

text \<open>The class width of a size: the number of low bits that are dropped.\<close>

definition class_bits :: "nat \<Rightarrow> nat" where
  "class_bits n = (bit_width n - 1) - bit_width (bit_width n - 1)"

lemma and_not_mask: "(x :: u64) AND NOT (mask k) = x - take_bit k x"
proof -
  have "x AND NOT (mask k) = push_bit k (drop_bit k x)" by (rule bit_word_eqI) (auto simp: bit_simps)
  then show ?thesis using bits_ident [of k x] by (simp add: algebra_simps)
qed

lemma padded_size_nat:
  assumes "flr < sz" "unat sz \<le> 2 ^ 63"
  defines "m \<equiv> 2 ^ class_bits (unat sz)"
  shows "unat (padded_size sz flr) = (unat sz + (m - 1)) div m * m"
proof -
  let ?n = "unat sz"
  have n: "0 < ?n" using assms(1) by (simp add: word_less_nat_alt)
  have bw: "bit_width ?n \<le> 64"
    using bit_width_mono [OF assms(2)] bit_width_eq [of 63 "2 ^ 63"] by simp
  have e: "63 - countl_zero 64 ?n = bit_width ?n - 1" using bw by (simp add: countl_zero_def)
  have "bit_width (bit_width ?n - 1) \<le> 32"
    using bit_width_mono [of "bit_width ?n - 1" 63] bw bit_width_63 by linarith
  then have s: "32 - countl_zero 32 (bit_width ?n - 1) = bit_width (bit_width ?n - 1)" by (simp add: countl_zero_def)
  let ?lb = "class_bits ?n" and ?x = "sz + (2 ^ class_bits ?n - 1)"
  have p: "padded_size sz flr = ?x AND NOT (mask ?lb)"
    using assms(1) unfolding padded_size_def Let_def e s class_bits_def by (simp add: mask_eq_exp_minus_1)
  have lb: "?lb \<le> 62"
  proof (cases "bit_width ?n - 1 = 0")
    case False
    then have "0 < bit_width (bit_width ?n - 1)" using bit_width_bounds by blast
    then show ?thesis using bw by (simp add: class_bits_def)
  qed (simp add: class_bits_def)
  then have "m \<le> 2 ^ 62" unfolding m_def by (rule power_increasing) simp
  then have m: "unat (2 ^ ?lb - 1 :: u64) = m - 1" "m \<le> 2 ^ 62"
    using lb unat_2p [of ?lb, where 'a = 64] by (simp_all add: m_def word_sub_unat word_le_nat_alt)
  then have "unat sz + unat (2 ^ ?lb - 1 :: u64) < 2 ^ 64" using assms(2) by simp
  then have x: "unat ?x = ?n + (m - 1)" using m(1) by (simp add: unat_add_lem [THEN iffD1])
  have "unat (take_bit ?lb ?x) = unat ?x mod m"
    unfolding unsigned_take_bit_eq m_def by (simp only: take_bit_eq_mod)
  moreover have "take_bit ?lb ?x \<le> ?x" by (simp add: word_le_nat_alt unsigned_take_bit_eq)
  ultimately show ?thesis
    unfolding p and_not_mask by (simp add: word_sub_unat x minus_mod_eq_div_mult)
qed

lemma round_up_bounds:
  assumes "0 < m"
  shows "n \<le> (n + (m - 1)) div m * m" "(n + (m - 1)) div m * m < n + (m::nat)"
proof -
  have d: "(n + (m - 1)) div m * m + (n + (m - 1)) mod m = n + (m - 1)" by simp
  have r: "(n + (m - 1)) mod m < m" using assms by simp
  show "n \<le> (n + (m - 1)) div m * m" using d r by linarith
  show "(n + (m - 1)) div m * m < n + m" using d assms by linarith
qed

lemma class_bits_share: "0 < n \<Longrightarrow> 2 ^ class_bits n * 2 ^ bit_width (bit_width n - 1) \<le> n"
proof -
  assume n: "0 < n"
  let ?e = "bit_width n - 1"
  have "bit_width ?e \<le> ?e"
  proof (cases "?e = 0")
    case False
    then have "2 ^ (bit_width ?e - 1) \<le> ?e" "0 < bit_width ?e" using bit_width_bounds by blast+
    moreover have "bit_width ?e - 1 < 2 ^ (bit_width ?e - 1)" by (rule less_exp)
    ultimately show ?thesis by linarith
  qed (simp add: bit_width.simps [of 0])
  then have "(2::nat) ^ class_bits n * 2 ^ bit_width ?e = 2 ^ ?e" by (simp add: class_bits_def flip: power_add)
  then show ?thesis using bit_width_bounds [OF n] by simp
qed

lemma padding_overhead:
  assumes "flr < sz" "unat sz \<le> 2 ^ 63"
  shows "unat sz \<le> unat (padded_size sz flr)"
    and "(unat (padded_size sz flr) - unat sz) * 2 ^ bit_width (bit_width (unat sz) - 1) \<le> unat sz"
proof -
  let ?m = "2 ^ class_bits (unat sz)" and ?s = "bit_width (bit_width (unat sz) - 1)"
  have n: "0 < unat sz" using assms(1) by (simp add: word_less_nat_alt)
  note b = round_up_bounds [of ?m "unat sz"]
  show "unat sz \<le> unat (padded_size sz flr)" using b(1) by (simp add: padded_size_nat [OF assms])
  have "unat (padded_size sz flr) - unat sz \<le> ?m" using b(2) by (simp add: padded_size_nat [OF assms])
  then show "(unat (padded_size sz flr) - unat sz) * 2 ^ ?s \<le> unat sz"
    using class_bits_share [OF n] by (meson le_trans mult_le_mono1)
qed

text \<open>Padding never loses content and hides a size at a small price: up to \<open>2 ^ 63\<close> octets the
  padded size holds the content and the floor, and above the floor of a record header it is
  larger by at most one sixteenth.\<close>

theorem padded_size_bounds:
  assumes "256 \<le> unat flr" "unat sz \<le> 2 ^ 63"
  shows "sz \<le> padded_size sz flr \<and> flr \<le> padded_size sz flr
    \<and> (if sz \<le> flr then padded_size sz flr = flr else 16 * (unat (padded_size sz flr) - unat sz) \<le> unat sz)"
proof (cases "flr < sz")
  case True
  let ?n = "unat sz"
  have n: "256 \<le> ?n" using assms(1) True by (simp add: word_less_nat_alt)
  then have "9 \<le> bit_width ?n" using bit_width_mono [OF n] bit_width_eq [of 8 256] by simp
  then have "8 \<le> bit_width ?n - 1" by simp
  from bit_width_mono [OF this] have "4 \<le> bit_width (bit_width ?n - 1)" using bit_width_eq [of 3 8] by simp
  then have "(2::nat) ^ 4 \<le> 2 ^ bit_width (bit_width ?n - 1)" by (rule power_increasing) simp
  then have "(unat (padded_size sz flr) - ?n) * 2 ^ 4 \<le> ?n"
    using padding_overhead(2) [OF True assms(2)] by (meson le_trans mult_le_mono2)
  then show ?thesis using True padding_overhead(1) [OF True assms(2)]
    by (simp add: word_le_nat_alt word_less_nat_alt mult.commute)
qed (simp add: padded_size_def)

theorem padded_size_bounds_witness:
  "padded_size 1000 256 \<ge> 1000 \<and> 16 * (unat (padded_size 1000 256) - 1000) \<le> 1000"
  using padded_size_bounds [of 256 1000] by simp

section \<open>The manifest\<close>

record data_manifest =
  chunk_digests :: "digest list"
  dm_trailing :: octets

definition manifest_digest_of :: "crypto \<Rightarrow> data_manifest \<Rightarrow> digest" where
  "manifest_digest_of cr m = cr_hash cr (concat (chunk_digests m))"

definition manifest_matches :: "crypto \<Rightarrow> nat \<Rightarrow> data_descriptor \<Rightarrow> data_manifest \<Rightarrow> bool" where
  "manifest_matches cr tag_size d m =
     (of_nat (length (chunk_digests m)) = chunk_count tag_size d \<and> manifest_digest_of cr m = manifest_digest d)"

definition verify_chunk :: "crypto \<Rightarrow> data_manifest \<Rightarrow> u64 \<Rightarrow> octets \<Rightarrow> bool" where
  "verify_chunk cr m chunk_no encrypted =
     (unat chunk_no < length (chunk_digests m) \<and> chunk_digests m ! unat chunk_no = chunk_digest cr encrypted)"

definition manifest_octets :: "data_manifest \<Rightarrow> octets" where
  "manifest_octets m = concat (chunk_digests m)"

fun split_digests :: "nat \<Rightarrow> octets \<Rightarrow> digest list" where
  "split_digests sz xs = (if xs = [] \<or> sz = 0 then [] else take sz xs # split_digests sz (drop sz xs))"

declare split_digests.simps [simp del]

definition manifest_from_octets :: "nat \<Rightarrow> octets \<Rightarrow> data_manifest option" where
  "manifest_from_octets hash_digest_size octs =
     (if length octs mod hash_digest_size = 0
      then Some \<lparr>chunk_digests = split_digests hash_digest_size octs, dm_trailing = []\<rparr>
      else None)"

lemma split_digests_Nil [simp]: "split_digests sz [] = []"
  by (simp add: split_digests.simps)

lemma split_digests_concat:
  "0 < sz \<Longrightarrow> \<forall>d\<in>set ds. length d = sz \<Longrightarrow> split_digests sz (concat ds) = ds"
  by (induction ds) (auto simp: split_digests.simps)

lemma concat_split_digests: "0 < sz \<Longrightarrow> concat (split_digests sz xs) = xs"
proof (induction sz xs rule: split_digests.induct)
  case (1 sz xs)
  then show ?case by (subst split_digests.simps) auto
qed

lemma length_split_digests: "0 < sz \<Longrightarrow> length xs = sz * n \<Longrightarrow> \<forall>d\<in>set (split_digests sz xs). length d = sz"
proof (induction n arbitrary: xs)
  case (Suc n)
  then have "xs \<noteq> []" by auto
  then show ?case using Suc.IH [of "drop sz xs"] Suc.prems by (subst split_digests.simps) auto
qed simp

lemma length_concat_same: "\<forall>d\<in>set ds. length d = n \<Longrightarrow> length (concat ds) = length ds * n"
  by (induction ds) auto

text \<open>The blob a store keeps of a manifest is the manifest: a manifest of whole digests is read
  back from its octets, and whatever blob is read as a manifest is that manifest's octets, made
  of whole digests.\<close>

theorem manifest_octets_roundtrip:
  assumes "0 < hs"
  shows "manifest_from_octets hs b = Some m \<longleftrightarrow>
    manifest_octets m = b \<and> (\<forall>d\<in>set (chunk_digests m). length d = hs) \<and> dm_trailing m = []"
proof
  assume *: "manifest_from_octets hs b = Some m"
  then have "length b mod hs = 0" and m: "m = \<lparr>chunk_digests = split_digests hs b, dm_trailing = []\<rparr>"
    by (auto simp: manifest_from_octets_def split: if_splits)
  then obtain n where "length b = hs * n" by (metis mod_0_imp_dvd dvdE)
  then show "manifest_octets m = b \<and> (\<forall>d\<in>set (chunk_digests m). length d = hs) \<and> dm_trailing m = []"
    using m length_split_digests [OF assms] concat_split_digests [OF assms] by (simp add: manifest_octets_def)
next
  assume *: "manifest_octets m = b \<and> (\<forall>d\<in>set (chunk_digests m). length d = hs) \<and> dm_trailing m = []"
  then have "length b mod hs = 0" using length_concat_same [of "chunk_digests m" hs] by (auto simp: manifest_octets_def)
  moreover have "split_digests hs b = chunk_digests m"
    using * split_digests_concat [OF assms, of "chunk_digests m"] by (simp add: manifest_octets_def)
  ultimately show "manifest_from_octets hs b = Some m"
    using * by (simp add: manifest_from_octets_def)
qed

theorem manifest_octets_roundtrip_witness:
  "manifest_from_octets 2 [1, 2, 3, 4] = Some \<lparr>chunk_digests = [[1, 2], [3, 4]], dm_trailing = []\<rparr>"
  using manifest_octets_roundtrip [of 2 "[1, 2, 3, 4]" "\<lparr>chunk_digests = [[1, 2], [3, 4]], dm_trailing = []\<rparr>"]
  by (simp add: manifest_octets_def)

section \<open>Data tickets\<close>

datatype data_right = right_upload | right_download | right_replicate

fun data_right_value :: "data_right \<Rightarrow> u32" where
  "data_right_value right_upload = 1"
| "data_right_value right_download = 2"
| "data_right_value right_replicate = 3"

record data_endpoint =
  ep_host :: string
  ep_port :: "16 word"
  ep_key :: public_key_id
  ep_region :: string
  ep_trailing :: octets

text \<open>A time is kept in whole seconds since the epoch, the resolution the ticket is signed with.\<close>

type_synonym time_point = int

record data_ticket =
  tk_storage_id :: storage_id
  tk_descriptor :: data_descriptor
  tk_member :: public_key_id
  tk_right :: u32
  tk_expiry :: time_point
  tk_signature :: signature
  tk_trailing :: octets

definition no_signature :: signature where
  "no_signature = \<lparr>sig_issuer = [], sig_data = []\<rparr>"

definition data_ticket_of :: "storage_id \<Rightarrow> data_descriptor \<Rightarrow> public_key_id \<Rightarrow> data_right \<Rightarrow> time_point \<Rightarrow> data_ticket" where
  "data_ticket_of sid d member right expiry =
     \<lparr>tk_storage_id = sid, tk_descriptor = d, tk_member = member, tk_right = data_right_value right,
      tk_expiry = expiry, tk_signature = no_signature, tk_trailing = []\<rparr>"

definition ticket_octets :: "data_ticket \<Rightarrow> octets" where
  "ticket_octets t =
     buf_u64 (of_int (tk_expiry t)) (buf_u32 (tk_right t) (buf_sized (tk_member t)
       (buf_u32 (dd_chunk_size (tk_descriptor t)) (buf_u64 (enc_size (tk_descriptor t))
         (buf_sized (manifest_digest (tk_descriptor t)) (buf_sized (tk_storage_id t)
           (digest_buffer ''spsync-data-ticket'')))))))"

definition ticket_digest :: "crypto \<Rightarrow> data_ticket \<Rightarrow> digest" where
  "ticket_digest cr t = cr_hash cr (ticket_octets t)"

definition ticket_sign :: "crypto \<Rightarrow> private_key \<Rightarrow> data_ticket \<Rightarrow> data_ticket" where
  "ticket_sign cr key t = t\<lparr>tk_signature := key_sign key (ticket_digest cr t)\<rparr>"

definition ticket_verify :: "crypto \<Rightarrow> key_access \<Rightarrow> time_point \<Rightarrow> data_ticket \<Rightarrow> error option" where
  "ticket_verify cr keys now t =
     (if \<not> cr_sig_valid cr (tk_signature t) then Some (General general_invalid_state)
      else case keys (sig_issuer (tk_signature t)) of
          None \<Rightarrow> Some (General no_such_key)
        | Some key \<Rightarrow>
            (if \<not> cr_key_verify cr key (tk_signature t) (ticket_digest cr t)
             then Some (General signature_not_authentic)
             else if tk_expiry t \<le> now then Some (General general_timeout)
             else None))"

lemma ticket_verify_None_iff:
  "ticket_verify cr keys now t = None \<longleftrightarrow>
     cr_sig_valid cr (tk_signature t) \<and> now < tk_expiry t
     \<and> (\<exists>k. keys (sig_issuer (tk_signature t)) = Some k
          \<and> cr_key_verify cr k (tk_signature t) (ticket_digest cr t))"
  by (auto simp: ticket_verify_def split: option.splits if_splits)

text \<open>The sizes of the fields fit their length prefixes.\<close>

definition ticket_sized :: "data_ticket \<Rightarrow> bool" where
  "ticket_sized t = (fits_u32 (tk_storage_id t) \<and> fits_u32 (manifest_digest (tk_descriptor t))
     \<and> fits_u32 (tk_member t))"

lemma ticket_octets_inj:
  assumes "ticket_octets t = ticket_octets u" "ticket_sized t" "ticket_sized u"
  shows "tk_storage_id t = tk_storage_id u"
    and "manifest_digest (tk_descriptor t) = manifest_digest (tk_descriptor u)"
    and "enc_size (tk_descriptor t) = enc_size (tk_descriptor u)"
    and "dd_chunk_size (tk_descriptor t) = dd_chunk_size (tk_descriptor u)"
    and "tk_member t = tk_member u" "tk_right t = tk_right u"
    and "(of_int (tk_expiry t) :: u64) = of_int (tk_expiry u)"
  using assms by (simp_all add: ticket_octets_def buf_eqs ticket_sized_def sized_octets_append_iff
      sized_octets_iff)

end
