(* ===== verification/User_Merge.thy ===== *)
theory User_Merge
  imports Prelude
begin

text \<open>
  Group membership: the access of users (util/user.hpp), the set of accesses or changes of them a
  user change record carries (core/users.cpp), and the merge of user changes into the current
  membership (core/user_merge.cpp).

  A user identifier is its public key identifier, whose order belongs to the base library: it is
  the type variable \<open>'k\<close> with some linear order.
\<close>

section \<open>Users\<close>

type_synonym access_type = u32

definition no_access :: access_type where "no_access = 0"
definition data_read_access :: access_type where "data_read_access = 1"
definition data_write_access :: access_type where "data_write_access = 2"
definition user_management_access :: access_type where "user_management_access = 4"
definition data_access :: access_type where "data_access = or data_read_access data_write_access"
definition all_access :: access_type where "all_access = or data_access user_management_access"

record 'k user_access =
  ua_user :: 'k
  ua_access :: access_type

datatype users_change_mode = full_mode | delta_mode

record 'k users =
  us_mode :: users_change_mode
  us_users :: "'k user_access list"
  us_trailing :: octets

definition users_of_mode :: "users_change_mode \<Rightarrow> 'k users" where
  "users_of_mode mode = \<lparr>us_mode = mode, us_users = [], us_trailing = []\<rparr>"

fun replace_user :: "'k user_access \<Rightarrow> 'k user_access list \<Rightarrow> 'k user_access list" where
  "replace_user a [] = [a]"
| "replace_user a (b # bs) = (if ua_user a = ua_user b then a # bs else b # replace_user a bs)"

fun erase_user :: "'k \<Rightarrow> 'k user_access list \<Rightarrow> 'k user_access list" where
  "erase_user k [] = []"
| "erase_user k (b # bs) = (if k = ua_user b then bs else b # erase_user k bs)"

definition users_add :: "'k user_access \<Rightarrow> 'k users \<Rightarrow> 'k users" where
  "users_add a u = u\<lparr>us_users := replace_user a (us_users u)\<rparr>"

definition users_remove :: "'k \<Rightarrow> 'k users \<Rightarrow> 'k users" where
  "users_remove k u =
     (if us_mode u = delta_mode
      then u\<lparr>us_users := replace_user \<lparr>ua_user = k, ua_access = no_access\<rparr> (us_users u)\<rparr>
      else u\<lparr>us_users := erase_user k (us_users u)\<rparr>)"

definition users_empty :: "'k users \<Rightarrow> bool" where
  "users_empty u = (us_users u = [])"

section \<open>The merge\<close>

record 'k user_change_entry =
  ce_change :: "'k users"
  ce_tag :: record_tag
  ce_parent_special :: record_tag

type_synonym special_parents = "(record_tag \<times> record_tag) list"

fun saw_walk :: "nat \<Rightarrow> record_tag \<Rightarrow> record_tag \<Rightarrow> special_parents \<Rightarrow> bool" where
  "saw_walk 0 ancestor step ps = False"
| "saw_walk (Suc guard) ancestor step ps =
     (if step = [] then False
      else if step = ancestor then True
      else saw_walk guard ancestor (case map_of ps step of Some p \<Rightarrow> p | None \<Rightarrow> []) ps)"

definition saw :: "record_tag \<Rightarrow> record_tag \<Rightarrow> special_parents \<Rightarrow> bool" where
  "saw ancestor from_parent ps = saw_walk (length ps + 1) ancestor from_parent ps"

record 'k member_state =
  ms_access :: "'k user_access"
  ms_tag :: record_tag
  ms_parent_special :: record_tag

record removal =
  rm_tag :: record_tag
  rm_parent_special :: record_tag

record 'k fold_state =
  fs_members :: "('k \<times> 'k member_state) list"
  fs_removals :: "('k \<times> removal list) list"

definition fold_start :: "'k fold_state" where
  "fold_start = \<lparr>fs_members = [], fs_removals = []\<rparr>"

definition apply_removal ::
  "'k::linorder \<Rightarrow> 'k user_change_entry \<Rightarrow> special_parents \<Rightarrow> 'k fold_state \<Rightarrow> 'k fold_state" where
  "apply_removal kid entry ps st =
     (let st1 = (case map_of (fs_members st) kid of
           Some m \<Rightarrow> (if \<not> saw (ce_tag entry) (ms_parent_special m) ps
                     then st\<lparr>fs_members := map_del kid (fs_members st)\<rparr> else st)
         | None \<Rightarrow> st)
      in st1\<lparr>fs_removals := map_put kid
            ((case map_of (fs_removals st1) kid of Some rs \<Rightarrow> rs | None \<Rightarrow> [])
              @ [\<lparr>rm_tag = ce_tag entry, rm_parent_special = ce_parent_special entry\<rparr>])
            (fs_removals st1)\<rparr>)"

definition update_defeated ::
  "'k::linorder \<Rightarrow> 'k user_change_entry \<Rightarrow> special_parents \<Rightarrow> 'k fold_state \<Rightarrow> bool" where
  "update_defeated kid entry ps st =
     (case map_of (fs_removals st) kid of
        Some rs \<Rightarrow> fold (\<lambda>r d. d \<or> \<not> saw (rm_tag r) (ce_parent_special entry) ps) rs False
      | None \<Rightarrow> False)"

definition apply_update ::
  "'k::linorder \<Rightarrow> 'k user_access \<Rightarrow> 'k user_change_entry \<Rightarrow> special_parents \<Rightarrow> 'k fold_state \<Rightarrow> 'k fold_state" where
  "apply_update kid access entry ps st =
     (if update_defeated kid entry ps st then st
      else let winner = (case map_of (fs_members st) kid of
                 None \<Rightarrow> True
               | Some m \<Rightarrow>
                   (if saw (ms_tag m) (ce_parent_special entry) ps then True
                    else if \<not> saw (ce_tag entry) (ms_parent_special m) ps then ce_tag entry < ms_tag m
                    else False))
           in if winner
              then st\<lparr>fs_members := map_put kid \<lparr>ms_access = access, ms_tag = ce_tag entry,
                     ms_parent_special = ce_parent_special entry\<rparr> (fs_members st)\<rparr>
              else st)"

definition apply_access ::
  "'k::linorder user_change_entry \<Rightarrow> special_parents \<Rightarrow> 'k user_access \<Rightarrow> 'k fold_state \<Rightarrow> 'k fold_state" where
  "apply_access entry ps ua st =
     (let kid = ua_user ua
      in if ua_access ua = no_access then apply_removal kid entry ps st
         else apply_update kid ua entry ps st)"

definition apply_entry :: "special_parents \<Rightarrow> 'k::linorder user_change_entry \<Rightarrow> 'k fold_state \<Rightarrow> 'k fold_state" where
  "apply_entry ps entry st =
     fold (apply_access entry ps) (us_users (ce_change entry))
       (if us_mode (ce_change entry) = full_mode then fold_start else st)"

definition merge_user_changes ::
  "'k::linorder user_change_entry list \<Rightarrow> special_parents \<Rightarrow> 'k user_access list" where
  "merge_user_changes entries ps =
     map (\<lambda>(kid, m). ms_access m) (fs_members (fold (apply_entry ps) entries fold_start))"

section \<open>Users\<close>

definition users_unique :: "'k users \<Rightarrow> bool" where
  "users_unique u = distinct (map ua_user (us_users u))"

definition access_of :: "'k users \<Rightarrow> 'k \<Rightarrow> access_type option" where
  "access_of u k = map_of (map (\<lambda>a. (ua_user a, ua_access a)) (us_users u)) k"

lemma replace_user_keys: "set (map ua_user (replace_user a as)) = insert (ua_user a) (set (map ua_user as))"
  by (induction as) auto

lemma erase_user_keys: "distinct (map ua_user as) \<Longrightarrow> set (map ua_user (erase_user k as)) = set (map ua_user as) - {k}"
  by (induction as) auto

lemma replace_user_distinct: "distinct (map ua_user as) \<Longrightarrow> distinct (map ua_user (replace_user a as))"
  using replace_user_keys [of a] by (induction as) (auto simp del: set_map)

lemma erase_user_distinct: "distinct (map ua_user as) \<Longrightarrow> distinct (map ua_user (erase_user k as))"
  by (induction as) (auto dest!: erase_user_keys [of _ k] simp del: set_map)

lemma replace_user_access:
  "map_of (map (\<lambda>a. (ua_user a, ua_access a)) (replace_user a as)) k
   = (if k = ua_user a then Some (ua_access a) else map_of (map (\<lambda>a. (ua_user a, ua_access a)) as) k)"
  by (induction as) auto

lemma erase_user_access:
  "distinct (map ua_user as) \<Longrightarrow> map_of (map (\<lambda>a. (ua_user a, ua_access a)) (erase_user k' as)) k
   = (if k = k' then None else map_of (map (\<lambda>a. (ua_user a, ua_access a)) as) k)"
  by (induction as) (auto simp: map_of_eq_None_iff image_image)

text \<open>A set of users keeps one access per user under additions and removals: an addition
  sets exactly that user's access; a removal takes the user out of a full set and records the
  loss of access in a change of one, and neither touches anyone else.\<close>

theorem users_operations:
  assumes "users_unique u"
  shows "users_unique (users_add a u) \<and> users_unique (users_remove k u)
    \<and> access_of (users_add a u) = (access_of u)(ua_user a := Some (ua_access a))
    \<and> access_of (users_remove k u) = (access_of u)(k := (if us_mode u = delta_mode then Some no_access else None))"
  using assms unfolding users_unique_def users_add_def users_remove_def access_of_def
  by (intro conjI ext) (simp_all add: replace_user_distinct erase_user_distinct replace_user_access erase_user_access)

theorem users_operations_witness:
  "access_of (users_remove 2 (users_add \<lparr>ua_user = 2 :: nat, ua_access = all_access\<rparr> (users_of_mode full_mode))) 2 = None"
proof -
  have "users_unique (users_of_mode full_mode :: nat users)" by (simp add: users_unique_def users_of_mode_def)
  then have "users_unique (users_add \<lparr>ua_user = 2 :: nat, ua_access = all_access\<rparr> (users_of_mode full_mode))"
    by (rule conjunct1 [OF users_operations])
  from users_operations [OF this, of _ 2] show ?thesis by (simp add: users_add_def users_of_mode_def)
qed

section \<open>The causal past\<close>

text \<open>One step to the causal parent, and the tags a walk from a parent visits before it ends.\<close>

definition special_parent :: "special_parents \<Rightarrow> record_tag \<Rightarrow> record_tag" where
  "special_parent ps s = (case map_of ps s of Some p \<Rightarrow> p | None \<Rightarrow> [])"

definition walks_to :: "special_parents \<Rightarrow> record_tag \<Rightarrow> record_tag \<Rightarrow> nat \<Rightarrow> bool" where
  "walks_to ps p a i = ((special_parent ps ^^ i) p = a \<and> (\<forall>j\<le>i. (special_parent ps ^^ j) p \<noteq> []))"

definition causal_past :: "special_parents \<Rightarrow> record_tag \<Rightarrow> record_tag set" where
  "causal_past ps p = {a. \<exists>i. walks_to ps p a i}"

lemma all_le_Suc: "(\<forall>j\<le>Suc i. P j) \<longleftrightarrow> P 0 \<and> (\<forall>j\<le>i. P (Suc j))"
  by (metis Suc_le_D Suc_le_mono not0_implies_Suc zero_le)

lemma walks_to_0: "walks_to ps p a 0 \<longleftrightarrow> p = a \<and> p \<noteq> []"
  by (simp add: walks_to_def)

lemma walks_to_Suc: "walks_to ps p a (Suc i) \<longleftrightarrow> p \<noteq> [] \<and> walks_to ps (special_parent ps p) a i"
  unfolding walks_to_def all_le_Suc funpow_Suc_right by auto

lemma saw_walk_iff: "saw_walk g a p ps \<longleftrightarrow> (\<exists>i<g. walks_to ps p a i)"
proof (induction g arbitrary: p)
  case (Suc g)
  have "(\<exists>i<Suc g. walks_to ps p a i) \<longleftrightarrow>
    p \<noteq> [] \<and> (p = a \<or> (\<exists>i<g. walks_to ps (special_parent ps p) a i))"
    by (auto simp: Ex_less_Suc2 walks_to_0 walks_to_Suc)
  then show ?case using Suc.IH [of "special_parent ps p"] by (auto simp: special_parent_def)
qed simp

text \<open>
  The walk's guard is large enough: the shortest walk to an ancestor visits each tag once, and
  every tag it leaves has an entry in the map.
\<close>

lemma shortest_walk:
  assumes "walks_to ps p a i" "\<And>j. j < i \<Longrightarrow> \<not> walks_to ps p a j"
  shows "i \<le> length ps"
proof -
  let ?f = "\<lambda>j. (special_parent ps ^^ j) p"
  have inj: "inj_on ?f {..<i}"
  proof (rule inj_onI, rule ccontr)
    fix x y assume xy: "x \<in> {..<i}" "y \<in> {..<i}" "?f x = ?f y" "x \<noteq> y"
    define m n where "m = min x y" and "n = max x y"
    have mn: "m < n" "n < i" "?f m = ?f n" using xy by (auto simp: m_def n_def min_def max_def)
    have "?f (m + (i - n)) = ?f i"
    proof -
      have "?f (m + (i - n)) = (special_parent ps ^^ (i - n)) (?f m)" 
        by (simp only: add.commute [of m] funpow_add comp_apply)
      also have "\<dots> = (special_parent ps ^^ (i - n)) (?f n)" using mn(3) by simp
      also have "\<dots> = ?f (i - n + n)" by (simp only: funpow_add comp_apply)
      finally show ?thesis using mn(2) by simp
    qed
    then have "walks_to ps p a (m + (i - n))" using assms(1) mn by (auto simp: walks_to_def)
    moreover have "m + (i - n) < i" using mn by linarith
    ultimately show False using assms(2) by blast
  qed
  have "?f j \<in> fst ` set ps" if "j < i" for j
  proof -
    have "special_parent ps (?f j) = ?f (Suc j)" by simp
    moreover have "?f (Suc j) \<noteq> []" using assms(1) that by (auto simp: walks_to_def simp del: funpow.simps)
    ultimately have "map_of ps (?f j) \<noteq> None" by (auto simp: special_parent_def split: option.splits)
    then show ?thesis by (simp add: map_of_eq_None_iff)
  qed
  then have "card {..<i} \<le> card (fst ` set ps)" by (intro card_inj_on_le [OF inj]) auto
  also have "\<dots> \<le> length ps" by (meson card_image_le card_length finite_set le_trans)
  finally show ?thesis by simp
qed

text \<open>What a record saw is its causal past: the guarded walk over the special records finds
  an ancestor exactly when some number of steps to the causal parent reaches it without meeting
  an empty tag; the guard never cuts a walk short, cycles in a malformed map included.\<close>

theorem saw_is_causal_past: "saw a p ps \<longleftrightarrow> a \<in> causal_past ps p"
proof
  assume "a \<in> causal_past ps p"
  then obtain i where i: "walks_to ps p a i" by (auto simp: causal_past_def)
  define n where "n = (LEAST i. walks_to ps p a i)"
  have "walks_to ps p a n" unfolding n_def using i by (rule LeastI)
  moreover have "\<not> walks_to ps p a j" if "j < n" for j using that not_less_Least unfolding n_def by blast
  ultimately have "n \<le> length ps" by (intro shortest_walk)
  then show "saw a p ps" using \<open>walks_to ps p a n\<close> by (auto simp: saw_def saw_walk_iff intro!: exI [of _ n])
qed (auto simp: saw_def saw_walk_iff causal_past_def)

section \<open>The members the merge derives\<close>

text \<open>
  An entry acts on the fold through its accesses one by one; an operation is an access with its
  entry. The state after a list of operations: the member of a user is an update among them that
  saw every removal of the user among them.
\<close>

type_synonym 'k change_op = "'k user_change_entry \<times> 'k user_access"

definition ops_of :: "'k user_change_entry list \<Rightarrow> 'k change_op list" where
  "ops_of es = concat (map (\<lambda>e. map (\<lambda>a. (e, a)) (us_users (ce_change e))) es)"

definition op_removes :: "'k \<Rightarrow> 'k change_op \<Rightarrow> bool" where
  "op_removes k x = (ua_user (snd x) = k \<and> ua_access (snd x) = no_access)"

definition op_updates :: "'k \<Rightarrow> 'k change_op \<Rightarrow> bool" where
  "op_updates k x = (ua_user (snd x) = k \<and> ua_access (snd x) \<noteq> no_access)"

definition op_saw :: "special_parents \<Rightarrow> 'k change_op \<Rightarrow> 'k change_op \<Rightarrow> bool" where
  "op_saw ps x y = saw (ce_tag (fst y)) (ce_parent_special (fst x)) ps"

definition effective :: "special_parents \<Rightarrow> 'k \<Rightarrow> 'k change_op list \<Rightarrow> 'k change_op \<Rightarrow> bool" where
  "effective ps k xs u = (op_updates k u \<and> (\<forall>r\<in>set xs. op_removes k r \<longrightarrow> op_saw ps u r))"

definition run_ops :: "special_parents \<Rightarrow> 'k::linorder change_op list \<Rightarrow> 'k fold_state" where
  "run_ops ps xs = fold (\<lambda>x. apply_access (fst x) ps (snd x)) xs fold_start"

definition delta_only :: "'k user_change_entry list \<Rightarrow> bool" where
  "delta_only es = (\<forall>e\<in>set es. us_mode (ce_change e) = delta_mode)"

lemma run_ops_snoc: "run_ops ps (xs @ [x]) = apply_access (fst x) ps (snd x) (run_ops ps xs)"
  by (simp add: run_ops_def)

lemma fold_entries_ops:
  "delta_only es \<Longrightarrow> fold (apply_entry ps) es st = fold (\<lambda>x. apply_access (fst x) ps (snd x)) (ops_of es) st"
proof (induction es arbitrary: st)
  case (Cons e es)
  have "fold (\<lambda>x. apply_access (fst x) ps (snd x)) (map (\<lambda>a. (e, a)) as) st = fold (apply_access e ps) as st" for as st
    by (induction as arbitrary: st) auto
  then show ?case using Cons by (simp add: delta_only_def ops_of_def apply_entry_def)
qed (simp add: ops_of_def)

lemma merge_is_run_ops:
  "delta_only es \<Longrightarrow> merge_user_changes es ps = map (\<lambda>(k, m). ms_access m) (fs_members (run_ops ps (ops_of es)))"
  by (simp add: merge_user_changes_def run_ops_def fold_entries_ops)

lemma update_defeated_iff:
  "update_defeated k e ps st \<longleftrightarrow>
    (\<exists>rs r. map_of (fs_removals st) k = Some rs \<and> r \<in> set rs \<and> \<not> saw (rm_tag r) (ce_parent_special e) ps)"
proof -
  have "fold (\<lambda>r d. d \<or> \<not> P r) rs d \<longleftrightarrow> d \<or> (\<exists>r\<in>set rs. \<not> P r)" for P and rs :: "removal list" and d
    by (induction rs arbitrary: d) auto
  then show ?thesis by (auto simp: update_defeated_def split: option.splits)
qed

text \<open>The recorded removals of a user are those among the operations.\<close>

definition removals_of :: "'k::linorder fold_state \<Rightarrow> 'k \<Rightarrow> removal list" where
  "removals_of st k = (case map_of (fs_removals st) k of Some rs \<Rightarrow> rs | None \<Rightarrow> [])"

definition op_removal :: "'k change_op \<Rightarrow> removal" where
  "op_removal x = \<lparr>rm_tag = ce_tag (fst x), rm_parent_special = ce_parent_special (fst x)\<rparr>"

definition maps_sorted :: "'k::linorder fold_state \<Rightarrow> bool" where
  "maps_sorted st = (keys_sorted (fs_members st) \<and> keys_sorted (fs_removals st))"

lemma defeated_removals:
  "update_defeated k e ps st \<longleftrightarrow> (\<exists>r\<in>set (removals_of st k). \<not> saw (rm_tag r) (ce_parent_special e) ps)"
  by (cases "map_of (fs_removals st) k") (auto simp: update_defeated_iff removals_of_def)

lemma apply_access_sorted: "maps_sorted st \<Longrightarrow> maps_sorted (apply_access e ps a st)"
  by (auto simp: maps_sorted_def apply_access_def apply_removal_def apply_update_def Let_def
      keys_sorted_put keys_sorted_del split: option.splits)

lemma run_ops_sorted: "maps_sorted (run_ops ps xs)"
  by (induction xs rule: rev_induct)
    (auto simp: run_ops_snoc apply_access_sorted, simp add: run_ops_def fold_start_def maps_sorted_def keys_sorted_Nil)

lemma removals_apply:
  assumes "maps_sorted st"
  shows "removals_of (apply_access (fst x) ps (snd x) st) k =
    removals_of st k @ (if op_removes k x then [op_removal x] else [])"
  using assms by (auto simp: apply_access_def apply_removal_def apply_update_def Let_def removals_of_def
      op_removes_def op_removal_def maps_sorted_def map_of_put split: option.splits)

lemma removals_run: "removals_of (run_ops ps xs) k = map op_removal (filter (op_removes k) xs)"
proof (induction xs rule: rev_induct)
  case (snoc x xs)
  then show ?case using removals_apply [OF run_ops_sorted, of x ps ps xs k] by (simp add: run_ops_snoc)
qed (simp add: run_ops_def fold_start_def removals_of_def)

definition op_member :: "'k change_op \<Rightarrow> 'k member_state" where
  "op_member x = \<lparr>ms_access = snd x, ms_tag = ce_tag (fst x), ms_parent_special = ce_parent_special (fst x)\<rparr>"

text \<open>What one operation does to the member of a user.\<close>

lemma member_other:
  assumes "maps_sorted st" "ua_user (snd x) \<noteq> k"
  shows "map_of (fs_members (apply_access (fst x) ps (snd x) st)) k = map_of (fs_members st) k"
  using assms by (auto simp: apply_access_def apply_removal_def apply_update_def Let_def maps_sorted_def
      map_of_put map_of_del split: option.splits)

lemma member_removed:
  assumes "maps_sorted st" "op_removes k x"
  shows "map_of (fs_members (apply_access (fst x) ps (snd x) st)) k =
    (case map_of (fs_members st) k of
       Some m \<Rightarrow> if saw (ce_tag (fst x)) (ms_parent_special m) ps then Some m else None | None \<Rightarrow> None)"
  using assms by (auto simp: apply_access_def apply_removal_def Let_def op_removes_def map_of_del split: option.splits)

lemma member_updated:
  assumes "maps_sorted st" "op_updates k x"
  shows "map_of (fs_members (apply_access (fst x) ps (snd x) st)) k =
    (if update_defeated k (fst x) ps st then map_of (fs_members st) k
     else case map_of (fs_members st) k of
         None \<Rightarrow> Some (op_member x)
       | Some m \<Rightarrow> if saw (ms_tag m) (ce_parent_special (fst x)) ps
             \<or> \<not> saw (ce_tag (fst x)) (ms_parent_special m) ps \<and> ce_tag (fst x) < ms_tag m
           then Some (op_member x) else Some m)"
  using assms by (auto simp: apply_access_def apply_update_def Let_def op_updates_def op_member_def
      maps_sorted_def map_of_put split: option.splits)

lemma op_cases:
  obtains "ua_user (snd x) \<noteq> k" | "op_removes k x" | "op_updates k x"
  by (auto simp: op_removes_def op_updates_def)

lemma effective_snoc:
  "effective ps k (xs @ [x]) u \<longleftrightarrow> effective ps k xs u \<and> (op_removes k x \<longrightarrow> op_saw ps u x)"
  by (auto simp: effective_def)

lemma not_defeated_effective:
  "op_updates k x \<Longrightarrow> \<not> update_defeated k (fst x) ps (run_ops ps xs) \<longleftrightarrow> effective ps k xs x"
  by (auto simp: defeated_removals removals_run effective_def op_saw_def op_removal_def)

lemma op_exclusive: "op_updates k x \<Longrightarrow> \<not> op_removes k x"
  by (simp add: op_updates_def op_removes_def)

lemma member_is_effective:
  "map_of (fs_members (run_ops ps xs)) k = Some m \<Longrightarrow> \<exists>u\<in>set xs. effective ps k xs u \<and> m = op_member u"
proof (induction xs arbitrary: m rule: rev_induct)
  case (snoc x xs)
  note sorted = run_ops_sorted [of ps xs]
  show ?case
  proof (cases rule: op_cases [of x k])
    case 1
    then show ?thesis using snoc by (auto simp: run_ops_snoc member_other [OF sorted] effective_snoc op_removes_def)
  next
    case 2
    then show ?thesis using snoc
      by (auto simp: run_ops_snoc member_removed [OF sorted] effective_snoc op_saw_def op_member_def
          split: option.splits if_splits)
  next
    case 3
    then have "m = op_member x \<and> effective ps k xs x \<or> map_of (fs_members (run_ops ps xs)) k = Some m"
      using snoc.prems not_defeated_effective [OF 3, of ps xs]
      by (auto simp: run_ops_snoc member_updated [OF sorted] split: option.splits if_splits)
    then show ?thesis using snoc.IH op_exclusive [OF 3] by (auto simp: effective_snoc)
  qed
qed (simp add: run_ops_def fold_start_def)

lemma effective_is_member:
  assumes "sorted_wrt (\<lambda>a b. \<not> op_saw ps a b) xs" "u \<in> set xs" "effective ps k xs u"
  shows "map_of (fs_members (run_ops ps xs)) k \<noteq> None"
  using assms
proof (induction xs rule: rev_induct)
  case (snoc x xs)
  note sorted = run_ops_sorted [of ps xs]
  show ?case
  proof (cases rule: op_cases [of x k])
    case 1
    then have "u \<noteq> x" using snoc.prems(3) by (auto simp: effective_def op_updates_def)
    then show ?thesis using snoc 1
      by (auto simp: run_ops_snoc member_other [OF sorted] effective_snoc sorted_wrt_append)
  next
    case 2
    then have "u \<noteq> x" "op_saw ps u x" using snoc.prems(3) op_exclusive [of k x] by (auto simp: effective_def)
    then show ?thesis using snoc.prems by (auto simp: sorted_wrt_append)
  next
    case 3
    show ?thesis
    proof (cases "u = x")
      case True
      then have "\<not> update_defeated k (fst x) ps (run_ops ps xs)"
        using snoc.prems(3) not_defeated_effective [OF 3, of ps xs] by (auto simp: effective_snoc)
      then show ?thesis by (auto simp: run_ops_snoc member_updated [OF sorted 3] split: option.splits)
    next
      case False
      then have "map_of (fs_members (run_ops ps xs)) k \<noteq> None"
        using snoc by (auto simp: effective_snoc sorted_wrt_append)
      then show ?thesis by (auto simp: run_ops_snoc member_updated [OF sorted 3] split: option.splits)
    qed
  qed
qed simp

section \<open>Properties of the merge\<close>

definition removes_user :: "'k \<Rightarrow> 'k user_change_entry \<Rightarrow> bool" where
  "removes_user k e = (\<exists>b\<in>set (us_users (ce_change e)). ua_user b = k \<and> ua_access b = no_access)"

definition updates_user :: "'k \<Rightarrow> 'k user_change_entry \<Rightarrow> bool" where
  "updates_user k e = (\<exists>b\<in>set (us_users (ce_change e)). ua_user b = k \<and> ua_access b \<noteq> no_access)"

text \<open>An order in which everything a record saw comes before it.\<close>

definition causal_order :: "special_parents \<Rightarrow> 'k user_change_entry list \<Rightarrow> bool" where
  "causal_order ps es =
     (sorted_wrt (\<lambda>a b. \<not> saw (ce_tag b) (ce_parent_special a) ps) es
      \<and> (\<forall>e\<in>set es. \<not> saw (ce_tag e) (ce_parent_special e) ps))"

lemma ops_of_mem: "x \<in> set (ops_of es) \<longleftrightarrow> fst x \<in> set es \<and> snd x \<in> set (us_users (ce_change (fst x)))"
  by (cases x) (auto simp: ops_of_def)

lemma ops_of_causal: "causal_order ps es \<Longrightarrow> sorted_wrt (\<lambda>a b. \<not> op_saw ps a b) (ops_of es)"
proof (induction es)
  case (Cons e es)
  have "sorted_wrt (\<lambda>a b. \<not> op_saw ps a b) (map (\<lambda>a. (e, a)) as)" for as
    using Cons.prems by (auto simp: causal_order_def op_saw_def sorted_wrt_map intro: sorted_wrt_mono_rel [of _ "\<lambda>_ _. True"])
  moreover have "ops_of (e # es) = map (\<lambda>a. (e, a)) (us_users (ce_change e)) @ ops_of es" by (simp add: ops_of_def)
  ultimately show ?case using Cons by (auto simp: causal_order_def sorted_wrt_append op_saw_def ops_of_mem)
qed (simp add: ops_of_def)

lemma merge_members:
  assumes "delta_only es"
  shows "ua \<in> set (merge_user_changes es ps) \<longleftrightarrow>
    (\<exists>k m. map_of (fs_members (run_ops ps (ops_of es))) k = Some m \<and> ua = ms_access m)"
proof -
  have "distinct (map fst (fs_members (run_ops ps (ops_of es))))"
    using run_ops_sorted keys_sorted_distinct by (auto simp: maps_sorted_def)
  then show ?thesis by (force simp: merge_is_run_ops [OF assms] intro: rev_image_eqI)
qed

lemma effective_entry:
  "effective ps k (ops_of es) u \<longleftrightarrow>
    op_updates k u \<and> (\<forall>r\<in>set es. removes_user k r \<longrightarrow> saw (ce_tag r) (ce_parent_special (fst u)) ps)"
  by (auto simp: effective_def Ball_def split_paired_All ops_of_mem op_removes_def removes_user_def op_saw_def)

lemma updating_entry:
  "(\<exists>u\<in>set (ops_of es). op_updates k u \<and> Q (fst u)) \<longleftrightarrow> (\<exists>e\<in>set es. updates_user k e \<and> Q e)"
  by (auto simp: Bex_def split_paired_Ex ops_of_mem op_updates_def updates_user_def)


text \<open>C27. Every replica derives the same members: two orders of the same change records in which
  each record comes after all it saw give the same set of users.\<close>

theorem merge_members_converge:
  assumes "delta_only es" "set es = set fs" "causal_order ps es" "causal_order ps fs"
  shows "ua_user ` set (merge_user_changes es ps) = ua_user ` set (merge_user_changes fs ps)"
proof -
  have *: "k \<in> ua_user ` set (merge_user_changes xs ps) \<longleftrightarrow>
      (\<exists>e\<in>set xs. updates_user k e \<and> (\<forall>r\<in>set xs. removes_user k r \<longrightarrow> saw (ce_tag r) (ce_parent_special e) ps))"
    if d: "delta_only xs" and c: "causal_order ps xs" for k xs
  proof -
    let ?run = "run_ops ps (ops_of xs)"
    have key: "ua_user (ms_access m) = j" if "map_of (fs_members ?run) j = Some m" for j m
      using member_is_effective [OF that] by (auto simp: effective_def op_updates_def op_member_def)
    have "k \<in> ua_user ` set (merge_user_changes xs ps) \<longleftrightarrow> map_of (fs_members ?run) k \<noteq> None"
      using merge_members [OF d, of _ ps] key by (force simp: image_iff)
    also have "\<dots> \<longleftrightarrow> (\<exists>u\<in>set (ops_of xs). effective ps k (ops_of xs) u)"
      using member_is_effective effective_is_member [OF ops_of_causal [OF c]] by (metis not_Some_eq)
    also have "\<dots> \<longleftrightarrow> (\<exists>e\<in>set xs. updates_user k e
        \<and> (\<forall>r\<in>set xs. removes_user k r \<longrightarrow> saw (ce_tag r) (ce_parent_special e) ps))"
      unfolding effective_entry by (rule updating_entry)
    finally show ?thesis .
  qed
  have "delta_only fs" using assms(1,2) by (simp add: delta_only_def)
  then have "k \<in> ua_user ` set (merge_user_changes es ps) \<longleftrightarrow> k \<in> ua_user ` set (merge_user_changes fs ps)" for k
    using * [OF assms(1,3), of k] * [OF _ assms(4), of k] assms(2) by simp
  then show ?thesis by blast
qed

text \<open>Three updates of one user: the third saw the first, the second is concurrent to both.\<close>

definition ex_entry :: "octet \<Rightarrow> access_type \<Rightarrow> record_tag \<Rightarrow> nat user_change_entry" where
  "ex_entry t acc parent = \<lparr>ce_change = \<lparr>us_mode = delta_mode, us_users = [\<lparr>ua_user = 7, ua_access = acc\<rparr>], us_trailing = []\<rparr>,
     ce_tag = [t], ce_parent_special = parent\<rparr>"

definition ex_parents :: special_parents where
  "ex_parents = [([1], []), ([2], []), ([3], [1])]"

lemmas ex_defs = ex_entry_def ex_parents_def merge_user_changes_def apply_entry_def apply_access_def apply_update_def
  apply_removal_def update_defeated_def fold_start_def saw_def Let_def no_access_def map_del_def

text \<open>The access a member gets depends on the order all the same: the three updates merged in
  two orders, both with every record after what it saw, give the user different rights, although
  the merge is documented to depend on the set of changes only.\<close>

theorem merge_access_order_dependent:
  "let u1 = ex_entry 1 1 []; u2 = ex_entry 2 3 []; u3 = ex_entry 3 7 [1];
       es = [u1, u3, u2]; fs = [u1, u2, u3]
   in set es = set fs \<and> delta_only es \<and> causal_order ex_parents es \<and> causal_order ex_parents fs
      \<and> merge_user_changes es ex_parents = [\<lparr>ua_user = 7, ua_access = 3\<rparr>]
      \<and> merge_user_changes fs ex_parents = [\<lparr>ua_user = 7, ua_access = 7\<rparr>]"
  by (auto simp: ex_defs causal_order_def delta_only_def)


theorem merge_members_converge_witness:
  "ua_user ` set (merge_user_changes [ex_entry 1 1 [], ex_entry 2 0 []] ex_parents)
   = ua_user ` set (merge_user_changes [ex_entry 2 0 [], ex_entry 1 1 []] ex_parents)"
  by (rule merge_members_converge) (auto simp: ex_defs causal_order_def delta_only_def)

end
