(* ===== verification/Records.thy ===== *)
theory Records
  imports Util Sync_Mode Data_Descriptor User_Merge
begin

text \<open>
  The records of a storage (core/records): the common base, the three kinds of records, the chain
  block that carries a serialised record with its authentication and the position a server
  assigned, the signed envelope of an assignment and the proof that a server assigned one position
  twice.

  The DER codec belongs to the base library: \<open>externals\<close> holds it as functions, together with the
  cryptographic ones. Deserialising a record may throw, which is \<open>None\<close>. Headers are encrypted
  for the members, so they are octets here.
\<close>

section \<open>Records\<close>

record record_base =
  rb_structure_version :: int
  rb_last_seen_block :: chain_block_id
  rb_iv :: octets
  rb_encryption_key :: sequence_number
  rb_op_id :: octets
  rb_last_seen_special_tag :: record_tag
  rb_trailing :: octets

definition current_structure_version :: int where
  "current_structure_version = 2"

definition record_base_of ::
  "chain_block_id \<Rightarrow> octets \<Rightarrow> sequence_number \<Rightarrow> octets \<Rightarrow> record_tag \<Rightarrow> record_base" where
  "record_base_of last_seen iv enc_key op_id special =
     \<lparr>rb_structure_version = current_structure_version, rb_last_seen_block = last_seen, rb_iv = iv,
      rb_encryption_key = enc_key, rb_op_id = op_id, rb_last_seen_special_tag = special, rb_trailing = []\<rparr>"

record plain_single_change_data =
  pc_id :: object_id
  pc_previous_tag :: record_tag
  pc_data :: "data_descriptor option"
  pc_trailing :: octets

record single_change =
  sc_data :: plain_single_change_data
  sc_header :: octets
  sc_trailing :: octets

record plain_segment_data =
  segment_start :: sequence_number
  segment_end :: sequence_number
  sg_tags :: "record_tag list"
  previous_segment_tag :: record_tag
  sg_trailing :: octets

record plain_user_change_data =
  uc_access :: "public_key_id users"
  uc_encrypted :: octets
  uc_enveloped :: octets
  uc_trailing :: octets

datatype record_type_tag = user_change_tag | data_change_tag | segment_tag

datatype change_record =
    User_change record_base plain_user_change_data octets
  | Data_change record_base "single_change list" octets
  | Segment_change record_base plain_segment_data octets

fun record_base_part :: "change_record \<Rightarrow> record_base" where
  "record_base_part (User_change b _ _) = b"
| "record_base_part (Data_change b _ _) = b"
| "record_base_part (Segment_change b _ _) = b"

fun record_type :: "change_record \<Rightarrow> record_type_tag" where
  "record_type (User_change _ _ _) = user_change_tag"
| "record_type (Data_change _ _ _) = data_change_tag"
| "record_type (Segment_change _ _ _) = segment_tag"

definition is_single_change_record :: "single_change list \<Rightarrow> bool" where
  "is_single_change_record cs = (length cs = 1)"

definition get_single_change :: "single_change list \<Rightarrow> single_change result" where
  "get_single_change cs = (if \<not> is_single_change_record cs then Inl (Sync invalid_record_state) else Inr (hd cs))"

section \<open>Chain blocks\<close>

record chain_block =
  cb_record :: octets
  cb_auth :: content_auth
  cb_sequence :: sequence_number
  cb_parent_hash :: octets

record externals =
  ex_cr :: crypto
  ex_ser_record :: "change_record \<Rightarrow> octets"
  ex_deser_record :: "octets \<Rightarrow> change_record option"
  ex_ser_block :: "chain_block \<Rightarrow> octets"
  ex_tag_size :: nat
  ex_hash_size :: nat

definition chain_block_at :: "externals \<Rightarrow> change_record \<Rightarrow> content_auth \<Rightarrow> sequence_number \<Rightarrow> chain_block" where
  "chain_block_at ex r auth s =
     \<lparr>cb_record = ex_ser_record ex r, cb_auth = auth, cb_sequence = s, cb_parent_hash = []\<rparr>"

definition chain_block_of :: "externals \<Rightarrow> change_record \<Rightarrow> content_auth \<Rightarrow> chain_block" where
  "chain_block_of ex r auth = chain_block_at ex r auth (bid_sequence (rb_last_seen_block (record_base_part r)) + 1)"

definition set_sequence_and_parent_hash :: "sequence_number \<Rightarrow> octets \<Rightarrow> chain_block \<Rightarrow> chain_block" where
  "set_sequence_and_parent_hash s h b = b\<lparr>cb_sequence := s, cb_parent_hash := h\<rparr>"

definition cb_tag :: "chain_block \<Rightarrow> record_tag" where
  "cb_tag b = gcm_tag (cb_auth b)"

definition check_matches_without_server_data :: "chain_block \<Rightarrow> chain_block \<Rightarrow> bool" where
  "check_matches_without_server_data a b = (cb_record a = cb_record b \<and> cb_auth a = cb_auth b)"

definition block_hash :: "externals \<Rightarrow> chain_block \<Rightarrow> digest" where
  "block_hash ex b = cr_hash (ex_cr ex) (ex_ser_block ex b)"

definition block_id :: "externals \<Rightarrow> chain_block \<Rightarrow> chain_block_id" where
  "block_id ex b = \<lparr>bid_sequence = cb_sequence b, bid_hash = block_hash ex b\<rparr>"

definition block_is_valid :: "chain_block \<Rightarrow> bool" where
  "block_is_valid b = (cb_record b \<noteq> [])"

definition deserialise_record :: "externals \<Rightarrow> chain_block \<Rightarrow> change_record option" where
  "deserialise_record ex b = ex_deser_record ex (cb_record b)"

section \<open>Envelopes and evidence\<close>

record block_envelope =
  be_block :: chain_block
  be_origin :: public_key_id
  be_term :: u64
  be_signature :: signature
  be_trailing :: octets

definition block_envelope_of :: "chain_block \<Rightarrow> public_key_id \<Rightarrow> u64 \<Rightarrow> block_envelope" where
  "block_envelope_of b origin trm =
     \<lparr>be_block = b, be_origin = origin, be_term = trm, be_signature = no_signature, be_trailing = []\<rparr>"

definition env_is_signed :: "externals \<Rightarrow> block_envelope \<Rightarrow> bool" where
  "env_is_signed ex e = cr_sig_valid (ex_cr ex) (be_signature e)"

definition assignment_octets :: "storage_id \<Rightarrow> public_key_id \<Rightarrow> u64 \<Rightarrow> sequence_number \<Rightarrow> digest \<Rightarrow> octets" where
  "assignment_octets sid origin trm s h =
     buf_sized h (buf_u64 s (buf_u64 trm (buf_sized origin (buf_sized sid (digest_buffer ''spsync-assign'')))))"

definition assignment_digest :: "externals \<Rightarrow> storage_id \<Rightarrow> block_envelope \<Rightarrow> digest" where
  "assignment_digest ex sid e = cr_hash (ex_cr ex)
     (assignment_octets sid (be_origin e) (be_term e) (cb_sequence (be_block e)) (block_hash ex (be_block e)))"

definition envelope_sign :: "externals \<Rightarrow> storage_id \<Rightarrow> private_key \<Rightarrow> block_envelope \<Rightarrow> block_envelope" where
  "envelope_sign ex sid key e =
     (let e1 = e\<lparr>be_origin := key_id key\<rparr>
      in e1\<lparr>be_signature := key_sign key (assignment_digest ex sid e1)\<rparr>)"

definition envelope_verify :: "externals \<Rightarrow> storage_id \<Rightarrow> key_access \<Rightarrow> block_envelope \<Rightarrow> error option" where
  "envelope_verify ex sid keys e =
     (if \<not> cr_sig_valid (ex_cr ex) (be_signature e) then Some (General general_invalid_state)
      else if sig_issuer (be_signature e) \<noteq> be_origin e then Some (General signature_not_authentic)
      else case keys (be_origin e) of
          None \<Rightarrow> Some (General no_such_key)
        | Some pkey \<Rightarrow>
            (if \<not> cr_key_verify (ex_cr ex) pkey (be_signature e) (assignment_digest ex sid e)
             then Some (General signature_not_authentic) else None))"

record equivocation_proof =
  ep_first :: block_envelope
  ep_second :: block_envelope

definition proof_origin :: "equivocation_proof \<Rightarrow> public_key_id" where
  "proof_origin p = be_origin (ep_first p)"

definition proof_term :: "equivocation_proof \<Rightarrow> u64" where
  "proof_term p = be_term (ep_first p)"

definition proof_sequence :: "equivocation_proof \<Rightarrow> sequence_number" where
  "proof_sequence p = cb_sequence (be_block (ep_first p))"

definition proof_verify :: "externals \<Rightarrow> storage_id \<Rightarrow> key_access \<Rightarrow> equivocation_proof \<Rightarrow> error option" where
  "proof_verify ex sid keys p =
     (case envelope_verify ex sid keys (ep_first p) of Some err \<Rightarrow> Some err | None \<Rightarrow>
      case envelope_verify ex sid keys (ep_second p) of Some err \<Rightarrow> Some err | None \<Rightarrow>
      let same_assignment = (be_origin (ep_first p) = be_origin (ep_second p)
            \<and> be_term (ep_first p) = be_term (ep_second p)
            \<and> cb_sequence (be_block (ep_first p)) = cb_sequence (be_block (ep_second p)))
      in if \<not> same_assignment then Some (Sync not_authentic)
         else if block_hash ex (be_block (ep_first p)) = block_hash ex (be_block (ep_second p))
         then Some (Sync not_authentic)
         else None)"

section \<open>What the signatures bind\<close>

lemma envelope_verify_None_iff:
  "envelope_verify ex sid keys e = None \<longleftrightarrow>
     cr_sig_valid (ex_cr ex) (be_signature e) \<and> sig_issuer (be_signature e) = be_origin e
     \<and> (\<exists>k. keys (be_origin e) = Some k
          \<and> cr_key_verify (ex_cr ex) k (be_signature e) (assignment_digest ex sid e))"
  by (auto simp: envelope_verify_def split: option.splits if_splits)

lemma proof_verify_None_iff:
  "proof_verify ex sid keys p = None \<longleftrightarrow>
     envelope_verify ex sid keys (ep_first p) = None \<and> envelope_verify ex sid keys (ep_second p) = None
     \<and> be_origin (ep_first p) = be_origin (ep_second p) \<and> be_term (ep_first p) = be_term (ep_second p)
     \<and> cb_sequence (be_block (ep_first p)) = cb_sequence (be_block (ep_second p))
     \<and> block_hash ex (be_block (ep_first p)) \<noteq> block_hash ex (be_block (ep_second p))"
  by (auto simp: proof_verify_def split: option.splits if_splits)

lemma assignment_octets_inj:
  assumes "fits_u32 sid" "fits_u32 o1" "fits_u32 h1" "fits_u32 sid'" "fits_u32 o2" "fits_u32 h2"
  shows "assignment_octets sid o1 t1 s1 h1 = assignment_octets sid' o2 t2 s2 h2 \<longleftrightarrow>
    sid = sid' \<and> o1 = o2 \<and> t1 = t2 \<and> s1 = s2 \<and> h1 = h2"
  using assms by (auto simp: assignment_octets_def buf_eqs sized_octets_append_iff sized_octets_iff)

lemma ascii_simps [simp]: "ascii [] = []" "ascii (c # cs) = of_char c # ascii cs"
  by (simp_all add: ascii_def)

text \<open>The contexts separate the uses of a key: no octets are signed for two of them.\<close>

lemma contexts_separate:
  "assignment_octets sid orig trm s h \<noteq> ticket_octets t"
  "assignment_octets sid orig trm s h \<noteq> signing_octets b g"
  "ticket_octets t \<noteq> signing_octets b g"
  by (auto simp: assignment_octets_def ticket_octets_def signing_octets_def buf_eqs digest_buffer_def)

text \<open>
  A key whose holder signs, besides data tickets and records, at most one block hash for each
  position of each storage: the signed octets, and the hash \<open>assigned\<close> for a position.
\<close>

definition honest_signer :: "public_key_id \<Rightarrow> (storage_id \<Rightarrow> u64 \<Rightarrow> sequence_number \<Rightarrow> digest) \<Rightarrow> octets set \<Rightarrow> bool" where
  "honest_signer origin assigned sgnd =
     (\<forall>x\<in>sgnd. (\<exists>t. x = ticket_octets t) \<or> (\<exists>b g. x = signing_octets b g)
        \<or> (\<exists>sid trm s. x = assignment_octets sid origin trm s (assigned sid trm s)
             \<and> fits_u32 sid \<and> fits_u32 (assigned sid trm s)))"

text \<open>Signatures of a key cannot be forged: what verifies is the digest of something signed.\<close>

definition unforgeable :: "crypto \<Rightarrow> public_key \<Rightarrow> octets set \<Rightarrow> bool" where
  "unforgeable cr k sgnd = (\<forall>s d. cr_key_verify cr k s d \<longrightarrow> d \<in> cr_hash cr ` sgnd)"

lemma honest_assignment:
  assumes "inj (cr_hash (ex_cr ex))" "unforgeable (ex_cr ex) k sgnd" "honest_signer (be_origin e) assigned sgnd"
    and "cr_key_verify (ex_cr ex) k sg (assignment_digest ex sid e)"
    and "fits_u32 sid" "fits_u32 (be_origin e)" "fits_u32 (block_hash ex (be_block e))"
  shows "block_hash ex (be_block e) = assigned sid (be_term e) (cb_sequence (be_block e))"
proof -
  let ?x = "assignment_octets sid (be_origin e) (be_term e) (cb_sequence (be_block e)) (block_hash ex (be_block e))"
  have "?x \<in> sgnd"
    using assms(1,2,4) by (auto simp: unforgeable_def assignment_digest_def dest: injD)
  then obtain sid' trm s where "?x = assignment_octets sid' (be_origin e) trm s (assigned sid' trm s)"
    "fits_u32 sid'" "fits_u32 (assigned sid' trm s)"
    using assms(3) contexts_separate unfolding honest_signer_def by metis
  then show ?thesis using assms(5-7) by (auto simp: assignment_octets_inj)
qed

text \<open>C28. An honest server is never condemned: no proof of equivocation against a server verifies
  when that server signed at most one record for each position, whatever tickets and records the
  same key signed (collision-free hash, unforgeable signatures).\<close>

theorem honest_origin_never_condemned:
  assumes "inj (cr_hash (ex_cr ex))" "keys (proof_origin p) = Some k"
    and "unforgeable (ex_cr ex) k sgnd" "honest_signer (proof_origin p) assigned sgnd"
    and "fits_u32 sid" "fits_u32 (proof_origin p)" "\<And>b. fits_u32 (block_hash ex b)"
  shows "proof_verify ex sid keys p \<noteq> None"
proof
  assume v: "proof_verify ex sid keys p = None"
  let ?a = "ep_first p" and ?b = "ep_second p"
  have same: "be_origin ?a = proof_origin p" "be_origin ?b = proof_origin p" "be_term ?a = be_term ?b"
    "cb_sequence (be_block ?a) = cb_sequence (be_block ?b)"
    "block_hash ex (be_block ?a) \<noteq> block_hash ex (be_block ?b)"
    using v by (auto simp: proof_verify_None_iff proof_origin_def)
  have "cr_key_verify (ex_cr ex) k (be_signature ?a) (assignment_digest ex sid ?a)"
    "cr_key_verify (ex_cr ex) k (be_signature ?b) (assignment_digest ex sid ?b)"
    using v assms(2) same(1,2) by (auto simp: proof_verify_None_iff envelope_verify_None_iff)
  then have "block_hash ex (be_block ?a) = block_hash ex (be_block ?b)"
    using honest_assignment [OF assms(1,3), of _ assigned] assms(4-7) same by metis
  then show False using same(5) by blast
qed

definition ex_honest :: externals where
  "ex_honest = \<lparr>ex_cr = \<lparr>cr_hash = id, cr_sig_valid = (\<lambda>_. True), cr_key_id_valid = (\<lambda>_. True),
       cr_key_verify = (\<lambda>_ _ d. d = assignment_octets [1] [2] 0 1 [7])\<rparr>,
     ex_ser_record = (\<lambda>_. [1]), ex_deser_record = (\<lambda>_. None), ex_ser_block = (\<lambda>b. take 5 (cb_record b)),
     ex_tag_size = 16, ex_hash_size = 64\<rparr>"

definition ex_envelope :: "octets \<Rightarrow> block_envelope" where
  "ex_envelope r = block_envelope_of \<lparr>cb_record = r, cb_auth = content_auth_of_tag [3], cb_sequence = 1, cb_parent_hash = []\<rparr> [2] 0"

theorem honest_origin_never_condemned_witness:
  "proof_verify ex_honest [1] (\<lambda>_. Some [9]) \<lparr>ep_first = ex_envelope [7], ep_second = ex_envelope [8]\<rparr> \<noteq> None"
proof (rule honest_origin_never_condemned)
  show "inj (cr_hash (ex_cr ex_honest))" by (simp add: ex_honest_def)
  show "unforgeable (ex_cr ex_honest) [9] {assignment_octets [1] [2] 0 1 [7]}"
    by (simp add: unforgeable_def ex_honest_def)
  show "honest_signer (proof_origin \<lparr>ep_first = ex_envelope [7], ep_second = ex_envelope [8]\<rparr>)
      (\<lambda>_ _ _. [7]) {assignment_octets [1] [2] 0 1 [7]}"
    by (auto simp: honest_signer_def proof_origin_def ex_envelope_def block_envelope_of_def fits_u32_def
        intro!: exI [of _ "[1]"])
  show "fits_u32 (block_hash ex_honest b)" for b by (simp add: fits_u32_def block_hash_def ex_honest_def)
qed (simp_all add: fits_u32_def proof_origin_def ex_envelope_def block_envelope_of_def)

text \<open>
  What the code relies on of a signing key: a signature it makes names its owner, is one, and
  verifies under the public key that is found for the owner.
\<close>

definition key_ok :: "crypto \<Rightarrow> key_access \<Rightarrow> private_key \<Rightarrow> bool" where
  "key_ok cr keys key = (\<exists>pk. keys (key_id key) = Some pk
     \<and> (\<forall>d. sig_issuer (key_sign key d) = key_id key \<and> cr_sig_valid cr (key_sign key d)
          \<and> cr_key_verify cr pk (key_sign key d) d))"

text \<open>What the code signs it accepts: a signed assignment, a signed ticket before its expiry
  and a signed record all verify with the signer's key, and the assignment states the signer as
  its origin.\<close>

theorem sign_verify_roundtrip:
  assumes "key_ok (ex_cr ex) keys key"
  shows "envelope_verify ex sid keys (envelope_sign ex sid key e) = None
    \<and> be_origin (envelope_sign ex sid key e) = key_id key
    \<and> (now < tk_expiry t \<longrightarrow> ticket_verify (ex_cr ex) keys now (ticket_sign (ex_cr ex) key t) = None)
    \<and> auth_verify (ex_cr ex) keys bytes (auth_sign (ex_cr ex) key bytes a) = None"
proof -
  obtain pk where pk: "keys (key_id key) = Some pk" "sig_issuer (key_sign key d) = key_id key"
    "cr_sig_valid (ex_cr ex) (key_sign key d)" "cr_key_verify (ex_cr ex) pk (key_sign key d) d" for d
    using assms by (auto simp: key_ok_def)
  have dg: "assignment_digest ex sid (e\<lparr>be_origin := o', be_signature := s\<rparr>) = assignment_digest ex sid (e\<lparr>be_origin := o'\<rparr>)"
    for o' s by (simp add: assignment_digest_def)
  have td: "ticket_digest (ex_cr ex) (t\<lparr>tk_signature := s\<rparr>) = ticket_digest (ex_cr ex) t" for s
    by (simp add: ticket_digest_def ticket_octets_def)
  show ?thesis
    using pk by (simp add: envelope_verify_None_iff envelope_sign_def Let_def dg ticket_verify_None_iff ticket_sign_def td
        auth_verify_None_iff auth_sign_def)
qed

definition ex_key :: private_key where
  "ex_key = \<lparr>key_id = [2], key_sign = (\<lambda>d. \<lparr>sig_issuer = [2], sig_data = d\<rparr>)\<rparr>"

definition ex_plain :: externals where
  "ex_plain = ex_honest\<lparr>ex_cr := (ex_cr ex_honest)\<lparr>cr_key_verify := (\<lambda>_ s d. sig_data s = d)\<rparr>\<rparr>"

theorem sign_verify_roundtrip_witness:
  "envelope_verify ex_plain [1] (\<lambda>_. Some [9]) (envelope_sign ex_plain [1] ex_key (ex_envelope [7])) = None"
  by (rule conjunct1 [OF sign_verify_roundtrip]) (simp add: key_ok_def ex_key_def ex_plain_def ex_honest_def)

end
