(* ===== verification/Data_Table.thy ===== *)
theory Data_Table
  imports Data_Descriptor Have_Bitmap
begin

text \<open>
  The table of record data (core/data/data_state_table.cpp): one row per data identifier with the
  server-visible half of its descriptor, the local state, the bitmap of held chunks and, once
  known, the digests of its manifest and its header.

  A database table is the list of its rows in key order; a query is a filter of it. Row keys are
  natural numbers (the rows are numbered from 1). The key column is declared with AUTOINCREMENT,
  so the table keeps the largest key it ever gave out. A bitmap column holds octets, read through
  the constructor that normalises them.
\<close>

section \<open>Operations\<close>

datatype record_data_state = ds_unknown | ds_deferred | ds_remote_not_complete | ds_upload_pending
  | ds_download_pending | ds_in_sync | ds_removed | ds_invalid | ds_pruned

record data_table_row =
  tr_key :: nat
  tr_data_id :: data_id
  tr_enc_size :: u64
  tr_chunk_size :: u32
  tr_state :: record_data_state
  tr_have :: octets
  tr_digests :: "octets option"
  tr_header :: "data_header option"

record data_state_row =
  dr_local_id :: nat
  dr_descriptor :: data_descriptor
  dr_state :: record_data_state
  dr_have :: have_bitmap

record data_state_table =
  dt_rows :: "data_table_row list"
  dt_last_key :: nat

definition empty_data_table :: data_state_table where
  "empty_data_table = \<lparr>dt_rows = [], dt_last_key = 0\<rparr>"

definition extract_row :: "nat \<Rightarrow> data_table_row \<Rightarrow> data_state_row" where
  "extract_row tag_size r =
     (let d = \<lparr>enc_size = tr_enc_size r, dd_chunk_size = tr_chunk_size r, manifest_digest = tr_data_id r, dd_trailing = []\<rparr>
      in \<lparr>dr_local_id = tr_key r, dr_descriptor = d, dr_state = tr_state r,
          dr_have = have_of_octets (chunk_count tag_size d) (tr_have r)\<rparr>)"

definition table_row :: "data_id \<Rightarrow> data_state_table \<Rightarrow> data_table_row option" where
  "table_row i t = find (\<lambda>r. tr_data_id r = i) (dt_rows t)"

definition table_row_at :: "nat \<Rightarrow> data_state_table \<Rightarrow> data_table_row option" where
  "table_row_at k t = find (\<lambda>r. tr_key r = k) (dt_rows t)"

definition dt_find :: "nat \<Rightarrow> data_id \<Rightarrow> data_state_table \<Rightarrow> data_state_row option" where
  "dt_find tag_size i t = map_option (extract_row tag_size) (table_row i t)"

definition dt_find_local :: "nat \<Rightarrow> nat \<Rightarrow> data_state_table \<Rightarrow> data_state_row option" where
  "dt_find_local tag_size k t = map_option (extract_row tag_size) (table_row_at k t)"

definition dt_insert :: "nat \<Rightarrow> data_descriptor \<Rightarrow> data_state_table \<Rightarrow> data_state_table" where
  "dt_insert tag_size d t =
     (case table_row (manifest_digest d) t of
        Some _ \<Rightarrow> t
      | None \<Rightarrow> t\<lparr>dt_rows := dt_rows t @ [\<lparr>tr_key = Suc (dt_last_key t), tr_data_id = manifest_digest d,
            tr_enc_size = enc_size d, tr_chunk_size = dd_chunk_size d, tr_state = ds_deferred,
            tr_have = hb_bits (have_none (chunk_count tag_size d)), tr_digests = None, tr_header = None\<rparr>],
          dt_last_key := Suc (dt_last_key t)\<rparr>)"

definition dt_ensure :: "nat \<Rightarrow> data_descriptor \<Rightarrow> data_state_table \<Rightarrow> (nat \<times> data_state_table) result" where
  "dt_ensure tag_size d t =
     (if \<not> usable_data_descriptor tag_size d then Inl (General general_invalid_data)
      else let t1 = dt_insert tag_size d t
           in case dt_find tag_size (manifest_digest d) t1 of
               None \<Rightarrow> Inl (General general_invalid_state)
             | Some row \<Rightarrow> Inr (dr_local_id row, t1))"

definition dt_all_ids :: "data_state_table \<Rightarrow> nat list" where
  "dt_all_ids t = map tr_key (dt_rows t)"

text \<open>The sum of a column of signed 64 bit integers; leaving their range is an error of the database.\<close>

definition add_signed :: "int \<Rightarrow> int result \<Rightarrow> int result" where
  "add_signed v acc = bind_result acc (\<lambda>s. if - (2 ^ 63) \<le> s + v \<and> s + v < 2 ^ 63 then Inr (s + v) else Inl Database)"

definition dt_total_enc_size :: "data_state_table \<Rightarrow> u64 result" where
  "dt_total_enc_size t =
     bind_result (fold (\<lambda>r. add_signed (sint (tr_enc_size r))) (dt_rows t) (Inr 0)) (\<lambda>s. Inr (of_int s))"

definition dt_update :: "nat \<Rightarrow> (data_table_row \<Rightarrow> data_table_row) \<Rightarrow> data_state_table \<Rightarrow> data_state_table" where
  "dt_update k f t = t\<lparr>dt_rows := map (\<lambda>r. if tr_key r = k then f r else r) (dt_rows t)\<rparr>"

definition dt_set_state :: "nat \<Rightarrow> record_data_state \<Rightarrow> data_state_table \<Rightarrow> data_state_table" where
  "dt_set_state k s = dt_update k (\<lambda>r. r\<lparr>tr_state := s\<rparr>)"

definition dt_set_have :: "nat \<Rightarrow> have_bitmap \<Rightarrow> data_state_table \<Rightarrow> data_state_table" where
  "dt_set_have k h = dt_update k (\<lambda>r. r\<lparr>tr_have := hb_bits h\<rparr>)"

definition dt_set_manifest :: "nat \<Rightarrow> data_manifest \<Rightarrow> data_state_table \<Rightarrow> data_state_table" where
  "dt_set_manifest k m = dt_update k (\<lambda>r. r\<lparr>tr_digests := Some (manifest_octets m)\<rparr>)"

definition dt_manifest :: "nat \<Rightarrow> nat \<Rightarrow> data_state_table \<Rightarrow> data_manifest option" where
  "dt_manifest hash_size k t =
     (case table_row_at k t of None \<Rightarrow> None
      | Some r \<Rightarrow> (case tr_digests r of None \<Rightarrow> None | Some octs \<Rightarrow> manifest_from_octets hash_size octs))"

definition dt_has_manifest :: "nat \<Rightarrow> data_state_table \<Rightarrow> bool" where
  "dt_has_manifest k t = (case table_row_at k t of None \<Rightarrow> False | Some r \<Rightarrow> tr_digests r \<noteq> None)"

text \<open>\<open>substr\<close> counts from one; the chunk number times the digest size is far below \<open>2 ^ 63\<close>.\<close>

definition dt_chunk_digest :: "nat \<Rightarrow> nat \<Rightarrow> nat \<Rightarrow> data_state_table \<Rightarrow> digest option" where
  "dt_chunk_digest hash_size k chunk_no t =
     (case table_row_at k t of None \<Rightarrow> None
      | Some r \<Rightarrow> (case tr_digests r of None \<Rightarrow> None
         | Some octs \<Rightarrow>
             (let d = take hash_size (drop (chunk_no * hash_size) octs)
              in if length d \<noteq> hash_size then None else Some d)))"

definition dt_set_header :: "nat \<Rightarrow> data_header \<Rightarrow> data_state_table \<Rightarrow> data_state_table" where
  "dt_set_header k h = dt_update k (\<lambda>r. r\<lparr>tr_header := Some h\<rparr>)"

definition dt_header :: "nat \<Rightarrow> data_state_table \<Rightarrow> data_header option" where
  "dt_header k t = (case table_row_at k t of None \<Rightarrow> None | Some r \<Rightarrow> tr_header r)"

definition dt_find_by_content :: "nat \<Rightarrow> digest \<Rightarrow> data_state_table \<Rightarrow> data_state_row list" where
  "dt_find_by_content tag_size c t =
     map (extract_row tag_size) (filter (\<lambda>r. map_option content_digest (tr_header r) = Some c) (dt_rows t))"

definition dt_remove :: "nat \<Rightarrow> data_state_table \<Rightarrow> data_state_table" where
  "dt_remove k t = t\<lparr>dt_rows := filter (\<lambda>r. tr_key r \<noteq> k) (dt_rows t)\<rparr>"

section \<open>Well-formed tables\<close>

text \<open>
  Keys ascend and never exceed the largest one given out, a data identifier has one row, and the
  rows describe usable data.
\<close>

definition dt_wf :: "nat \<Rightarrow> data_state_table \<Rightarrow> bool" where
  "dt_wf ts t = (sorted_wrt (<) (map tr_key (dt_rows t))
     \<and> (\<forall>r\<in>set (dt_rows t). 0 < tr_key r \<and> tr_key r \<le> dt_last_key t)
     \<and> distinct (map tr_data_id (dt_rows t))
     \<and> (\<forall>r\<in>set (dt_rows t). usable_data_descriptor ts (dr_descriptor (extract_row ts r))))"

lemma dt_wf_distinct_keys: "dt_wf ts t \<Longrightarrow> distinct (map tr_key (dt_rows t))"
  by (simp add: dt_wf_def strict_sorted_iff)

lemma table_row_SomeD: "table_row i t = Some r \<Longrightarrow> r \<in> set (dt_rows t) \<and> tr_data_id r = i"
  by (auto simp: table_row_def dest: find_SomeD)

lemma table_row_at_SomeD: "table_row_at k t = Some r \<Longrightarrow> r \<in> set (dt_rows t) \<and> tr_key r = k"
  by (auto simp: table_row_at_def dest: find_SomeD)

lemma table_row_at_mem: "dt_wf ts t \<Longrightarrow> r \<in> set (dt_rows t) \<Longrightarrow> table_row_at (tr_key r) t = Some r"
  unfolding table_row_at_def by (rule find_distinct) (auto simp: dt_wf_distinct_keys)

lemma table_row_mem: "dt_wf ts t \<Longrightarrow> r \<in> set (dt_rows t) \<Longrightarrow> table_row (tr_data_id r) t = Some r"
  unfolding table_row_def by (rule find_distinct) (auto simp: dt_wf_def)

lemma per_chunk_trailing [simp]: "per_chunk ts (d\<lparr>dd_trailing := x\<rparr>) = per_chunk ts d"
  by (simp add: per_chunk_def)

lemma chunk_count_trailing [simp]: "chunk_count ts (d\<lparr>dd_trailing := x\<rparr>) = chunk_count ts d"
  by (simp add: chunk_count_def)

lemma chunk_enc_size_trailing [simp]: "chunk_enc_size ts (d\<lparr>dd_trailing := x\<rparr>) = chunk_enc_size ts d"
  by (simp add: chunk_enc_size_def fun_eq_iff)

lemma usable_trailing [simp]: "usable_data_descriptor ts (d\<lparr>dd_trailing := x\<rparr>) = usable_data_descriptor ts d"
  by (simp add: usable_data_descriptor_def)

lemma usable_plain [simp]:
  "usable_data_descriptor ts \<lparr>enc_size = enc_size d, dd_chunk_size = dd_chunk_size d,
     manifest_digest = manifest_digest d, dd_trailing = []\<rparr> = usable_data_descriptor ts d"
  using usable_trailing [where d = d and x = "[]"] by (cases d) simp

lemma dt_wf_insert:
  assumes "dt_wf ts t" "usable_data_descriptor ts d"
  shows "dt_wf ts (dt_insert ts d t)"
proof (cases "table_row (manifest_digest d) t")
  case None
  then have "manifest_digest d \<notin> set (map tr_data_id (dt_rows t))" by (auto simp: table_row_def find_None_all)
  then show ?thesis using assms None
    by (auto simp: dt_wf_def dt_insert_def sorted_wrt_append extract_row_def Let_def less_Suc_eq_le)
qed (use assms in \<open>simp add: dt_insert_def\<close>)

lemma dt_wf_update:
  assumes "dt_wf ts t" "\<And>r. tr_key (f r) = tr_key r" "\<And>r. tr_data_id (f r) = tr_data_id r"
    "\<And>r. tr_enc_size (f r) = tr_enc_size r" "\<And>r. tr_chunk_size (f r) = tr_chunk_size r"
  shows "dt_wf ts (dt_update k f t)"
proof -
  have "map tr_key (map (\<lambda>r. if tr_key r = k then f r else r) rows) = map tr_key rows"
    "map tr_data_id (map (\<lambda>r. if tr_key r = k then f r else r) rows) = map tr_data_id rows" for rows
    using assms(2,3) by (induction rows) auto
  then show ?thesis using assms by (auto simp: dt_wf_def dt_update_def extract_row_def Let_def simp del: map_map)
qed

lemma dt_wf_remove: "dt_wf ts t \<Longrightarrow> dt_wf ts (dt_remove k t)"
  by (auto simp: dt_wf_def dt_remove_def sorted_wrt_map intro: sorted_wrt_filter distinct_map_filter)

lemma dt_wf_empty: "dt_wf ts empty_data_table"
  by (simp add: dt_wf_def empty_data_table_def)

lemma dt_wf_setters:
  assumes "dt_wf ts t"
  shows "dt_wf ts (dt_set_state k s t)" "dt_wf ts (dt_set_have k b t)" "dt_wf ts (dt_set_manifest k m t)"
    "dt_wf ts (dt_set_header k h t)"
  unfolding dt_set_state_def dt_set_have_def dt_set_manifest_def dt_set_header_def
  by (intro dt_wf_update [OF assms]; simp)+

section \<open>Properties\<close>

lemma table_row_update:
  assumes "dt_wf ts t" "\<And>r. tr_key (f r) = tr_key r"
  shows "table_row_at j (dt_update k f t) = (if j = k then map_option f (table_row_at k t) else table_row_at j t)"
proof -
  have "find (\<lambda>r. tr_key r = j) (map (\<lambda>r. if tr_key r = k then f r else r) rows)
      = (if j = k then map_option f (find (\<lambda>r. tr_key r = k) rows) else find (\<lambda>r. tr_key r = j) rows)" for rows
    using assms(2) by (induction rows) auto
  then show ?thesis by (simp add: table_row_at_def dt_update_def)
qed

lemma dt_insert_row:
  "\<exists>r. table_row (manifest_digest d) (dt_insert ts d t) = Some r"
  by (cases "table_row (manifest_digest d) t")
    (auto simp: dt_insert_def table_row_def find_None_all find_append split: option.splits)

text \<open>The operations of the table as values, and a run of them (an error leaves the table as it is).\<close>

datatype dt_op =
    Ensure data_descriptor
  | Set_state nat record_data_state
  | Set_have nat have_bitmap
  | Set_manifest nat data_manifest
  | Set_header nat data_header
  | Remove nat

fun dt_apply :: "nat \<Rightarrow> dt_op \<Rightarrow> data_state_table \<Rightarrow> data_state_table" where
  "dt_apply ts (Ensure d) t = (case dt_ensure ts d t of Inr (k, t') \<Rightarrow> t' | Inl _ \<Rightarrow> t)"
| "dt_apply ts (Set_state k s) t = dt_set_state k s t"
| "dt_apply ts (Set_have k h) t = dt_set_have k h t"
| "dt_apply ts (Set_manifest k m) t = dt_set_manifest k m t"
| "dt_apply ts (Set_header k h) t = dt_set_header k h t"
| "dt_apply ts (Remove k) t = dt_remove k t"

lemma dt_ensure_cases:
  "dt_ensure ts d t = Inr (k, t') \<Longrightarrow> usable_data_descriptor ts d \<and> t' = dt_insert ts d t
    \<and> (\<exists>r. table_row (manifest_digest d) t' = Some r \<and> tr_key r = k)"
  by (auto simp: dt_ensure_def dt_find_def extract_row_def Let_def split: if_splits option.splits)

lemma dt_apply_ensure: "dt_apply ts (Ensure d) t = (if usable_data_descriptor ts d then dt_insert ts d t else t)"
  using dt_insert_row [of d ts t] by (auto simp: dt_ensure_def dt_find_def Let_def)

lemma dt_apply_wf: "dt_wf ts t \<Longrightarrow> dt_wf ts (dt_apply ts x t)"
  by (cases x) (simp_all add: dt_apply_ensure dt_wf_insert dt_wf_setters dt_wf_remove del: dt_apply.simps(1))

lemma dt_apply_last: "dt_last_key t \<le> dt_last_key (dt_apply ts x t)"
  by (cases x) (auto simp: dt_apply_ensure dt_insert_def dt_set_state_def dt_set_have_def dt_set_manifest_def
      dt_set_header_def dt_update_def dt_remove_def split: option.splits simp del: dt_apply.simps(1))

definition same_data :: "data_table_row \<Rightarrow> data_table_row \<Rightarrow> bool" where
  "same_data r s = (tr_data_id r = tr_data_id s \<and> tr_enc_size r = tr_enc_size s \<and> tr_chunk_size r = tr_chunk_size s)"

lemma update_same_data:
  assumes "table_row_at k (dt_update j f t) = Some r" "dt_wf ts t"
    "\<And>r. tr_key (f r) = tr_key r" "\<And>r. same_data (f r) r"
  shows "\<exists>r0. table_row_at k t = Some r0 \<and> same_data r r0"
  using assms(1,4) unfolding table_row_update [OF assms(2,3)] by (auto simp: same_data_def split: if_splits)

lemma dt_apply_key:
  assumes "dt_wf ts t" "k \<le> dt_last_key t" "table_row_at k (dt_apply ts x t) = Some r"
  shows "\<exists>r0. table_row_at k t = Some r0 \<and> same_data r r0"
proof (cases x)
  case (Ensure d)
  then have "table_row_at k (dt_apply ts x t) = table_row_at k t"
    using assms(2) by (auto simp: dt_apply_ensure dt_insert_def table_row_at_def find_append
        simp del: dt_apply.simps(1) split: option.splits)
  then have "table_row_at k t = Some r" using assms(3) by metis
  then show ?thesis by (simp add: same_data_def)
next
  case (Remove j)
  have *: "find P (filter Q xs) = Some r \<Longrightarrow> (\<And>y. P y \<Longrightarrow> Q y) \<Longrightarrow> find P xs = Some r" for P Q and xs :: "data_table_row list"
    by (induction xs) (auto split: if_splits)
  have "k \<noteq> j" using assms(3) Remove by (auto simp: table_row_at_def dt_remove_def dest!: find_SomeD)
  have "find (\<lambda>r. tr_key r = k) (filter (\<lambda>r. tr_key r \<noteq> j) (dt_rows t)) = Some r"
    using assms(3) Remove by (simp add: table_row_at_def dt_remove_def)
  then have "table_row_at k t = Some r" unfolding table_row_at_def by (rule *) (simp add: \<open>k \<noteq> j\<close>)
  then show ?thesis by (auto simp: same_data_def)
qed (use assms in \<open>auto simp: dt_set_state_def dt_set_have_def dt_set_manifest_def dt_set_header_def same_data_def
  intro!: update_same_data [unfolded same_data_def]\<close>)

text \<open>C37. The key of a row is never given to another data: after any operations, a key that had
  been given out before them names the same data it named then, or nothing.\<close>

theorem data_key_never_reused:
  assumes "dt_wf ts t" "k \<le> dt_last_key t" "table_row_at k (fold (dt_apply ts) ops t) = Some r"
  shows "\<exists>r0. table_row_at k t = Some r0 \<and> tr_data_id r0 = tr_data_id r \<and> tr_enc_size r0 = tr_enc_size r
    \<and> tr_chunk_size r0 = tr_chunk_size r"
proof -
  have "\<exists>r0. table_row_at k t = Some r0 \<and> same_data r r0" using assms
  proof (induction ops arbitrary: t)
    case (Cons x ops)
    have "k \<le> dt_last_key (dt_apply ts x t)" using Cons.prems(2) dt_apply_last le_trans by blast
    then obtain r1 where "table_row_at k (dt_apply ts x t) = Some r1" "same_data r r1"
      using Cons.IH [OF dt_apply_wf [OF Cons.prems(1)]] Cons.prems(3) by auto
    then show ?case using dt_apply_key [OF Cons.prems(1,2)] by (fastforce simp: same_data_def)
  qed (auto simp: same_data_def)
  then show ?thesis by (auto simp: same_data_def)
qed

definition ex_row :: data_table_row where
  "ex_row = \<lparr>tr_key = 1, tr_data_id = [9], tr_enc_size = 100, tr_chunk_size = 300, tr_state = ds_deferred,
     tr_have = [0], tr_digests = None, tr_header = None\<rparr>"

definition ex_table :: data_state_table where
  "ex_table = \<lparr>dt_rows = [ex_row], dt_last_key = 1\<rparr>"

lemma ex_table_wf: "dt_wf 16 ex_table"
  by (simp add: dt_wf_def ex_table_def ex_row_def extract_row_def usable_data_descriptor_def chunk_count_def
      chunk_enc_size_def per_chunk_def max_data_chunks_def Let_def)

theorem data_key_never_reused_witness:
  "table_row_at 1 (fold (dt_apply 16) [Set_state 1 ds_pruned, Remove 2] ex_table) = Some (ex_row\<lparr>tr_state := ds_pruned\<rparr>)
   \<and> (\<exists>r0. table_row_at 1 ex_table = Some r0 \<and> tr_data_id r0 = [9])"
proof -
  have r: "table_row_at 1 (fold (dt_apply 16) [Set_state 1 ds_pruned, Remove 2] ex_table) = Some (ex_row\<lparr>tr_state := ds_pruned\<rparr>)"
    by (simp add: ex_table_def ex_row_def table_row_at_def dt_set_state_def dt_update_def dt_remove_def)
  have "1 \<le> dt_last_key ex_table" by (simp add: ex_table_def)
  from data_key_never_reused [OF ex_table_wf this r] r show ?thesis by (auto simp: ex_row_def)
qed

text \<open>A digest read on its own is the manifest's: once a manifest of whole digests is stored for
  a row, the digest read at a position is the one the manifest names there and nothing past its
  end, and the whole manifest is read back.\<close>

theorem chunk_digest_is_manifest_entry:
  assumes "dt_wf ts t" "table_row_at k t = Some r" "0 < hs" "\<forall>d\<in>set (chunk_digests m). length d = hs" "dm_trailing m = []"
  shows "dt_chunk_digest hs k c (dt_set_manifest k m t)
      = (if c < length (chunk_digests m) then Some (chunk_digests m ! c) else None)
    \<and> dt_manifest hs k (dt_set_manifest k m t) = Some m"
proof -
  have row: "table_row_at k (dt_set_manifest k m t) = Some (r\<lparr>tr_digests := Some (manifest_octets m)\<rparr>)"
    using assms(2) table_row_update [OF assms(1), of "\<lambda>r. r\<lparr>tr_digests := Some (manifest_octets m)\<rparr>"]
    by (simp add: dt_set_manifest_def)
  have "take hs (drop (c * hs) (concat ds)) = (if c < length ds then ds ! c else [])"
    if "\<forall>d\<in>set ds. length d = hs" for ds :: "octets list"
    using that
  proof (induction ds arbitrary: c)
    case (Cons d ds)
    then show ?case by (cases c) auto
  qed simp
  moreover have "\<forall>i<length (chunk_digests m). length (chunk_digests m ! i) = hs" using assms(4) nth_mem by blast
  ultimately have "dt_chunk_digest hs k c (dt_set_manifest k m t)
      = (if c < length (chunk_digests m) then Some (chunk_digests m ! c) else None)"
    using row assms(3,4) by (simp add: dt_chunk_digest_def manifest_octets_def Let_def)
  moreover have "split_digests hs (manifest_octets m) = chunk_digests m"
    using split_digests_concat [OF assms(3,4)] by (simp add: manifest_octets_def)
  then have "dt_manifest hs k (dt_set_manifest k m t) = Some m"
    using row length_concat_same [OF assms(4)] assms(5)
    by (simp add: dt_manifest_def manifest_from_octets_def manifest_octets_def)
  ultimately show ?thesis by blast
qed

theorem chunk_digest_is_manifest_entry_witness:
  "dt_chunk_digest 2 1 1 (dt_set_manifest 1 \<lparr>chunk_digests = [[1, 2], [3, 4]], dm_trailing = []\<rparr> ex_table) = Some [3, 4]"
proof -
  have "table_row_at 1 ex_table = Some ex_row" by (simp add: ex_table_def ex_row_def table_row_at_def)
  from chunk_digest_is_manifest_entry [OF ex_table_wf this, of 2 "\<lparr>chunk_digests = [[1, 2], [3, 4]], dm_trailing = []\<rparr>" 1]
  show ?thesis by simp
qed

end
