(* ===== verification/Record_Storage.thy ===== *)
theory Record_Storage
  imports Records Data_Table
begin

text \<open>
  The record storage of clients and servers (core/record_storage.cpp, record_interface.hpp) with
  the index of the data its records name (core/data/data_index.cpp).

  The tables are the lists of their rows in key order. A key is the row identifier the database
  gives: one more than the largest key present. The UNIQUE constraints of the schema are checked
  by \<open>rows_unique\<close>; a statement that would break one fails with \<open>Database\<close>, and a
  transaction that fails leaves the storage unchanged. Blobs that hold a serialised block or
  envelope hold the value here: the codec reads back what it wrote. A record handle is the key of
  its row (the cached members of the handle mirror the columns).
\<close>

section \<open>Rows\<close>

datatype record_state = rs_unknown | rs_invalid | rs_pending_commit | rs_pending_sync | rs_in_sync | rs_acked

fun record_state_value :: "record_state \<Rightarrow> nat" where
  "record_state_value rs_unknown = 0"
| "record_state_value rs_invalid = 1"
| "record_state_value rs_pending_commit = 2"
| "record_state_value rs_pending_sync = 3"
| "record_state_value rs_in_sync = 4"
| "record_state_value rs_acked = 5"

definition is_server_confirmed :: "record_state \<Rightarrow> bool" where
  "is_server_confirmed s = (s = rs_in_sync \<or> s = rs_acked)"

definition is_valid_state :: "record_state \<Rightarrow> bool" where
  "is_valid_state s = (record_state_value rs_invalid < record_state_value s)"

record record_row =
  rr_key :: nat
  rr_tag :: record_tag
  rr_seq :: sequence_number
  rr_hash :: octets
  rr_parent_hash :: octets
  rr_state :: record_state
  rr_record :: chain_block
  rr_type :: record_type_tag
  rr_op_id :: "octets option"
  rr_envelope :: "block_envelope option"
  rr_origin :: "octets option"
  rr_origin_seq :: "sequence_number option"
  rr_useq :: bool

record object_row =
  or_key :: nat
  or_tag :: record_tag
  or_prev_tag :: record_tag
  or_oid :: object_id
  or_data_ref :: "nat option"

record record_storage =
  rs_records :: "record_row list"
  rs_objects :: "object_row list"
  rs_data :: data_state_table
  rs_cursor_owner :: octets
  rs_limits :: storage_limits
  rs_data_endpoints :: "data_endpoint list"

definition empty_record_storage :: record_storage where
  "empty_record_storage = \<lparr>rs_records = [], rs_objects = [], rs_data = empty_data_table,
     rs_cursor_owner = [], rs_limits = no_limits, rs_data_endpoints = []\<rparr>"

definition row_block_id :: "record_row \<Rightarrow> chain_block_id" where
  "row_block_id r = \<lparr>bid_sequence = rr_seq r, bid_hash = rr_hash r\<rparr>"

text \<open>The UNIQUE constraints of the record table; a null column is never equal to another.\<close>

definition rows_unique :: "record_row list \<Rightarrow> bool" where
  "rows_unique rows = (distinct (map rr_tag rows) \<and> distinct (map rr_hash rows)
     \<and> distinct (map rr_op_id (filter (\<lambda>r. rr_op_id r \<noteq> None) rows))
     \<and> distinct (map rr_seq (filter rr_useq rows)))"

definition next_row_key :: "record_row list \<Rightarrow> nat" where
  "next_row_key rows = (if rows = [] then 1 else Suc (rr_key (last rows)))"

definition next_object_key :: "object_row list \<Rightarrow> nat" where
  "next_object_key rows = (if rows = [] then 1 else Suc (or_key (last rows)))"

section \<open>The data index\<close>

definition data_reference :: "nat \<Rightarrow> data_descriptor \<Rightarrow> data_state_table \<Rightarrow> (nat \<times> data_state_table) result" where
  "data_reference tag_size d t =
     bind_result (dt_ensure tag_size d t) (\<lambda>(local_id, t1).
       Inr (local_id, case dt_find_local tag_size local_id t1 of
           Some row \<Rightarrow> (if dr_state row = ds_pruned then dt_set_state local_id ds_deferred t1 else t1)
         | None \<Rightarrow> t1))"

definition data_reference_count :: "record_storage \<Rightarrow> nat \<Rightarrow> nat" where
  "data_reference_count st k = length (filter (\<lambda>ob. or_data_ref ob = Some k) (rs_objects st))"

text \<open>The sequences of the server confirmed records whose objects reference the row of the data.\<close>

definition confirmed_sequences :: "record_storage \<Rightarrow> nat \<Rightarrow> sequence_number list" where
  "confirmed_sequences st k =
     map rr_seq (filter (\<lambda>r. is_server_confirmed (rr_state r)
       \<and> (\<exists>ob\<in>set (rs_objects st). or_tag ob = rr_tag r \<and> or_data_ref ob = Some k)) (rs_records st))"

definition confirmed_in_state :: "record_storage \<Rightarrow> record_data_state \<Rightarrow> data_id list" where
  "confirmed_in_state st s =
     map (\<lambda>(_, i). i) (sort_key fst (concat (map (\<lambda>r.
       (if tr_state r = s then case confirmed_sequences st (tr_key r) of
            [] \<Rightarrow> [] | q # qs \<Rightarrow> [(fold min qs q, tr_data_id r)] else [])) (dt_rows (rs_data st)))))"

definition unreferenced :: "record_storage \<Rightarrow> data_id list" where
  "unreferenced st = map tr_data_id (filter (\<lambda>r. \<forall>ob\<in>set (rs_objects st). or_data_ref ob \<noteq> Some (tr_key r)) (dt_rows (rs_data st)))"

definition remove_unreferenced_data :: "record_storage \<Rightarrow> data_id list \<times> record_storage" where
  "remove_unreferenced_data st =
     (let removed = unreferenced st
      in (removed, st\<lparr>rs_data := fold (\<lambda>i t. case table_row i t of Some r \<Rightarrow> dt_remove (tr_key r) t | None \<Rightarrow> t)
            removed (rs_data st)\<rparr>))"

definition only_referenced_by :: "nat \<Rightarrow> record_storage \<Rightarrow> (nat \<times> nat) list \<Rightarrow> data_state_row list" where
  "only_referenced_by tag_size st references =
     concat (map (\<lambda>(k, n). case dt_find_local tag_size k (rs_data st) of
         Some row \<Rightarrow> (if dr_state row \<noteq> ds_pruned \<and> data_reference_count st k = n then [row] else [])
       | None \<Rightarrow> []) references)"

definition data_prune :: "data_state_row list \<Rightarrow> record_storage \<Rightarrow> data_id list \<times> record_storage" where
  "data_prune rows st =
     (map (\<lambda>row. manifest_digest (dr_descriptor row)) rows,
      st\<lparr>rs_data := fold (\<lambda>row. dt_set_state (dr_local_id row) ds_pruned) rows (rs_data st)\<rparr>)"

section \<open>Creating and changing records\<close>

definition create_object_record :: "nat \<Rightarrow> record_tag \<Rightarrow> single_change \<Rightarrow> record_storage \<Rightarrow> record_storage result" where
  "create_object_record tag_size tag obj st =
     (let d = sc_data obj;
          row = (\<lambda>ref objs. \<lparr>or_key = next_object_key objs, or_tag = tag, or_prev_tag = pc_previous_tag d,
                   or_oid = pc_id d, or_data_ref = ref\<rparr>)
      in case pc_data d of
          Some desc \<Rightarrow>
            (if usable_data_descriptor tag_size desc
             then bind_result (data_reference tag_size desc (rs_data st)) (\<lambda>(k, t).
                    Inr (st\<lparr>rs_data := t, rs_objects := rs_objects st @ [row (Some k) (rs_objects st)]\<rparr>))
             else Inr (st\<lparr>rs_objects := rs_objects st @ [row None (rs_objects st)]\<rparr>))
        | None \<Rightarrow> Inr (st\<lparr>rs_objects := rs_objects st @ [row None (rs_objects st)]\<rparr>))"

fun create_object_records :: "nat \<Rightarrow> record_tag \<Rightarrow> single_change list \<Rightarrow> record_storage \<Rightarrow> record_storage result" where
  "create_object_records tag_size tag [] st = Inr st"
| "create_object_records tag_size tag (obj # objs) st =
     bind_result (create_object_record tag_size tag obj st) (create_object_records tag_size tag objs)"

definition insert_to_db ::
  "externals \<Rightarrow> chain_block \<Rightarrow> record_state \<Rightarrow> record_type_tag \<Rightarrow> octets \<Rightarrow> record_storage \<Rightarrow> (nat \<times> record_storage) result" where
  "insert_to_db ex rec state type op_id st =
     (let row = \<lparr>rr_key = next_row_key (rs_records st), rr_tag = cb_tag rec, rr_seq = cb_sequence rec,
            rr_hash = block_hash ex rec, rr_parent_hash = cb_parent_hash rec, rr_state = state, rr_record = rec,
            rr_type = type, rr_op_id = (if op_id = [] then None else Some op_id), rr_envelope = None,
            rr_origin = None, rr_origin_seq = None, rr_useq = is_server_confirmed state\<rparr>;
          rows = rs_records st @ [row]
      in if rows_unique rows then Inr (rr_key row, st\<lparr>rs_records := rows\<rparr>) else Inl Database)"

definition rs_create :: "externals \<Rightarrow> chain_block \<Rightarrow> record_state \<Rightarrow> record_storage \<Rightarrow> (nat \<times> record_storage) result" where
  "rs_create ex rec state st =
     (case deserialise_record ex rec of
        None \<Rightarrow> Inl (General general_exception_occurred)
      | Some r \<Rightarrow>
          bind_result (insert_to_db ex rec state (record_type r) (rb_op_id (record_base_part r)) st) (\<lambda>(k, st1).
            case r of
              Data_change _ changes _ \<Rightarrow>
                bind_result (create_object_records (ex_tag_size ex) (cb_tag rec) changes st1) (\<lambda>st2. Inr (k, st2))
            | _ \<Rightarrow> Inr (k, st1)))"

definition rs_row :: "nat \<Rightarrow> record_storage \<Rightarrow> record_row option" where
  "rs_row k st = find (\<lambda>r. rr_key r = k) (rs_records st)"

definition rs_update :: "nat \<Rightarrow> (record_row \<Rightarrow> record_row) \<Rightarrow> record_storage \<Rightarrow> record_storage result" where
  "rs_update k f st =
     (let rows = map (\<lambda>r. if rr_key r = k then f r else r) (rs_records st)
      in if rows_unique rows then Inr (st\<lparr>rs_records := rows\<rparr>) else Inl Database)"

definition rs_set_state :: "nat \<Rightarrow> record_state \<Rightarrow> chain_block_id \<Rightarrow> octets \<Rightarrow> record_storage \<Rightarrow> record_storage result" where
  "rs_set_state k state bid parent_hash st =
     (if bid_is_valid bid
      then rs_update k (\<lambda>r. r\<lparr>rr_state := state, rr_seq := bid_sequence bid, rr_hash := bid_hash bid,
             rr_parent_hash := parent_hash, rr_useq := is_server_confirmed state\<rparr>) st
      else rs_update k (\<lambda>r. r\<lparr>rr_state := state, rr_useq := is_server_confirmed state\<rparr>) st)"

definition rs_set_assignment ::
  "nat \<Rightarrow> block_envelope option \<Rightarrow> octets \<Rightarrow> sequence_number \<Rightarrow> record_storage \<Rightarrow> record_storage" where
  "rs_set_assignment k env origin origin_seq st =
     st\<lparr>rs_records := map (\<lambda>r. if rr_key r = k
         then if origin = [] then r\<lparr>rr_envelope := env, rr_origin := None, rr_origin_seq := None\<rparr>
              else r\<lparr>rr_envelope := env, rr_origin := Some origin, rr_origin_seq := Some origin_seq\<rparr>
         else r) (rs_records st)\<rparr>"

definition rs_assignment :: "nat \<Rightarrow> record_storage \<Rightarrow> block_envelope option" where
  "rs_assignment k st = (case rs_row k st of Some r \<Rightarrow> rr_envelope r | None \<Rightarrow> None)"

definition remove_object_records :: "record_tag \<Rightarrow> record_storage \<Rightarrow> record_storage" where
  "remove_object_records tag st = st\<lparr>rs_objects := filter (\<lambda>ob. or_tag ob \<noteq> tag) (rs_objects st)\<rparr>"

definition rs_set_record :: "externals \<Rightarrow> nat \<Rightarrow> chain_block \<Rightarrow> record_storage \<Rightarrow> record_storage result" where
  "rs_set_record ex k rec st =
     (case rs_row k st of
        None \<Rightarrow> Inl (General general_invalid_data)
      | Some old \<Rightarrow>
          (if is_server_confirmed (rr_state old) then Inl (Sync constraint_violation)
           else bind_result
             (rs_update k (\<lambda>r. r\<lparr>rr_tag := cb_tag rec, rr_seq := cb_sequence rec, rr_hash := block_hash ex rec,
                rr_parent_hash := cb_parent_hash rec, rr_record := rec, rr_useq := False\<rparr>)
               (remove_object_records (rr_tag old) st)) (\<lambda>st1.
             case deserialise_record ex rec of
               None \<Rightarrow> Inl (General general_exception_occurred)
             | Some (Data_change _ changes _) \<Rightarrow> create_object_records (ex_tag_size ex) (cb_tag rec) changes st1
             | Some _ \<Rightarrow> Inr st1)))"

section \<open>Queries\<close>

definition of_state :: "record_state \<Rightarrow> record_storage \<Rightarrow> record_row list" where
  "of_state s st = filter (\<lambda>r. rr_state r = s) (rs_records st)"

definition local_rows :: "bool \<Rightarrow> record_storage \<Rightarrow> record_row list" where
  "local_rows allow_local st =
     filter (\<lambda>r. rr_state r = rs_in_sync \<or> rr_state r = (if allow_local then rs_pending_commit else rs_in_sync)) (rs_records st)"

definition find_last :: "bool \<Rightarrow> record_storage \<Rightarrow> record_row option" where
  "find_last allow_local st =
     (let rows = local_rows allow_local st;
          top = filter (\<lambda>r. rr_seq r = max_of rr_seq rows) rows
      in if top = [] then None else Some (last top))"

definition last_block :: "bool \<Rightarrow> record_storage \<Rightarrow> chain_block_id" where
  "last_block allow_local st = (case find_last allow_local st of Some r \<Rightarrow> row_block_id r | None \<Rightarrow> no_block)"

definition find_root :: "record_storage \<Rightarrow> record_row option" where
  "find_root st = find (\<lambda>r. rr_seq r = 1 \<and> rr_state r = rs_in_sync) (rs_records st)"

definition names_object :: "record_storage \<Rightarrow> object_id \<Rightarrow> record_row \<Rightarrow> bool" where
  "names_object st oid r = (\<exists>ob\<in>set (rs_objects st). or_tag ob = rr_tag r \<and> or_oid ob = oid)"

definition find_last_object :: "object_id \<Rightarrow> record_storage \<Rightarrow> record_row option" where
  "find_last_object oid st = argmax rr_seq (filter (names_object st oid) (of_state rs_in_sync st))"

definition find_first_object :: "object_id \<Rightarrow> record_storage \<Rightarrow> record_row option" where
  "find_first_object oid st = argmin rr_seq (filter (names_object st oid) (of_state rs_in_sync st))"

definition find_hash :: "octets \<Rightarrow> record_state \<Rightarrow> record_storage \<Rightarrow> record_row option" where
  "find_hash h s st = find (\<lambda>r. rr_hash r = h \<and> rr_state r = s) (rs_records st)"

definition find_seq :: "sequence_number \<Rightarrow> record_state \<Rightarrow> record_storage \<Rightarrow> record_row option" where
  "find_seq q s st = find (\<lambda>r. rr_seq r = q \<and> rr_state r = s) (rs_records st)"

definition find_op_id :: "octets \<Rightarrow> record_storage \<Rightarrow> record_row option" where
  "find_op_id i st = find (\<lambda>r. rr_op_id r = Some i) (rs_records st)"

definition find_tag :: "record_tag \<Rightarrow> record_storage \<Rightarrow> record_row option" where
  "find_tag t st = find (\<lambda>r. rr_tag r = t) (rs_records st)"

definition find_first_pending_commit :: "record_storage \<Rightarrow> record_row option" where
  "find_first_pending_commit st = find (\<lambda>r. rr_state r = rs_pending_commit) (rs_records st)"

definition find_next_pending_commit :: "nat \<Rightarrow> record_storage \<Rightarrow> record_row option" where
  "find_next_pending_commit k st = find (\<lambda>r. rr_state r = rs_pending_commit \<and> k < rr_key r) (rs_records st)"

definition received :: "record_row \<Rightarrow> bool" where
  "received r = (rr_state r = rs_in_sync \<or> rr_state r = rs_acked \<or> rr_state r = rs_pending_sync)"

definition first_missing_sequence :: "sequence_number \<Rightarrow> record_storage \<Rightarrow> sequence_number" where
  "first_missing_sequence from st =
     (let rows = filter received (rs_records st); top = max_of rr_seq rows
      in if seq_is_valid from \<and> from \<le> top
         then if \<not> (\<exists>r\<in>set rows. rr_seq r = from) then from
              else case argmin rr_seq (filter (\<lambda>r. from \<le> rr_seq r \<and> rr_seq r < top
                       \<and> \<not> (\<exists>n\<in>set rows. rr_seq n = rr_seq r + 1)) rows) of
                  Some r \<Rightarrow> rr_seq r + 1 | None \<Rightarrow> 0
         else 0)"

definition highest_sequence_number :: "record_storage \<Rightarrow> sequence_number" where
  "highest_sequence_number st =
     max_of rr_seq (filter (\<lambda>r. rr_state r = rs_in_sync \<or> rr_state r = rs_pending_sync) (rs_records st))"

definition is_special_type :: "record_type_tag \<Rightarrow> bool" where
  "is_special_type t = (t = user_change_tag \<or> t = segment_tag)"

definition last_special_sequence :: "record_storage \<Rightarrow> sequence_number" where
  "last_special_sequence st = max_of rr_seq (filter (\<lambda>r. is_special_type (rr_type r)) (of_state rs_in_sync st))"

definition adds_object :: "record_storage \<Rightarrow> record_row \<Rightarrow> bool" where
  "adds_object st r = (\<exists>ob\<in>set (rs_objects st). or_tag ob = rr_tag r \<and> or_prev_tag ob = [])"

definition last_data_add_sequence :: "record_storage \<Rightarrow> sequence_number" where
  "last_data_add_sequence st = max_of rr_seq (filter (adds_object st) (of_state rs_in_sync st))"

definition find_last_of_type :: "record_type_tag \<Rightarrow> record_storage \<Rightarrow> record_row option" where
  "find_last_of_type t st = argmax rr_seq (filter (\<lambda>r. rr_type r = t) (of_state rs_in_sync st))"

definition find_all_of_type :: "record_type_tag \<Rightarrow> record_storage \<Rightarrow> record_row list" where
  "find_all_of_type t st = sort_key rr_seq (filter (\<lambda>r. rr_type r = t) (of_state rs_in_sync st))"

definition tags_in_range :: "sequence_number \<Rightarrow> sequence_number \<Rightarrow> record_storage \<Rightarrow> record_tag list" where
  "tags_in_range a b st =
     map rr_tag (sort_key rr_seq (filter (\<lambda>r. a \<le> rr_seq r \<and> rr_seq r \<le> b) (of_state rs_in_sync st)))"

definition find_range ::
  "sequence_number \<Rightarrow> sequence_number \<Rightarrow> record_state \<Rightarrow> nat \<Rightarrow> record_storage \<Rightarrow> record_row list" where
  "find_range a b s mx st =
     take mx (sort_key rr_seq (filter (\<lambda>r. a \<le> rr_seq r \<and> rr_seq r \<le> b) (of_state s st)))"

definition of_origin :: "octets \<Rightarrow> record_storage \<Rightarrow> record_row list" where
  "of_origin o' st = filter (\<lambda>r. rr_origin r = Some o') (of_state rs_in_sync st)"

definition origin_seq_of :: "record_row \<Rightarrow> sequence_number" where
  "origin_seq_of r = value_or (rr_origin_seq r) 0"

definition last_of_origin :: "octets \<Rightarrow> record_storage \<Rightarrow> chain_block_id" where
  "last_of_origin o' st = (case argmax origin_seq_of (of_origin o' st) of Some r \<Rightarrow> row_block_id r | None \<Rightarrow> no_block)"

definition origin_block_hash :: "externals \<Rightarrow> octets \<Rightarrow> sequence_number \<Rightarrow> record_storage \<Rightarrow> octets" where
  "origin_block_hash ex o' q st =
     (case find (\<lambda>r. rr_origin_seq r = Some q) (of_origin o' st) of
        Some r \<Rightarrow> (case rr_envelope r of Some env \<Rightarrow> block_hash ex (be_block env) | None \<Rightarrow> [])
      | None \<Rightarrow> [])"

definition last_origin_seq :: "octets \<Rightarrow> record_storage \<Rightarrow> sequence_number" where
  "last_origin_seq o' st = (case argmax origin_seq_of (of_origin o' st) of Some r \<Rightarrow> origin_seq_of r | None \<Rightarrow> 0)"

definition find_origin_assignments ::
  "octets \<Rightarrow> sequence_number \<Rightarrow> sequence_number \<Rightarrow> nat \<Rightarrow> record_storage \<Rightarrow> block_envelope list" where
  "find_origin_assignments o' from to mx st =
     List.map_filter rr_envelope (take mx (sort_key origin_seq_of
       (filter (\<lambda>r. \<exists>q. rr_origin_seq r = Some q \<and> from \<le> q \<and> q \<le> to) (of_origin o' st))))"

section \<open>The versions of an object\<close>

record object_version =
  ov_tag :: record_tag
  ov_prev_tag :: record_tag
  ov_seq :: sequence_number
  ov_data_ref :: "nat option"

text \<open>The pairs of an object row and its in sync record, in the order of the object rows.\<close>

definition object_records :: "record_storage \<Rightarrow> (object_row \<times> record_row) list" where
  "object_records st = List.map_filter (\<lambda>ob. map_option (\<lambda>r. (ob, r))
     (find (\<lambda>r. rr_tag r = or_tag ob) (of_state rs_in_sync st))) (rs_objects st)"

definition version_of :: "object_row \<times> record_row \<Rightarrow> object_version" where
  "version_of p = \<lparr>ov_tag = or_tag (fst p), ov_prev_tag = or_prev_tag (fst p), ov_seq = rr_seq (snd p),
     ov_data_ref = or_data_ref (fst p)\<rparr>"

definition collect_object_heads :: "record_storage \<Rightarrow> (object_id \<times> object_version) list" where
  "collect_object_heads st =
     List.map_filter (\<lambda>oid. map_option (\<lambda>p. (oid, version_of p))
         (argmax (\<lambda>p. rr_seq (snd p)) (filter (\<lambda>p. or_oid (fst p) = oid) (object_records st))))
       (sort (remdups (map (\<lambda>p. or_oid (fst p)) (object_records st))))"

definition find_object_version :: "record_storage \<Rightarrow> object_id \<Rightarrow> record_tag \<Rightarrow> object_version option" where
  "find_object_version st oid tag =
     map_option version_of (find (\<lambda>p. or_tag (fst p) = tag \<and> or_oid (fst p) = oid) (object_records st))"

definition object_tags :: "record_storage \<Rightarrow> record_tag set" where
  "object_tags st = or_tag ` set (rs_objects st)"

lemma map_filter_mem: "y \<in> set (List.map_filter f xs) \<longleftrightarrow> (\<exists>x\<in>set xs. f x = Some y)"
  by (force simp: List.map_filter_def)

lemma object_records_mem:
  assumes "p \<in> set (object_records st)"
  shows "fst p \<in> set (rs_objects st)" "snd p \<in> set (rs_records st)" "rr_state (snd p) = rs_in_sync"
    "rr_tag (snd p) = or_tag (fst p)"
  using assms by (auto simp: object_records_def map_filter_mem of_state_def dest!: find_SomeD)

lemma find_object_version_tag: "find_object_version st oid tag = Some v \<Longrightarrow> ov_tag v = tag \<and> tag \<in> object_tags st"
  by (auto simp: find_object_version_def version_of_def object_tags_def dest!: find_SomeD object_records_mem(1))

function object_versions_from ::
  "record_storage \<Rightarrow> object_id \<Rightarrow> record_tag list \<Rightarrow> object_version \<Rightarrow> object_version list" where
  "object_versions_from st oid visited v =
     (if ov_tag v \<in> set visited then []
      else v # (case (if ov_prev_tag v = [] then None else find_object_version st oid (ov_prev_tag v)) of
           Some v' \<Rightarrow> object_versions_from st oid (ov_tag v # visited) v'
         | None \<Rightarrow> []))"
  by pat_completeness auto
termination
proof (relation "measure (\<lambda>(st, oid, visited, v).
    2 * card (object_tags st - set visited) + (if ov_tag v \<in> object_tags st then 0 else 1))", goal_cases)
  case (2 st oid visited v v')
  then have v': "ov_tag v' \<in> object_tags st" using find_object_version_tag by (auto split: if_splits)
  have fin: "finite (object_tags st - set visited)" by (simp add: object_tags_def)
  have sub: "object_tags st - set (ov_tag v # visited) \<subseteq> object_tags st - set visited" by auto
  show ?case
  proof (cases "ov_tag v \<in> object_tags st")
    case True
    then have "object_tags st - set (ov_tag v # visited) \<subset> object_tags st - set visited" using 2(1) by auto
    then have "card (object_tags st - set (ov_tag v # visited)) < card (object_tags st - set visited)"
      by (rule psubset_card_mono [OF fin])
    then show ?thesis using v' True by simp
  next
    case False
    then show ?thesis using v' card_mono [OF fin sub] by simp
  qed
qed simp

declare object_versions_from.simps [simp del]

definition object_versions :: "record_storage \<Rightarrow> object_id \<times> object_version \<Rightarrow> object_version list" where
  "object_versions st head = object_versions_from st (fst head) [] (snd head)"

definition collect_object_chain :: "record_storage \<Rightarrow> sequence_number \<Rightarrow> object_id \<times> object_version
    \<Rightarrow> record_tag list \<Rightarrow> record_tag list" where
  "collect_object_chain st below head ret =
     fold (\<lambda>v ret. if ov_seq v < below \<and> ov_tag v \<notin> set ret then ret @ [ov_tag v] else ret) (object_versions st head) ret"

definition object_chain_tags_below :: "sequence_number \<Rightarrow> record_storage \<Rightarrow> record_tag list" where
  "object_chain_tags_below below st = fold (collect_object_chain st below) (collect_object_heads st) []"

section \<open>Truncation and retention\<close>

definition truncation_rows :: "(sequence_number \<Rightarrow> bool) \<Rightarrow> record_storage \<Rightarrow> record_row list" where
  "truncation_rows P st = sort_key rr_seq (filter (\<lambda>r. P (rr_seq r) \<and> received r) (rs_records st))"

definition remove_row :: "record_row \<Rightarrow> record_storage \<Rightarrow> record_storage" where
  "remove_row row st = st\<lparr>rs_objects := filter (\<lambda>ob. or_tag ob \<noteq> cb_tag (rr_record row)) (rs_objects st),
     rs_records := filter (\<lambda>r. rr_key r \<noteq> rr_key row) (rs_records st)\<rparr>"

fun truncate_rows :: "bool \<Rightarrow> record_row list \<Rightarrow> record_storage \<Rightarrow> (chain_block list \<times> record_storage) result" where
  "truncate_rows demote_acked [] st = Inr ([], st)"
| "truncate_rows demote_acked (row # rows) st =
     (if demote_acked \<and> rr_state row = rs_acked
      then bind_result (rs_set_state (rr_key row) rs_pending_commit no_block [] st) (\<lambda>st1.
             truncate_rows demote_acked rows (rs_set_assignment (rr_key row) None [] 0 st1))
      else bind_result (truncate_rows demote_acked rows (remove_row row st)) (\<lambda>(removed, st2).
             Inr (rr_record row # removed, st2)))"

definition truncate_from ::
  "sequence_number \<Rightarrow> bool \<Rightarrow> record_storage \<Rightarrow> (chain_block list \<times> record_storage) result" where
  "truncate_from first_removed demote_acked st =
     (if \<not> seq_is_valid first_removed then Inl (Sync constraint_violation)
      else truncate_rows demote_acked (truncation_rows (\<lambda>q. first_removed \<le> q) st) st)"

definition truncate_prefix ::
  "sequence_number \<Rightarrow> record_tag list \<Rightarrow> record_storage \<Rightarrow> (chain_block list \<times> record_storage) result" where
  "truncate_prefix first_kept retained st =
     (if \<not> seq_is_valid first_kept then Inl (Sync constraint_violation)
      else let gone = filter (\<lambda>row. cb_tag (rr_record row) \<notin> set retained) (truncation_rows (\<lambda>q. q < first_kept) st)
           in Inr (map rr_record gone, fold remove_row gone st))"

definition count_superseded :: "sequence_number \<Rightarrow> u32 \<Rightarrow> object_version list \<Rightarrow> (nat \<times> nat) list \<Rightarrow> (nat \<times> nat) list" where
  "count_superseded below kept_versions vs m =
     snd (fold (\<lambda>v (carrying, m).
       (case ov_data_ref v of
          Some k \<Rightarrow> (if ov_seq v < below
            then if carrying + 1 > unat kept_versions
                 then (carrying + 1, map_put k (value_or (map_of m k) 0 + 1) m)
                 else (carrying + 1, m)
            else (carrying, m))
        | None \<Rightarrow> (carrying, m))) vs (0 :: nat, m))"

definition superseded_rows :: "nat \<Rightarrow> sequence_number \<Rightarrow> u32 \<Rightarrow> record_storage \<Rightarrow> data_state_row list" where
  "superseded_rows tag_size below kept_versions st =
     (if kept_versions \<noteq> 0 \<and> kept_versions \<noteq> keep_all_data_versions
      then only_referenced_by tag_size st
        (fold (\<lambda>head. count_superseded below kept_versions (object_versions st head)) (collect_object_heads st) [])
      else [])"

definition superseded_data_below :: "nat \<Rightarrow> sequence_number \<Rightarrow> u32 \<Rightarrow> record_storage \<Rightarrow> data_id list" where
  "superseded_data_below tag_size below kept_versions st =
     map (\<lambda>row. manifest_digest (dr_descriptor row)) (superseded_rows tag_size below kept_versions st)"

definition prune_superseded_data :: "nat \<Rightarrow> sequence_number \<Rightarrow> u32 \<Rightarrow> record_storage \<Rightarrow> data_id list \<times> record_storage" where
  "prune_superseded_data tag_size below kept_versions st = data_prune (superseded_rows tag_size below kept_versions st) st"

definition set_cursor_owner :: "octets \<Rightarrow> record_storage \<Rightarrow> record_storage" where
  "set_cursor_owner owner st = st\<lparr>rs_cursor_owner := owner\<rparr>"

definition set_limits :: "storage_limits \<Rightarrow> record_storage \<Rightarrow> record_storage" where
  "set_limits l st = st\<lparr>rs_limits := l\<rparr>"

definition set_data_endpoints :: "data_endpoint list \<Rightarrow> record_storage \<Rightarrow> record_storage" where
  "set_data_endpoints es st = st\<lparr>rs_data_endpoints := es\<rparr>"

end
