(* ===== verification/Record_Invariants.thy ===== *)
theory Record_Invariants
  imports Record_Storage
begin

text \<open>
  The well-formedness of a record storage and that every operation of it preserves it: the
  constraints of the schema hold, the sequence selector marks exactly the server confirmed rows,
  every object row belongs to a record and every data reference names a row of the data table.
\<close>

section \<open>Well-formed storages\<close>

definition rows_wf :: "record_row list \<Rightarrow> bool" where
  "rows_wf rows = (sorted_wrt (<) (map rr_key rows) \<and> rows_unique rows
     \<and> (\<forall>r\<in>set rows. 0 < rr_key r \<and> rr_useq r = is_server_confirmed (rr_state r)
          \<and> cb_tag (rr_record r) = rr_tag r))"

definition objects_wf :: "record_storage \<Rightarrow> bool" where
  "objects_wf st = (\<forall>ob\<in>set (rs_objects st). (\<exists>r\<in>set (rs_records st). rr_tag r = or_tag ob)
     \<and> (\<forall>k. or_data_ref ob = Some k \<longrightarrow> table_row_at k (rs_data st) \<noteq> None))"

definition rs_wf :: "nat \<Rightarrow> record_storage \<Rightarrow> bool" where
  "rs_wf ts st = (rows_wf (rs_records st) \<and> objects_wf st \<and> dt_wf ts (rs_data st))"

lemma rs_wfI: "rows_wf (rs_records st) \<Longrightarrow> objects_wf st \<Longrightarrow> dt_wf ts (rs_data st) \<Longrightarrow> rs_wf ts st"
  by (simp add: rs_wf_def)

lemma rs_wfD:
  assumes "rs_wf ts st"
  shows "rows_wf (rs_records st)" "objects_wf st" "dt_wf ts (rs_data st)"
  using assms by (auto simp: rs_wf_def)

lemma rows_wfD:
  assumes "rows_wf rows"
  shows "sorted_wrt (<) (map rr_key rows)" "rows_unique rows" "distinct (map rr_key rows)"
    "distinct (map rr_tag rows)" "distinct (map rr_hash rows)"
  using assms by (auto simp: rows_wf_def rows_unique_def strict_sorted_iff)

lemma rows_wf_row:
  assumes "rows_wf rows" "r \<in> set rows"
  shows "0 < rr_key r" "rr_useq r \<longleftrightarrow> is_server_confirmed (rr_state r)" "cb_tag (rr_record r) = rr_tag r"
  using assms by (auto simp: rows_wf_def)

lemma same_tag_row: "rows_wf rows \<Longrightarrow> r \<in> set rows \<Longrightarrow> s \<in> set rows \<Longrightarrow> rr_tag r = rr_tag s \<Longrightarrow> r = s"
  using rows_wfD(4) by (auto simp: distinct_map inj_on_def)

lemma same_key_row: "rows_wf rows \<Longrightarrow> r \<in> set rows \<Longrightarrow> s \<in> set rows \<Longrightarrow> rr_key r = rr_key s \<Longrightarrow> r = s"
  using rows_wfD(3) by (auto simp: distinct_map inj_on_def)

lemma same_seq_row:
  assumes "rows_wf rows" "r \<in> set rows" "s \<in> set rows" "rr_seq r = rr_seq s"
    "is_server_confirmed (rr_state r)" "is_server_confirmed (rr_state s)"
  shows "r = s"
proof -
  have "distinct (map rr_seq (filter rr_useq rows))" using rows_wfD(2) [OF assms(1)] by (simp add: rows_unique_def)
  moreover have "rr_useq r" "rr_useq s" using rows_wf_row(2) [OF assms(1)] assms by auto
  ultimately show ?thesis using assms(2-4) by (auto simp: distinct_map inj_on_def)
qed

lemma rows_unique_filter: "rows_unique rows \<Longrightarrow> rows_unique (filter P rows)"
proof -
  assume u: "rows_unique rows"
  have c: "filter Q (filter P xs) = filter P (filter Q xs)" for Q and xs :: "record_row list"
    by (simp add: conj_commute)
  show ?thesis unfolding rows_unique_def c [of "\<lambda>r. rr_op_id r \<noteq> None"] c [of rr_useq]
    using u unfolding rows_unique_def by (blast intro: distinct_map_filter)
qed

lemma rows_wf_filter: "rows_wf rows \<Longrightarrow> rows_wf (filter P rows)"
  by (auto simp: rows_wf_def rows_unique_filter sorted_wrt_map intro: sorted_wrt_filter)

lemma rows_wf_empty: "rows_wf []"
  by (simp add: rows_wf_def rows_unique_def)

lemma rs_wf_empty: "rs_wf ts empty_record_storage"
  by (simp add: rs_wf_def rows_wf_empty objects_wf_def empty_record_storage_def dt_wf_empty)

section \<open>Inserting rows\<close>

lemma sorted_last: "sorted_wrt (<) (map f xs) \<Longrightarrow> x \<in> set xs \<Longrightarrow> (f x :: nat) \<le> f (last xs)"
  by (induction xs) (auto intro: less_imp_le)

lemma next_row_key_fresh: "rows_wf rows \<Longrightarrow> r \<in> set rows \<Longrightarrow> rr_key r < next_row_key rows"
proof -
  assume wf: "rows_wf rows" and r: "r \<in> set rows"
  then have ne: "rows \<noteq> []" by auto
  have "rr_key r \<le> rr_key (last rows)" using rows_wfD(1) [OF wf] r by (rule sorted_last)
  then show ?thesis using ne by (simp add: next_row_key_def)
qed

lemma insert_to_db_Inr:
  assumes "insert_to_db ex rec s type op st = Inr (k, st')"
  shows "k = next_row_key (rs_records st)"
    and "\<exists>row. st' = st\<lparr>rs_records := rs_records st @ [row]\<rparr> \<and> rr_key row = k \<and> rr_tag row = cb_tag rec
      \<and> rr_seq row = cb_sequence rec \<and> rr_hash row = block_hash ex rec \<and> rr_parent_hash row = cb_parent_hash rec
      \<and> rr_state row = s \<and> rr_record row = rec \<and> rr_type row = type \<and> rr_op_id row = (if op = [] then None else Some op)
      \<and> rr_envelope row = None \<and> rr_origin row = None \<and> rr_origin_seq row = None
      \<and> rr_useq row = is_server_confirmed s \<and> rows_unique (rs_records st @ [row])"
  using assms by (auto simp: insert_to_db_def Let_def split: if_splits)

lemma insert_to_db_wf:
  assumes "rs_wf ts st" "insert_to_db ex rec s type op st = Inr (k, st')"
  shows "rs_wf ts st'" "\<exists>r\<in>set (rs_records st'). rr_tag r = cb_tag rec"
proof -
  obtain row where row: "st' = st\<lparr>rs_records := rs_records st @ [row]\<rparr>" "rr_key row = next_row_key (rs_records st)"
    "rr_tag row = cb_tag rec" "rr_record row = rec" "rr_useq row = is_server_confirmed (rr_state row)"
    "rows_unique (rs_records st @ [row])"
    using insert_to_db_Inr [OF assms(2)] by auto
  note wf = rs_wfD [OF assms(1)]
  have "rows_wf (rs_records st @ [row])"
    using row wf(1) next_row_key_fresh [OF wf(1)]
    by (auto simp: rows_wf_def sorted_wrt_append next_row_key_def)
  then show "rs_wf ts st'" using row(1) wf by (auto simp: rs_wf_def objects_wf_def)
  show "\<exists>r\<in>set (rs_records st'). rr_tag r = cb_tag rec" using row by auto
qed

text \<open>References into the data table stay, whatever is referenced next.\<close>

lemma table_row_at_insert:
  "table_row_at k t = Some r \<Longrightarrow> table_row_at k (dt_insert ts d t) = Some r"
  by (auto simp: dt_insert_def table_row_at_def find_append split: option.splits)

lemma dt_set_state_row:
  "dt_wf ts t \<Longrightarrow> table_row_at k t \<noteq> None \<Longrightarrow> table_row_at k (dt_set_state j s t) \<noteq> None"
  by (auto simp: dt_set_state_def table_row_update)

lemma data_reference_Inr:
  assumes "dt_wf ts t" "data_reference ts d t = Inr (k, t')"
  shows "dt_wf ts t'" "table_row_at k t' \<noteq> None" "\<And>j. table_row_at j t \<noteq> None \<Longrightarrow> table_row_at j t' \<noteq> None"
proof -
  obtain t1 where t1: "dt_ensure ts d t = Inr (k, t1)" and t': "t' = t1 \<or> t' = dt_set_state k ds_deferred t1"
    using assms(2) by (auto simp: data_reference_def bind_result_Inr split: option.splits if_splits)
  note c = dt_ensure_cases [OF t1]
  have wf1: "dt_wf ts t1" using c assms(1) dt_wf_insert by auto
  obtain r where r: "table_row (manifest_digest d) t1 = Some r" "tr_key r = k" using c by blast
  have k1: "table_row_at k t1 \<noteq> None" using table_row_SomeD [OF r(1)] r(2) table_row_at_mem [OF wf1] by auto
  have old: "table_row_at j t \<noteq> None \<Longrightarrow> table_row_at j t1 \<noteq> None" for j
    using c table_row_at_insert [of j t] by auto
  show "dt_wf ts t'" using t' wf1 dt_wf_setters(1) by blast
  show "table_row_at k t' \<noteq> None" using t' k1 dt_set_state_row [OF wf1] by blast
  show "table_row_at j t' \<noteq> None" if "table_row_at j t \<noteq> None" for j
    using t' old [OF that] dt_set_state_row [OF wf1] by blast
qed

lemma data_reference_total: "usable_data_descriptor ts d \<Longrightarrow> \<exists>k t'. data_reference ts d t = Inr (k, t')"
  using dt_insert_row [of d ts t] by (auto simp: data_reference_def dt_ensure_def dt_find_def Let_def)

lemma objects_wf_snoc:
  assumes "objects_wf st" "\<exists>r\<in>set (rs_records st). rr_tag r = or_tag ob"
    "\<And>k. or_data_ref ob = Some k \<Longrightarrow> table_row_at k t \<noteq> None"
    "\<And>k. table_row_at k (rs_data st) \<noteq> None \<Longrightarrow> table_row_at k t \<noteq> None"
  shows "objects_wf (st\<lparr>rs_data := t, rs_objects := rs_objects st @ [ob]\<rparr>)"
  using assms by (auto simp: objects_wf_def)

lemma create_object_record_Inr:
  assumes "rs_wf ts st" "\<exists>r\<in>set (rs_records st). rr_tag r = tag" "create_object_record ts tag obj st = Inr st'"
  shows "rs_wf ts st' \<and> rs_records st' = rs_records st
    \<and> (\<exists>ob. rs_objects st' = rs_objects st @ [ob] \<and> or_tag ob = tag \<and> or_prev_tag ob = pc_previous_tag (sc_data obj)
         \<and> or_oid ob = pc_id (sc_data obj))"
proof (cases "\<exists>desc. pc_data (sc_data obj) = Some desc \<and> usable_data_descriptor ts desc")
  case True
  note wf = rs_wfD [OF assms(1)]
  from True assms(3) obtain desc k t where d: "data_reference ts desc (rs_data st) = Inr (k, t)"
    "st' = st\<lparr>rs_data := t, rs_objects := rs_objects st @ [\<lparr>or_key = next_object_key (rs_objects st), or_tag = tag,
       or_prev_tag = pc_previous_tag (sc_data obj), or_oid = pc_id (sc_data obj), or_data_ref = Some k\<rparr>]\<rparr>"
    by (auto simp: create_object_record_def Let_def bind_result_Inr)
  note r = data_reference_Inr [OF wf(3) d(1)]
  have "objects_wf st'" unfolding d(2) by (rule objects_wf_snoc [OF wf(2)]) (use assms(2) r in auto)
  then show ?thesis using d(2) r(1) wf(1) by (simp add: rs_wf_def)
next
  case False
  note wf = rs_wfD [OF assms(1)]
  have st': "st' = st\<lparr>rs_objects := rs_objects st @ [\<lparr>or_key = next_object_key (rs_objects st), or_tag = tag,
       or_prev_tag = pc_previous_tag (sc_data obj), or_oid = pc_id (sc_data obj), or_data_ref = None\<rparr>]\<rparr>"
    using False assms(3) by (auto simp: create_object_record_def Let_def split: option.splits)
  have "objects_wf (st\<lparr>rs_data := rs_data st, rs_objects := rs_objects st @ [\<lparr>or_key = next_object_key (rs_objects st), or_tag = tag,
       or_prev_tag = pc_previous_tag (sc_data obj), or_oid = pc_id (sc_data obj), or_data_ref = None\<rparr>]\<rparr>)"
    by (rule objects_wf_snoc [OF wf(2)]) (use assms(2) in auto)
  then show ?thesis using st' wf by (simp add: rs_wf_def)
qed

lemma create_object_records_Inr:
  assumes "rs_wf ts st" "\<exists>r\<in>set (rs_records st). rr_tag r = tag" "create_object_records ts tag objs st = Inr st'"
  shows "rs_wf ts st' \<and> rs_records st' = rs_records st
    \<and> (\<exists>obs. rs_objects st' = rs_objects st @ obs \<and> map or_tag obs = map (\<lambda>_. tag) objs
         \<and> map or_prev_tag obs = map (\<lambda>c. pc_previous_tag (sc_data c)) objs
         \<and> map or_oid obs = map (\<lambda>c. pc_id (sc_data c)) objs)"
  using assms
proof (induction objs arbitrary: st)
  case (Cons obj objs)
  then obtain st1 where st1: "create_object_record ts tag obj st = Inr st1" "create_object_records ts tag objs st1 = Inr st'"
    by (auto simp: bind_result_Inr)
  note one = create_object_record_Inr [OF Cons.prems(1,2) st1(1)]
  then obtain ob where ob: "rs_objects st1 = rs_objects st @ [ob]" "or_tag ob = tag"
    "or_prev_tag ob = pc_previous_tag (sc_data obj)" "or_oid ob = pc_id (sc_data obj)" by blast
  have "\<exists>r\<in>set (rs_records st1). rr_tag r = tag" using Cons.prems(2) one by simp
  with Cons.IH [of st1] one st1(2) obtain obs where "rs_wf ts st'" "rs_records st' = rs_records st"
    "rs_objects st' = rs_objects st1 @ obs" "map or_tag obs = map (\<lambda>_. tag) objs"
    "map or_prev_tag obs = map (\<lambda>c. pc_previous_tag (sc_data c)) objs"
    "map or_oid obs = map (\<lambda>c. pc_id (sc_data c)) objs" by auto
  then show ?case using ob by (intro conjI exI [of _ "ob # obs"]) simp_all
qed simp

lemma create_object_records_total: "\<exists>st'. create_object_records ts tag objs st = Inr st'"
proof (induction objs arbitrary: st)
  case (Cons obj objs)
  have "\<exists>st1. create_object_record ts tag obj st = Inr st1"
    using data_reference_total [of ts _ "rs_data st"] by (force simp: create_object_record_def Let_def split: option.splits)
  then show ?case using Cons by auto
qed simp

lemma rs_create_wf:
  assumes "rs_wf (ex_tag_size ex) st" "rs_create ex rec s st = Inr (k, st')"
  shows "rs_wf (ex_tag_size ex) st'"
proof -
  obtain r where r: "deserialise_record ex rec = Some r"
    using assms(2) by (auto simp: rs_create_def split: option.splits)
  obtain st1 where st1: "insert_to_db ex rec s (record_type r) (rb_op_id (record_base_part r)) st = Inr (k, st1)"
    "st' = st1 \<or> (\<exists>cs. create_object_records (ex_tag_size ex) (cb_tag rec) cs st1 = Inr st')"
    using assms(2) r by (cases r) (auto simp: rs_create_def bind_result_Inr)
  note i = insert_to_db_wf [OF assms(1) st1(1)]
  show ?thesis using st1(2) i create_object_records_Inr [OF i] by blast
qed

section \<open>Changing rows\<close>

lemma rs_update_Inr:
  "rs_update k f st = Inr st' \<longleftrightarrow>
    st' = st\<lparr>rs_records := map (\<lambda>r. if rr_key r = k then f r else r) (rs_records st)\<rparr> \<and> rows_unique (rs_records st')"
  by (auto simp: rs_update_def Let_def)

lemma map_update_keys:
  assumes "\<And>r. rr_key (f r) = rr_key r"
  shows "map rr_key (map (\<lambda>r. if rr_key r = k then f r else r) rows) = map rr_key rows"
  using assms by (induction rows) auto

lemma rs_update_rows_wf:
  assumes "rows_wf (rs_records st)" "rs_update k f st = Inr st'" "\<And>r. rr_key (f r) = rr_key r"
    "\<And>r. r \<in> set (rs_records st) \<Longrightarrow> rr_key r = k \<Longrightarrow>
      rr_useq (f r) = is_server_confirmed (rr_state (f r)) \<and> cb_tag (rr_record (f r)) = rr_tag (f r)"
  shows "rows_wf (rs_records st')"
proof -
  have st': "rs_records st' = map (\<lambda>r. if rr_key r = k then f r else r) (rs_records st)" "rows_unique (rs_records st')"
    using assms(2) by (auto simp: rs_update_Inr)
  have "map rr_key (rs_records st') = map rr_key (rs_records st)"
    unfolding st'(1) by (rule map_update_keys [OF assms(3)])
  moreover have "\<forall>r\<in>set (rs_records st'). 0 < rr_key r \<and> rr_useq r = is_server_confirmed (rr_state r) \<and> cb_tag (rr_record r) = rr_tag r"
    using assms(1,3,4) by (auto simp: st'(1) rows_wf_def)
  ultimately show ?thesis using st'(2) rows_wfD(1) [OF assms(1)] by (simp add: rows_wf_def)
qed

lemma rs_update_same_tags_wf:
  assumes "rs_wf ts st" "rs_update k f st = Inr st'" "\<And>r. rr_key (f r) = rr_key r" "\<And>r. rr_tag (f r) = rr_tag r"
    "\<And>r. rr_record (f r) = rr_record r" "\<And>r. r \<in> set (rs_records st) \<Longrightarrow> rr_useq (f r) = is_server_confirmed (rr_state (f r))"
  shows "rs_wf ts st'"
proof -
  note wf = rs_wfD [OF assms(1)]
  have st': "st' = st\<lparr>rs_records := map (\<lambda>r. if rr_key r = k then f r else r) (rs_records st)\<rparr>"
    using assms(2) by (simp add: rs_update_Inr)
  have "rows_wf (rs_records st')"
    by (rule rs_update_rows_wf [OF wf(1) assms(2,3)]) (use assms(4-6) rows_wf_row(3) [OF wf(1)] in auto)
  moreover have "\<exists>r\<in>set (rs_records st'). rr_tag r = t" if "\<exists>r\<in>set (rs_records st). rr_tag r = t" for t
    using that assms(4) st' by auto
  then have "objects_wf st'" using wf(2) st' by (auto simp: objects_wf_def)
  ultimately show ?thesis using wf(3) st' by (simp add: rs_wf_def)
qed

lemma rs_set_state_wf: "rs_wf ts st \<Longrightarrow> rs_set_state k s bid ph st = Inr st' \<Longrightarrow> rs_wf ts st'"
  unfolding rs_set_state_def by (auto split: if_splits elim!: rs_update_same_tags_wf)

lemma rows_unique_cong:
  assumes "map rr_tag rows = map rr_tag rows'" "map rr_hash rows = map rr_hash rows'"
    "map rr_op_id rows = map rr_op_id rows'" "map (\<lambda>r. (rr_seq r, rr_useq r)) rows = map (\<lambda>r. (rr_seq r, rr_useq r)) rows'"
  shows "rows_unique rows = rows_unique rows'"
proof -
  have f: "map g (filter P xs) = map snd (filter fst (map (\<lambda>r. (P r, g r)) xs))"
    for g :: "record_row \<Rightarrow> 'b" and P and xs :: "record_row list" by (induction xs) auto
  have "map (\<lambda>r. (rr_op_id r \<noteq> None, rr_op_id r)) rows = map (\<lambda>x. (x \<noteq> None, x)) (map rr_op_id rows)"
    "map (\<lambda>r. (rr_op_id r \<noteq> None, rr_op_id r)) rows' = map (\<lambda>x. (x \<noteq> None, x)) (map rr_op_id rows')" by simp_all
  moreover have "map (\<lambda>r. (rr_useq r, rr_seq r)) rows = map prod.swap (map (\<lambda>r. (rr_seq r, rr_useq r)) rows)"
    "map (\<lambda>r. (rr_useq r, rr_seq r)) rows' = map prod.swap (map (\<lambda>r. (rr_seq r, rr_useq r)) rows')" by simp_all
  ultimately show ?thesis
    unfolding rows_unique_def f [of rr_op_id] f [of rr_seq] using assms by (metis (no_types, lifting))
qed

lemma rs_set_assignment_rows:
  "rs_records (rs_set_assignment k env o' q st) =
    map (\<lambda>r. if rr_key r = k then r\<lparr>rr_envelope := env, rr_origin := (if o' = [] then None else Some o'),
       rr_origin_seq := (if o' = [] then None else Some q)\<rparr> else r) (rs_records st)"
  by (auto simp: rs_set_assignment_def)

lemma rs_set_assignment_other [simp]:
  "rs_objects (rs_set_assignment k env o' q st) = rs_objects st" "rs_data (rs_set_assignment k env o' q st) = rs_data st"
  by (simp_all add: rs_set_assignment_def)

lemma rs_set_assignment_wf:
  assumes "rs_wf ts st"
  shows "rs_wf ts (rs_set_assignment k env o' q st)"
proof -
  let ?f = "\<lambda>r. r\<lparr>rr_envelope := env, rr_origin := (if o' = [] then None else Some o'),
       rr_origin_seq := (if o' = [] then None else Some q)\<rparr>"
  note wf = rs_wfD [OF assms]
  have "rows_unique (map (\<lambda>r. if rr_key r = k then ?f r else r) (rs_records st)) = rows_unique (rs_records st)"
    by (rule rows_unique_cong) auto
  then have "rs_update k ?f st = Inr (rs_set_assignment k env o' q st)"
    using rows_wfD(2) [OF wf(1)] by (auto simp: rs_update_def Let_def rs_set_assignment_def intro!: arg_cong [where f = "\<lambda>x. rs_records_update x st"])
  then show ?thesis by (rule rs_update_same_tags_wf [OF assms]) (use rows_wf_row(2) [OF wf(1)] in auto)
qed

lemma rs_row_SomeD: "rs_row k st = Some r \<Longrightarrow> r \<in> set (rs_records st) \<and> rr_key r = k"
  by (auto simp: rs_row_def dest: find_SomeD)

lemma rs_set_record_wf:
  assumes "rs_wf (ex_tag_size ex) st" "rs_set_record ex k rec st = Inr st'"
  shows "rs_wf (ex_tag_size ex) st'"
proof -
  let ?f = "\<lambda>r. r\<lparr>rr_tag := cb_tag rec, rr_seq := cb_sequence rec, rr_hash := block_hash ex rec,
                rr_parent_hash := cb_parent_hash rec, rr_record := rec, rr_useq := False\<rparr>"
  note wf = rs_wfD [OF assms(1)]
  obtain old where old: "rs_row k st = Some old" "\<not> is_server_confirmed (rr_state old)"
    using assms(2) by (auto simp: rs_set_record_def split: option.splits if_splits)
  obtain st1 r where r: "rs_update k ?f (remove_object_records (rr_tag old) st) = Inr st1" "deserialise_record ex rec = Some r"
    using assms(2) old by (auto simp: rs_set_record_def bind_result_Inr split: option.splits)
  then have st1: "rs_update k ?f (remove_object_records (rr_tag old) st) = Inr st1"
    "st' = st1 \<or> (\<exists>cs. create_object_records (ex_tag_size ex) (cb_tag rec) cs st1 = Inr st')"
    using assms(2) old by (cases r; auto simp: rs_set_record_def)+
  have mem: "old \<in> set (rs_records st)" "rr_key old = k" using rs_row_SomeD [OF old(1)] by auto
  have only: "r = old" if "r \<in> set (rs_records st)" "rr_key r = k" for r
    using same_key_row [OF wf(1) that(1) mem(1)] that(2) mem(2) by simp
  have rec1: "rs_records st1 = map (\<lambda>r. if rr_key r = k then ?f r else r) (rs_records st)"
    and ob1: "rs_objects st1 = filter (\<lambda>ob. or_tag ob \<noteq> rr_tag old) (rs_objects st)" and d1: "rs_data st1 = rs_data st"
    using st1(1) by (auto simp: rs_update_Inr remove_object_records_def)
  have "rows_wf (rs_records st1)"
    by (rule rs_update_rows_wf [OF _ st1(1)]) (use wf(1) old(2) only in \<open>auto simp: remove_object_records_def\<close>)
  moreover have "objects_wf st1" unfolding objects_wf_def
  proof (intro ballI conjI)
    fix ob assume ob: "ob \<in> set (rs_objects st1)"
    then obtain r where r: "r \<in> set (rs_records st)" "rr_tag r = or_tag ob" and ne: "or_tag ob \<noteq> rr_tag old"
      using wf(2) by (auto simp: ob1 objects_wf_def)
    then have "rr_key r \<noteq> k" using only by auto
    then show "\<exists>r\<in>set (rs_records st1). rr_tag r = or_tag ob" using r by (auto simp: rec1 intro!: bexI [of _ r])
    show "\<forall>k. or_data_ref ob = Some k \<longrightarrow> table_row_at k (rs_data st1) \<noteq> None"
      using ob wf(2) by (auto simp: ob1 d1 objects_wf_def)
  qed
  ultimately have "rs_wf (ex_tag_size ex) st1" using wf(3) d1 by (simp add: rs_wf_def)
  moreover have "\<exists>r\<in>set (rs_records st1). rr_tag r = cb_tag rec"
    unfolding rec1 using mem by (intro bexI [of _ "?f old"]) (auto simp: image_iff intro!: bexI [of _ old])
  ultimately show ?thesis using st1(2) create_object_records_Inr by blast
qed

section \<open>Removing rows\<close>

definition removable :: "record_row list \<Rightarrow> record_storage \<Rightarrow> bool" where
  "removable rows st = (\<forall>row\<in>set rows. \<forall>r\<in>set (rs_records st). rr_key r = rr_key row \<longrightarrow> rr_tag r = cb_tag (rr_record row))"

lemma removable_subset: "rows_wf (rs_records st) \<Longrightarrow> set rows \<subseteq> set (rs_records st) \<Longrightarrow> removable rows st"
  unfolding removable_def by (metis rows_wf_row(3) same_key_row subsetD)

lemma remove_row_wf:
  assumes "rs_wf ts st" "removable [row] st"
  shows "rs_wf ts (remove_row row st)"
proof -
  note wf = rs_wfD [OF assms(1)]
  have "objects_wf (remove_row row st)"
    unfolding objects_wf_def
  proof (intro ballI conjI)
    fix ob assume ob: "ob \<in> set (rs_objects (remove_row row st))"
    then obtain r where r: "r \<in> set (rs_records st)" "rr_tag r = or_tag ob" and ne: "or_tag ob \<noteq> cb_tag (rr_record row)"
      using wf(2) by (auto simp: remove_row_def objects_wf_def)
    then have "rr_key r \<noteq> rr_key row" using assms(2) by (auto simp: removable_def)
    then show "\<exists>r\<in>set (rs_records (remove_row row st)). rr_tag r = or_tag ob" using r by (auto simp: remove_row_def)
    show "\<forall>k. or_data_ref ob = Some k \<longrightarrow> table_row_at k (rs_data (remove_row row st)) \<noteq> None"
      using ob wf(2) by (auto simp: remove_row_def objects_wf_def)
  qed
  then show ?thesis using wf rows_wf_filter by (simp add: rs_wf_def remove_row_def)
qed

lemma fold_remove_row:
  "rs_records (fold remove_row rows st) = filter (\<lambda>r. rr_key r \<notin> rr_key ` set rows) (rs_records st)"
  "rs_objects (fold remove_row rows st) = filter (\<lambda>ob. or_tag ob \<notin> (\<lambda>r. cb_tag (rr_record r)) ` set rows) (rs_objects st)"
  "rs_data (fold remove_row rows st) = rs_data st"
proof (induction rows arbitrary: st)
  case (Cons row rows)
  { case 1 then show ?case using Cons(1) by (simp add: remove_row_def conj_commute) }
  { case 2 then show ?case using Cons(2) by (simp add: remove_row_def conj_commute) }
  { case 3 then show ?case using Cons(3) by (simp add: remove_row_def) }
qed simp_all

lemma fold_remove_row_wf: "rs_wf ts st \<Longrightarrow> removable rows st \<Longrightarrow> rs_wf ts (fold remove_row rows st)"
proof (induction rows arbitrary: st)
  case (Cons row rows)
  have "rs_wf ts (remove_row row st)" using Cons.prems by (intro remove_row_wf) (auto simp: removable_def)
  moreover have "removable rows (remove_row row st)" using Cons.prems(2) by (auto simp: removable_def remove_row_def)
  ultimately show ?case using Cons.IH by simp
qed simp

lemma truncate_rows_plain: "truncate_rows False rows st = Inr (map rr_record rows, fold remove_row rows st)"
  by (induction rows arbitrary: st) simp_all

lemma demote_total:
  assumes "rows_wf (rs_records st)" "\<not> is_server_confirmed s"
  shows "\<exists>st'. rs_set_state k s no_block [] st = Inr st'"
proof -
  let ?f = "\<lambda>r. if rr_key r = k then r\<lparr>rr_state := s, rr_useq := False\<rparr> else r"
  have seqs: "map rr_seq (filter rr_useq (map ?f rows)) = map rr_seq (filter (\<lambda>r. rr_key r \<noteq> k) (filter rr_useq rows))"
    for rows by (induction rows) auto
  have others: "map rr_tag (map ?f rows) = map rr_tag rows" "map rr_hash (map ?f rows) = map rr_hash rows"
    "map rr_op_id (filter (\<lambda>r. rr_op_id r \<noteq> None) (map ?f rows)) = map rr_op_id (filter (\<lambda>r. rr_op_id r \<noteq> None) rows)"
    for rows by (induction rows) auto
  have "rows_unique (map ?f (rs_records st))"
    using rows_wfD(2) [OF assms(1)] unfolding rows_unique_def others seqs by (blast intro: distinct_map_filter)
  then show ?thesis using assms(2) by (simp add: rs_set_state_def rs_update_def Let_def if_distrib cong: if_cong)
qed

lemma truncate_rows_wf:
  assumes "rs_wf ts st" "removable rows st"
  shows "\<exists>removed st'. truncate_rows dem rows st = Inr (removed, st') \<and> rs_wf ts st'"
  using assms
proof (induction rows arbitrary: st)
  case (Cons row rows)
  show ?case
  proof (cases "dem \<and> rr_state row = rs_acked")
    case True
    obtain st1 where st1: "rs_set_state (rr_key row) rs_pending_commit no_block [] st = Inr st1"
      using demote_total [OF rs_wfD(1) [OF Cons.prems(1)]] by (auto simp: is_server_confirmed_def)
    let ?st2 = "rs_set_assignment (rr_key row) None [] 0 st1"
    have wf2: "rs_wf ts ?st2" using rs_set_state_wf [OF Cons.prems(1) st1] by (rule rs_set_assignment_wf)
    have "removable rows ?st2" using Cons.prems(2) st1
      by (force simp: removable_def rs_set_assignment_rows rs_set_state_def rs_update_Inr)
    then show ?thesis using True st1 Cons.IH [OF wf2] by auto
  next
    case False
    have "rs_wf ts (remove_row row st)" using Cons.prems by (intro remove_row_wf) (auto simp: removable_def)
    moreover have "removable rows (remove_row row st)" using Cons.prems(2) by (auto simp: removable_def remove_row_def)
    ultimately obtain removed st' where "truncate_rows dem rows (remove_row row st) = Inr (removed, st')" "rs_wf ts st'"
      using Cons.IH by blast
    then show ?thesis using False by auto
  qed
qed simp

lemma truncation_rows_set: "set (truncation_rows P st) = {r \<in> set (rs_records st). P (rr_seq r) \<and> received r}"
  by (auto simp: truncation_rows_def)

lemma truncate_from_wf:
  assumes "rs_wf ts st" "seq_is_valid q"
  shows "\<exists>removed st'. truncate_from q dem st = Inr (removed, st') \<and> rs_wf ts st'"
proof -
  have "removable (truncation_rows (\<lambda>s. q \<le> s) st) st"
    using rs_wfD(1) [OF assms(1)] by (rule removable_subset) (auto simp: truncation_rows_set)
  then show ?thesis using truncate_rows_wf [OF assms(1)] assms(2) by (simp add: truncate_from_def)
qed

lemma truncate_prefix_wf:
  assumes "rs_wf ts st" "truncate_prefix q kept st = Inr (removed, st')"
  shows "rs_wf ts st'"
proof -
  let ?gone = "filter (\<lambda>row. cb_tag (rr_record row) \<notin> set kept) (truncation_rows (\<lambda>s. s < q) st)"
  have "removable ?gone st"
    using rs_wfD(1) [OF assms(1)] by (rule removable_subset) (auto simp: truncation_rows_set)
  moreover have "st' = fold remove_row ?gone st" using assms(2) by (auto simp: truncate_prefix_def Let_def split: if_splits)
  ultimately show ?thesis using fold_remove_row_wf [OF assms(1)] by blast
qed

section \<open>Letting data go\<close>

lemma fold_set_state_wf: "dt_wf ts t \<Longrightarrow> dt_wf ts (fold (\<lambda>row. dt_set_state (dr_local_id row) s) rows t)"
  by (induction rows arbitrary: t) (auto simp: dt_wf_setters)

lemma fold_set_state_row:
  "dt_wf ts t \<Longrightarrow> table_row_at k t \<noteq> None \<Longrightarrow> table_row_at k (fold (\<lambda>row. dt_set_state (dr_local_id row) s) rows t) \<noteq> None"
proof (induction rows arbitrary: t)
  case (Cons row rows)
  then show ?case using dt_set_state_row [OF Cons.prems] dt_wf_setters(1) [OF Cons.prems(1)] by simp
qed simp

lemma data_prune_wf:
  assumes "rs_wf ts st"
  shows "rs_wf ts (snd (data_prune rows st))"
proof -
  note wf = rs_wfD [OF assms]
  have "objects_wf (snd (data_prune rows st))"
    unfolding objects_wf_def
  proof (intro ballI conjI allI impI)
    fix ob assume ob: "ob \<in> set (rs_objects (snd (data_prune rows st)))"
    then show "\<exists>r\<in>set (rs_records (snd (data_prune rows st))). rr_tag r = or_tag ob"
      using wf(2) by (auto simp: data_prune_def objects_wf_def)
    fix k assume "or_data_ref ob = Some k"
    then have "table_row_at k (rs_data st) \<noteq> None" using ob wf(2) unfolding objects_wf_def data_prune_def by auto
    from fold_set_state_row [OF wf(3) this] show "table_row_at k (rs_data (snd (data_prune rows st))) \<noteq> None"
      by (simp add: data_prune_def)
  qed
  then show ?thesis using wf fold_set_state_wf [OF wf(3)] by (simp add: rs_wf_def data_prune_def)
qed

lemma remove_by_id_rows:
  assumes "dt_wf ts t"
  shows "dt_rows (case table_row i t of Some r \<Rightarrow> dt_remove (tr_key r) t | None \<Rightarrow> t) = filter (\<lambda>r. tr_data_id r \<noteq> i) (dt_rows t)"
proof (cases "table_row i t")
  case None
  then have "\<forall>r\<in>set (dt_rows t). tr_data_id r \<noteq> i" by (auto simp: table_row_def find_None_all)
  then show ?thesis using None by simp
next
  case (Some r)
  have "tr_key s \<noteq> tr_key r \<longleftrightarrow> tr_data_id s \<noteq> i" if "s \<in> set (dt_rows t)" for s
    using table_row_SomeD [OF Some] that table_row_mem [OF assms that] table_row_at_mem [OF assms that]
      table_row_at_mem [OF assms, of r] Some by (metis option.inject)
  then show ?thesis using Some by (auto simp: dt_remove_def intro: filter_cong)
qed

lemma fold_remove_ids:
  "dt_wf ts t \<Longrightarrow>
    dt_wf ts (fold (\<lambda>i t. case table_row i t of Some r \<Rightarrow> dt_remove (tr_key r) t | None \<Rightarrow> t) ids t)
    \<and> dt_rows (fold (\<lambda>i t. case table_row i t of Some r \<Rightarrow> dt_remove (tr_key r) t | None \<Rightarrow> t) ids t)
        = filter (\<lambda>r. tr_data_id r \<notin> set ids) (dt_rows t)"
proof (induction ids arbitrary: t)
  case (Cons i ids)
  let ?t = "case table_row i t of Some r \<Rightarrow> dt_remove (tr_key r) t | None \<Rightarrow> t"
  have "dt_wf ts ?t" using Cons.prems dt_wf_remove by (auto split: option.splits)
  from Cons.IH [OF this] show ?case unfolding remove_by_id_rows [OF Cons.prems] by (simp add: conj_commute)
qed simp

lemma unreferenced_not_referenced:
  assumes "rs_wf ts st" "r \<in> set (dt_rows (rs_data st))"
  shows "tr_data_id r \<in> set (unreferenced st) \<longleftrightarrow> (\<forall>ob\<in>set (rs_objects st). or_data_ref ob \<noteq> Some (tr_key r))"
proof -
  have "s = r" if "s \<in> set (dt_rows (rs_data st))" "tr_data_id s = tr_data_id r" for s
    using table_row_mem [OF rs_wfD(3) [OF assms(1)]] that assms(2) by (metis option.inject)
  then show ?thesis using assms(2) by (auto simp: unreferenced_def image_iff)
qed

lemma remove_unreferenced_rows:
  assumes "rs_wf ts st"
  shows "dt_rows (rs_data (snd (remove_unreferenced_data st))) =
      filter (\<lambda>r. \<exists>ob\<in>set (rs_objects st). or_data_ref ob = Some (tr_key r)) (dt_rows (rs_data st))"
    and "dt_wf ts (rs_data (snd (remove_unreferenced_data st)))"
  using fold_remove_ids [OF rs_wfD(3) [OF assms], of "unreferenced st"] unreferenced_not_referenced [OF assms]
  by (auto simp: remove_unreferenced_data_def Let_def intro!: filter_cong)

lemma remove_unreferenced_wf:
  assumes "rs_wf ts st"
  shows "rs_wf ts (snd (remove_unreferenced_data st))"
proof -
  let ?st = "snd (remove_unreferenced_data st)"
  have same: "rs_records ?st = rs_records st" "rs_objects ?st = rs_objects st"
    by (simp_all add: remove_unreferenced_data_def Let_def)
  note wf = rs_wfD [OF assms]
  have "table_row_at k (rs_data ?st) \<noteq> None" if ob: "ob \<in> set (rs_objects st)" "or_data_ref ob = Some k" for ob k
  proof -
    obtain r where r: "table_row_at k (rs_data st) = Some r" using wf(2) ob by (auto simp: objects_wf_def)
    then have "r \<in> set (dt_rows (rs_data ?st))" "tr_key r = k"
      using table_row_at_SomeD [OF r] ob by (auto simp: remove_unreferenced_rows [OF assms])
    then show ?thesis using table_row_at_mem [OF remove_unreferenced_rows(2) [OF assms]] by auto
  qed
  then have "objects_wf ?st" using wf(2) same by (auto simp: objects_wf_def)
  then show ?thesis using wf(1) same(1) remove_unreferenced_rows(2) [OF assms] by (simp add: rs_wf_def)
qed

section \<open>Every reachable storage is well formed\<close>

inductive rs_step :: "externals \<Rightarrow> record_storage \<Rightarrow> record_storage \<Rightarrow> bool" for ex where
  step_create: "rs_create ex rec s st = Inr (k, st') \<Longrightarrow> rs_step ex st st'"
| step_set_state: "rs_set_state k s bid ph st = Inr st' \<Longrightarrow> rs_step ex st st'"
| step_set_record: "rs_set_record ex k rec st = Inr st' \<Longrightarrow> rs_step ex st st'"
| step_set_assignment: "rs_step ex st (rs_set_assignment k env o' q st)"
| step_truncate_from: "truncate_from q dem st = Inr (removed, st') \<Longrightarrow> rs_step ex st st'"
| step_truncate_prefix: "truncate_prefix q kept st = Inr (removed, st') \<Longrightarrow> rs_step ex st st'"
| step_prune: "rs_step ex st (snd (prune_superseded_data (ex_tag_size ex) q n st))"
| step_remove_unreferenced: "rs_step ex st (snd (remove_unreferenced_data st))"
| step_cursor: "rs_step ex st (set_cursor_owner owner st)"
| step_limits: "rs_step ex st (set_limits l st)"
| step_endpoints: "rs_step ex st (set_data_endpoints es st)"

lemma truncate_from_valid: "truncate_from q dem st = Inr x \<Longrightarrow> seq_is_valid q"
  by (auto simp: truncate_from_def split: if_splits)

lemma rs_step_wf:
  assumes "rs_step ex st st'" "rs_wf (ex_tag_size ex) st"
  shows "rs_wf (ex_tag_size ex) st'"
  using assms
proof (cases rule: rs_step.cases)
  case (step_truncate_from q dem removed)
  then show ?thesis using truncate_from_wf [OF assms(2) truncate_from_valid [OF step_truncate_from], of dem] by auto
next
  case (step_prune q n)
  then show ?thesis using data_prune_wf [OF assms(2)] by (simp add: prune_superseded_data_def)
next
  case step_cursor
  then show ?thesis using assms(2) by (simp add: rs_wf_def objects_wf_def set_cursor_owner_def)
next
  case step_limits
  then show ?thesis using assms(2) by (simp add: rs_wf_def objects_wf_def set_limits_def)
next
  case step_endpoints
  then show ?thesis using assms(2) by (simp add: rs_wf_def objects_wf_def set_data_endpoints_def)
qed (use assms(2) in \<open>auto intro: rs_create_wf rs_set_state_wf rs_set_record_wf rs_set_assignment_wf
  truncate_prefix_wf remove_unreferenced_wf\<close>)

text \<open>C7. The record storage stays consistent: starting empty, after any sequence of its operations
  the rows satisfy the constraints of the schema, the sequences of server confirmed records are
  unique, every object row belongs to a stored record, and every data a stored record names has
  its row in the data table (also after pruning and after removing what is unreferenced).\<close>

theorem record_storage_invariant:
  assumes "(rs_step ex)\<^sup>*\<^sup>* empty_record_storage st"
  shows "rs_wf (ex_tag_size ex) st"
  using assms
proof (induction rule: rtranclp_induct)
  case base
  show ?case by (rule rs_wf_empty)
next
  case (step y z)
  then show ?case using rs_step_wf by blast
qed

theorem record_storage_invariant_witness:
  "rs_wf (ex_tag_size ex_plain) (set_cursor_owner [5] empty_record_storage)"
  by (rule record_storage_invariant, rule r_into_rtranclp, rule rs_step.step_cursor)

end
