(* ===== verification/Samples.thy ===== *)
theory Samples
  imports Records
begin

text \<open>
  Concrete values for the witnesses: a codec that reads a record from a few octets (its kind, the
  sequence of the last seen block, two numbers and the hash of that block) and the blocks built
  with it. The hash of a block is its content.
\<close>

fun sample_decode :: "octets \<Rightarrow> change_record option" where
  "sample_decode (k # q # x # p # h) =
     (let base = record_base_of \<lparr>bid_sequence = ucast q, bid_hash = h\<rparr> [] 0 [] []
      in if k = 0
         then Some (User_change base \<lparr>uc_access = users_of_mode delta_mode, uc_encrypted = [], uc_enveloped = [], uc_trailing = []\<rparr> [])
         else if k = 1
         then Some (Data_change base [\<lparr>sc_data = \<lparr>pc_id = replicate 16 x, pc_previous_tag = (if p = 0 then [] else [p]),
                pc_data = None, pc_trailing = []\<rparr>, sc_header = [], sc_trailing = []\<rparr>] [])
         else if k = 2
         then Some (Segment_change base \<lparr>segment_start = ucast x, segment_end = ucast p,
                sg_tags = map (\<lambda>i. [of_nat i]) [unat x ..< unat p],
                previous_segment_tag = (if x = 1 then [] else [x]), sg_trailing = []\<rparr> [])
         else if k = 3 then Some (Data_change base [] [])
         else if k = 4
         then Some (Segment_change base \<lparr>segment_start = ucast x, segment_end = ucast p, sg_tags = [],
                previous_segment_tag = [], sg_trailing = []\<rparr> [])
         else None)"
| "sample_decode _ = None"

definition sample_ex :: externals where
  "sample_ex = ex_plain\<lparr>ex_deser_record := sample_decode, ex_ser_block := cb_record\<rparr>"

definition sample_block :: "u8 \<Rightarrow> u8 \<Rightarrow> u8 \<Rightarrow> u8 \<Rightarrow> u8 \<Rightarrow> octets \<Rightarrow> chain_block" where
  "sample_block k q x p t h =
     \<lparr>cb_record = [k, q, x, p] @ h, cb_auth = content_auth_of_tag [t], cb_sequence = ucast q + 1, cb_parent_hash = h\<rparr>"

text \<open>A change of the members, an object that is added and changed, a segment over the three.\<close>

definition sample_block1 :: chain_block where
  "sample_block1 = sample_block 0 0 0 0 1 []"

definition sample_block2 :: chain_block where
  "sample_block2 = sample_block 1 1 7 0 2 (cb_record sample_block1)"

definition sample_block3 :: chain_block where
  "sample_block3 = sample_block 1 2 7 2 3 (cb_record sample_block2)"

definition sample_block4 :: chain_block where
  "sample_block4 = sample_block 2 3 1 4 4 (cb_record sample_block3)"

lemmas sample_defs = sample_ex_def sample_block_def sample_block1_def sample_block2_def sample_block3_def sample_block4_def
  ex_plain_def ex_honest_def content_auth_of_tag_def

end
