(* ===== verification/Chain_Log.thy ===== *)
theory Chain_Log
  imports Record_Invariants Divergence Samples "HOL-Library.Sublist"
begin

text \<open>
  The server side log over block envelopes (server/server_lib/chain_log.cpp): a record storage in
  which every record is committed, and the id of its last block. The invariant of the log, the
  refinement to the list of its blocks, the batches it returns and the cut of the history before a
  segment.
\<close>

section \<open>Operations\<close>

record chain_log =
  cl_records :: record_storage
  cl_head :: chain_block_id

definition chain_log_open :: "record_storage \<Rightarrow> chain_log" where
  "chain_log_open st = \<lparr>cl_records = st, cl_head = last_block False st\<rparr>"

definition record_wire_allowance :: nat where
  "record_wire_allowance = 8 * 1024"

definition append_within_budget ::
  "nat \<Rightarrow> block_envelope \<Rightarrow> block_envelope list \<times> nat \<Rightarrow> block_envelope list \<times> nat" where
  "append_within_budget max_bytes env acc =
     (let out = fst acc; used = snd acc; cost = length (cb_record (be_block env)) + record_wire_allowance
      in if length out < 2 \<or> used + cost \<le> max_bytes then (out @ [env], used + cost) else (out, used))"

definition row_envelope :: "record_row \<Rightarrow> block_envelope" where
  "row_envelope r = (case rr_envelope r of None \<Rightarrow> block_envelope_of (rr_record r) [] 0 | Some env \<Rightarrow> env)"

definition log_get ::
  "sequence_number \<Rightarrow> sequence_number \<Rightarrow> nat \<Rightarrow> nat \<Rightarrow> chain_log \<Rightarrow> block_envelope list" where
  "log_get start end' mx max_bytes l =
     (let a = (if seq_is_valid start then start else 1);
          b = (if seq_is_valid end' then end' else bid_sequence (cl_head l))
      in fst (fold (\<lambda>r. append_within_budget max_bytes (row_envelope r))
           (find_range a b rs_in_sync mx (cl_records l)) ([], 0)))"

definition log_append :: "externals \<Rightarrow> block_envelope \<Rightarrow> chain_log \<Rightarrow> chain_log result" where
  "log_append ex env l =
     (let block = be_block env
      in if cb_sequence block \<noteq> bid_sequence (cl_head l) + 1 \<or> cb_parent_hash block \<noteq> bid_hash (cl_head l)
         then Inl (Sync constraint_violation)
         else bind_result (rs_create ex block rs_in_sync (cl_records l)) (\<lambda>(k, st).
           Inr \<lparr>cl_records = (if env_is_signed ex env
                  then rs_set_assignment k (Some env) (be_origin env) (cb_sequence block) st else st),
                cl_head = block_id ex block\<rparr>))"

definition store_assignment :: "record_tag \<Rightarrow> block_envelope \<Rightarrow> chain_log \<Rightarrow> chain_log result" where
  "store_assignment tag env l =
     (case find_tag tag (cl_records l) of
        None \<Rightarrow> Inl (Sync constraint_violation)
      | Some r \<Rightarrow> Inr (l\<lparr>cl_records := rs_set_assignment (rr_key r) (Some env) (be_origin env)
                          (cb_sequence (be_block env)) (cl_records l)\<rparr>))"

definition log_origin_head :: "public_key_id \<Rightarrow> chain_log \<Rightarrow> chain_block_id" where
  "log_origin_head origin l = last_of_origin origin (cl_records l)"

definition log_get_by_origin ::
  "public_key_id \<Rightarrow> sequence_number \<Rightarrow> sequence_number \<Rightarrow> nat \<Rightarrow> nat \<Rightarrow> chain_log \<Rightarrow> block_envelope list" where
  "log_get_by_origin origin from to mx max_bytes l =
     fst (fold (append_within_budget max_bytes) (find_origin_assignments origin from to mx (cl_records l)) ([], 0))"

definition log_truncate_from :: "sequence_number \<Rightarrow> chain_log \<Rightarrow> (chain_block list \<times> chain_log) result" where
  "log_truncate_from first_removed l =
     bind_result (truncate_from first_removed False (cl_records l)) (\<lambda>(removed, st).
       Inr (removed, \<lparr>cl_records = st, cl_head = last_block False st\<rparr>))"

definition cut_before :: "record_tag \<Rightarrow> chain_log \<Rightarrow> (chain_block list \<times> chain_log) result" where
  "cut_before tag l =
     (case find_tag tag (cl_records l) of
        None \<Rightarrow> Inl (Sync constraint_violation)
      | Some seg \<Rightarrow>
          (if rr_type seg = segment_tag \<and> rr_state seg = rs_in_sync
           then let anchor = rr_seq seg; retained = object_chain_tags_below anchor (cl_records l)
                in bind_result (truncate_prefix anchor retained (cl_records l)) (\<lambda>(removed, st).
                     Inr (removed, l\<lparr>cl_records := st\<rparr>))
           else Inl (Sync constraint_violation)))"

definition find_by_tag :: "record_tag \<Rightarrow> chain_log \<Rightarrow> record_row option" where
  "find_by_tag tag l = find_tag tag (cl_records l)"

definition find_by_op_id :: "octets \<Rightarrow> chain_log \<Rightarrow> record_row option" where
  "find_by_op_id op_id l = find_op_id op_id (cl_records l)"

definition log_samples_of :: "externals \<Rightarrow> public_key_id \<Rightarrow> chain_log \<Rightarrow> chain_block_id list" where
  "log_samples_of ex origin l =
     concat (map (\<lambda>q. let h = origin_block_hash ex origin q (cl_records l)
                       in if h = [] then [] else [\<lparr>bid_sequence = q, bid_hash = h\<rparr>])
       (sample_sequences (last_origin_seq origin (cl_records l))))"

definition log_find_divergence :: "externals \<Rightarrow> public_key_id \<Rightarrow> chain_block_id list \<Rightarrow> chain_log \<Rightarrow> divergence" where
  "log_find_divergence ex origin blocks l =
     find_divergence blocks (\<lambda>q. origin_block_hash ex origin q (cl_records l))"

section \<open>The invariant\<close>

text \<open>What a row of a log says of the block it stores.\<close>

definition committed_row :: "externals \<Rightarrow> record_row \<Rightarrow> bool" where
  "committed_row ex r = (rr_state r = rs_in_sync \<and> rr_seq r \<noteq> 0 \<and> rr_seq r = cb_sequence (rr_record r)
     \<and> rr_hash r = block_hash ex (rr_record r)
     \<and> (\<exists>c. deserialise_record ex (rr_record r) = Some c \<and> rr_type r = record_type c
          \<and> rr_op_id r = (if rb_op_id (record_base_part c) = [] then None else Some (rb_op_id (record_base_part c)))))"

definition linked :: "record_row list \<Rightarrow> bool" where
  "linked rows = (\<forall>r\<in>set rows. \<forall>s\<in>set rows. rr_seq s = rr_seq r + 1 \<longrightarrow> cb_parent_hash (rr_record s) = rr_hash r)"

definition head_of :: "record_row list \<Rightarrow> chain_block_id" where
  "head_of rows = (if rows = [] then no_block else row_block_id (last rows))"

definition log_inv :: "externals \<Rightarrow> chain_log \<Rightarrow> bool" where
  "log_inv ex l = (rs_wf (ex_tag_size ex) (cl_records l) \<and> (\<forall>r\<in>set (rs_records (cl_records l)). committed_row ex r)
     \<and> sorted_wrt (<) (map rr_seq (rs_records (cl_records l))) \<and> linked (rs_records (cl_records l))
     \<and> cl_head l = head_of (rs_records (cl_records l)))"

lemma log_invD:
  assumes "log_inv ex l"
  shows "rs_wf (ex_tag_size ex) (cl_records l)" "\<And>r. r \<in> set (rs_records (cl_records l)) \<Longrightarrow> committed_row ex r"
    "sorted_wrt (<) (map rr_seq (rs_records (cl_records l)))" "linked (rs_records (cl_records l))"
    "cl_head l = head_of (rs_records (cl_records l))" "rows_wf (rs_records (cl_records l))"
  using assms by (auto simp: log_inv_def rs_wf_def)

lemma committed_rowD:
  assumes "committed_row ex r"
  shows "rr_state r = rs_in_sync" "rr_seq r \<noteq> 0" "rr_seq r = cb_sequence (rr_record r)"
    "rr_hash r = block_hash ex (rr_record r)" "received r"
  using assms by (auto simp: committed_row_def received_def)

lemma of_state_committed: "(\<And>r. r \<in> set (rs_records st) \<Longrightarrow> committed_row ex r) \<Longrightarrow> of_state rs_in_sync st = rs_records st"
  unfolding of_state_def by (rule filter_True) (auto dest: committed_rowD(1))

lemma local_rows_committed:
  "(\<And>r. r \<in> set (rs_records st) \<Longrightarrow> committed_row ex r) \<Longrightarrow> local_rows False st = rs_records st"
  unfolding local_rows_def by (rule filter_True) (auto dest: committed_rowD(1))

lemma sorted_seq_le_last:
  "sorted_wrt (<) (map f xs) \<Longrightarrow> x \<in> set xs \<Longrightarrow> (f x :: 'b :: linorder) \<le> f (last xs)"
  by (induction xs) (auto intro: less_imp_le)

lemma max_of_sorted: "sorted_wrt (<) (map f xs) \<Longrightarrow> xs \<noteq> [] \<Longrightarrow> max_of f xs = f (last xs)"
  by (rule max_of_eqI) (auto intro: sorted_seq_le_last)

lemma sorted_top:
  assumes "sorted_wrt (<) (map f xs)" "xs \<noteq> []"
  shows "filter (\<lambda>r. f r = (f (last xs) :: 'b :: linorder)) xs = [last xs]"
proof -
  obtain ys x where xs: "xs = ys @ [x]" using assms(2) by (cases xs rule: rev_cases) auto
  have "\<forall>y\<in>set ys. f y < f x" using assms(1) by (auto simp: xs sorted_wrt_append)
  then have "filter (\<lambda>r. f r = f x) ys = []" by (auto simp: filter_empty_conv)
  then show ?thesis by (simp add: xs)
qed

lemma last_block_head_of:
  assumes "\<And>r. r \<in> set (rs_records st) \<Longrightarrow> committed_row ex r" "sorted_wrt (<) (map rr_seq (rs_records st))"
  shows "last_block False st = head_of (rs_records st)"
proof (cases "rs_records st = []")
  case False
  have "local_rows False st = rs_records st" using assms(1) by (rule local_rows_committed)
  then show ?thesis using max_of_sorted [OF assms(2) False] sorted_top [OF assms(2) False] False
    by (simp add: last_block_def find_last_def head_of_def Let_def)
qed (simp add: last_block_def find_last_def head_of_def local_rows_def no_block_def)

lemma log_invI:
  assumes "rs_wf (ex_tag_size ex) st" "\<And>r. r \<in> set (rs_records st) \<Longrightarrow> committed_row ex r"
    "sorted_wrt (<) (map rr_seq (rs_records st))" "linked (rs_records st)"
  shows "log_inv ex \<lparr>cl_records = st, cl_head = last_block False st\<rparr>"
  using assms by (simp add: log_inv_def last_block_head_of [OF assms(2,3)])

text \<open>Opening the log again gives the log: the head in memory is derived from the storage.\<close>

lemma log_reopen: "log_inv ex l \<Longrightarrow> chain_log_open (cl_records l) = l"
  using last_block_head_of [of "cl_records l" ex] log_invD [of ex l] by (simp add: chain_log_open_def)

lemma log_inv_empty: "log_inv ex (chain_log_open empty_record_storage)"
  unfolding chain_log_open_def
  by (rule log_invI) (simp add: rs_wf_empty, simp_all add: empty_record_storage_def linked_def)

section \<open>What the operations do to the rows\<close>

fun changes_of :: "change_record \<Rightarrow> single_change list" where
  "changes_of (Data_change _ cs _) = cs"
| "changes_of _ = []"

lemma rs_create_Inr:
  assumes "rs_wf (ex_tag_size ex) st" "rs_create ex rec s st = Inr (k, st')"
  obtains c row obs where "deserialise_record ex rec = Some c" "rs_records st' = rs_records st @ [row]"
    "rr_key row = k" "rr_tag row = cb_tag rec" "rr_seq row = cb_sequence rec" "rr_hash row = block_hash ex rec"
    "rr_state row = s" "rr_record row = rec" "rr_type row = record_type c"
    "rr_op_id row = (if rb_op_id (record_base_part c) = [] then None else Some (rb_op_id (record_base_part c)))"
    "rr_envelope row = None" "rr_origin row = None" "rr_origin_seq row = None"
    "rs_objects st' = rs_objects st @ obs" "\<And>ob. ob \<in> set obs \<Longrightarrow> or_tag ob = cb_tag rec"
    "map or_prev_tag obs = map (\<lambda>c. pc_previous_tag (sc_data c)) (changes_of c)"
    "map or_oid obs = map (\<lambda>c. pc_id (sc_data c)) (changes_of c)"
proof -
  obtain c where c: "deserialise_record ex rec = Some c"
    using assms(2) by (auto simp: rs_create_def split: option.splits)
  obtain st1 where st1: "insert_to_db ex rec s (record_type c) (rb_op_id (record_base_part c)) st = Inr (k, st1)"
    and st': "create_object_records (ex_tag_size ex) (cb_tag rec) (changes_of c) st1 = Inr st'"
    using assms(2) c by (cases c) (auto simp: rs_create_def bind_result_Inr)
  obtain row where row: "st1 = st\<lparr>rs_records := rs_records st @ [row]\<rparr>" "rr_key row = k" "rr_tag row = cb_tag rec"
    "rr_seq row = cb_sequence rec" "rr_hash row = block_hash ex rec" "rr_state row = s" "rr_record row = rec"
    "rr_type row = record_type c" "rr_envelope row = None" "rr_origin row = None" "rr_origin_seq row = None"
    "rr_op_id row = (if rb_op_id (record_base_part c) = [] then None else Some (rb_op_id (record_base_part c)))"
    using insert_to_db_Inr(2) [OF st1] by blast
  obtain obs where obs: "rs_records st' = rs_records st1" "rs_objects st' = rs_objects st1 @ obs"
    "map or_tag obs = map (\<lambda>_. cb_tag rec) (changes_of c)"
    "map or_prev_tag obs = map (\<lambda>c. pc_previous_tag (sc_data c)) (changes_of c)"
    "map or_oid obs = map (\<lambda>c. pc_id (sc_data c)) (changes_of c)"
    using create_object_records_Inr [OF insert_to_db_wf [OF assms(1) st1] st'] by blast
  have "or_tag ob = cb_tag rec" if "ob \<in> set obs" for ob
    using arg_cong [OF obs(3), of set] that by (auto split: if_splits)
  then show ?thesis using c row obs that by simp
qed

lemma set_assignment_inv:
  assumes "log_inv ex l"
  shows "log_inv ex (l\<lparr>cl_records := rs_set_assignment k env o' q (cl_records l)\<rparr>)"
proof -
  let ?f = "\<lambda>r. if rr_key r = k then r\<lparr>rr_envelope := env, rr_origin := (if o' = [] then None else Some o'),
       rr_origin_seq := (if o' = [] then None else Some q)\<rparr> else r"
  let ?rows = "rs_records (cl_records l)"
  have f: "rr_seq (?f r) = rr_seq r" "rr_hash (?f r) = rr_hash r" "rr_record (?f r) = rr_record r"
    "committed_row ex (?f r) = committed_row ex r" "row_block_id (?f r) = row_block_id r" for r
    by (simp_all add: committed_row_def row_block_id_def)
  define rows' where "rows' = map ?f ?rows"
  have rows: "rs_records (rs_set_assignment k env o' q (cl_records l)) = rows'"
    unfolding rows'_def by (rule rs_set_assignment_rows)
  have "map rr_seq rows' = map rr_seq ?rows" by (simp add: rows'_def)
  moreover have "linked rows' = linked ?rows" unfolding rows'_def linked_def set_map ball_simps f ..
  moreover have "head_of rows' = head_of ?rows" using f(5) by (auto simp: rows'_def head_of_def last_map)
  moreover have "\<forall>r\<in>set rows'. committed_row ex r"
    unfolding rows'_def set_map ball_simps f using log_invD(2) [OF assms] by blast
  ultimately show ?thesis
    using log_invD [OF assms] rs_set_assignment_wf [OF log_invD(1) [OF assms]] by (simp add: log_inv_def rows)
qed

lemma store_assignment_inv: "log_inv ex l \<Longrightarrow> store_assignment tag env l = Inr l' \<Longrightarrow> log_inv ex l'"
  by (auto simp: store_assignment_def set_assignment_inv split: option.splits)

definition log_blocks :: "chain_log \<Rightarrow> chain_block list" where
  "log_blocks l = map rr_record (rs_records (cl_records l))"

lemma log_blocks_set_assignment [simp]:
  "log_blocks (l\<lparr>cl_records := rs_set_assignment k env o' q (cl_records l)\<rparr>) = log_blocks l"
  by (auto simp: log_blocks_def rs_set_assignment_rows)

lemma head_upper:
  assumes "log_inv ex l" "r \<in> set (rs_records (cl_records l))"
  shows "rr_seq r \<le> bid_sequence (cl_head l)"
proof -
  have "rs_records (cl_records l) \<noteq> []" using assms(2) by auto
  then show ?thesis using sorted_seq_le_last [OF log_invD(3) [OF assms(1)] assms(2)] log_invD(5) [OF assms(1)]
    by (simp add: head_of_def row_block_id_def)
qed

lemma linked_snoc:
  assumes "linked rows" "rr_seq row = bid_sequence (head_of rows) + 1" "cb_parent_hash (rr_record row) = bid_hash (head_of rows)"
    "\<And>r. r \<in> set rows \<Longrightarrow> rr_seq r < rr_seq row" "sorted_wrt (<) (map rr_seq rows)" "rr_seq row \<noteq> 0"
    "\<And>r. r \<in> set rows \<Longrightarrow> rr_seq r \<noteq> 0"
  shows "linked (rows @ [row])"
proof -
  have "cb_parent_hash (rr_record row) = rr_hash r" if r: "r \<in> set rows" "rr_seq row = rr_seq r + 1" for r
  proof -
    have ne: "rows \<noteq> []" using r by auto
    then have "rr_seq r = rr_seq (last rows)" using assms(2) r(2) by (simp add: head_of_def row_block_id_def)
    then have "r \<in> set (filter (\<lambda>x. rr_seq x = rr_seq (last rows)) rows)" using r(1) by simp
    then have "r = last rows" unfolding sorted_top [OF assms(5) ne] by simp
    then show ?thesis using assms(3) ne by (simp add: head_of_def row_block_id_def)
  qed
  moreover have "rr_seq r \<noteq> rr_seq row + 1" if "r \<in> set rows" for r
  proof
    assume e: "rr_seq r = rr_seq row + 1"
    have "rr_seq row < rr_seq row + 1" using e assms(7) [OF that] by (metis add.right_inverse add.commute word_less_inc)
    then show False using assms(4) [OF that] e by simp
  qed
  moreover have "rr_seq row \<noteq> rr_seq row + 1" by simp
  ultimately show ?thesis using assms(1) by (auto simp: linked_def)
qed

lemma log_append_Inr:
  assumes inv: "log_inv ex l" and room: "bid_sequence (cl_head l) \<noteq> - 1" and app: "log_append ex env l = Inr l'"
  shows "log_inv ex l'" "log_blocks l' = log_blocks l @ [be_block env]" "cl_head l' = block_id ex (be_block env)"
proof -
  let ?b = "be_block env" and ?rows = "rs_records (cl_records l)"
  obtain k st where pos: "cb_sequence ?b = bid_sequence (cl_head l) + 1" "cb_parent_hash ?b = bid_hash (cl_head l)"
    and st: "rs_create ex ?b rs_in_sync (cl_records l) = Inr (k, st)"
    and l': "l' = (if env_is_signed ex env
        then \<lparr>cl_records = st, cl_head = block_id ex ?b\<rparr>\<lparr>cl_records := rs_set_assignment k (Some env) (be_origin env)
               (cb_sequence ?b) (cl_records \<lparr>cl_records = st, cl_head = block_id ex ?b\<rparr>)\<rparr>
        else \<lparr>cl_records = st, cl_head = block_id ex ?b\<rparr>)"
    using app by (auto simp: log_append_def Let_def bind_result_Inr split: if_splits)
  obtain c row where c: "deserialise_record ex ?b = Some c" and rows: "rs_records st = ?rows @ [row]"
    and row: "rr_seq row = cb_sequence ?b" "rr_hash row = block_hash ex ?b" "rr_state row = rs_in_sync" "rr_record row = ?b"
      "rr_type row = record_type c"
      "rr_op_id row = (if rb_op_id (record_base_part c) = [] then None else Some (rb_op_id (record_base_part c)))"
    using rs_create_Inr [OF log_invD(1) [OF inv] st] by metis
  have nz: "rr_seq row \<noteq> 0" using pos(1) word_inc_nonzero [OF room] by (simp add: row)
  have less: "rr_seq r < rr_seq row" if "r \<in> set ?rows" for r
    using head_upper [OF inv that] word_less_inc_iff [OF room] by (simp add: row pos)
  have "linked (?rows @ [row])"
    using log_invD(4) [OF inv] _ _ less log_invD(3) [OF inv] nz committed_rowD(2) [OF log_invD(2) [OF inv]]
    by (rule linked_snoc) (simp_all add: row pos log_invD(5) [OF inv, symmetric])
  moreover have "sorted_wrt (<) (map rr_seq (?rows @ [row]))"
    using log_invD(3) [OF inv] less by (auto simp: sorted_wrt_append)
  moreover have "committed_row ex row" using c nz by (simp add: committed_row_def row)
  ultimately have inv1: "log_inv ex \<lparr>cl_records = st, cl_head = block_id ex ?b\<rparr>"
    using rs_create_wf [OF log_invD(1) [OF inv] st] log_invD(2) [OF inv]
    by (auto simp: log_inv_def rows head_of_def row_block_id_def block_id_def row)
  show "log_inv ex l'" using inv1 set_assignment_inv [OF inv1] unfolding l' by simp
  have bl: "log_blocks \<lparr>cl_records = st, cl_head = block_id ex ?b\<rparr> = log_blocks l @ [?b]"
    by (simp add: log_blocks_def rows row)
  show "log_blocks l' = log_blocks l @ [?b]"
    unfolding l' by (cases "env_is_signed ex env") (simp_all only: if_True if_False log_blocks_set_assignment bl)
  show "cl_head l' = block_id ex ?b" by (simp add: l')
qed

text \<open>Removing rows: the records left are still a log.\<close>

lemma log_inv_filter:
  assumes "log_inv ex l" "rs_records st = filter P (rs_records (cl_records l))" "rs_wf (ex_tag_size ex) st"
  shows "log_inv ex \<lparr>cl_records = st, cl_head = last_block False st\<rparr>"
proof (rule log_invI)
  show "sorted_wrt (<) (map rr_seq (rs_records st))"
    using log_invD(3) [OF assms(1)] by (simp add: assms(2) sorted_wrt_map sorted_wrt_filter)
  show "linked (rs_records st)" using log_invD(4) [OF assms(1)] by (simp add: assms(2) linked_def)
qed (use assms log_invD(2) [OF assms(1)] in auto)

lemma truncation_rows_log:
  assumes "log_inv ex l"
  shows "truncation_rows P (cl_records l) = filter (\<lambda>r. P (rr_seq r)) (rs_records (cl_records l))"
proof -
  have "filter (\<lambda>r. P (rr_seq r) \<and> received r) (rs_records (cl_records l)) = filter (\<lambda>r. P (rr_seq r)) (rs_records (cl_records l))"
    using log_invD(2) [OF assms] by (auto intro!: filter_cong dest: committed_rowD(5))
  moreover have "sorted (map rr_seq (filter (\<lambda>r. P (rr_seq r)) (rs_records (cl_records l))))"
    using log_invD(3) [OF assms] by (simp add: strict_sorted_iff sorted_filter)
  ultimately show ?thesis by (simp add: truncation_rows_def sorted_sort_id sort_key_id_if_sorted)
qed

lemma filter_rows_by_key:
  assumes "rows_wf rows" "set gone \<subseteq> set rows"
  shows "filter (\<lambda>r. rr_key r \<notin> rr_key ` set gone) rows = filter (\<lambda>r. r \<notin> set gone) rows"
  using assms by (intro filter_cong) (auto dest: same_key_row)

lemma log_truncate_Inr:
  assumes inv: "log_inv ex l" and t: "log_truncate_from q l = Inr (removed, l')"
  shows "log_inv ex l'" "log_blocks l' = filter (\<lambda>b. cb_sequence b < q) (log_blocks l)"
    "removed = filter (\<lambda>b. q \<le> cb_sequence b) (log_blocks l)"
proof -
  let ?rows = "rs_records (cl_records l)"
  let ?gone = "filter (\<lambda>r. q \<le> rr_seq r) ?rows"
  obtain st where st: "truncate_from q False (cl_records l) = Inr (removed, st)"
    and l': "l' = \<lparr>cl_records = st, cl_head = last_block False st\<rparr>"
    using t by (auto simp: log_truncate_from_def bind_result_Inr)
  have valid: "seq_is_valid q" using st by (rule truncate_from_valid)
  have eq: "removed = map rr_record ?gone" "st = fold remove_row ?gone (cl_records l)"
    using st valid by (simp_all add: truncate_from_def truncate_rows_plain truncation_rows_log [OF inv])
  have wf: "rs_wf (ex_tag_size ex) st" using truncate_from_wf [OF log_invD(1) [OF inv] valid, of False] st by simp
  have rows: "rs_records st = filter (\<lambda>r. rr_seq r < q) ?rows"
    unfolding eq fold_remove_row
    by (subst filter_rows_by_key [OF log_invD(6) [OF inv]]) (auto intro!: filter_cong)
  show "log_inv ex l'" unfolding l' by (rule log_inv_filter [OF inv rows wf])
  have seqs: "\<And>r. r \<in> set ?rows \<Longrightarrow> rr_seq r = cb_sequence (rr_record r)"
    using committed_rowD(3) log_invD(2) [OF inv] by blast
  show "log_blocks l' = filter (\<lambda>b. cb_sequence b < q) (log_blocks l)"
    unfolding log_blocks_def l' by (simp add: rows filter_map comp_def seqs cong: filter_cong)
  show "removed = filter (\<lambda>b. q \<le> cb_sequence b) (log_blocks l)"
    unfolding log_blocks_def eq(1) by (simp add: filter_map comp_def seqs cong: filter_cong)
qed

section \<open>Cutting the history\<close>

lemma map_filter_filter:
  "(\<And>x y. f x = Some y \<Longrightarrow> Q y = P x) \<Longrightarrow> List.map_filter f (filter P xs) = filter Q (List.map_filter f xs)"
  by (induction xs) (auto simp: List.map_filter_def)

lemma map_filter_cong: "(\<And>x. x \<in> set xs \<Longrightarrow> f x = g x) \<Longrightarrow> List.map_filter f xs = List.map_filter g xs"
  by (induction xs) (auto simp: List.map_filter_simps split: option.split)

lemma find_filter_keep: "(\<And>x. P x \<Longrightarrow> Q x) \<Longrightarrow> find P (filter Q xs) = find P xs"
  by (induction xs) auto

lemma object_records_filter:
  assumes "rs_records st' = filter (\<lambda>r. rr_tag r \<notin> G) (rs_records st)"
    "rs_objects st' = filter (\<lambda>ob. or_tag ob \<notin> G) (rs_objects st)"
  shows "object_records st' = filter (\<lambda>p. or_tag (fst p) \<notin> G) (object_records st)"
proof -
  have keep: "find (\<lambda>r. rr_tag r = or_tag ob) (of_state rs_in_sync st') = find (\<lambda>r. rr_tag r = or_tag ob) (of_state rs_in_sync st)"
    if "or_tag ob \<notin> G" for ob
  proof -
    have "of_state rs_in_sync st' = filter (\<lambda>r. rr_tag r \<notin> G) (of_state rs_in_sync st)"
      by (simp add: of_state_def assms(1) conj_commute)
    moreover have "find (\<lambda>r. rr_tag r = or_tag ob) (filter (\<lambda>r. rr_tag r \<notin> G) xs) = find (\<lambda>r. rr_tag r = or_tag ob) xs" for xs
      using that by (intro find_filter_keep) simp
    ultimately show ?thesis by simp
  qed
  have "object_records st' = List.map_filter (\<lambda>ob. map_option (\<lambda>r. (ob, r))
     (find (\<lambda>r. rr_tag r = or_tag ob) (of_state rs_in_sync st))) (filter (\<lambda>ob. or_tag ob \<notin> G) (rs_objects st))"
    unfolding object_records_def assms(2) by (intro map_filter_cong arg_cong [where f = "map_option _"] keep) simp
  also have "\<dots> = filter (\<lambda>p. or_tag (fst p) \<notin> G) (object_records st)"
    unfolding object_records_def by (rule map_filter_filter) auto
  finally show ?thesis .
qed

lemma argmax_filter_keep: "argmax f xs = Some x \<Longrightarrow> P x \<Longrightarrow> argmax f (filter P xs) = Some x"
proof (induction xs arbitrary: x)
  case (Cons a xs)
  show ?case
  proof (cases "argmax f xs")
    case None
    then show ?thesis using Cons.prems by auto
  next
    case (Some y)
    show ?thesis
    proof (cases "f a < f y")
      case True
      then have xy: "x = y" using Cons.prems(1) Some by simp
      then show ?thesis using Cons.IH [OF Some] Cons.prems(2) True by simp
    next
      case False
      then have xa: "x = a" using Cons.prems(1) Some by simp
      have "\<not> f a < f z" if "argmax f (filter P xs) = Some z" for z
        using argmax_SomeD [OF that] argmax_SomeD [OF Some] False by (auto simp: not_less)
      then show ?thesis using Cons.prems(2) xa by (auto split: option.splits)
    qed
  qed
qed simp

definition object_head :: "record_storage \<Rightarrow> object_id \<Rightarrow> (object_row \<times> record_row) option" where
  "object_head st oid = argmax (\<lambda>p. rr_seq (snd p)) (filter (\<lambda>p. or_oid (fst p) = oid) (object_records st))"

lemma object_headD: "object_head st oid = Some p \<Longrightarrow> p \<in> set (object_records st) \<and> or_oid (fst p) = oid"
  by (auto simp: object_head_def dest!: argmax_SomeD)

lemma object_heads_list:
  "collect_object_heads st = List.map_filter (\<lambda>oid. map_option (\<lambda>p. (oid, version_of p)) (object_head st oid))
     (sort (remdups (map (\<lambda>p. or_oid (fst p)) (object_records st))))"
  by (simp add: collect_object_heads_def object_head_def)

lemma object_heads_mem: "(oid, v) \<in> set (collect_object_heads st) \<longleftrightarrow> (\<exists>p. object_head st oid = Some p \<and> v = version_of p)"
proof
  show "(oid, v) \<in> set (collect_object_heads st) \<Longrightarrow> \<exists>p. object_head st oid = Some p \<and> v = version_of p"
    by (auto simp: object_heads_list map_filter_mem)
  assume "\<exists>p. object_head st oid = Some p \<and> v = version_of p"
  then obtain p where p: "object_head st oid = Some p" "v = version_of p" by blast
  then have "oid \<in> set (sort (remdups (map (\<lambda>p. or_oid (fst p)) (object_records st))))"
    using object_headD [OF p(1)] by force
  moreover have "map_option (\<lambda>p. (oid, version_of p)) (object_head st oid) = Some (oid, v)" using p by simp
  ultimately show "(oid, v) \<in> set (collect_object_heads st)"
    unfolding object_heads_list map_filter_mem by blast
qed

lemma object_versions_from_mem:
  assumes "v \<in> version_of ` set (object_records st)" "w \<in> set (object_versions_from st oid vis v)"
  shows "w \<in> version_of ` set (object_records st)"
  using assms
proof (induction st oid vis v rule: object_versions_from.induct)
  case (1 st oid vis v)
  show ?case
  proof (cases "w = v")
    case False
    then obtain v' where "ov_tag v \<notin> set vis" "ov_prev_tag v \<noteq> []" "find_object_version st oid (ov_prev_tag v) = Some v'"
      "w \<in> set (object_versions_from st oid (ov_tag v # vis) v')"
      using 1(3) [unfolded object_versions_from.simps [of st oid vis v]]
      by (cases "find_object_version st oid (ov_prev_tag v)") (auto split: if_splits)
    moreover from this have "v' \<in> version_of ` set (object_records st)"
      by (auto simp: find_object_version_def dest!: find_SomeD)
    ultimately show ?thesis using 1(1) by simp
  qed (use 1(2) in simp)
qed

lemma object_versions_mem:
  assumes "h \<in> set (collect_object_heads st)" "w \<in> set (object_versions st h)"
  shows "w \<in> version_of ` set (object_records st)"
proof -
  have "snd h \<in> version_of ` set (object_records st)" 
    using object_heads_mem [of "fst h" "snd h" st] object_headD assms(1) by fastforce
  then show ?thesis using assms(2) unfolding object_versions_def by (rule object_versions_from_mem)
qed

lemma object_versions_head: "snd h \<in> set (object_versions st h)"
  unfolding object_versions_def by (subst object_versions_from.simps) simp

lemma find_object_version_filter:
  assumes "object_records st' = filter (\<lambda>p. or_tag (fst p) \<notin> G) (object_records st)"
  shows "find_object_version st' oid tag = (if tag \<in> G then None else find_object_version st oid tag)"
proof (cases "tag \<in> G")
  case True
  then have "find (\<lambda>p. or_tag (fst p) = tag \<and> or_oid (fst p) = oid) (object_records st') = None"
    by (auto simp: find_None_all assms)
  then show ?thesis using True by (simp add: find_object_version_def)
next
  case False
  then have "find (\<lambda>p. or_tag (fst p) = tag \<and> or_oid (fst p) = oid) (object_records st')
      = find (\<lambda>p. or_tag (fst p) = tag \<and> or_oid (fst p) = oid) (object_records st)"
    unfolding assms by (intro find_filter_keep) auto
  then show ?thesis using False by (simp add: find_object_version_def)
qed

lemma object_versions_from_filter:
  assumes "object_records st' = filter (\<lambda>p. or_tag (fst p) \<notin> G) (object_records st)"
    "\<And>w. w \<in> set (object_versions_from st oid vis v) \<Longrightarrow> ov_tag w \<notin> G"
  shows "object_versions_from st' oid vis v = object_versions_from st oid vis v"
  using assms
proof (induction st oid vis v rule: object_versions_from.induct)
  case (1 st oid vis v)
  note unfold = object_versions_from.simps [of st oid vis v] object_versions_from.simps [of st' oid vis v]
  show ?case
  proof (cases "ov_tag v \<in> set vis \<or> ov_prev_tag v = [] \<or> find_object_version st oid (ov_prev_tag v) = None")
    case True
    then show ?thesis unfolding unfold by (auto simp: find_object_version_filter [OF 1(2)])
  next
    case False
    then obtain v' where v': "find_object_version st oid (ov_prev_tag v) = Some v'" by auto
    have l: "object_versions_from st oid vis v = v # object_versions_from st oid (ov_tag v # vis) v'"
      unfolding unfold using False v' by simp
    have l': "object_versions_from st' oid vis v = v # (if ov_prev_tag v \<in> G then [] else object_versions_from st' oid (ov_tag v # vis) v')"
      unfolding unfold using False v' by (simp add: find_object_version_filter [OF 1(2)])
    have ih: "object_versions_from st' oid (ov_tag v # vis) v' = object_versions_from st oid (ov_tag v # vis) v'"
      using 1(1) [of v'] False v' 1(2,3) by (simp add: l)
    show ?thesis
    proof (cases "ov_prev_tag v \<in> G")
      case True
      have "ov_tag v' \<in> G" using find_object_version_tag [OF v'] True by simp
      then have "v' \<notin> set (object_versions_from st oid (ov_tag v # vis) v')" using 1(3) by (auto simp: l)
      then have "object_versions_from st oid (ov_tag v # vis) v' = []"
        by (subst (asm) object_versions_from.simps, subst object_versions_from.simps) (auto split: if_splits)
      then show ?thesis using l l' True by simp
    next
      case False
      then show ?thesis by (simp only: l l' ih if_False)
    qed
  qed
qed

lemma object_head_filter:
  assumes "object_records st' = filter (\<lambda>p. or_tag (fst p) \<notin> G) (object_records st)"
    "\<And>oid v. (oid, v) \<in> set (collect_object_heads st) \<Longrightarrow> ov_tag v \<notin> G"
  shows "object_head st' oid = object_head st oid"
proof (cases "object_head st oid")
  case None
  then have "filter (\<lambda>p. or_oid (fst p) = oid) (object_records st) = []" by (simp add: object_head_def)
  then have "filter (\<lambda>p. or_oid (fst p) = oid) (object_records st') = []" by (auto simp: assms(1) filter_empty_conv)
  then show ?thesis using None by (simp add: object_head_def)
next
  case (Some p)
  have "(oid, version_of p) \<in> set (collect_object_heads st)" using Some by (auto simp: object_heads_mem)
  then have "or_tag (fst p) \<notin> G" using assms(2) by (force simp: version_of_def)
  then have "argmax (\<lambda>p. rr_seq (snd p)) (filter (\<lambda>p. or_tag (fst p) \<notin> G) (filter (\<lambda>p. or_oid (fst p) = oid) (object_records st))) = Some p"
    by (rule argmax_filter_keep [OF Some [unfolded object_head_def]])
  then show ?thesis using Some by (simp add: object_head_def assms(1) conj_commute)
qed

lemma sort_remdups_set: "set xs = set ys \<Longrightarrow> sort (remdups xs) = sort (remdups ys)"
  by (rule sorted_distinct_set_unique) simp_all

lemma object_heads_filter:
  assumes "object_records st' = filter (\<lambda>p. or_tag (fst p) \<notin> G) (object_records st)"
    "\<And>oid v. (oid, v) \<in> set (collect_object_heads st) \<Longrightarrow> ov_tag v \<notin> G"
  shows "collect_object_heads st' = collect_object_heads st"
proof -
  have heads: "object_head st' = object_head st" using object_head_filter [OF assms(1)] assms(2) by blast
  have oids: "oid \<in> (\<lambda>p. or_oid (fst p)) ` set (object_records x) \<longleftrightarrow> object_head x oid \<noteq> None" for oid x
    by (auto simp: object_head_def filter_empty_conv)
  have "set (map (\<lambda>p. or_oid (fst p)) (object_records st')) = set (map (\<lambda>p. or_oid (fst p)) (object_records st))"
    unfolding set_map set_eq_iff oids heads by simp
  from sort_remdups_set [OF this] show ?thesis unfolding object_heads_list heads by (rule arg_cong)
qed

lemma collect_object_chain_set:
  "set (collect_object_chain st below h ret) = set ret \<union> ov_tag ` {v \<in> set (object_versions st h). ov_seq v < below}"
proof -
  have "set (fold (\<lambda>v ret. if ov_seq v < below \<and> ov_tag v \<notin> set ret then ret @ [ov_tag v] else ret) vs ret)
      = set ret \<union> ov_tag ` {v \<in> set vs. ov_seq v < below}" for vs
    by (induction vs arbitrary: ret) auto
  then show ?thesis by (simp add: collect_object_chain_def)
qed

lemma object_chain_tags_set:
  "set (object_chain_tags_below below st) =
     {ov_tag v |v h. h \<in> set (collect_object_heads st) \<and> v \<in> set (object_versions st h) \<and> ov_seq v < below}"
proof -
  have "set (fold (collect_object_chain st below) hs ret) =
      set ret \<union> {ov_tag v |v h. h \<in> set hs \<and> v \<in> set (object_versions st h) \<and> ov_seq v < below}" for hs ret
    by (induction hs arbitrary: ret) (auto simp: collect_object_chain_set)
  then show ?thesis by (simp add: object_chain_tags_below_def)
qed

lemma cut_before_Inr:
  assumes inv: "log_inv ex l" and cut: "cut_before tag l = Inr (removed, l')"
  obtains seg G where "seg \<in> set (rs_records (cl_records l))" "rr_tag seg = tag" "rr_type seg = segment_tag"
    "G = {rr_tag r |r. r \<in> set (rs_records (cl_records l)) \<and> rr_seq r < rr_seq seg
           \<and> rr_tag r \<notin> set (object_chain_tags_below (rr_seq seg) (cl_records l))}"
    "rs_records (cl_records l') = filter (\<lambda>r. rr_tag r \<notin> G) (rs_records (cl_records l))"
    "rs_objects (cl_records l') = filter (\<lambda>ob. or_tag ob \<notin> G) (rs_objects (cl_records l))"
    "rs_wf (ex_tag_size ex) (cl_records l')" "cl_head l' = cl_head l"
    "removed = filter (\<lambda>b. cb_tag b \<in> G) (log_blocks l)"
proof -
  let ?rows = "rs_records (cl_records l)"
  obtain seg st where seg: "find_tag tag (cl_records l) = Some seg" "rr_type seg = segment_tag"
    and st: "truncate_prefix (rr_seq seg) (object_chain_tags_below (rr_seq seg) (cl_records l)) (cl_records l) = Inr (removed, st)"
    and l': "l' = l\<lparr>cl_records := st\<rparr>"
    using cut by (auto simp: cut_before_def Let_def bind_result_Inr split: option.splits if_splits)
  have seg_in: "seg \<in> set ?rows" "rr_tag seg = tag" using seg(1) by (auto simp: find_tag_def dest!: find_SomeD)
  let ?retained = "object_chain_tags_below (rr_seq seg) (cl_records l)"
  define G where "G = {rr_tag r |r. r \<in> set ?rows \<and> rr_seq r < rr_seq seg \<and> rr_tag r \<notin> set ?retained}"
  define gone where "gone = filter (\<lambda>r. rr_tag r \<in> G) ?rows"
  note wf = log_invD(6) [OF inv]
  have tags: "cb_tag (rr_record r) = rr_tag r" if "r \<in> set ?rows" for r using rows_wf_row(3) [OF wf that] .
  have mem: "rr_tag r \<in> G \<longleftrightarrow> rr_seq r < rr_seq seg \<and> rr_tag r \<notin> set ?retained" if "r \<in> set ?rows" for r
    unfolding G_def using that same_tag_row [OF wf] by blast
  have "filter (\<lambda>row. cb_tag (rr_record row) \<notin> set ?retained) (truncation_rows (\<lambda>q. q < rr_seq seg) (cl_records l)) = gone"
    unfolding gone_def truncation_rows_log [OF inv] filter_filter using mem tags by (intro filter_cong) auto
  moreover have "seq_is_valid (rr_seq seg)" using committed_rowD(2) [OF log_invD(2) [OF inv seg_in(1)]] by (simp add: seq_is_valid_def)
  ultimately have eq: "removed = map rr_record gone" "st = fold remove_row gone (cl_records l)"
    using st by (simp_all add: truncate_prefix_def)
  have "rs_records st = filter (\<lambda>r. r \<notin> set gone) ?rows"
    unfolding eq fold_remove_row by (rule filter_rows_by_key [OF wf]) (simp add: gone_def)
  then have rows: "rs_records st = filter (\<lambda>r. rr_tag r \<notin> G) ?rows"
    by (simp add: gone_def cong: filter_cong)
  have "(\<lambda>r. cb_tag (rr_record r)) ` set gone = G"
    using tags mem by (force simp: gone_def G_def)
  then have objs: "rs_objects st = filter (\<lambda>ob. or_tag ob \<notin> G) (rs_objects (cl_records l))"
    by (simp add: eq fold_remove_row)
  have rem: "removed = filter (\<lambda>b. cb_tag b \<in> G) (log_blocks l)"
    unfolding eq gone_def log_blocks_def using tags by (simp add: filter_map comp_def cong: filter_cong)
  show ?thesis
    using that [of seg G] seg_in seg(2) G_def rows objs rem truncate_prefix_wf [OF log_invD(1) [OF inv] st] l' by simp
qed

lemma last_filter_keep: "xs \<noteq> [] \<Longrightarrow> P (last xs) \<Longrightarrow> last (filter P xs) = last xs \<and> filter P xs \<noteq> []"
  by (cases xs rule: rev_cases) auto

lemma cut_before_inv:
  assumes inv: "log_inv ex l" and cut: "cut_before tag l = Inr (removed, l')"
  shows "log_inv ex l'"
proof -
  let ?rows = "rs_records (cl_records l)"
  obtain seg G where seg: "seg \<in> set ?rows"
    and G: "G = {rr_tag r |r. r \<in> set ?rows \<and> rr_seq r < rr_seq seg
           \<and> rr_tag r \<notin> set (object_chain_tags_below (rr_seq seg) (cl_records l))}"
    and rows: "rs_records (cl_records l') = filter (\<lambda>r. rr_tag r \<notin> G) ?rows"
    and wf: "rs_wf (ex_tag_size ex) (cl_records l')" and head: "cl_head l' = cl_head l"
    using inv cut by (rule cut_before_Inr)
  have ne: "?rows \<noteq> []" using seg by auto
  have "rr_seq seg \<le> rr_seq (last ?rows)" using log_invD(3) [OF inv] seg by (rule sorted_seq_le_last)
  then have "rr_tag (last ?rows) \<notin> G"
    using same_tag_row [OF log_invD(6) [OF inv] _ last_in_set [OF ne]] by (auto simp: G)
  then have "head_of (rs_records (cl_records l')) = head_of ?rows"
    using last_filter_keep [OF ne, of "\<lambda>r. rr_tag r \<notin> G"] ne by (simp add: rows head_of_def)
  moreover have inv': "log_inv ex \<lparr>cl_records = cl_records l', cl_head = last_block False (cl_records l')\<rparr>"
    using log_inv_filter [OF inv rows wf] .
  ultimately show ?thesis using log_invD(5) [OF inv] head by (simp add: log_inv_def)
qed

lemma cut_before_head: "log_inv ex l \<Longrightarrow> cut_before tag l = Inr (removed, l') \<Longrightarrow> cl_head l' = cl_head l"
  by (erule (1) cut_before_Inr)

lemma cut_before_kept:
  assumes inv: "log_inv ex l" and cut: "cut_before tag l = Inr (removed, l')"
  shows "\<exists>seg\<in>set (log_blocks l). cb_tag seg = tag
    \<and> (\<forall>b\<in>set (log_blocks l). cb_sequence seg \<le> cb_sequence b \<longrightarrow> b \<in> set (log_blocks l'))"
proof -
  let ?rows = "rs_records (cl_records l)"
  obtain seg G where seg: "seg \<in> set ?rows" "rr_tag seg = tag"
    and G: "G = {rr_tag r |r. r \<in> set ?rows \<and> rr_seq r < rr_seq seg
           \<and> rr_tag r \<notin> set (object_chain_tags_below (rr_seq seg) (cl_records l))}"
    and rows: "rs_records (cl_records l') = filter (\<lambda>r. rr_tag r \<notin> G) ?rows"
    using inv cut by (rule cut_before_Inr)
  have seqs: "rr_seq r = cb_sequence (rr_record r)" if "r \<in> set ?rows" for r
    using committed_rowD(3) log_invD(2) [OF inv that] .
  have "rr_tag r \<notin> G" if "r \<in> set ?rows" "rr_seq seg \<le> rr_seq r" for r
    using same_tag_row [OF log_invD(6) [OF inv] _ that(1)] that(2) by (auto simp: G)
  then have "\<forall>b\<in>set (log_blocks l). cb_sequence (rr_record seg) \<le> cb_sequence b \<longrightarrow> b \<in> set (log_blocks l')"
    using seqs seg(1) by (auto simp: log_blocks_def rows)
  then show ?thesis using seg rows_wf_row(3) [OF log_invD(6) [OF inv] seg(1)] by (auto simp: log_blocks_def)
qed

lemma cut_keeps_versions:
  assumes inv: "log_inv ex l" and cut: "cut_before tag l = Inr (removed, l')"
  shows "collect_object_heads (cl_records l') = collect_object_heads (cl_records l)"
    "h \<in> set (collect_object_heads (cl_records l)) \<Longrightarrow> object_versions (cl_records l') h = object_versions (cl_records l) h"
proof -
  let ?st = "cl_records l"
  obtain seg G where "seg \<in> set (rs_records ?st)"
    and G: "G = {rr_tag r |r. r \<in> set (rs_records ?st) \<and> rr_seq r < rr_seq seg
           \<and> rr_tag r \<notin> set (object_chain_tags_below (rr_seq seg) ?st)}"
    and rows: "rs_records (cl_records l') = filter (\<lambda>r. rr_tag r \<notin> G) (rs_records ?st)"
    "rs_objects (cl_records l') = filter (\<lambda>ob. or_tag ob \<notin> G) (rs_objects ?st)"
    using inv cut by (rule cut_before_Inr)
  note recs = object_records_filter [OF rows]
  have kept: "ov_tag v \<notin> G" if h: "h \<in> set (collect_object_heads ?st)" and v: "v \<in> set (object_versions ?st h)" for h v
  proof
    assume "ov_tag v \<in> G"
    then obtain r where r: "ov_tag v = rr_tag r" "r \<in> set (rs_records ?st)" "rr_seq r < rr_seq seg"
      "rr_tag r \<notin> set (object_chain_tags_below (rr_seq seg) ?st)" by (auto simp: G)
    obtain p where p: "p \<in> set (object_records ?st)" "v = version_of p" using object_versions_mem [OF h v] by blast
    then have "snd p = r"
      using object_records_mem [OF p(1)] r(1,2) by (intro same_tag_row [OF log_invD(6) [OF inv]]) (auto simp: version_of_def)
    then have "ov_seq v < rr_seq seg" using r(3) p(2) by (auto simp: version_of_def)
    then have "ov_tag v \<in> set (object_chain_tags_below (rr_seq seg) ?st)"
      using h v unfolding object_chain_tags_set by blast
    then show False using r(1,4) by simp
  qed
  show "collect_object_heads (cl_records l') = collect_object_heads ?st"
    using kept object_versions_head by (intro object_heads_filter [OF recs]) fastforce
  show "object_versions (cl_records l') h = object_versions ?st h" if "h \<in> set (collect_object_heads ?st)"
    unfolding object_versions_def using kept [OF that] by (intro object_versions_from_filter [OF recs]) (simp add: object_versions_def)
qed

section \<open>An append only log of blocks\<close>

text \<open>
  What a log promises: its blocks are a list, an accepted append adds one block that names the head
  as its parent, a truncation keeps a prefix. A chain of blocks is one that was built this way from
  nothing: positions count from one and every block names the hash of the one before.
\<close>

definition tip :: "externals \<Rightarrow> chain_block list \<Rightarrow> chain_block_id" where
  "tip ex bs = (if bs = [] then no_block else block_id ex (last bs))"

fun hash_chain :: "externals \<Rightarrow> chain_block \<Rightarrow> chain_block list \<Rightarrow> bool" where
  "hash_chain ex b [] = True"
| "hash_chain ex b (c # bs) =
     (cb_sequence c = cb_sequence b + 1 \<and> cb_sequence c \<noteq> 0 \<and> cb_parent_hash c = block_hash ex b \<and> hash_chain ex c bs)"

definition is_chain :: "externals \<Rightarrow> chain_block list \<Rightarrow> bool" where
  "is_chain ex bs = (case bs of [] \<Rightarrow> True | b # cs \<Rightarrow> cb_sequence b = 1 \<and> cb_parent_hash b = [] \<and> hash_chain ex b cs)"

lemma hash_chain_snoc:
  "hash_chain ex b (bs @ [c]) \<longleftrightarrow> hash_chain ex b bs \<and> cb_sequence c = cb_sequence (last (b # bs)) + 1
     \<and> cb_sequence c \<noteq> 0 \<and> cb_parent_hash c = block_hash ex (last (b # bs))"
  by (induction bs arbitrary: b) auto

lemma is_chain_snoc:
  "is_chain ex (bs @ [c]) \<longleftrightarrow> is_chain ex bs \<and> cb_sequence c = bid_sequence (tip ex bs) + 1 \<and> cb_sequence c \<noteq> 0
     \<and> cb_parent_hash c = bid_hash (tip ex bs)"
  by (cases bs) (auto simp: is_chain_def tip_def no_block_def block_id_def hash_chain_snoc)

lemma is_chain_seq: "is_chain ex bs \<Longrightarrow> i < length bs \<Longrightarrow> unat (cb_sequence (bs ! i)) = Suc i"
proof (induction bs arbitrary: i rule: rev_induct)
  case (snoc c bs)
  show ?case
  proof (cases "i < length bs")
    case True
    then show ?thesis using snoc by (simp add: is_chain_snoc nth_append)
  next
    case False
    then have i: "i = length bs" using snoc.prems(2) by simp
    have c: "cb_sequence c = bid_sequence (tip ex bs) + 1" "cb_sequence c \<noteq> 0" 
      using snoc.prems(1) unfolding is_chain_snoc by blast+
    show ?thesis
    proof (cases "bs = []")
      case True
      then show ?thesis using c i by (simp add: tip_def no_block_def)
    next
      case False
      have "unat (bid_sequence (tip ex bs)) = length bs"
        using snoc.IH [of "length bs - 1"] snoc.prems(1) False
        by (simp add: is_chain_snoc tip_def block_id_def last_conv_nth)
      moreover have "bid_sequence (tip ex bs) \<noteq> - 1" using c by auto
      ultimately show ?thesis using c i word_inc_unat [of "bid_sequence (tip ex bs)"] by simp
    qed
  qed
qed simp

lemma is_chain_take: "is_chain ex bs \<Longrightarrow> is_chain ex (take n bs)"
proof (induction bs rule: rev_induct)
  case (snoc c bs)
  then show ?case by (cases "n \<le> length bs") (auto simp: is_chain_snoc)
qed simp

lemma is_chain_prefix:
  assumes "is_chain ex bs"
  shows "\<exists>n. filter (\<lambda>b. cb_sequence b < q) bs = take n bs"
  using assms
proof (induction bs rule: rev_induct)
  case (snoc c bs)
  show ?case
  proof (cases "cb_sequence c < q")
    case True
    have "cb_sequence b < q" if b: "b \<in> set bs" for b
    proof -
      obtain i where i: "i < length bs" "b = bs ! i" using b by (auto simp: in_set_conv_nth)
      have "unat (cb_sequence b) = Suc i" "unat (cb_sequence c) = Suc (length bs)"
        using is_chain_seq [OF snoc.prems, of i] is_chain_seq [OF snoc.prems, of "length bs"] i by (auto simp: nth_append)
      then have "cb_sequence b < cb_sequence c" using i(1) by (simp add: word_less_nat_alt)
      then show ?thesis using True by simp
    qed
    then show ?thesis using True by (intro exI [of _ "Suc (length bs)"]) simp
  next
    case False
    obtain n where "filter (\<lambda>b. cb_sequence b < q) bs = take n bs" using snoc by (auto simp: is_chain_snoc)
    then show ?thesis using False by (intro exI [of _ "min n (length bs)"]) (simp add: min_def)
  qed
qed simp

text \<open>The id of the last block determines the whole chain, when the hash has no collisions.\<close>

lemma chain_determined:
  assumes "inj_on (block_hash ex) (set bs \<union> set cs)" "is_chain ex bs" "is_chain ex cs" "tip ex bs = tip ex cs"
  shows "bs = cs"
  using assms
proof (induction bs arbitrary: cs rule: rev_induct)
  case Nil
  show ?case
  proof (rule ccontr)
    assume "[] \<noteq> cs"
    then have "unat (cb_sequence (last cs)) = length cs" using is_chain_seq [OF Nil(3), of "length cs - 1"] by (simp add: last_conv_nth)
    then show False using Nil(4) \<open>[] \<noteq> cs\<close> by (auto simp: tip_def no_block_def block_id_def)
  qed
next
  case (snoc b bs)
  have seq: "unat (cb_sequence b) = Suc (length bs)" using is_chain_seq [OF snoc.prems(2), of "length bs"] by simp
  then have "cs \<noteq> []" using snoc.prems(4) by (auto simp: tip_def no_block_def block_id_def)
  then obtain cs' c where cs: "cs = cs' @ [c]" by (cases cs rule: rev_cases) auto
  have bc: "b = c" using snoc.prems(4) inj_onD [OF snoc.prems(1), of b c] by (simp add: cs tip_def block_id_def)
  have "unat (cb_sequence c) = Suc (length cs')" using is_chain_seq [OF snoc.prems(3), of "length cs'"] by (simp add: cs)
  then have len: "length bs = length cs'" using seq bc by simp
  have nz: "b \<noteq> c \<or> bid_sequence (tip ex bs) = bid_sequence (tip ex cs')"
    using snoc.prems(2,3) by (auto simp: cs is_chain_snoc)
  have "tip ex bs = tip ex cs'"
    using snoc.prems(2,3) bc nz by (auto simp: cs is_chain_snoc chain_block_id.equality)
  moreover have "inj_on (block_hash ex) (set bs \<union> set cs')" using snoc.prems(1) by (rule inj_on_subset) (auto simp: cs)
  ultimately show ?case using snoc.IH snoc.prems(2,3) bc by (simp add: cs is_chain_snoc)
qed

locale block_log =
  fixes ex :: externals
    and inv :: "'l \<Rightarrow> bool"
    and blocks :: "'l \<Rightarrow> chain_block list"
    and head :: "'l \<Rightarrow> chain_block_id"
    and app :: "block_envelope \<Rightarrow> 'l \<Rightarrow> 'l result"
    and trunc :: "sequence_number \<Rightarrow> 'l \<Rightarrow> (chain_block list \<times> 'l) result"
  assumes head_tip: "inv l \<Longrightarrow> head l = tip ex (blocks l)"
    and app_position: "app e l = Inr l' \<Longrightarrow>
      cb_sequence (be_block e) = bid_sequence (head l) + 1 \<and> cb_parent_hash (be_block e) = bid_hash (head l)"
    and app_adds: "inv l \<Longrightarrow> bid_sequence (head l) \<noteq> - 1 \<Longrightarrow> app e l = Inr l' \<Longrightarrow>
      inv l' \<and> blocks l' = blocks l @ [be_block e]"
    and trunc_keeps: "inv l \<Longrightarrow> trunc q l = Inr (removed, l') \<Longrightarrow>
      inv l' \<and> blocks l' = filter (\<lambda>b. cb_sequence b < q) (blocks l) \<and> removed = filter (\<lambda>b. q \<le> cb_sequence b) (blocks l)"
begin

lemma app_chain:
  assumes "inv l" "is_chain ex (blocks l)" "bid_sequence (head l) \<noteq> - 1" "app e l = Inr l'"
  shows "inv l' \<and> is_chain ex (blocks l')"
  using app_adds [OF assms(1,3,4)] app_position [OF assms(4)] head_tip [OF assms(1)] word_inc_nonzero [OF assms(3)] assms(2)
  by (auto simp: is_chain_snoc)

lemma trunc_chain:
  assumes "inv l" "is_chain ex (blocks l)" "trunc q l = Inr (removed, l')"
  shows "inv l' \<and> is_chain ex (blocks l')"
  using trunc_keeps [OF assms(1,3)] is_chain_prefix [OF assms(2), of q] is_chain_take [OF assms(2)] by auto

lemma heads_agree:
  assumes "inj_on (block_hash ex) (set (blocks l) \<union> set (blocks l'))" "inv l" "is_chain ex (blocks l)" "inv l'" "is_chain ex (blocks l')" "head l = head l'"
  shows "blocks l = blocks l'"
  using chain_determined [OF assms(1,3,5)] head_tip [OF assms(2)] head_tip [OF assms(4)] assms(6) by simp

end

lemma log_head_tip: "log_inv ex l \<Longrightarrow> cl_head l = tip ex (log_blocks l)"
proof -
  assume inv: "log_inv ex l"
  show ?thesis
  proof (cases "rs_records (cl_records l) = []")
    case False
    then have "committed_row ex (last (rs_records (cl_records l)))" using log_invD(2) [OF inv] by simp
    then show ?thesis using log_invD(5) [OF inv] False
      by (simp add: head_of_def tip_def log_blocks_def last_map row_block_id_def block_id_def committed_row_def)
  qed (use log_invD(5) [OF inv] in \<open>simp add: head_of_def tip_def log_blocks_def\<close>)
qed

lemma log_append_position:
  "log_append ex e l = Inr l' \<Longrightarrow>
     cb_sequence (be_block e) = bid_sequence (cl_head l) + 1 \<and> cb_parent_hash (be_block e) = bid_hash (cl_head l)"
  by (auto simp: log_append_def Let_def split: if_splits)

interpretation clog: block_log ex "log_inv ex" log_blocks cl_head "log_append ex" log_truncate_from for ex
proof
  show "cl_head l = tip ex (log_blocks l)" if "log_inv ex l" for l using that by (rule log_head_tip)
  show "cb_sequence (be_block e) = bid_sequence (cl_head l) + 1 \<and> cb_parent_hash (be_block e) = bid_hash (cl_head l)"
    if "log_append ex e l = Inr l'" for e l l' using that by (rule log_append_position)
  show "log_inv ex l' \<and> log_blocks l' = log_blocks l @ [be_block e]"
    if "log_inv ex l" "bid_sequence (cl_head l) \<noteq> - 1" "log_append ex e l = Inr l'" for e l l'
    using log_append_Inr(1,2) [OF that] by blast
  show "log_inv ex l' \<and> log_blocks l' = filter (\<lambda>b. cb_sequence b < q) (log_blocks l)
      \<and> removed = filter (\<lambda>b. q \<le> cb_sequence b) (log_blocks l)"
    if "log_inv ex l" "log_truncate_from q l = Inr (removed, l')" for q l removed l'
    using log_truncate_Inr [OF that] by blast
qed


lemma empty_log_chain: "is_chain ex (log_blocks (chain_log_open empty_record_storage))"
  by (simp add: is_chain_def log_blocks_def chain_log_open_def empty_record_storage_def)

section \<open>Batches\<close>

definition wire_cost :: "block_envelope \<Rightarrow> nat" where
  "wire_cost env = length (cb_record (be_block env)) + record_wire_allowance"

lemma budget_fold:
  "\<exists>ys. fold (append_within_budget mb) xs (out, used) = (out @ ys, used + sum_list (map wire_cost ys)) \<and> subseq ys xs
     \<and> take (2 - length out) ys = take (2 - length out) xs
     \<and> (length (out @ ys) \<le> max 2 (length out) \<or> used + sum_list (map wire_cost ys) \<le> mb)"
proof (induction xs arbitrary: out used)
  case (Cons x xs)
  show ?case
  proof (cases "length out < 2 \<or> used + wire_cost x \<le> mb")
    case True
    have step: "append_within_budget mb x (out, used) = (out @ [x], used + wire_cost x)"
      using True by (auto simp: append_within_budget_def wire_cost_def Let_def)
    obtain ys where ys: "fold (append_within_budget mb) xs (out @ [x], used + wire_cost x)
        = ((out @ [x]) @ ys, used + wire_cost x + sum_list (map wire_cost ys))" "subseq ys xs"
      "take (2 - length (out @ [x])) ys = take (2 - length (out @ [x])) xs"
      "length ((out @ [x]) @ ys) \<le> max 2 (length (out @ [x])) \<or> used + wire_cost x + sum_list (map wire_cost ys) \<le> mb"
      using Cons.IH by blast
    have "length out = 0 \<or> length out = 1 \<or> 2 \<le> length out" by linarith
    then have "take (2 - length out) (x # ys) = take (2 - length out) (x # xs)"
      using ys(3) by (elim disjE) (simp_all add: numeral_2_eq_2)
    moreover have "length (out @ x # ys) \<le> max 2 (length out) \<or> used + sum_list (map wire_cost (x # ys)) \<le> mb"
      using ys(4) True by (cases ys) (auto simp: max_def split: if_splits)
    ultimately show ?thesis using ys(1,2) step by (intro exI [of _ "x # ys"]) (simp add: add.assoc)
  next
    case False
    then have "append_within_budget mb x (out, used) = (out, used)"
      by (auto simp: append_within_budget_def wire_cost_def Let_def)
    moreover obtain ys where "fold (append_within_budget mb) xs (out, used) = (out @ ys, used + sum_list (map wire_cost ys))"
      "subseq ys xs" "length (out @ ys) \<le> max 2 (length out) \<or> used + sum_list (map wire_cost ys) \<le> mb"
      using Cons.IH by blast
    ultimately show ?thesis using False by (intro exI [of _ ys]) (auto intro: list_emb_Cons)
  qed
qed simp

section \<open>Properties of the log\<close>

text \<open>The operations of a log that change it; sequences stay below the largest 64 bit number.\<close>

inductive log_step :: "externals \<Rightarrow> chain_log \<Rightarrow> chain_log \<Rightarrow> bool" for ex where
  appended: "bid_sequence (cl_head l) \<noteq> - 1 \<Longrightarrow> log_append ex e l = Inr l' \<Longrightarrow> log_step ex l l'"
| assigned: "store_assignment tag e l = Inr l' \<Longrightarrow> log_step ex l l'"
| truncated: "log_truncate_from q l = Inr (removed, l') \<Longrightarrow> log_step ex l l'"

inductive log_cut :: "chain_log \<Rightarrow> chain_log \<Rightarrow> bool" where
  cut: "cut_before tag l = Inr (removed, l') \<Longrightarrow> log_cut l l'"

inductive_cases log_stepE: "log_step ex l l'"
inductive_cases log_cutE: "log_cut l l'"

lemma store_assignment_blocks: "store_assignment tag e l = Inr l' \<Longrightarrow> log_blocks l' = log_blocks l"
  by (auto simp: store_assignment_def split: option.splits)

lemma log_step_inv: "log_step ex l l' \<Longrightarrow> log_inv ex l \<Longrightarrow> log_inv ex l'"
  by (elim log_stepE) (blast intro: log_append_Inr(1) store_assignment_inv log_truncate_Inr(1))+

lemma log_step_chain: "log_step ex l l' \<Longrightarrow> log_inv ex l \<Longrightarrow> is_chain ex (log_blocks l) \<Longrightarrow> is_chain ex (log_blocks l')"
  by (elim log_stepE) (blast dest: clog.app_chain clog.trunc_chain, simp add: store_assignment_blocks,
    blast dest: clog.app_chain clog.trunc_chain)

lemma reached_log:
  assumes "(log_step ex)\<^sup>*\<^sup>* (chain_log_open empty_record_storage) l"
  shows "log_inv ex l \<and> is_chain ex (log_blocks l)"
  using assms
proof (induction rule: rtranclp_induct)
  case base
  show ?case using log_inv_empty empty_log_chain by blast
next
  case (step l l')
  then show ?case using log_step_inv log_step_chain by blast
qed



definition sample_log1 :: chain_log where
  "sample_log1 = projr (log_append sample_ex (block_envelope_of sample_block1 [] 0) (chain_log_open empty_record_storage))"

definition sample_log2 :: chain_log where
  "sample_log2 = projr (log_append sample_ex (block_envelope_of sample_block2 [] 0) sample_log1)"

definition sample_log3 :: chain_log where
  "sample_log3 = projr (log_append sample_ex (block_envelope_of sample_block3 [] 0) sample_log2)"

definition sample_log4 :: chain_log where
  "sample_log4 = projr (log_append sample_ex (block_envelope_of sample_block4 [] 0) sample_log3)"

lemma sample_append1: "log_append sample_ex (block_envelope_of sample_block1 [] 0) (chain_log_open empty_record_storage) = Inr sample_log1"
  by code_simp

lemma sample_append2: "log_append sample_ex (block_envelope_of sample_block2 [] 0) sample_log1 = Inr sample_log2"
  by code_simp

lemma sample_append3: "log_append sample_ex (block_envelope_of sample_block3 [] 0) sample_log2 = Inr sample_log3"
  by code_simp

lemma sample_append4: "log_append sample_ex (block_envelope_of sample_block4 [] 0) sample_log3 = Inr sample_log4"
  by code_simp

lemma sample_rooms: "bid_sequence (cl_head (chain_log_open empty_record_storage)) \<noteq> - 1"
  "bid_sequence (cl_head sample_log1) \<noteq> - 1" "bid_sequence (cl_head sample_log2) \<noteq> - 1"
  "bid_sequence (cl_head sample_log3) \<noteq> - 1"
  by code_simp+

lemma sample_reached: "(log_step sample_ex)\<^sup>*\<^sup>* (chain_log_open empty_record_storage) sample_log4"
  using appended [OF sample_rooms(1) sample_append1] appended [OF sample_rooms(2) sample_append2]
    appended [OF sample_rooms(3) sample_append3] appended [OF sample_rooms(4) sample_append4]
  by (meson converse_rtranclp_into_rtranclp rtranclp.rtrancl_refl)



text \<open>C5. Cutting the history loses no object: after a cut before a committed segment every object
  has the same newest version and the same chain of previous versions behind it, the head is the
  same, the blocks from the segment on are all kept, and the log is still consistent.\<close>

theorem cut_keeps_objects:
  assumes "(\<lambda>l l'. log_step ex l l' \<or> log_cut l l')\<^sup>*\<^sup>* (chain_log_open empty_record_storage) l"
    and "cut_before tag l = Inr (removed, l')"
  shows "collect_object_heads (cl_records l') = collect_object_heads (cl_records l)
    \<and> (\<forall>h\<in>set (collect_object_heads (cl_records l)). object_versions (cl_records l') h = object_versions (cl_records l) h)
    \<and> cl_head l' = cl_head l \<and> chain_log_open (cl_records l') = l'
    \<and> (\<exists>seg\<in>set (log_blocks l). cb_tag seg = tag
         \<and> (\<forall>b\<in>set (log_blocks l). cb_sequence seg \<le> cb_sequence b \<longrightarrow> b \<in> set (log_blocks l')))"
proof -
  have inv: "log_inv ex l"
    using assms(1)
  proof (induction rule: rtranclp_induct)
    case base
    show ?case by (rule log_inv_empty)
  next
    case (step l l')
    then show ?case using log_step_inv cut_before_inv by (blast elim: log_cutE)
  qed
  obtain seg where seg: "seg \<in> set (log_blocks l)" "cb_tag seg = tag"
    "\<And>b. b \<in> set (log_blocks l) \<Longrightarrow> cb_sequence seg \<le> cb_sequence b \<Longrightarrow> b \<in> set (log_blocks l')"
    using cut_before_kept [OF inv assms(2)] by blast
  then show ?thesis
    using cut_keeps_versions [OF inv assms(2)] cut_before_head [OF inv assms(2)] log_reopen [OF cut_before_inv [OF inv assms(2)]]
    by blast
qed

theorem cut_keeps_objects_witness:
  "\<exists>l'. cut_before [4] sample_log4 = Inr ([sample_block1], l') \<and> collect_object_heads (cl_records sample_log4) \<noteq> []
     \<and> collect_object_heads (cl_records l') = collect_object_heads (cl_records sample_log4)"
proof -
  have cut: "cut_before [4] sample_log4 = Inr ([sample_block1], snd (projr (cut_before [4] sample_log4)))" by code_simp
  moreover have "collect_object_heads (cl_records sample_log4) \<noteq> []" by code_simp
  moreover have "(\<lambda>l l'. log_step sample_ex l l' \<or> log_cut l l')\<^sup>*\<^sup>* (chain_log_open empty_record_storage) sample_log4"
    using mono_rtranclp [of "log_step sample_ex" "\<lambda>l l'. log_step sample_ex l l' \<or> log_cut l l'"] sample_reached by blast
  ultimately show ?thesis using cut_keeps_objects [OF _ cut] by blast
qed

text \<open>C29. A batch never wedges a fetch and never exceeds its budget for long: it holds, in order,
  records of the requested range, at most the given number of them, always the first two of the
  range, and more than two only while the contents and their allowances fit the byte budget.\<close>

theorem batch_within_budget:
  "let range = map row_envelope (find_range (if seq_is_valid start then start else 1)
         (if seq_is_valid last' then last' else bid_sequence (cl_head l)) rs_in_sync mx (cl_records l));
       batch = log_get start last' mx mb l
   in subseq batch range \<and> length batch \<le> mx \<and> take 2 batch = take 2 range
      \<and> (length batch \<le> 2 \<or> sum_list (map wire_cost batch) \<le> mb)"
proof -
  define range where "range = map row_envelope (find_range (if seq_is_valid start then start else 1)
         (if seq_is_valid last' then last' else bid_sequence (cl_head l)) rs_in_sync mx (cl_records l))"
  have batch: "log_get start last' mx mb l = fst (fold (append_within_budget mb) range ([], 0))"
    by (simp add: log_get_def range_def Let_def fold_map comp_def)
  obtain ys where "fold (append_within_budget mb) range ([], 0) = (ys, sum_list (map wire_cost ys))" "subseq ys range"
    "take 2 ys = take 2 range" "length ys \<le> 2 \<or> sum_list (map wire_cost ys) \<le> mb"
    using budget_fold [of mb range "[]" 0] by auto
  moreover from this have "length ys \<le> mx" using list_emb_length [of _ ys range] by (simp add: range_def find_range_def)
  ultimately show ?thesis unfolding batch range_def [symmetric] by simp
qed

text \<open>
  A record that does not fit is left out and the loop goes on, so a later and smaller record may
  follow it: the batch of four records below leaves out the third.
\<close>

definition small_ex :: externals where
  "small_ex = sample_ex\<lparr>ex_ser_block := (\<lambda>b. take 4 (cb_record b))\<rparr>"

definition small_blocks :: "chain_block list" where
  "small_blocks =
     [sample_block 0 0 0 0 1 [],
      (sample_block 0 1 0 0 2 [])\<lparr>cb_parent_hash := [0, 0, 0, 0]\<rparr>,
      (sample_block 0 2 0 0 3 [1, 1, 1, 1, 1, 1])\<lparr>cb_parent_hash := [0, 1, 0, 0]\<rparr>,
      (sample_block 0 3 0 0 4 [])\<lparr>cb_parent_hash := [0, 2, 0, 0]\<rparr>]"

definition small_log :: chain_log where
  "small_log = fold (\<lambda>b l. projr (log_append small_ex (block_envelope_of b [] 0) l)) small_blocks
     (chain_log_open empty_record_storage)"

lemma small_range:
  "map row_envelope (find_range 1 4 rs_in_sync 30 (cl_records small_log)) = map (\<lambda>b. block_envelope_of b [] 0) small_blocks"
  "log_blocks small_log = small_blocks"
  by code_simp+

lemma batch_leaves_hole:
  "map cb_sequence (log_blocks small_log) = [1, 2, 3, 4]
   \<and> map (\<lambda>e. cb_sequence (be_block e)) (log_get 1 4 30 24590 small_log) = [1, 2, 4]"
proof
  show "map cb_sequence (log_blocks small_log) = [1, 2, 3, 4]"
    by (simp add: small_range(2) small_blocks_def sample_block_def)
  have "log_get 1 4 30 24590 small_log = fst (fold (append_within_budget 24590) (map (\<lambda>b. block_envelope_of b [] 0) small_blocks) ([], 0))"
    by (simp add: log_get_def Let_def seq_is_valid_def fold_map comp_def flip: small_range(1))
  then show "map (\<lambda>e. cb_sequence (be_block e)) (log_get 1 4 30 24590 small_log) = [1, 2, 4]"
    by (simp add: small_blocks_def append_within_budget_def record_wire_allowance_def sample_block_def block_envelope_of_def)
qed

end
