(* ===== verification/Chain_Sync.thy ===== *)
theory Chain_Sync
  imports Chain_Log Sync_Mode
begin

text \<open>
  The validation rules of a server (server/server_lib/chain_sync.cpp): which record a storage
  accepts in each mode, the cursors that enforce it and the commit of own and foreign records.

  An operation that throws returns \<open>Inl\<close>; the log and the cursors are then unchanged. The log id
  of the configuration only names the storage in log output and is left out.
\<close>

section \<open>State\<close>

record chain_sync_config =
  cc_mode :: sync_mode
  cc_auth_mode :: auth_mode
  cc_max_returned_records :: u64
  cc_max_response_bytes :: u64
  cc_max_record_size :: u64
  cc_replication :: replication_mode

definition default_chain_sync_config :: chain_sync_config where
  "default_chain_sync_config = \<lparr>cc_mode = require_all_seen, cc_auth_mode = only_tag, cc_max_returned_records = 30,
     cc_max_response_bytes = 1024 * 1024, cc_max_record_size = 0, cc_replication = repl_none\<rparr>"

record chain_sync =
  cs_config :: chain_sync_config
  cs_keys :: "key_access option"
  cs_log :: chain_log
  cs_last_data_add_remove :: sequence_number
  cs_last_user_change_or_segment :: sequence_number

datatype rec_type = rt_none | rt_data_add_remove | rt_special

record rule_result =
  ru_err :: "error option"
  ru_type :: rec_type
  ru_signer :: "public_key_id option"

definition no_rule_result :: rule_result where
  "no_rule_result = \<lparr>ru_err = None, ru_type = rt_none, ru_signer = None\<rparr>"

definition rule_error :: "error \<Rightarrow> rule_result" where
  "rule_error e = no_rule_result\<lparr>ru_err := Some e\<rparr>"

definition chain_sync_open :: "chain_sync_config \<Rightarrow> key_access option \<Rightarrow> record_storage \<Rightarrow> chain_sync" where
  "chain_sync_open config keys st =
     \<lparr>cs_config = config, cs_keys = keys, cs_log = chain_log_open st,
      cs_last_data_add_remove = last_data_add_sequence st, cs_last_user_change_or_segment = last_special_sequence st\<rparr>"

abbreviation cs_records :: "chain_sync \<Rightarrow> record_storage" where
  "cs_records cs \<equiv> cl_records (cs_log cs)"

abbreviation cs_head :: "chain_sync \<Rightarrow> chain_block_id" where
  "cs_head cs \<equiv> cl_head (cs_log cs)"

definition current_sequence_number :: "chain_sync \<Rightarrow> sequence_number" where
  "current_sequence_number cs = bid_sequence (cs_head cs)"

definition get_envelopes :: "sequence_number \<Rightarrow> sequence_number \<Rightarrow> chain_sync \<Rightarrow> block_envelope list" where
  "get_envelopes start end' cs =
     log_get start end' (unat (cc_max_returned_records (cs_config cs))) (unat (cc_max_response_bytes (cs_config cs))) (cs_log cs)"

definition get_records :: "sequence_number \<Rightarrow> sequence_number \<Rightarrow> chain_sync \<Rightarrow> chain_block list" where
  "get_records start end' cs =
     map be_block (log_get start end' (unat (cc_max_returned_records (cs_config cs)))
       (unat (cc_max_response_bytes (cs_config cs))) (cs_log cs))"

definition get_envelopes_by_origin ::
  "public_key_id \<Rightarrow> sequence_number \<Rightarrow> sequence_number \<Rightarrow> chain_sync \<Rightarrow> block_envelope list" where
  "get_envelopes_by_origin origin from to cs =
     log_get_by_origin origin from to (unat (cc_max_returned_records (cs_config cs))) (unat (cc_max_response_bytes (cs_config cs))) (cs_log cs)"

definition sync_truncate_from :: "sequence_number \<Rightarrow> chain_sync \<Rightarrow> (chain_block list \<times> chain_sync) result" where
  "sync_truncate_from first_removed cs =
     bind_result (log_truncate_from first_removed (cs_log cs)) (\<lambda>(removed, l).
       Inr (removed, cs\<lparr>cs_log := l, cs_last_data_add_remove := last_data_add_sequence (cl_records l),
                        cs_last_user_change_or_segment := last_special_sequence (cl_records l)\<rparr>))"

section \<open>The rules\<close>

definition set_and_save_block :: "externals \<Rightarrow> chain_block \<Rightarrow> rec_type \<Rightarrow> chain_sync \<Rightarrow> (chain_block \<times> chain_sync) result" where
  "set_and_save_block ex block type cs =
     (let head = cs_head cs;
          b = set_sequence_and_parent_hash (bid_sequence head + 1) (bid_hash head) block
      in bind_result (log_append ex (block_envelope_of b [] 0) (cs_log cs)) (\<lambda>l.
           let cs1 = cs\<lparr>cs_log := l\<rparr>
           in Inr (b, case type of
                rt_data_add_remove \<Rightarrow> cs1\<lparr>cs_last_data_add_remove := cb_sequence b\<rparr>
              | rt_special \<Rightarrow> cs1\<lparr>cs_last_user_change_or_segment := cb_sequence b\<rparr>
              | rt_none \<Rightarrow> cs1)))"

definition verify_signature :: "externals \<Rightarrow> chain_sync \<Rightarrow> chain_block \<Rightarrow> error option \<times> public_key_id option" where
  "verify_signature ex cs block =
     (let auth = cb_auth block
      in if \<not> has_signature auth then (Some (Protocol invalid_record), None)
         else case cs_keys cs of
             None \<Rightarrow> (None, signature_issuer auth)
           | Some keys \<Rightarrow>
               (case auth_verify (ex_cr ex) keys (cb_record block) auth of
                  None \<Rightarrow> (None, signature_issuer auth)
                | Some err \<Rightarrow> (Some (if err = General no_such_key then Protocol unknown_signer else Protocol invalid_record), None)))"

definition too_big :: "chain_sync \<Rightarrow> chain_block \<Rightarrow> bool" where
  "too_big cs block = (cc_max_record_size (cs_config cs) \<noteq> 0 \<and> cc_max_record_size (cs_config cs) < of_nat (length (cb_record block)))"

definition check_rules_special_seen :: "chain_sync \<Rightarrow> record_tag \<Rightarrow> error option" where
  "check_rules_special_seen cs last_seen_special =
     (if sync_mode_value require_special_seen \<le> sync_mode_value (cc_mode (cs_config cs))
         \<and> seq_is_valid (cs_last_user_change_or_segment cs)
      then case find_by_tag last_seen_special (cs_log cs) of
          None \<Rightarrow> Some (Protocol record_out_of_sync)
        | Some h \<Rightarrow>
            (if rr_type h \<noteq> user_change_tag \<and> rr_type h \<noteq> segment_tag then Some (Protocol invalid_record)
             else if rr_seq h < cs_last_user_change_or_segment cs then Some (Protocol record_out_of_sync)
             else None)
      else None)"

definition check_rules_add :: "chain_sync \<Rightarrow> record_base \<Rightarrow> error option" where
  "check_rules_add cs base =
     (if cc_mode (cs_config cs) = require_all_seen
      then if rb_last_seen_block base \<noteq> cs_head cs then Some (Protocol record_out_of_sync) else None
      else case check_rules_special_seen cs (rb_last_seen_special_tag base) of
          Some err \<Rightarrow> Some err
        | None \<Rightarrow>
            (if cc_mode (cs_config cs) = require_data_add_remove_seen \<and> seq_is_valid (cs_last_data_add_remove cs)
                \<and> bid_sequence (rb_last_seen_block base) < cs_last_data_add_remove cs
             then Some (Protocol record_out_of_sync) else None))"

definition check_rules_existing :: "chain_sync \<Rightarrow> record_base \<Rightarrow> error option" where
  "check_rules_existing cs base =
     (if cc_mode (cs_config cs) = require_all_seen
      then if rb_last_seen_block base \<noteq> cs_head cs then Some (Protocol record_out_of_sync) else None
      else check_rules_special_seen cs (rb_last_seen_special_tag base))"

definition bad_descriptor :: "externals \<Rightarrow> single_change \<Rightarrow> bool" where
  "bad_descriptor ex c = (case pc_data (sc_data c) of Some d \<Rightarrow> \<not> valid_data_descriptor (ex_tag_size ex) (ex_hash_size ex) d | None \<Rightarrow> False)"

fun check_rules_data :: "externals \<Rightarrow> chain_sync \<Rightarrow> record_base \<Rightarrow> rec_type \<Rightarrow> single_change list \<Rightarrow> rule_result" where
  "check_rules_data ex cs base type [] = no_rule_result\<lparr>ru_type := type\<rparr>"
| "check_rules_data ex cs base type (c # changes) =
     (let fail = (\<lambda>t e. no_rule_result\<lparr>ru_err := Some e, ru_type := t\<rparr>);
          prev = pc_previous_tag (sc_data c)
      in if \<not> object_id_is_valid (pc_id (sc_data c)) then fail type (Protocol invalid_record)
         else if bad_descriptor ex c then fail type (Protocol invalid_record)
         else case find_last_object (pc_id (sc_data c)) (cs_records cs) of
             None \<Rightarrow>
               (if prev = []
                then case check_rules_add cs base of
                    Some err \<Rightarrow> fail rt_data_add_remove err
                  | None \<Rightarrow> check_rules_data ex cs base rt_data_add_remove changes
                else fail type (Protocol record_out_of_sync))
           | Some handle \<Rightarrow>
               (if rr_tag handle = prev
                then case check_rules_existing cs base of
                    Some err \<Rightarrow> fail type err
                  | None \<Rightarrow> check_rules_data ex cs base type changes
                else fail type (Protocol record_out_of_sync)))"

definition check_rules_user :: "chain_sync \<Rightarrow> record_base \<Rightarrow> plain_user_change_data \<Rightarrow> rule_result" where
  "check_rules_user cs base data =
     (let r = no_rule_result\<lparr>ru_type := rt_special\<rparr>
      in if cc_replication (cs_config cs) \<noteq> repl_none \<and> us_mode (uc_access data) \<noteq> delta_mode
            \<and> bid_sequence (cs_head cs) \<noteq> 0
         then r\<lparr>ru_err := Some (Protocol invalid_record)\<rparr>
         else if cc_mode (cs_config cs) = require_all_seen
         then if rb_last_seen_block base \<noteq> cs_head cs then r\<lparr>ru_err := Some (Protocol record_out_of_sync)\<rparr> else r
         else r\<lparr>ru_err := check_rules_special_seen cs (rb_last_seen_special_tag base)\<rparr>)"

definition segment_of :: "change_record option \<Rightarrow> plain_segment_data option" where
  "segment_of r = (case r of Some (Segment_change _ d _) \<Rightarrow> Some d | _ \<Rightarrow> None)"

definition check_segment_backbone :: "externals \<Rightarrow> chain_sync \<Rightarrow> plain_segment_data \<Rightarrow> error option result" where
  "check_segment_backbone ex cs data =
     (let check = (\<lambda>expected_start expected_tag.
            if segment_start data \<noteq> expected_start \<or> previous_segment_tag data \<noteq> expected_tag
            then Some (Protocol record_out_of_sync) else None)
      in case find_last_of_type segment_tag (cs_records cs) of
          None \<Rightarrow> Inr (check 1 [])
        | Some previous \<Rightarrow>
            (case segment_of (deserialise_record ex (rr_record previous)) of
               None \<Rightarrow> Inl (General general_exception_occurred)
             | Some p \<Rightarrow> Inr (check (segment_end p) (rr_tag previous))))"

definition check_rules_segment_coverage ::
  "externals \<Rightarrow> chain_sync \<Rightarrow> record_base \<Rightarrow> plain_segment_data \<Rightarrow> error option result" where
  "check_rules_segment_coverage ex cs base data =
     (if segment_end data \<noteq> bid_sequence (rb_last_seen_block base) + 1 then Inr (Some (Protocol invalid_record))
      else bind_result (check_segment_backbone ex cs data) (\<lambda>err.
        case err of
          Some e \<Rightarrow> Inr (Some e)
        | None \<Rightarrow> Inr (if sg_tags data \<noteq> tags_in_range (segment_start data) (segment_end data - 1) (cs_records cs)
                       then Some (Protocol invalid_record) else None)))"

definition check_rules_segment ::
  "externals \<Rightarrow> chain_sync \<Rightarrow> record_base \<Rightarrow> plain_segment_data \<Rightarrow> rule_result result" where
  "check_rules_segment ex cs base data =
     (let r = no_rule_result\<lparr>ru_type := rt_special\<rparr>
      in if sync_mode_value require_special_seen \<le> sync_mode_value (cc_mode (cs_config cs))
            \<and> rb_last_seen_block base \<noteq> cs_head cs
         then Inr (r\<lparr>ru_err := Some (Protocol record_out_of_sync)\<rparr>)
         else bind_result (check_rules_segment_coverage ex cs base data) (\<lambda>err. Inr (r\<lparr>ru_err := err\<rparr>)))"

fun check_rules :: "externals \<Rightarrow> chain_sync \<Rightarrow> change_record \<Rightarrow> rule_result result" where
  "check_rules ex cs (Data_change base changes _) = Inr (check_rules_data ex cs base rt_none changes)"
| "check_rules ex cs (User_change base data _) = Inr (check_rules_user cs base data)"
| "check_rules ex cs (Segment_change base data _) = check_rules_segment ex cs base data"

definition op_id_committed :: "chain_sync \<Rightarrow> change_record \<Rightarrow> bool" where
  "op_id_committed cs rec =
     (let op = rb_op_id (record_base_part rec) in op \<noteq> [] \<and> find_by_op_id op (cs_log cs) \<noteq> None)"

definition evaluate :: "externals \<Rightarrow> chain_sync \<Rightarrow> chain_block \<Rightarrow> rule_result result" where
  "evaluate ex cs block =
     (if too_big cs block then Inr (rule_error (Protocol record_too_big))
      else case find_by_tag (cb_tag block) (cs_log cs) of
          Some _ \<Rightarrow> Inr (rule_error (Protocol record_already_committed))
        | None \<Rightarrow>
            (case (if cc_auth_mode (cs_config cs) = sign_records then verify_signature ex cs block else (None, None)) of
               (Some err, signer) \<Rightarrow> Inr (no_rule_result\<lparr>ru_err := Some err, ru_signer := signer\<rparr>)
             | (None, _) \<Rightarrow>
                 (case deserialise_record ex block of
                    None \<Rightarrow> Inl (General general_exception_occurred)
                  | Some rec \<Rightarrow>
                      (if op_id_committed cs rec then Inr (rule_error (Protocol record_already_committed))
                       else check_rules ex cs rec))))"

fun classify_foreign :: "externals \<Rightarrow> change_record \<Rightarrow> rule_result" where
  "classify_foreign ex (Data_change base changes _) =
     no_rule_result\<lparr>ru_err := (if list_ex (bad_descriptor ex) changes then Some (Protocol invalid_record) else None),
       ru_type := (if list_ex (\<lambda>c. pc_previous_tag (sc_data c) = []) changes then rt_data_add_remove else rt_none)\<rparr>"
| "classify_foreign ex _ = no_rule_result\<lparr>ru_type := rt_special\<rparr>"

definition evaluate_foreign :: "externals \<Rightarrow> chain_sync \<Rightarrow> chain_block \<Rightarrow> rule_result result" where
  "evaluate_foreign ex cs block =
     (if too_big cs block then Inr (rule_error (Protocol record_too_big))
      else case find_by_tag (cb_tag block) (cs_log cs) of
          Some _ \<Rightarrow> Inr (rule_error (Protocol record_already_committed))
        | None \<Rightarrow>
            (case (if cc_auth_mode (cs_config cs) = sign_records then verify_signature ex cs block else (None, None)) of
               (Some err, signer) \<Rightarrow> Inr (no_rule_result\<lparr>ru_err := Some err, ru_signer := signer\<rparr>)
             | (None, _) \<Rightarrow>
                 (case deserialise_record ex block of
                    None \<Rightarrow> Inl (General general_exception_occurred)
                  | Some rec \<Rightarrow>
                      (if op_id_committed cs rec then Inr (rule_error (Protocol record_already_committed))
                       else Inr (classify_foreign ex rec)))))"

section \<open>Commits\<close>

definition commit_foreign :: "externals \<Rightarrow> chain_block \<Rightarrow> chain_sync \<Rightarrow> (chain_block \<times> chain_sync) result" where
  "commit_foreign ex block cs =
     bind_result (evaluate_foreign ex cs block) (\<lambda>r.
       case ru_err r of None \<Rightarrow> set_and_save_block ex block (ru_type r) cs | Some err \<Rightarrow> Inl err)"

definition validate :: "externals \<Rightarrow> chain_sync \<Rightarrow> chain_block \<Rightarrow> error option" where
  "validate ex cs block = (case evaluate ex cs block of Inl err \<Rightarrow> Some err | Inr r \<Rightarrow> ru_err r)"

definition apply_block :: "externals \<Rightarrow> chain_block \<Rightarrow> chain_sync \<Rightarrow> (chain_block \<times> chain_sync) result" where
  "apply_block ex block cs = bind_result (evaluate ex cs block) (\<lambda>r. set_and_save_block ex block (ru_type r) cs)"

definition commit_block :: "externals \<Rightarrow> chain_block \<Rightarrow> chain_sync \<Rightarrow> (chain_block \<times> chain_sync) result" where
  "commit_block ex block cs =
     bind_result (evaluate ex cs block) (\<lambda>r.
       case ru_err r of None \<Rightarrow> set_and_save_block ex block (ru_type r) cs | Some err \<Rightarrow> Inl err)"

section \<open>What an accepted record satisfies\<close>

definition kind_of :: "change_record \<Rightarrow> rec_type" where
  "kind_of rec = (case rec of
       Data_change _ changes _ \<Rightarrow> if \<exists>c\<in>set changes. pc_previous_tag (sc_data c) = [] then rt_data_add_remove else rt_none
     | _ \<Rightarrow> rt_special)"

lemma classify_foreign_kind: "ru_type (classify_foreign ex rec) = kind_of rec"
  by (cases rec) (auto simp: kind_of_def no_rule_result_def list_ex_iff)

text \<open>Every record of the storage has a tag, as an authenticated encryption gives it.\<close>

definition tagged :: "chain_sync \<Rightarrow> bool" where
  "tagged cs = (\<forall>r\<in>set (rs_records (cs_records cs)). rr_tag r \<noteq> [])"

lemma find_last_object_row:
  "find_last_object oid st = Some r \<Longrightarrow> r \<in> set (rs_records st) \<and> rr_state r = rs_in_sync \<and> names_object st oid r"
  by (auto simp: find_last_object_def of_state_def dest!: argmax_SomeD)

definition change_ok :: "externals \<Rightarrow> chain_sync \<Rightarrow> record_base \<Rightarrow> single_change \<Rightarrow> bool" where
  "change_ok ex cs base c = (object_id_is_valid (pc_id (sc_data c)) \<and> \<not> bad_descriptor ex c
     \<and> (case find_last_object (pc_id (sc_data c)) (cs_records cs) of
          None \<Rightarrow> pc_previous_tag (sc_data c) = [] \<and> check_rules_add cs base = None
        | Some r \<Rightarrow> pc_previous_tag (sc_data c) = rr_tag r \<and> check_rules_existing cs base = None))"

lemma check_rules_data_Cons:
  assumes "ru_err (check_rules_data ex cs base t (c # changes)) = None"
  shows "change_ok ex cs base c" "check_rules_data ex cs base t (c # changes) =
    check_rules_data ex cs base (if find_last_object (pc_id (sc_data c)) (cs_records cs) = None then rt_data_add_remove else t) changes"
  using assms by (auto simp: Let_def no_rule_result_def change_ok_def split: if_splits option.splits)

lemma check_rules_data_None:
  assumes "ru_err (check_rules_data ex cs base t changes) = None"
  shows "\<forall>c\<in>set changes. change_ok ex cs base c"
    "ru_type (check_rules_data ex cs base t changes) =
       (if \<exists>c\<in>set changes. find_last_object (pc_id (sc_data c)) (cs_records cs) = None then rt_data_add_remove else t)"
proof -
  have "(\<forall>c\<in>set changes. change_ok ex cs base c) \<and> ru_type (check_rules_data ex cs base t changes) =
       (if \<exists>c\<in>set changes. find_last_object (pc_id (sc_data c)) (cs_records cs) = None then rt_data_add_remove else t)"
    using assms
  proof (induction changes arbitrary: t)
    case (Cons c changes)
    note c = check_rules_data_Cons [OF Cons.prems]
    then show ?case using Cons.IH Cons.prems by (auto simp del: check_rules_data.simps)
  qed (simp add: no_rule_result_def)
  then show "\<forall>c\<in>set changes. change_ok ex cs base c"
    "ru_type (check_rules_data ex cs base t changes) =
       (if \<exists>c\<in>set changes. find_last_object (pc_id (sc_data c)) (cs_records cs) = None then rt_data_add_remove else t)" by blast+
qed

lemma change_ok_first:
  assumes "change_ok ex cs base c" "tagged cs"
  shows "find_last_object (pc_id (sc_data c)) (cs_records cs) = None \<longleftrightarrow> pc_previous_tag (sc_data c) = []"
  using assms find_last_object_row by (fastforce simp: change_ok_def tagged_def split: option.splits)

lemma check_rules_kind:
  assumes "check_rules ex cs rec = Inr r" "ru_err r = None" "tagged cs"
  shows "ru_type r = kind_of rec"
proof (cases rec)
  case (Data_change base changes tr)
  then have r: "r = check_rules_data ex cs base rt_none changes" using assms(1) by simp
  note ok = check_rules_data_None [OF assms(2) [unfolded r]]
  have "(\<exists>c\<in>set changes. find_last_object (pc_id (sc_data c)) (cs_records cs) = None)
      \<longleftrightarrow> (\<exists>c\<in>set changes. pc_previous_tag (sc_data c) = [])"
    using ok(1) change_ok_first assms(3) by blast
  then show ?thesis using ok(2) by (simp add: r Data_change kind_of_def)
next
  case (User_change base data tr)
  then show ?thesis using assms(1,2) by (auto simp: check_rules_user_def kind_of_def Let_def no_rule_result_def split: if_splits)
next
  case (Segment_change base data tr)
  then show ?thesis using assms(1,2)
    by (auto simp: check_rules_segment_def kind_of_def Let_def no_rule_result_def bind_result_Inr split: if_splits)
qed

lemma evaluate_None:
  assumes "evaluate ex cs b = Inr r" "ru_err r = None"
  obtains rec where "\<not> too_big cs b" "find_by_tag (cb_tag b) (cs_log cs) = None" "deserialise_record ex b = Some rec"
    "\<not> op_id_committed cs rec" "check_rules ex cs rec = Inr r"
    "cc_auth_mode (cs_config cs) = sign_records \<Longrightarrow> fst (verify_signature ex cs b) = None"
  using assms by (auto simp: evaluate_def rule_error_def no_rule_result_def split: if_splits option.splits prod.splits)

lemma evaluate_foreign_None:
  assumes "evaluate_foreign ex cs b = Inr r" "ru_err r = None"
  obtains rec where "\<not> too_big cs b" "find_by_tag (cb_tag b) (cs_log cs) = None" "deserialise_record ex b = Some rec"
    "\<not> op_id_committed cs rec" "r = classify_foreign ex rec"
    "cc_auth_mode (cs_config cs) = sign_records \<Longrightarrow> fst (verify_signature ex cs b) = None"
  using assms by (auto simp: evaluate_foreign_def rule_error_def no_rule_result_def split: if_splits option.splits prod.splits)

section \<open>What a commit does to the tables\<close>

lemma log_append_rows:
  assumes inv: "log_inv ex l" and app: "log_append ex env l = Inr l'"
  obtains c row obs where "deserialise_record ex (be_block env) = Some c"
    "rs_records (cl_records l') = rs_records (cl_records l) @ [row]"
    "rr_tag row = cb_tag (be_block env)" "rr_seq row = cb_sequence (be_block env)" "rr_state row = rs_in_sync"
    "rr_record row = be_block env" "rr_type row = record_type c"
    "rr_op_id row = (if rb_op_id (record_base_part c) = [] then None else Some (rb_op_id (record_base_part c)))"
    "rs_objects (cl_records l') = rs_objects (cl_records l) @ obs"
    "\<And>ob. ob \<in> set obs \<Longrightarrow> or_tag ob = cb_tag (be_block env)"
    "map or_prev_tag obs = map (\<lambda>c. pc_previous_tag (sc_data c)) (changes_of c)"
    "map or_oid obs = map (\<lambda>c. pc_id (sc_data c)) (changes_of c)"
proof -
  let ?b = "be_block env" and ?rows = "rs_records (cl_records l)"
  obtain k st where st: "rs_create ex ?b rs_in_sync (cl_records l) = Inr (k, st)"
    and l': "cl_records l' = (if env_is_signed ex env
        then rs_set_assignment k (Some env) (be_origin env) (cb_sequence ?b) st else st)"
    using app by (auto simp: log_append_def Let_def bind_result_Inr split: if_splits)
  obtain c row obs where c: "deserialise_record ex ?b = Some c" "rs_records st = ?rows @ [row]"
    "rr_key row = k" "rr_tag row = cb_tag ?b" "rr_seq row = cb_sequence ?b" "rr_state row = rs_in_sync" "rr_record row = ?b"
    "rr_type row = record_type c"
    "rr_op_id row = (if rb_op_id (record_base_part c) = [] then None else Some (rb_op_id (record_base_part c)))"
    "rs_objects st = rs_objects (cl_records l) @ obs" "\<And>ob. ob \<in> set obs \<Longrightarrow> or_tag ob = cb_tag ?b"
    "map or_prev_tag obs = map (\<lambda>c. pc_previous_tag (sc_data c)) (changes_of c)"
    "map or_oid obs = map (\<lambda>c. pc_id (sc_data c)) (changes_of c)"
    using rs_create_Inr [OF log_invD(1) [OF inv] st] by metis
  have "rows_wf (?rows @ [row])"
    using rs_wfD(1) [OF rs_create_wf [OF log_invD(1) [OF inv] st]] by (simp add: c)
  then have new: "\<forall>r\<in>set ?rows. rr_key r \<noteq> k" using rows_wfD(3) [of "?rows @ [row]"] c(3) by (auto simp: image_iff)
  let ?f = "\<lambda>r. r\<lparr>rr_envelope := Some env, rr_origin := (if be_origin env = [] then None else Some (be_origin env)),
       rr_origin_seq := (if be_origin env = [] then None else Some (cb_sequence ?b))\<rparr>"
  have old: "map (\<lambda>r. if rr_key r = k then ?f r else r) ?rows = ?rows" using new by (intro map_idI) auto
  show ?thesis
  proof (cases "env_is_signed ex env")
    case True
    then have "rs_records (cl_records l') = ?rows @ [?f row]" using old c(2,3) by (simp add: l' rs_set_assignment_rows)
    then show ?thesis using True c l' by (intro that [of c "?f row" obs]) simp_all
  next
    case False
    then show ?thesis using c l' by (intro that [of c row obs]) simp_all
  qed
qed

lemma save_block_Inr:
  assumes "set_and_save_block ex b t cs = Inr (b', cs')"
  obtains l where "b' = set_sequence_and_parent_hash (bid_sequence (cs_head cs) + 1) (bid_hash (cs_head cs)) b"
    "log_append ex (block_envelope_of b' [] 0) (cs_log cs) = Inr l" "cs_log cs' = l"
    "cs_config cs' = cs_config cs" "cs_keys cs' = cs_keys cs"
    "cs_last_data_add_remove cs' = (if t = rt_data_add_remove then cb_sequence b' else cs_last_data_add_remove cs)"
    "cs_last_user_change_or_segment cs' = (if t = rt_special then cb_sequence b' else cs_last_user_change_or_segment cs)"
  using assms by (cases t) (auto simp: set_and_save_block_def Let_def bind_result_Inr)

lemma envelope_of_block [simp]: "be_block (block_envelope_of b o' q) = b"
  by (simp add: block_envelope_of_def)

lemma set_sequence_keeps [simp]:
  "cb_tag (set_sequence_and_parent_hash q h b) = cb_tag b"
  "deserialise_record ex (set_sequence_and_parent_hash q h b) = deserialise_record ex b"
  "cb_sequence (set_sequence_and_parent_hash q h b) = q" "cb_parent_hash (set_sequence_and_parent_hash q h b) = h"
  "cb_record (set_sequence_and_parent_hash q h b) = cb_record b"
  by (simp_all add: set_sequence_and_parent_hash_def cb_tag_def deserialise_record_def)

lemma last_special_append:
  assumes "rs_records st' = rs_records st @ [row]" "rr_state row = rs_in_sync" "\<And>r. r \<in> set (rs_records st) \<Longrightarrow> rr_seq r \<le> rr_seq row"
  shows "last_special_sequence st' = (if is_special_type (rr_type row) then rr_seq row else last_special_sequence st)"
proof -
  have "max_of rr_seq (filter (\<lambda>r. is_special_type (rr_type r)) (of_state rs_in_sync st)) \<le> rr_seq row"
    using assms(3) by (auto simp: max_of_le of_state_def)
  then show ?thesis using assms(1,2) by (simp add: last_special_sequence_def of_state_def max_of_append_one max_absorb1)
qed

lemma last_data_add_append:
  assumes rows: "rs_records st' = rs_records st @ [row]" and row: "rr_state row = rs_in_sync"
    "\<And>r. r \<in> set (rs_records st) \<Longrightarrow> rr_seq r \<le> rr_seq row"
    and obs: "rs_objects st' = rs_objects st @ obs" "\<And>ob. ob \<in> set obs \<Longrightarrow> or_tag ob = rr_tag row"
    and wf: "objects_wf st" "\<And>r. r \<in> set (rs_records st) \<Longrightarrow> rr_tag r \<noteq> rr_tag row"
  shows "last_data_add_sequence st' =
    (if \<exists>ob\<in>set obs. or_prev_tag ob = [] then rr_seq row else last_data_add_sequence st)"
proof -
  have old: "adds_object st' r = adds_object st r" if "r \<in> set (rs_records st)" for r
    using obs wf(2) [OF that] by (auto simp: adds_object_def)
  have "\<not> (\<exists>ob\<in>set (rs_objects st). or_tag ob = rr_tag row)" using wf by (auto simp: objects_wf_def)
  then have new: "adds_object st' row \<longleftrightarrow> (\<exists>ob\<in>set obs. or_prev_tag ob = [])" using obs by (auto simp: adds_object_def)
  have fl: "filter (adds_object st') (of_state rs_in_sync st) = filter (adds_object st) (of_state rs_in_sync st)"
    using old by (intro filter_cong) (auto simp: of_state_def)
  have "max_of rr_seq (filter (adds_object st) (of_state rs_in_sync st)) \<le> rr_seq row"
    using row(2) by (auto simp: max_of_le of_state_def)
  moreover have "of_state rs_in_sync st' = of_state rs_in_sync st @ [row]" using row(1) by (simp add: of_state_def rows)
  ultimately show ?thesis using fl new by (simp add: last_data_add_sequence_def max_of_append_one max_absorb1)
qed

section \<open>The invariant of the rules\<close>

definition sync_inv :: "externals \<Rightarrow> chain_sync \<Rightarrow> bool" where
  "sync_inv ex cs = (log_inv ex (cs_log cs) \<and> tagged cs
     \<and> cs_last_data_add_remove cs = last_data_add_sequence (cs_records cs)
     \<and> cs_last_user_change_or_segment cs = last_special_sequence (cs_records cs))"

lemma sync_invD:
  assumes "sync_inv ex cs"
  shows "log_inv ex (cs_log cs)" "tagged cs" "cs_last_data_add_remove cs = last_data_add_sequence (cs_records cs)"
    "cs_last_user_change_or_segment cs = last_special_sequence (cs_records cs)"
  using assms by (auto simp: sync_inv_def)

lemma sync_reopen: "sync_inv ex cs \<Longrightarrow> chain_sync_open (cs_config cs) (cs_keys cs) (cs_records cs) = cs"
  using log_reopen [of ex "cs_log cs"] by (cases cs) (simp add: chain_sync_open_def sync_inv_def)

lemma special_kind: "is_special_type (record_type rec) \<longleftrightarrow> kind_of rec = rt_special"
  by (cases rec) (auto simp: is_special_type_def kind_of_def)

lemma add_kind: "kind_of rec = rt_data_add_remove \<longleftrightarrow> (\<exists>c\<in>set (changes_of rec). pc_previous_tag (sc_data c) = [])"
  by (cases rec) (auto simp: kind_of_def)

lemma save_block_rows:
  assumes inv: "log_inv ex (cs_log cs)" and room: "bid_sequence (cs_head cs) \<noteq> - 1"
    and save: "set_and_save_block ex b t cs = Inr (b', cs')"
  obtains rec row where "deserialise_record ex b = Some rec" "log_inv ex (cs_log cs')"
    "rs_records (cs_records cs') = rs_records (cs_records cs) @ [row]"
    "rr_tag row = cb_tag b" "rr_seq row = bid_sequence (cs_head cs) + 1" "rr_record row = b'" "rr_type row = record_type rec"
    "rr_op_id row = (if rb_op_id (record_base_part rec) = [] then None else Some (rb_op_id (record_base_part rec)))"
    "deserialise_record ex b' = Some rec"
    "\<And>r. r \<in> set (rs_records (cs_records cs)) \<Longrightarrow> rr_seq r < rr_seq row"
    "cs_config cs' = cs_config cs" "cs_keys cs' = cs_keys cs"
    "t = kind_of rec \<Longrightarrow> cb_tag b \<noteq> [] \<Longrightarrow> sync_inv ex cs \<Longrightarrow> sync_inv ex cs'"
proof -
  let ?st = "cs_records cs" and ?st' = "cs_records cs'"
  obtain l where b': "b' = set_sequence_and_parent_hash (bid_sequence (cs_head cs) + 1) (bid_hash (cs_head cs)) b"
    and app: "log_append ex (block_envelope_of b' [] 0) (cs_log cs) = Inr l" and l: "cs_log cs' = l"
    and same: "cs_config cs' = cs_config cs" "cs_keys cs' = cs_keys cs"
    and cur: "cs_last_data_add_remove cs' = (if t = rt_data_add_remove then cb_sequence b' else cs_last_data_add_remove cs)"
      "cs_last_user_change_or_segment cs' = (if t = rt_special then cb_sequence b' else cs_last_user_change_or_segment cs)"
    using save by (rule save_block_Inr)
  obtain rec row obs where rec: "deserialise_record ex b' = Some rec" and rows: "rs_records ?st' = rs_records ?st @ [row]"
    and row: "rr_tag row = cb_tag b'" "rr_seq row = cb_sequence b'" "rr_state row = rs_in_sync" "rr_record row = b'"
      "rr_type row = record_type rec"
      "rr_op_id row = (if rb_op_id (record_base_part rec) = [] then None else Some (rb_op_id (record_base_part rec)))"
    and obs: "rs_objects ?st' = rs_objects ?st @ obs" "\<And>ob. ob \<in> set obs \<Longrightarrow> or_tag ob = cb_tag b'"
      "map or_prev_tag obs = map (\<lambda>c. pc_previous_tag (sc_data c)) (changes_of rec)"
    using log_append_rows [OF inv app] unfolding l [symmetric] envelope_of_block by metis
  have inv': "log_inv ex (cs_log cs')" using log_append_Inr(1) [OF inv room app] l by simp
  have less: "rr_seq r < rr_seq row" if "r \<in> set (rs_records ?st)" for r
    using log_invD(3) [OF inv'] that by (auto simp: rows sorted_wrt_append)
  have fresh: "rr_tag r \<noteq> rr_tag row" if "r \<in> set (rs_records ?st)" for r
    using rows_wfD(4) [OF log_invD(6) [OF inv']] that by (auto simp: rows image_iff)
  have "(\<exists>ob\<in>set obs. or_prev_tag ob = []) \<longleftrightarrow> [] \<in> set (map or_prev_tag obs)" by (simp add: image_iff eq_commute [of "[]"])
  also have "\<dots> \<longleftrightarrow> kind_of rec = rt_data_add_remove" unfolding obs(3) add_kind by (simp add: image_iff eq_commute [of "[]"])
  finally have adds: "(\<exists>ob\<in>set obs. or_prev_tag ob = []) \<longleftrightarrow> kind_of rec = rt_data_add_remove" .
  have "last_data_add_sequence ?st' = (if \<exists>ob\<in>set obs. or_prev_tag ob = [] then rr_seq row else last_data_add_sequence ?st)"
    using rows row(3) less obs(1,2) rs_wfD(2) [OF log_invD(1) [OF inv]] fresh
    by (intro last_data_add_append) (auto simp: row(1) intro: less_imp_le)
  moreover have "last_special_sequence ?st' = (if is_special_type (rr_type row) then rr_seq row else last_special_sequence ?st)"
    using rows row(3) less by (intro last_special_append) (auto intro: less_imp_le)
  ultimately have "sync_inv ex cs'" if "t = kind_of rec" "cb_tag b \<noteq> []" "sync_inv ex cs"
    using that inv' cur by (auto simp: sync_inv_def tagged_def rows row b' adds special_kind)
  then show ?thesis using that [of rec row] rec rows row inv' less same by (simp add: b')
qed

text \<open>What both commits share: the rules accepted the record and its kind moves the cursors.\<close>

definition accepted :: "externals \<Rightarrow> chain_sync \<Rightarrow> chain_block \<Rightarrow> change_record \<Rightarrow> bool" where
  "accepted ex cs b rec = (find_by_tag (cb_tag b) (cs_log cs) = None \<and> deserialise_record ex b = Some rec \<and> \<not> op_id_committed cs rec)"

lemma commit_block_Inr:
  assumes "commit_block ex b cs = Inr (b', cs')" "tagged cs"
  obtains rec r where "accepted ex cs b rec" "check_rules ex cs rec = Inr r" "ru_err r = None"
    "set_and_save_block ex b (kind_of rec) cs = Inr (b', cs')"
proof -
  obtain r where r: "evaluate ex cs b = Inr r" "ru_err r = None" "set_and_save_block ex b (ru_type r) cs = Inr (b', cs')"
    using assms(1) by (auto simp: commit_block_def bind_result_Inr split: option.splits)
  obtain rec where "accepted ex cs b rec" "check_rules ex cs rec = Inr r" using evaluate_None [OF r(1,2)] by (auto simp: accepted_def)
  then show ?thesis using that r(2,3) check_rules_kind [OF _ r(2) assms(2)] by metis
qed

lemma commit_foreign_Inr:
  assumes "commit_foreign ex b cs = Inr (b', cs')"
  obtains rec where "accepted ex cs b rec" "set_and_save_block ex b (kind_of rec) cs = Inr (b', cs')"
proof -
  obtain r where r: "evaluate_foreign ex cs b = Inr r" "ru_err r = None" "set_and_save_block ex b (ru_type r) cs = Inr (b', cs')"
    using assms(1) by (auto simp: commit_foreign_def bind_result_Inr split: option.splits)
  obtain rec where "accepted ex cs b rec" "r = classify_foreign ex rec" using evaluate_foreign_None [OF r(1,2)] by (auto simp: accepted_def)
  then show ?thesis using that r(3) classify_foreign_kind by metis
qed

lemma max_of_map: "(\<And>x. f (g x) = f x) \<Longrightarrow> max_of f (map g xs) = max_of f xs"
  by (simp add: max_of_def fold_map comp_def)

lemma assignment_keeps_cursors:
  "last_special_sequence (rs_set_assignment k env o' q st) = last_special_sequence st"
  "last_data_add_sequence (rs_set_assignment k env o' q st) = last_data_add_sequence st"
proof -
  let ?f = "\<lambda>r. if rr_key r = k then r\<lparr>rr_envelope := env, rr_origin := (if o' = [] then None else Some o'),
       rr_origin_seq := (if o' = [] then None else Some q)\<rparr> else r"
  have mx: "max_of rr_seq (map ?f xs) = max_of rr_seq xs" for xs by (rule max_of_map) simp
  have fl: "filter P (map ?f xs) = map ?f (filter P xs)" if "\<And>r. P (?f r) = P r" for P and xs
    using that by (simp add: filter_map comp_def)
  note rows = rs_set_assignment_rows [of k env o' q st]
  show "last_special_sequence (rs_set_assignment k env o' q st) = last_special_sequence st"
    unfolding last_special_sequence_def of_state_def rows by (subst fl, simp, subst fl, simp, rule mx)
  have add: "adds_object (rs_set_assignment k env o' q st) = adds_object st" by (auto simp: adds_object_def fun_eq_iff)
  show "last_data_add_sequence (rs_set_assignment k env o' q st) = last_data_add_sequence st"
    unfolding last_data_add_sequence_def of_state_def rows add
    by (subst fl, simp, subst fl, simp add: adds_object_def, rule mx)
qed

lemma store_assignment_sync_inv:
  assumes "sync_inv ex cs" "store_assignment tag env (cs_log cs) = Inr l"
  shows "sync_inv ex (cs\<lparr>cs_log := l\<rparr>)"
proof -
  obtain r where r: "find_tag tag (cs_records cs) = Some r"
    using assms(2) by (cases "find_tag tag (cs_records cs)") (simp_all add: store_assignment_def)
  then have l: "l = (cs_log cs)\<lparr>cl_records := rs_set_assignment (rr_key r) (Some env) (be_origin env)
                          (cb_sequence (be_block env)) (cs_records cs)\<rparr>"
    using assms(2) by (simp add: store_assignment_def)
  have "tagged (cs\<lparr>cs_log := l\<rparr>)" using sync_invD(2) [OF assms(1)] by (auto simp: tagged_def l rs_set_assignment_rows)
  then show ?thesis using assms(1) store_assignment_inv [OF sync_invD(1) [OF assms(1)] assms(2)]
    by (simp add: sync_inv_def l assignment_keeps_cursors)
qed

lemma log_truncate_rows:
  assumes inv: "log_inv ex l" and t: "log_truncate_from q l = Inr (removed, l')"
  shows "rs_records (cl_records l') = filter (\<lambda>r. rr_seq r < q) (rs_records (cl_records l))"
proof -
  let ?rows = "rs_records (cl_records l)"
  let ?gone = "filter (\<lambda>r. q \<le> rr_seq r) ?rows"
  obtain st where st: "truncate_from q False (cl_records l) = Inr (removed, st)" and l': "cl_records l' = st"
    using t by (auto simp: log_truncate_from_def bind_result_Inr)
  have eq: "st = fold remove_row ?gone (cl_records l)"
    using st truncate_from_valid [OF st] by (simp add: truncate_from_def truncate_rows_plain truncation_rows_log [OF inv])
  show ?thesis unfolding l' eq fold_remove_row
    by (subst filter_rows_by_key [OF log_invD(6) [OF inv]]) (auto intro!: filter_cong)
qed

lemma truncate_sync_inv:
  assumes "sync_inv ex cs" "sync_truncate_from q cs = Inr (removed, cs')"
  shows "sync_inv ex cs'" "cs_config cs' = cs_config cs" "cs_keys cs' = cs_keys cs"
    "rs_records (cs_records cs') = filter (\<lambda>r. rr_seq r < q) (rs_records (cs_records cs))"
proof -
  obtain l where l: "log_truncate_from q (cs_log cs) = Inr (removed, l)"
    and cs': "cs' = cs\<lparr>cs_log := l, cs_last_data_add_remove := last_data_add_sequence (cl_records l),
                        cs_last_user_change_or_segment := last_special_sequence (cl_records l)\<rparr>"
    using assms(2) by (auto simp: sync_truncate_from_def bind_result_Inr)
  show rows: "rs_records (cs_records cs') = filter (\<lambda>r. rr_seq r < q) (rs_records (cs_records cs))"
    using log_truncate_rows [OF sync_invD(1) [OF assms(1)] l] by (simp add: cs')
  show "sync_inv ex cs'"
    using log_truncate_Inr(1) [OF sync_invD(1) [OF assms(1)] l] sync_invD(2) [OF assms(1)] rows
    by (simp add: sync_inv_def tagged_def cs')
qed (use assms(2) in \<open>auto simp: sync_truncate_from_def bind_result_Inr\<close>)

section \<open>Properties of the rules\<close>

text \<open>
  The operations of a server on the rules: commits of its own clients' records and of records
  other servers accepted, assignments stored for a record, truncations. Tags are not empty and
  sequences stay below the largest 64 bit number.
\<close>

inductive own_step :: "externals \<Rightarrow> chain_sync \<Rightarrow> chain_sync \<Rightarrow> bool" for ex where
  committed: "cb_tag b \<noteq> [] \<Longrightarrow> bid_sequence (cs_head cs) \<noteq> - 1 \<Longrightarrow> commit_block ex b cs = Inr (b', cs') \<Longrightarrow> own_step ex cs cs'"
| stored: "store_assignment tag env (cs_log cs) = Inr l \<Longrightarrow> own_step ex cs (cs\<lparr>cs_log := l\<rparr>)"

inductive sync_step :: "externals \<Rightarrow> chain_sync \<Rightarrow> chain_sync \<Rightarrow> bool" for ex where
  own: "own_step ex cs cs' \<Longrightarrow> sync_step ex cs cs'"
| foreign: "cb_tag b \<noteq> [] \<Longrightarrow> bid_sequence (cs_head cs) \<noteq> - 1 \<Longrightarrow> commit_foreign ex b cs = Inr (b', cs') \<Longrightarrow> sync_step ex cs cs'"
| cut_off: "sync_truncate_from q cs = Inr (removed, cs') \<Longrightarrow> sync_step ex cs cs'"

inductive_cases own_stepE: "own_step ex cs cs'"
inductive_cases sync_stepE: "sync_step ex cs cs'"

lemma own_step_inv:
  assumes "own_step ex cs cs'" "sync_inv ex cs"
  shows "sync_inv ex cs'" "cs_config cs' = cs_config cs" "cs_keys cs' = cs_keys cs"
proof -
  have "sync_inv ex cs' \<and> cs_config cs' = cs_config cs \<and> cs_keys cs' = cs_keys cs"
    using assms(1)
  proof (cases rule: own_step.cases)
    case (committed b b')
    obtain rec r where "accepted ex cs b rec" "set_and_save_block ex b (kind_of rec) cs = Inr (b', cs')"
      using commit_block_Inr [OF committed(3) sync_invD(2) [OF assms(2)]] by metis
    then show ?thesis using save_block_rows [OF sync_invD(1) [OF assms(2)] committed(2)] committed(1) assms(2)
      unfolding accepted_def by (metis option.inject)
  next
    case (stored tag env l)
    then show ?thesis using store_assignment_sync_inv [OF assms(2)] by simp
  qed
  then show "sync_inv ex cs'" "cs_config cs' = cs_config cs" "cs_keys cs' = cs_keys cs" by blast+
qed

lemma sync_step_inv:
  assumes "sync_step ex cs cs'" "sync_inv ex cs"
  shows "sync_inv ex cs' \<and> cs_config cs' = cs_config cs \<and> cs_keys cs' = cs_keys cs"
  using assms(1)
proof (cases rule: sync_step.cases)
  case own
  then show ?thesis using own_step_inv assms(2) by blast
next
  case (foreign b b')
  obtain rec where "accepted ex cs b rec" "set_and_save_block ex b (kind_of rec) cs = Inr (b', cs')"
    using commit_foreign_Inr [OF foreign(3)] by metis
  then show ?thesis using save_block_rows [OF sync_invD(1) [OF assms(2)] foreign(2)] foreign(1) assms(2)
    unfolding accepted_def by (metis option.inject)
next
  case (cut_off q removed)
  then show ?thesis using truncate_sync_inv [OF assms(2)] by blast
qed

lemma sync_inv_open: "sync_inv ex (chain_sync_open config keys empty_record_storage)"
  by (simp add: sync_inv_def chain_sync_open_def log_inv_empty tagged_def) (simp add: chain_log_open_def empty_record_storage_def)

lemma reached_sync:
  assumes "(sync_step ex)\<^sup>*\<^sup>* (chain_sync_open config keys empty_record_storage) cs"
  shows "sync_inv ex cs \<and> cs_config cs = config \<and> cs_keys cs = keys"
  using assms
proof (induction rule: rtranclp_induct)
  case base
  show ?case using sync_inv_open by (simp add: chain_sync_open_def)
next
  case (step cs cs')
  then show ?case using sync_step_inv by metis
qed

text \<open>C15. Enforcement survives restarts: whatever own and foreign records a server committed and
  truncated, reading the head and the cursors of the rules back from the storage gives exactly the
  ones it has in memory.\<close>

theorem rules_survive_restart:
  assumes "(sync_step ex)\<^sup>*\<^sup>* (chain_sync_open config keys empty_record_storage) cs"
  shows "chain_sync_open config keys (cs_records cs) = cs"
  using reached_sync [OF assms] sync_reopen by blast

subsection \<open>Seen rules\<close>

fun carries_change :: "change_record \<Rightarrow> bool" where
  "carries_change (Data_change _ changes _) = (changes \<noteq> [])"
| "carries_change _ = True"

lemma special_seen_None:
  assumes "check_rules_special_seen cs tag = None" "cc_mode (cs_config cs) \<noteq> allow_all"
    "cs_last_user_change_or_segment cs \<noteq> 0" "sync_inv ex cs"
  shows "\<exists>h\<in>set (rs_records (cs_records cs)). rr_tag h = tag \<and> is_special_type (rr_type h)
    \<and> rr_seq h = last_special_sequence (cs_records cs)"
proof -
  have mode: "sync_mode_value require_special_seen \<le> sync_mode_value (cc_mode (cs_config cs))"
    using assms(2) by (cases "cc_mode (cs_config cs)") (simp_all add: word_le_nat_alt)
  then obtain h where h: "find_by_tag tag (cs_log cs) = Some h" "is_special_type (rr_type h)"
    "\<not> rr_seq h < cs_last_user_change_or_segment cs"
    using assms(1,3) by (auto simp: check_rules_special_seen_def seq_is_valid_def is_special_type_def split: option.splits if_splits)
  have in_log: "h \<in> set (rs_records (cs_records cs))" "rr_tag h = tag"
    using h(1) by (auto simp: find_by_tag_def find_tag_def dest!: find_SomeD)
  have "rr_seq h \<le> last_special_sequence (cs_records cs)"
    unfolding last_special_sequence_def using in_log(1) h(2) committed_rowD(1) [OF log_invD(2) [OF sync_invD(1) [OF assms(4)] in_log(1)]]
    by (intro max_of_upper) (auto simp: of_state_def)
  then show ?thesis using in_log h(2,3) sync_invD(4) [OF assms(4)] by (intro bexI [of _ h]) auto
qed

text \<open>An accepted record saw what its mode requires: in the strict mode the last block it names
  is the head; in the weaker checked modes the special record it names is the newest special record
  of the log, and one that adds an object has seen every earlier addition where the mode asks for it.\<close>

theorem accepted_record_has_seen:
  assumes "(sync_step ex)\<^sup>*\<^sup>* (chain_sync_open config keys empty_record_storage) cs"
    and "commit_block ex b cs = Inr (b', cs')" "deserialise_record ex b = Some rec" "carries_change rec"
  shows "(cc_mode config = require_all_seen \<longrightarrow> rb_last_seen_block (record_base_part rec) = cs_head cs)
    \<and> (record_type rec = segment_tag \<and> cc_mode config \<noteq> allow_all \<longrightarrow> rb_last_seen_block (record_base_part rec) = cs_head cs)
    \<and> (cc_mode config \<in> {require_special_seen, require_data_add_remove_seen} \<and> record_type rec \<noteq> segment_tag
         \<and> last_special_sequence (cs_records cs) \<noteq> 0
       \<longrightarrow> (\<exists>h\<in>set (rs_records (cs_records cs)). rr_tag h = rb_last_seen_special_tag (record_base_part rec)
             \<and> is_special_type (rr_type h) \<and> rr_seq h = last_special_sequence (cs_records cs)))
    \<and> (cc_mode config = require_data_add_remove_seen \<and> kind_of rec = rt_data_add_remove
       \<longrightarrow> last_data_add_sequence (cs_records cs) \<le> bid_sequence (rb_last_seen_block (record_base_part rec)))"
proof -
  have inv: "sync_inv ex cs" "cs_config cs = config" using reached_sync [OF assms(1)] by auto
  obtain r where r: "check_rules ex cs rec = Inr r" "ru_err r = None"
    using commit_block_Inr [OF assms(2) sync_invD(2) [OF inv(1)]] assms(3) by (auto simp: accepted_def)
  note special = special_seen_None [OF _ _ _ inv(1)]
  have cur: "cs_last_user_change_or_segment cs = last_special_sequence (cs_records cs)"
    "cs_last_data_add_remove cs = last_data_add_sequence (cs_records cs)" using sync_invD [OF inv(1)] by auto
  show ?thesis
  proof (cases rec)
    case (Data_change base changes tr)
    have ok: "\<forall>c\<in>set changes. change_ok ex cs base c" using r check_rules_data_None(1) by (auto simp: Data_change)
    have ex: "check_rules_add cs base = None \<or> check_rules_existing cs base = None"
      using ok assms(4) by (cases changes) (auto simp: Data_change change_ok_def split: option.splits)
    have add: "check_rules_add cs base = None" if k: "kind_of rec = rt_data_add_remove"
    proof -
      obtain c where c: "c \<in> set changes" "pc_previous_tag (sc_data c) = []" using k by (auto simp: Data_change add_kind)
      then have "change_ok ex cs base c" "find_last_object (pc_id (sc_data c)) (cs_records cs) = None"
        using ok change_ok_first [OF _ sync_invD(2) [OF inv(1)]] by blast+
      then show ?thesis by (simp add: change_ok_def)
    qed
    show ?thesis using ex add special cur inv(2)
      by (auto simp: Data_change check_rules_add_def check_rules_existing_def seq_is_valid_def split: option.splits if_splits)
  next
    case (User_change base data tr)
    show ?thesis using r special cur inv(2)
      by (auto simp: User_change check_rules_user_def kind_of_def no_rule_result_def Let_def split: if_splits)
  next
    case (Segment_change base data tr)
    show ?thesis using r inv(2)
      by (cases "cc_mode config") (auto simp: Segment_change check_rules_segment_def kind_of_def no_rule_result_def Let_def
          word_le_nat_alt split: if_splits)
  qed
qed

text \<open>
  A data change without any change is not checked: the strict mode commits it although its author
  has not seen the head.
\<close>

definition sample_config :: "sync_mode \<Rightarrow> chain_sync_config" where
  "sample_config mode = \<lparr>cc_mode = mode, cc_auth_mode = only_tag, cc_max_returned_records = 30, cc_max_response_bytes = 100,
     cc_max_record_size = 0, cc_replication = repl_none\<rparr>"

definition strict_open :: chain_sync where
  "strict_open = chain_sync_open (sample_config require_all_seen) None empty_record_storage"

definition strict_sync :: chain_sync where
  "strict_sync = snd (projr (commit_block sample_ex sample_block1 strict_open))"

lemma empty_change_unseen:
  "\<exists>b' cs'. commit_block sample_ex (sample_block 3 0 0 0 9 []) strict_sync = Inr (b', cs') \<and> cb_sequence b' = 2
     \<and> bid_sequence (cs_head strict_sync) = 1"
proof -
  have "\<not> is_error (commit_block sample_ex (sample_block 3 0 0 0 9 []) strict_sync)
    \<and> cb_sequence (fst (projr (commit_block sample_ex (sample_block 3 0 0 0 9 []) strict_sync))) = 2
    \<and> bid_sequence (cs_head strict_sync) = 1" by code_simp
  then show ?thesis by (cases "commit_block sample_ex (sample_block 3 0 0 0 9 []) strict_sync") (auto simp: is_error_def)
qed

lemma result_pair: "\<not> is_error x \<and> fst (projr x) = b \<Longrightarrow> x = Inr (b, snd (projr x))"
  by (cases x) auto

lemma commit_sample1: "commit_block sample_ex sample_block1 strict_open = Inr (sample_block1, strict_sync)"
  unfolding strict_sync_def by (rule result_pair) code_simp

lemma strict_reached:
  "(sync_step sample_ex)\<^sup>*\<^sup>* (chain_sync_open (sample_config require_all_seen) None empty_record_storage) strict_sync"
proof -
  have "own_step sample_ex strict_open strict_sync"
    by (rule committed [OF _ _ commit_sample1]) code_simp+
  then show ?thesis unfolding strict_open_def by (blast intro: own)
qed

theorem rules_survive_restart_witness:
  "chain_sync_open (sample_config require_all_seen) None (cs_records strict_sync) = strict_sync
   \<and> cs_last_user_change_or_segment strict_sync = 1"
proof
  show "chain_sync_open (sample_config require_all_seen) None (cs_records strict_sync) = strict_sync"
    by (rule rules_survive_restart [OF strict_reached])
  show "cs_last_user_change_or_segment strict_sync = 1" by code_simp
qed

theorem accepted_record_has_seen_witness:
  "\<exists>rec. deserialise_record sample_ex sample_block2 = Some rec
     \<and> rb_last_seen_block (record_base_part rec) = cs_head strict_sync"
proof -
  have commit: "commit_block sample_ex sample_block2 strict_sync
      = Inr (sample_block2, snd (projr (commit_block sample_ex sample_block2 strict_sync)))"
    by (rule result_pair) code_simp
  obtain rec where rec: "deserialise_record sample_ex sample_block2 = Some rec" "carries_change rec"
    by (simp add: deserialise_record_def sample_defs Let_def)
  from accepted_record_has_seen [OF strict_reached commit rec]
  show ?thesis using rec(1) by (simp add: sample_config_def)
qed

subsection \<open>Commits happen once\<close>

definition holds :: "chain_sync \<Rightarrow> record_tag \<Rightarrow> octets \<Rightarrow> bool" where
  "holds cs tag op = (\<exists>r\<in>set (rs_records (cs_records cs)). rr_tag r = tag \<or> (op \<noteq> [] \<and> rr_op_id r = Some op))"

lemma held_refused:
  assumes "deserialise_record ex b = Some rec" "holds cs (cb_tag b) (rb_op_id (record_base_part rec))"
  shows "\<not> accepted ex cs b rec'"
  using assms by (auto simp: holds_def accepted_def op_id_committed_def find_by_tag_def find_tag_def find_by_op_id_def
      find_op_id_def find_None_all Let_def)

lemma commit_adds_row:
  assumes "log_inv ex (cs_log cs)" "bid_sequence (cs_head cs) \<noteq> - 1" "set_and_save_block ex b t cs = Inr (b', cs')"
    "deserialise_record ex b = Some rec"
  shows "holds cs' (cb_tag b) op" "\<And>tag op. holds cs tag op \<Longrightarrow> holds cs' tag op"
    "holds cs' tag (rb_op_id (record_base_part rec)) \<or> rb_op_id (record_base_part rec) = []"
proof -
  obtain row where row: "rs_records (cs_records cs') = rs_records (cs_records cs) @ [row]" "rr_tag row = cb_tag b"
    "rr_op_id row = (if rb_op_id (record_base_part rec) = [] then None else Some (rb_op_id (record_base_part rec)))"
    using save_block_rows [OF assms(1-3)] assms(4) by (metis option.inject)
  show "holds cs' (cb_tag b) op" "\<And>tag op. holds cs tag op \<Longrightarrow> holds cs' tag op"
    "holds cs' tag (rb_op_id (record_base_part rec)) \<or> rb_op_id (record_base_part rec) = []"
    by (auto simp: holds_def row)
qed

lemma store_assignment_rows:
  assumes "store_assignment tag env l = Inr l'"
  shows "(\<And>r x y z. g (r\<lparr>rr_envelope := x, rr_origin := y, rr_origin_seq := z\<rparr>) = g r) \<Longrightarrow>
      map g (rs_records (cl_records l')) = map g (rs_records (cl_records l))"
    "rs_objects (cl_records l') = rs_objects (cl_records l)"
  using assms by (auto simp: store_assignment_def rs_set_assignment_rows split: option.splits)

lemma holds_alt:
  "holds cs tag op \<longleftrightarrow> (\<exists>p\<in>set (map (\<lambda>r. (rr_tag r, rr_op_id r)) (rs_records (cs_records cs))).
     fst p = tag \<or> (op \<noteq> [] \<and> snd p = Some op))"
  by (auto simp: holds_def)

inductive grow_step :: "externals \<Rightarrow> chain_sync \<Rightarrow> chain_sync \<Rightarrow> bool" for ex where
  grow_own: "own_step ex cs cs' \<Longrightarrow> grow_step ex cs cs'"
| grow_foreign: "cb_tag b \<noteq> [] \<Longrightarrow> bid_sequence (cs_head cs) \<noteq> - 1 \<Longrightarrow> commit_foreign ex b cs = Inr (b', cs') \<Longrightarrow> grow_step ex cs cs'"

lemma grow_sync_step: "grow_step ex cs cs' \<Longrightarrow> sync_step ex cs cs'"
  by (erule grow_step.cases) (blast intro: sync_step.intros)+

lemma grow_step_holds:
  assumes "grow_step ex cs cs'" "sync_inv ex cs" "holds cs tag op"
  shows "holds cs' tag op"
  using assms(1)
proof (cases rule: grow_step.cases)
  case grow_own
  then show ?thesis
  proof (cases rule: own_step.cases)
    case (committed b b')
    obtain rec r where "accepted ex cs b rec" "set_and_save_block ex b (kind_of rec) cs = Inr (b', cs')"
      using commit_block_Inr [OF committed(3) sync_invD(2) [OF assms(2)]] by metis
    then show ?thesis using commit_adds_row(2) [OF sync_invD(1) [OF assms(2)] committed(2)] assms(3)
      by (auto simp: accepted_def)
  next
    case (stored tag' env l)
    then show ?thesis using assms(3) store_assignment_rows(1) [OF stored(2), of "\<lambda>r. (rr_tag r, rr_op_id r)"]
      by (simp only: holds_alt) simp
  qed
next
  case (grow_foreign b b')
  obtain rec where "accepted ex cs b rec" "set_and_save_block ex b (kind_of rec) cs = Inr (b', cs')"
    using commit_foreign_Inr [OF grow_foreign(3)] by metis
  then show ?thesis using commit_adds_row(2) [OF sync_invD(1) [OF assms(2)] grow_foreign(2)] assms(3)
    by (auto simp: accepted_def)
qed

lemma grown_holds:
  assumes "(grow_step ex)\<^sup>*\<^sup>* cs cs'" "sync_inv ex cs" "holds cs tag op"
  shows "sync_inv ex cs' \<and> holds cs' tag op"
  using assms
proof (induction rule: rtranclp_induct)
  case (step cs1 cs2)
  then show ?case using grow_step_holds sync_step_inv [OF grow_sync_step] by blast
qed simp

lemma refused_is_error:
  assumes "\<And>rec. \<not> accepted ex cs b rec" "tagged cs"
  shows "is_error (commit_block ex b cs) \<and> is_error (commit_foreign ex b cs)"
proof -
  have "commit_block ex b cs \<noteq> Inr (b', cs')" "commit_foreign ex b cs \<noteq> Inr (b', cs')" for b' cs'
    using commit_block_Inr [OF _ assms(2)] commit_foreign_Inr assms(1) by metis+
  then show ?thesis by (cases "commit_block ex b cs"; cases "commit_foreign ex b cs") auto
qed



end
