(* ===== verification/Segment_Chain.thy ===== *)
theory Segment_Chain
  imports Chain_Sync
begin

text \<open>
  What the segment rules of chain_sync give over the life of a storage: in every mode that checks
  what was seen, the segments partition the chain and list the records they cover.
\<close>

definition previous_segment :: "record_row list \<Rightarrow> record_row \<Rightarrow> record_row option" where
  "previous_segment rows r = argmax rr_seq (filter (\<lambda>x. rr_type x = segment_tag \<and> rr_seq x < rr_seq r) rows)"

text \<open>A segment starts where the one before it ends, ends at its own position and names the records
  between in their order.\<close>

definition covers :: "externals \<Rightarrow> record_row list \<Rightarrow> record_row \<Rightarrow> bool" where
  "covers ex rows r = (case segment_of (deserialise_record ex (rr_record r)) of
       None \<Rightarrow> False
     | Some d \<Rightarrow> segment_end d = rr_seq r
         \<and> (case previous_segment rows r of
              None \<Rightarrow> segment_start d = 1 \<and> previous_segment_tag d = []
            | Some p \<Rightarrow> segment_start d = rr_seq p \<and> previous_segment_tag d = rr_tag p)
         \<and> sg_tags d = map rr_tag (filter (\<lambda>x. segment_start d \<le> rr_seq x \<and> rr_seq x < rr_seq r) rows))"

definition segments_ok :: "externals \<Rightarrow> record_row list \<Rightarrow> bool" where
  "segments_ok ex rows = (\<forall>r\<in>set rows. rr_type r = segment_tag \<longrightarrow> covers ex rows r)"

lemma covers_cong:
  assumes "filter (\<lambda>x. rr_seq x < rr_seq r) rows = filter (\<lambda>x. rr_seq x < rr_seq r) rows'"
  shows "covers ex rows r = covers ex rows' r"
proof -
  have split: "filter (\<lambda>x. P x \<and> rr_seq x < rr_seq r) xs = filter P (filter (\<lambda>x. rr_seq x < rr_seq r) xs)" for P and xs
    by (simp add: conj_commute)
  show ?thesis unfolding covers_def previous_segment_def split assms ..
qed

lemma segments_ok_filter:
  assumes "segments_ok ex rows"
  shows "segments_ok ex (filter (\<lambda>r. rr_seq r < q) rows)"
proof -
  have "covers ex (filter (\<lambda>r. rr_seq r < q) rows) r = covers ex rows r" if "rr_seq r < q" for r
  proof (rule covers_cong)
    show "filter (\<lambda>x. rr_seq x < rr_seq r) (filter (\<lambda>x. rr_seq x < q) rows) = filter (\<lambda>x. rr_seq x < rr_seq r) rows"
      using that by (auto intro!: filter_cong)
  qed
  then show ?thesis using assms by (auto simp: segments_ok_def)
qed

lemma segments_ok_snoc:
  assumes "segments_ok ex rows" "\<And>r. r \<in> set rows \<Longrightarrow> rr_seq r < rr_seq row"
    "rr_type row = segment_tag \<Longrightarrow> covers ex rows row"
  shows "segments_ok ex (rows @ [row])"
proof -
  have "covers ex (rows @ [row]) r = covers ex rows r" if "rr_seq r \<le> rr_seq row" for r
    using that by (intro covers_cong) simp
  then show ?thesis using assms by (auto simp: segments_ok_def intro: less_imp_le)
qed

text \<open>The accepted segment is checked against exactly the rows below its own position.\<close>

lemma accepted_segment_covers:
  assumes inv: "sync_inv ex cs" and ok: "segments_ok ex (rs_records (cs_records cs))"
    and mode: "cc_mode (cs_config cs) \<noteq> allow_all" and room: "bid_sequence (cs_head cs) \<noteq> - 1"
    and rls: "check_rules ex cs (Segment_change base d tr) = Inr r" "ru_err r = None"
    and row: "rr_seq row = bid_sequence (cs_head cs) + 1" "deserialise_record ex (rr_record row) = Some (Segment_change base d tr)"
      "\<And>r. r \<in> set (rs_records (cs_records cs)) \<Longrightarrow> rr_seq r < rr_seq row"
  shows "covers ex (rs_records (cs_records cs)) row"
proof -
  let ?rows = "rs_records (cs_records cs)"
  note linv = sync_invD(1) [OF inv]
  have all: "of_state rs_in_sync (cs_records cs) = ?rows" using log_invD(2) [OF linv] by (rule of_state_committed)
  have "sync_mode_value require_special_seen \<le> sync_mode_value (cc_mode (cs_config cs))"
    using mode by (cases "cc_mode (cs_config cs)") (simp_all add: word_le_nat_alt)
  then have seen: "rb_last_seen_block base = cs_head cs" and cov: "check_rules_segment_coverage ex cs base d = Inr None"
    using rls by (auto simp: check_rules_segment_def no_rule_result_def Let_def bind_result_Inr split: if_splits)
  have fin: "segment_end d = rr_seq row" and bone: "check_segment_backbone ex cs d = Inr None"
    and tags: "sg_tags d = tags_in_range (segment_start d) (segment_end d - 1) (cs_records cs)"
    using cov seen row(1) by (auto simp: check_rules_segment_coverage_def bind_result_Inr split: if_splits option.splits)
  have prev: "previous_segment ?rows row = find_last_of_type segment_tag (cs_records cs)"
    unfolding previous_segment_def find_last_of_type_def all using row(3) by (auto intro!: arg_cong [of _ _ "argmax rr_seq"] filter_cong)
  have start: "case previous_segment ?rows row of
      None \<Rightarrow> segment_start d = 1 \<and> previous_segment_tag d = []
    | Some p \<Rightarrow> segment_start d = rr_seq p \<and> previous_segment_tag d = rr_tag p"
  proof (cases "find_last_of_type segment_tag (cs_records cs)")
    case None
    then show ?thesis using bone prev by (simp add: check_segment_backbone_def Let_def split: if_splits)
  next
    case (Some p)
    then have "p \<in> set ?rows" "rr_type p = segment_tag" by (auto simp: find_last_of_type_def all dest!: argmax_SomeD)
    then have "covers ex ?rows p" using ok by (simp add: segments_ok_def)
    then obtain pd where "segment_of (deserialise_record ex (rr_record p)) = Some pd" "segment_end pd = rr_seq p"
      by (auto simp: covers_def split: option.splits)
    then show ?thesis using bone prev Some by (simp add: check_segment_backbone_def Let_def split: if_splits)
  qed
  have "x \<le> rr_seq row - 1 \<longleftrightarrow> x < rr_seq row" for x
    using word_less_inc_iff [OF room, of x] by (simp add: row(1))
  moreover have "sorted (map rr_seq (filter P ?rows))" for P
    using log_invD(3) [OF linv] by (simp add: strict_sorted_iff sorted_filter)
  ultimately have "sg_tags d = map rr_tag (filter (\<lambda>x. segment_start d \<le> rr_seq x \<and> rr_seq x < rr_seq row) ?rows)"
    using tags by (simp add: tags_in_range_def all fin sort_key_id_if_sorted)
  then show ?thesis using row(2) fin start by (simp add: covers_def segment_of_def)
qed

inductive strict_step :: "externals \<Rightarrow> chain_sync \<Rightarrow> chain_sync \<Rightarrow> bool" for ex where
  strict_own: "own_step ex cs cs' \<Longrightarrow> strict_step ex cs cs'"
| strict_cut_off: "sync_truncate_from q cs = Inr (removed, cs') \<Longrightarrow> strict_step ex cs cs'"

lemma strict_sync_step: "strict_step ex cs cs' \<Longrightarrow> sync_step ex cs cs'"
  by (erule strict_step.cases) (blast intro: sync_step.intros)+

lemma argmax_map: "argmax g (map f xs) = map_option f (argmax (\<lambda>x. g (f x)) xs)"
  by (induction xs) (auto split: option.splits)

lemma segments_ok_map:
  assumes "\<And>r. rr_tag (f r) = rr_tag r \<and> rr_seq (f r) = rr_seq r \<and> rr_type (f r) = rr_type r \<and> rr_record (f r) = rr_record r"
  shows "segments_ok ex (map f rows) = segments_ok ex rows"
proof -
  have prev: "previous_segment (map f rows) (f r) = map_option f (previous_segment rows r)" for r
    using assms by (simp add: previous_segment_def filter_map comp_def argmax_map)
  have "map rr_tag (filter (\<lambda>x. a \<le> rr_seq x \<and> rr_seq x < q) (map f rows)) = map rr_tag (filter (\<lambda>x. a \<le> rr_seq x \<and> rr_seq x < q) rows)" for a q
    using assms by (simp add: filter_map comp_def)
  then have "covers ex (map f rows) (f r) = covers ex rows r" for r
    using assms prev [of r] by (cases "previous_segment rows r") (simp_all add: covers_def split: option.splits)
  then show ?thesis using assms by (simp add: segments_ok_def)
qed

lemma strict_step_segments:
  assumes "strict_step ex cs cs'" "sync_inv ex cs" "cc_mode (cs_config cs) \<noteq> allow_all" "segments_ok ex (rs_records (cs_records cs))"
  shows "segments_ok ex (rs_records (cs_records cs'))"
  using assms(1)
proof (cases rule: strict_step.cases)
  case (strict_cut_off q removed)
  then show ?thesis using truncate_sync_inv(4) [OF assms(2)] segments_ok_filter [OF assms(4)] by simp
next
  case strict_own
  then show ?thesis
  proof (cases rule: own_step.cases)
    case (stored tag env l)
    then obtain r where "find_tag tag (cs_records cs) = Some r"
      by (cases "find_tag tag (cs_records cs)") (simp_all add: store_assignment_def)
    then have rows: "rs_records (cs_records cs') = rs_records (rs_set_assignment (rr_key r) (Some env) (be_origin env)
        (cb_sequence (be_block env)) (cs_records cs))" using stored by (auto simp: store_assignment_def)
    show ?thesis unfolding rows rs_set_assignment_rows using assms(4) by (subst segments_ok_map) auto
  next
    case (committed b b')
    obtain rec r where acc: "accepted ex cs b rec" and rls: "check_rules ex cs rec = Inr r" "ru_err r = None"
      and save: "set_and_save_block ex b (kind_of rec) cs = Inr (b', cs')"
      using commit_block_Inr [OF committed(3) sync_invD(2) [OF assms(2)]] by metis
    obtain row where rows: "rs_records (cs_records cs') = rs_records (cs_records cs) @ [row]"
      and row: "rr_seq row = bid_sequence (cs_head cs) + 1" "deserialise_record ex (rr_record row) = Some rec"
        "rr_type row = record_type rec" "\<And>r. r \<in> set (rs_records (cs_records cs)) \<Longrightarrow> rr_seq r < rr_seq row"
      using save_block_rows [OF sync_invD(1) [OF assms(2)] committed(2) save] acc unfolding accepted_def by (metis option.inject)
    have "covers ex (rs_records (cs_records cs)) row" if seg: "rr_type row = segment_tag"
    proof -
      obtain base d tr where rec: "rec = Segment_change base d tr" using row(3) seg by (cases rec) auto
      show ?thesis using assms(2,4,3) committed(2) rls [unfolded rec] row(1) row(2) [unfolded rec] row(4)
        by (rule accepted_segment_covers)
    qed
    then show ?thesis unfolding rows using assms(4) row(4) by (intro segments_ok_snoc)
  qed
qed


definition strict_sync2 :: chain_sync where
  "strict_sync2 = snd (projr (commit_block sample_ex sample_block2 strict_sync))"

definition strict_sync3 :: chain_sync where
  "strict_sync3 = snd (projr (commit_block sample_ex sample_block3 strict_sync2))"

definition strict_sync4 :: chain_sync where
  "strict_sync4 = snd (projr (commit_block sample_ex sample_block4 strict_sync3))"

lemma strict_samples:
  "commit_block sample_ex sample_block2 strict_sync = Inr (sample_block2, strict_sync2)"
  "commit_block sample_ex sample_block3 strict_sync2 = Inr (sample_block3, strict_sync3)"
  "commit_block sample_ex sample_block4 strict_sync3 = Inr (sample_block4, strict_sync4)"
  unfolding strict_sync2_def strict_sync3_def strict_sync4_def by (rule result_pair, code_simp)+

lemma strict_rooms:
  "bid_sequence (cs_head strict_open) \<noteq> - 1 \<and> bid_sequence (cs_head strict_sync) \<noteq> - 1
   \<and> bid_sequence (cs_head strict_sync2) \<noteq> - 1 \<and> bid_sequence (cs_head strict_sync3) \<noteq> - 1"
  "cb_tag sample_block1 \<noteq> [] \<and> cb_tag sample_block2 \<noteq> [] \<and> cb_tag sample_block3 \<noteq> [] \<and> cb_tag sample_block4 \<noteq> []"
  by code_simp+


text \<open>
  The mode that allows all does not compare the stated end with the head: a segment may state an end
  beyond its own position, and the next one has to start there.
\<close>

definition loose_open :: chain_sync where
  "loose_open = chain_sync_open (sample_config allow_all) None empty_record_storage"

lemma segment_beyond_head:
  "\<exists>b' cs'. commit_block sample_ex (sample_block 4 8 1 9 1 []) loose_open = Inr (b', cs') \<and> cb_sequence b' = 1
     \<and> segment_of (deserialise_record sample_ex b') = Some \<lparr>segment_start = 1, segment_end = 9, sg_tags = [],
           previous_segment_tag = [], sg_trailing = []\<rparr>"
proof -
  let ?x = "commit_block sample_ex (sample_block 4 8 1 9 1 []) loose_open"
  have "\<not> is_error ?x \<and> cb_sequence (fst (projr ?x)) = 1
    \<and> segment_of (deserialise_record sample_ex (fst (projr ?x))) = Some \<lparr>segment_start = 1, segment_end = 9, sg_tags = [],
           previous_segment_tag = [], sg_trailing = []\<rparr>" by code_simp
  then show ?thesis by (cases ?x) (auto simp: is_error_def)
qed

end
