(* ===== verification/Storage_Heads.thy ===== *)
theory Storage_Heads
  imports Records
begin

text \<open>
  The two tables a replicated storage keeps beside its records: the newest head seen from every
  origin server (server/server_lib/storage_heads.cpp) and the proofs of equivocation
  (server/server_lib/evidence_store.cpp). The tables are lists in the order of their keys.
\<close>

section \<open>Heads of the origins\<close>

type_synonym storage_heads = "(public_key_id \<times> u64 \<times> chain_block_id) list"

definition heads_find :: "public_key_id \<Rightarrow> storage_heads \<Rightarrow> origin_head option" where
  "heads_find origin t = map_option (\<lambda>(trm, b). \<lparr>oh_origin = origin, oh_term = trm, oh_block = b\<rparr>) (map_of t origin)"

text \<open>The rank of a head is its term, then its sequence.\<close>

definition head_before :: "origin_head \<Rightarrow> origin_head \<Rightarrow> bool" where
  "head_before a b = (oh_term a < oh_term b
     \<or> (oh_term a = oh_term b \<and> bid_sequence (oh_block a) < bid_sequence (oh_block b)))"

definition heads_advance :: "crypto \<Rightarrow> origin_head \<Rightarrow> storage_heads \<Rightarrow> (bool \<times> storage_heads) result" where
  "heads_advance cr head t =
     (if \<not> cr_key_id_valid cr (oh_origin head) \<or> \<not> bid_is_valid (oh_block head) then Inl (Sync constraint_violation)
      else let newer = (case heads_find (oh_origin head) t of None \<Rightarrow> True | Some existing \<Rightarrow> head_before existing head)
           in Inr (newer, if newer then map_put (oh_origin head) (oh_term head, oh_block head) t else t))"

definition heads_all :: "storage_heads \<Rightarrow> origin_head list" where
  "heads_all t = map (\<lambda>(origin, trm, b). \<lparr>oh_origin = origin, oh_term = trm, oh_block = b\<rparr>) t"

definition heads_remove :: "public_key_id \<Rightarrow> storage_heads \<Rightarrow> storage_heads" where
  "heads_remove origin t = map_del origin t"

text \<open>
  A table of registers that only move up: what advancing promises, and what follows for any
  sequence of advances.
\<close>

locale monotone_register =
  fixes lookup :: "'k \<Rightarrow> 't \<Rightarrow> 'v option"
    and advance :: "'v \<Rightarrow> 't \<Rightarrow> 't"
    and key_of :: "'v \<Rightarrow> 'k"
    and before :: "'v \<Rightarrow> 'v \<Rightarrow> bool"
    and usable :: "'v \<Rightarrow> bool"
    and good :: "'t \<Rightarrow> bool"
  assumes before_trans: "before a b \<Longrightarrow> before b c \<Longrightarrow> before a c"
    and before_irrefl: "\<not> before a a"
    and good_advance: "good t \<Longrightarrow> good (advance v t)"
    and lookup_advance: "good t \<Longrightarrow> lookup k (advance v t) =
      (if usable v \<and> k = key_of v \<and> (\<forall>w. lookup k t = Some w \<longrightarrow> before w v) then Some v else lookup k t)"
begin

lemma lookup_grows:
  assumes "good t" "lookup k t = Some w"
  shows "\<exists>w'. lookup k (advance v t) = Some w' \<and> (w' = w \<or> before w w')"
  using assms by (auto simp: lookup_advance)

lemma fold_good: "good t \<Longrightarrow> good (fold advance vs t)"
  by (induction vs arbitrary: t) (auto simp: good_advance)

lemma fold_grows:
  "good t \<Longrightarrow> lookup k t = Some w \<Longrightarrow> \<exists>w'. lookup k (fold advance vs t) = Some w' \<and> (w' = w \<or> before w w')"
proof (induction vs arbitrary: t w)
  case (Cons v vs)
  obtain w1 where "lookup k (advance v t) = Some w1" "w1 = w \<or> before w w1" using lookup_grows [OF Cons.prems] by blast
  then show ?case using Cons.IH [OF good_advance [OF Cons.prems(1)]] before_trans by fastforce
qed simp

text \<open>The register holds no less than any value that was offered to it.\<close>

lemma fold_upper:
  "good t \<Longrightarrow> v \<in> set vs \<Longrightarrow> usable v \<Longrightarrow> \<exists>w. lookup (key_of v) (fold advance vs t) = Some w \<and> \<not> before w v"
proof (induction vs arbitrary: t)
  case (Cons u vs)
  show ?case
  proof (cases "v = u")
    case True
    have "\<exists>w. lookup (key_of v) (advance v t) = Some w \<and> \<not> before w v"
      using Cons.prems(1,3) before_irrefl by (cases "lookup (key_of v) t") (auto simp: lookup_advance)
    then obtain w where w: "lookup (key_of v) (advance v t) = Some w" "\<not> before w v" by blast
    obtain w' where "lookup (key_of v) (fold advance vs (advance v t)) = Some w'" "w' = w \<or> before w w'"
      using fold_grows [OF good_advance [OF Cons.prems(1)] w(1)] by blast
    then show ?thesis using w(2) before_trans True by auto
  next
    case False
    then show ?thesis using Cons.IH [OF good_advance [OF Cons.prems(1)]] Cons.prems(2,3) by simp
  qed
qed simp

end

text \<open>One advance as the storage uses it: a head the table refuses leaves it as it is.\<close>

definition heads_note :: "crypto \<Rightarrow> origin_head \<Rightarrow> storage_heads \<Rightarrow> storage_heads" where
  "heads_note cr head t = (case heads_advance cr head t of Inl _ \<Rightarrow> t | Inr (_, t') \<Rightarrow> t')"

lemma head_before_order:
  "head_before a b \<Longrightarrow> head_before b c \<Longrightarrow> head_before a c" "\<not> head_before a a"
  by (auto simp: head_before_def)

definition valid_head :: "crypto \<Rightarrow> origin_head \<Rightarrow> bool" where
  "valid_head cr h = (cr_key_id_valid cr (oh_origin h) \<and> bid_is_valid (oh_block h))"

lemma heads_find_note:
  assumes "keys_sorted t"
  shows "heads_find k (heads_note cr h t) =
    (if valid_head cr h \<and> k = oh_origin h \<and> (\<forall>w. heads_find k t = Some w \<longrightarrow> head_before w h) then Some h else heads_find k t)"
proof -
  have "\<lparr>oh_origin = oh_origin h, oh_term = oh_term h, oh_block = oh_block h\<rparr> = h" by simp
  then show ?thesis using assms
    by (auto simp: heads_note_def heads_advance_def heads_find_def valid_head_def map_of_put Let_def split: option.splits)
qed

lemma heads_note_sorted: "keys_sorted t \<Longrightarrow> keys_sorted (heads_note cr h t)"
  by (auto simp: heads_note_def heads_advance_def Let_def keys_sorted_put split: sum.splits)

interpretation heads: monotone_register heads_find "heads_note cr" oh_origin head_before "valid_head cr" keys_sorted for cr
proof
  show "head_before a b \<Longrightarrow> head_before b c \<Longrightarrow> head_before a c" "\<not> head_before a a" for a b c by (fact head_before_order)+
  show "keys_sorted t \<Longrightarrow> keys_sorted (heads_note cr v t)" for t v by (rule heads_note_sorted)
  show "keys_sorted t \<Longrightarrow> heads_find k (heads_note cr v t) = (if valid_head cr v \<and> k = oh_origin v
      \<and> (\<forall>w. heads_find k t = Some w \<longrightarrow> head_before w v) then Some v else heads_find k t)" for t k v
    by (rule heads_find_note)
qed

text \<open>C18. The recorded head of an origin only moves forward: after any sequence of valid heads was
  noted, the table holds for each of their origins a head that none of them is newer than, whatever
  the order in which they came.\<close>

theorem heads_move_forward:
  assumes "keys_sorted t" "h \<in> set hs" "valid_head cr h"
  shows "\<exists>w. heads_find (oh_origin h) (fold (heads_note cr) hs t) = Some w \<and> \<not> head_before w h"
  using assms by (rule heads.fold_upper)

theorem heads_move_forward_witness:
  "\<exists>w. heads_find [1] (fold (heads_note (ex_cr ex_plain))
       [\<lparr>oh_origin = [1], oh_term = 0, oh_block = \<lparr>bid_sequence = 5, bid_hash = [9]\<rparr>\<rparr>,
        \<lparr>oh_origin = [1], oh_term = 0, oh_block = \<lparr>bid_sequence = 3, bid_hash = [8]\<rparr>\<rparr>] []) = Some w
     \<and> \<not> head_before w \<lparr>oh_origin = [1], oh_term = 0, oh_block = \<lparr>bid_sequence = 5, bid_hash = [9]\<rparr>\<rparr>"
  using heads_move_forward [of "[]" "\<lparr>oh_origin = [1], oh_term = 0, oh_block = \<lparr>bid_sequence = 5, bid_hash = [9]\<rparr>\<rparr>"
      "[\<lparr>oh_origin = [1], oh_term = 0, oh_block = \<lparr>bid_sequence = 5, bid_hash = [9]\<rparr>\<rparr>,
        \<lparr>oh_origin = [1], oh_term = 0, oh_block = \<lparr>bid_sequence = 3, bid_hash = [8]\<rparr>\<rparr>]" "ex_cr ex_plain"]
  by (simp add: keys_sorted_Nil valid_head_def ex_plain_def ex_honest_def bid_is_valid_def seq_is_valid_def)

section \<open>Evidence\<close>

record evidence_row =
  ev_proof :: equivocation_proof
  ev_found :: nat

type_synonym evidence_store = "evidence_row list"

definition evidence_record :: "nat \<Rightarrow> equivocation_proof \<Rightarrow> evidence_store \<Rightarrow> bool \<times> evidence_store" where
  "evidence_record now p t =
     (if \<exists>r\<in>set t. proof_origin (ev_proof r) = proof_origin p \<and> proof_term (ev_proof r) = proof_term p
           \<and> proof_sequence (ev_proof r) = proof_sequence p
      then (False, t) else (True, t @ [\<lparr>ev_proof = p, ev_found = now\<rparr>]))"

definition evidence_condemned :: "public_key_id \<Rightarrow> evidence_store \<Rightarrow> bool" where
  "evidence_condemned origin t = (\<exists>r\<in>set t. proof_origin (ev_proof r) = origin)"

definition evidence_all :: "evidence_store \<Rightarrow> equivocation_proof list" where
  "evidence_all t = map ev_proof (sort_key ev_found t)"

end
