(* ===== verification/Server_Storage.thy ===== *)
theory Server_Storage
  imports Chain_Sync Storage_Heads
begin

text \<open>
  One record storage of a server (server/server_lib/storage.cpp): its persisted modes, the rules,
  the heads of the origins, the evidence and the listeners, with the commit of clients' records,
  the application of records other servers assigned, the cut and the rollback.

  An operation returns what it tells others (listeners, peers, the data servers, the operator) as
  events, in the order in which they are sent. \<open>alive\<close> says which listeners still exist. Calls
  hold the mutex of the storage, so each one is a step; \<open>now\<close> is the clock. Paths, the creation
  of directories and log output are left out.
\<close>

section \<open>Modes\<close>

text \<open>The row of the modes; a column added to an older table is \<open>None\<close>.\<close>

record config_row =
  cr_sync_mode :: sync_mode
  cr_auth_mode :: auth_mode
  cr_replication :: replication_mode
  cr_max_record_size :: "u32 option"
  cr_chunk_size :: "u32 option"
  cr_kept_data_versions :: "u32 option"

definition load_persisted_modes :: "config_row option \<Rightarrow> storage_modes option" where
  "load_persisted_modes row = map_option (\<lambda>r. \<lparr>sm_mode = cr_sync_mode r, sm_auth = cr_auth_mode r,
     sm_replication = cr_replication r,
     sm_limits = \<lparr>max_record_size = value_or (cr_max_record_size r) default_max_record_size,
                  lim_chunk_size = value_or (cr_chunk_size r) default_chunk_size,
                  kept_data_versions = value_or (cr_kept_data_versions r) keep_all_data_versions\<rparr>\<rparr>) row"

definition persist_modes :: "storage_modes \<Rightarrow> config_row" where
  "persist_modes m = \<lparr>cr_sync_mode = sm_mode m, cr_auth_mode = sm_auth m, cr_replication = sm_replication m,
     cr_max_record_size = Some (max_record_size (sm_limits m)), cr_chunk_size = Some (lim_chunk_size (sm_limits m)),
     cr_kept_data_versions = Some (kept_data_versions (sm_limits m))\<rparr>"

definition load_or_create_modes ::
  "storage_modes option \<Rightarrow> storage_limits \<Rightarrow> config_row option \<Rightarrow> (storage_modes \<times> config_row option) result" where
  "load_or_create_modes requested defaults row =
     (case load_persisted_modes row of
        Some persisted \<Rightarrow>
          (case requested of
             Some m \<Rightarrow> if \<not> modes_match m persisted then Inl (Protocol storage_mode_mismatch) else Inr (persisted, row)
           | None \<Rightarrow> Inr (persisted, row))
      | None \<Rightarrow>
          (case requested of
             None \<Rightarrow> Inl (Protocol no_such_storage)
           | Some req \<Rightarrow>
               (let m = req\<lparr>sm_limits := limits_or (limits_or (sm_limits req) defaults) default_storage_limits\<rparr>
                in if \<not> valid_storage_limits (sm_limits m) then Inl (Protocol invalid_storage_modes)
                   else Inr (m, Some (persist_modes m)))))"

definition permanent_rejection :: "error \<Rightarrow> bool" where
  "permanent_rejection err =
     (err = Protocol invalid_record \<or> err = Protocol record_too_big \<or> err = Protocol conflicting_record)"

definition foreign_record_skipped :: "error \<Rightarrow> bool" where
  "foreign_record_skipped err = (err = Protocol record_already_committed \<or> permanent_rejection err)"

section \<open>State\<close>

datatype storage_event =
    Notify nat chain_block "block_envelope option"
  | Notify_equivocation nat equivocation_proof
  | Notify_data nat data_id bool
  | Push_peers storage_modes block_envelope
  | Operator_evidence equivocation_proof
  | Release_data "data_id list"

text \<open>The database of a storage, as it is found when the storage is opened.\<close>

record storage_db =
  db_config :: "config_row option"
  db_records :: record_storage
  db_heads :: storage_heads
  db_evidence :: evidence_store
  db_bootstrapping :: bool

definition empty_storage_db :: storage_db where
  "empty_storage_db = \<lparr>db_config = None, db_records = empty_record_storage, db_heads = [], db_evidence = [], db_bootstrapping = False\<rparr>"

record server_storage =
  ss_id :: storage_id
  ss_modes :: storage_modes
  ss_config :: "config_row option"
  ss_keys :: "key_access option"
  ss_private_key :: "private_key option"
  ss_own_id :: public_key_id
  ss_sync :: chain_sync
  ss_heads :: storage_heads
  ss_evidence :: evidence_store
  ss_bootstrapping :: bool
  ss_listeners :: "nat list"

abbreviation ss_log :: "server_storage \<Rightarrow> chain_log" where
  "ss_log st \<equiv> cs_log (ss_sync st)"

definition sync_config_of :: "storage_modes \<Rightarrow> chain_sync_config" where
  "sync_config_of m = default_chain_sync_config\<lparr>cc_mode := sm_mode m, cc_auth_mode := sm_auth m,
     cc_replication := sm_replication m, cc_max_record_size := ucast (max_record_size (sm_limits m))\<rparr>"

definition storage_open ::
  "storage_id \<Rightarrow> storage_limits \<Rightarrow> storage_modes option \<Rightarrow> key_access option \<Rightarrow> private_key option
    \<Rightarrow> storage_db option \<Rightarrow> server_storage result" where
  "storage_open sid defaults create_modes keys key existing =
     (if (case create_modes of Some m \<Rightarrow> \<not> valid_storage_modes m | None \<Rightarrow> False) then Inl (Protocol invalid_storage_modes)
      else if create_modes = None \<and> existing = None then Inl (Protocol no_such_storage)
      else let db = value_or existing empty_storage_db
           in bind_result (load_or_create_modes create_modes defaults (db_config db)) (\<lambda>(m, config).
             Inr \<lparr>ss_id = sid, ss_modes = m, ss_config = config, ss_keys = keys, ss_private_key = key,
                  ss_own_id = (case key of Some k \<Rightarrow> key_id k | None \<Rightarrow> []),
                  ss_sync = chain_sync_open (sync_config_of m) keys (db_records db), ss_heads = db_heads db,
                  ss_evidence = db_evidence db, ss_bootstrapping = db_bootstrapping db, ss_listeners = []\<rparr>))"

text \<open>What the database of an open storage holds.\<close>

definition storage_db_of :: "server_storage \<Rightarrow> storage_db" where
  "storage_db_of st = \<lparr>db_config = ss_config st, db_records = cs_records (ss_sync st), db_heads = ss_heads st,
     db_evidence = ss_evidence st, db_bootstrapping = ss_bootstrapping st\<rparr>"

section \<open>Queries\<close>

definition storage_heads_list :: "externals \<Rightarrow> server_storage \<Rightarrow> origin_head list" where
  "storage_heads_list ex st =
     (let own = log_origin_head (ss_own_id st) (ss_log st)
      in (if cr_key_id_valid (ex_cr ex) (ss_own_id st) \<and> bid_is_valid own
          then [\<lparr>oh_origin = ss_own_id st, oh_term = 0, oh_block = own\<rparr>] else [])
         @ filter (\<lambda>h. oh_origin h \<noteq> ss_own_id st) (heads_all (ss_heads st)))"

definition history_samples :: "externals \<Rightarrow> server_storage \<Rightarrow> origin_samples list" where
  "history_samples ex st =
     map (\<lambda>h. \<lparr>os_origin = oh_origin h, os_blocks = log_samples_of ex (oh_origin h) (ss_log st)\<rparr>) (storage_heads_list ex st)"

definition storage_find_divergence :: "externals \<Rightarrow> origin_samples \<Rightarrow> server_storage \<Rightarrow> divergence" where
  "storage_find_divergence ex samples st = log_find_divergence ex (os_origin samples) (os_blocks samples) (ss_log st)"

definition known_origin_seq :: "public_key_id \<Rightarrow> server_storage \<Rightarrow> sequence_number" where
  "known_origin_seq origin st =
     (if origin = ss_own_id st then bid_sequence (log_origin_head (ss_own_id st) (ss_log st))
      else case heads_find origin (ss_heads st) of Some h \<Rightarrow> bid_sequence (oh_block h) | None \<Rightarrow> 0)"

definition storage_condemned :: "public_key_id \<Rightarrow> server_storage \<Rightarrow> bool" where
  "storage_condemned origin st = evidence_condemned origin (ss_evidence st)"

definition storage_evidence :: "server_storage \<Rightarrow> equivocation_proof list" where
  "storage_evidence st = evidence_all (ss_evidence st)"

definition committed_data :: "nat \<Rightarrow> data_id \<Rightarrow> server_storage \<Rightarrow> data_descriptor result" where
  "committed_data tag_size i st =
     (case dt_find tag_size i (rs_data (cs_records (ss_sync st))) of
        Some row \<Rightarrow>
          (if data_reference_count (cs_records (ss_sync st)) (dr_local_id row) \<noteq> 0
           then if dr_state row = ds_pruned then Inl (Protocol data_pruned) else Inr (dr_descriptor row)
           else Inl (Protocol unknown_data))
      | None \<Rightarrow> Inl (Protocol unknown_data))"

section \<open>Listeners\<close>

definition add_listener :: "nat \<Rightarrow> server_storage \<Rightarrow> server_storage" where
  "add_listener p st = st\<lparr>ss_listeners := (if p \<in> set (ss_listeners st) then ss_listeners st else ss_listeners st @ [p])\<rparr>"

definition for_each_listener ::
  "(nat \<Rightarrow> bool) \<Rightarrow> (nat \<Rightarrow> storage_event) \<Rightarrow> server_storage \<Rightarrow> storage_event list \<times> server_storage" where
  "for_each_listener alive f st =
     (map f (filter alive (ss_listeners st)), st\<lparr>ss_listeners := filter alive (ss_listeners st)\<rparr>)"

definition notify_data :: "(nat \<Rightarrow> bool) \<Rightarrow> data_id \<Rightarrow> bool \<Rightarrow> server_storage \<Rightarrow> storage_event list \<times> server_storage" where
  "notify_data alive i complete st = for_each_listener alive (\<lambda>p. Notify_data p i complete) st"

section \<open>Commits\<close>

definition make_envelope :: "externals \<Rightarrow> chain_block \<Rightarrow> server_storage \<Rightarrow> block_envelope option" where
  "make_envelope ex block st =
     map_option (\<lambda>key. envelope_sign ex (ss_id st) key (block_envelope_of block (key_id key) 0)) (ss_private_key st)"

text \<open>The outcome is the committed block and its signed assignment.\<close>

definition storage_commit_block ::
  "externals \<Rightarrow> (nat \<Rightarrow> bool) \<Rightarrow> chain_block \<Rightarrow> server_storage
    \<Rightarrow> (chain_block \<times> block_envelope option) result \<times> storage_event list \<times> server_storage" where
  "storage_commit_block ex alive cb st =
     (case commit_block ex cb (ss_sync st) of
        Inl err \<Rightarrow> (Inl err, [], st)
      | Inr (b, cs) \<Rightarrow>
          (let st1 = st\<lparr>ss_sync := cs\<rparr>; env = make_envelope ex b st1
           in case env of
                None \<Rightarrow> (let (evs, st2) = for_each_listener alive (\<lambda>p. Notify p b None) st1 in (Inr (b, None), evs, st2))
              | Some e \<Rightarrow>
                  (case store_assignment (cb_tag b) e (cs_log cs) of
                     Inl err \<Rightarrow> (Inl err, [], st1)
                   | Inr l \<Rightarrow>
                       (let push = (if sm_replication (ss_modes st) = repl_weak then [Push_peers (ss_modes st) e] else []);
                            (evs, st2) = for_each_listener alive (\<lambda>p. Notify p b (Some e)) (st1\<lparr>ss_sync := cs\<lparr>cs_log := l\<rparr>\<rparr>)
                        in (Inr (b, Some e), push @ evs, st2)))))"

definition note_evidence ::
  "externals \<Rightarrow> nat \<Rightarrow> (nat \<Rightarrow> bool) \<Rightarrow> key_access \<Rightarrow> equivocation_proof \<Rightarrow> server_storage
    \<Rightarrow> bool \<times> storage_event list \<times> server_storage" where
  "note_evidence ex now alive keys p st =
     (case proof_verify ex (ss_id st) keys p of
        Some err \<Rightarrow> (False, [], st)
      | None \<Rightarrow>
          (let (fresh, t) = evidence_record now p (ss_evidence st); st1 = st\<lparr>ss_evidence := t\<rparr>
           in if fresh then let (evs, st2) = for_each_listener alive (\<lambda>l. Notify_equivocation l p) st1 in (True, evs, st2)
              else (False, [], st1)))"

definition admit_foreign ::
  "externals \<Rightarrow> nat \<Rightarrow> (nat \<Rightarrow> bool) \<Rightarrow> block_envelope \<Rightarrow> server_storage
    \<Rightarrow> error option \<times> equivocation_proof option \<times> storage_event list \<times> server_storage" where
  "admit_foreign ex now alive env st =
     (if sm_replication (ss_modes st) \<noteq> repl_weak then (Some (Protocol protocol_invalid_state), None, [], st)
      else case ss_keys st of
          None \<Rightarrow> (Some (General general_invalid_state), None, [], st)
        | Some keys \<Rightarrow>
            (case envelope_verify ex (ss_id st) keys env of
               Some err \<Rightarrow> (Some err, None, [], st)
             | None \<Rightarrow>
                 (if evidence_condemned (be_origin env) (ss_evidence st) then (Some (Protocol origin_condemned), None, [], st)
                  else let block = be_block env;
                           held = origin_block_hash ex (be_origin env) (cb_sequence block) (cs_records (ss_sync st))
                       in if held \<noteq> [] \<and> held \<noteq> block_hash ex block
                          then case log_get_by_origin (be_origin env) (cb_sequence block) (cb_sequence block) 1
                                     (2 ^ 64 - 1) (ss_log st) of
                                 [] \<Rightarrow> (Some (Protocol origin_diverged), None, [], st)
                               | ours # _ \<Rightarrow>
                                   (let p = \<lparr>ep_first = ours, ep_second = env\<rparr>;
                                        (fresh, evs, st1) = note_evidence ex now alive keys p st
                                    in (Some (Protocol origin_diverged), if fresh then Some p else None, evs, st1))
                          else (None, None, [], st))))"

text \<open>\<open>Inl\<close> is an exception: what was changed before it stays changed.\<close>

definition apply_admitted ::
  "externals \<Rightarrow> (nat \<Rightarrow> bool) \<Rightarrow> block_envelope \<Rightarrow> server_storage
    \<Rightarrow> error option result \<times> storage_event list \<times> server_storage" where
  "apply_admitted ex alive env st =
     (let block = be_block env;
          head = \<lparr>oh_origin = be_origin env, oh_term = be_term env, oh_block = block_id ex block\<rparr>;
          advance = (\<lambda>s rest. case heads_advance (ex_cr ex) head (ss_heads s) of
              Inl err \<Rightarrow> (Inl err, [], s) | Inr (_, t) \<Rightarrow> rest (s\<lparr>ss_heads := t\<rparr>))
      in if be_origin env = ss_own_id st then (Inr None, [], st)
         else if find_tag (cb_tag block) (cs_records (ss_sync st)) \<noteq> None then advance st (\<lambda>s. (Inr None, [], s))
         else case commit_foreign ex block (ss_sync st) of
             Inl err \<Rightarrow>
               (if foreign_record_skipped err then advance st (\<lambda>s. (Inr None, [], s)) else (Inr (Some err), [], st))
           | Inr (b, cs) \<Rightarrow>
               advance (st\<lparr>ss_sync := cs\<rparr>) (\<lambda>s.
                 case store_assignment (cb_tag block) env (cs_log cs) of
                   Inl err \<Rightarrow> (Inl err, [], s)
                 | Inr l \<Rightarrow>
                     (let s1 = s\<lparr>ss_sync := cs\<lparr>cs_log := l\<rparr>\<rparr>;
                          (evs, s2) = for_each_listener alive (\<lambda>p. Notify p b (make_envelope ex b s1)) s1
                      in (Inr None, evs, s2))))"

definition apply_foreign ::
  "externals \<Rightarrow> nat \<Rightarrow> (nat \<Rightarrow> bool) \<Rightarrow> block_envelope \<Rightarrow> server_storage
    \<Rightarrow> error option result \<times> storage_event list \<times> server_storage" where
  "apply_foreign ex now alive env st =
     (case admit_foreign ex now alive env st of
        (Some err, found, evs, st1) \<Rightarrow>
          (Inr (Some err), evs @ (case found of Some p \<Rightarrow> [Operator_evidence p] | None \<Rightarrow> []), st1)
      | (None, found, evs, st1) \<Rightarrow>
          (let (res, evs2, st2) = apply_admitted ex alive env st1 in (res, evs @ evs2, st2)))"

definition record_evidence ::
  "externals \<Rightarrow> nat \<Rightarrow> (nat \<Rightarrow> bool) \<Rightarrow> equivocation_proof \<Rightarrow> server_storage \<Rightarrow> bool \<times> storage_event list \<times> server_storage" where
  "record_evidence ex now alive p st =
     (case ss_keys st of
        None \<Rightarrow> (False, [], st)
      | Some keys \<Rightarrow>
          (let (fresh, evs, st1) = note_evidence ex now alive keys p st
           in (fresh, evs @ (if fresh then [Operator_evidence p] else []), st1)))"

definition set_bootstrapping :: "bool \<Rightarrow> server_storage \<Rightarrow> server_storage" where
  "set_bootstrapping on st = (if ss_bootstrapping st \<noteq> on then st\<lparr>ss_bootstrapping := on\<rparr> else st)"

section \<open>Cut and rollback\<close>

abbreviation with_records :: "record_storage \<Rightarrow> server_storage \<Rightarrow> server_storage" where
  "with_records r st \<equiv> st\<lparr>ss_sync := (ss_sync st)\<lparr>cs_log := (ss_log st)\<lparr>cl_records := r\<rparr>\<rparr>\<rparr>"

definition release_dead_data :: "data_id list \<Rightarrow> server_storage \<Rightarrow> storage_event list \<times> server_storage" where
  "release_dead_data pruned st =
     (let (dead, r) = remove_unreferenced_data (cs_records (ss_sync st))
      in (if dead \<noteq> [] \<or> pruned \<noteq> [] then [Release_data (dead @ pruned)] else [], with_records r st))"

definition cut_history ::
  "nat \<Rightarrow> record_tag \<Rightarrow> server_storage \<Rightarrow> (chain_block list \<times> storage_event list \<times> server_storage) result" where
  "cut_history tag_size tag st =
     bind_result (cut_before tag (ss_log st)) (\<lambda>(removed, l).
       case find_tag tag (cl_records l) of
         None \<Rightarrow> Inl (General general_exception_occurred)
       | Some seg \<Rightarrow>
           (let (pruned, r) = prune_superseded_data tag_size (rr_seq seg) (kept_data_versions (sm_limits (ss_modes st))) (cl_records l);
                (evs, st1) = release_dead_data pruned (st\<lparr>ss_sync := (ss_sync st)\<lparr>cs_log := l\<lparr>cl_records := r\<rparr>\<rparr>\<rparr>)
            in Inr (removed, evs, st1)))"

definition storage_truncate_from ::
  "sequence_number \<Rightarrow> server_storage \<Rightarrow> (chain_block list \<times> storage_event list \<times> server_storage) result" where
  "storage_truncate_from first_removed st =
     bind_result (sync_truncate_from first_removed (ss_sync st)) (\<lambda>(removed, cs).
       let (evs, st1) = release_dead_data [] (st\<lparr>ss_sync := cs\<rparr>) in Inr (removed, evs, st1))"

section \<open>What an operation keeps\<close>

definition storage_inv :: "externals \<Rightarrow> server_storage \<Rightarrow> bool" where
  "storage_inv ex st = (log_inv ex (ss_log st) \<and> keys_sorted (ss_heads st))"

lemma save_block_head:
  assumes "log_inv ex (cs_log cs)" "bid_sequence (cs_head cs) \<noteq> - 1" "set_and_save_block ex b t cs = Inr (b', cs')"
  shows "log_inv ex (cs_log cs')" "cs_head cs' = block_id ex b'" "cb_sequence b' = bid_sequence (cs_head cs) + 1"
    "cb_tag b' = cb_tag b"
proof -
  obtain l where l: "b' = set_sequence_and_parent_hash (bid_sequence (cs_head cs) + 1) (bid_hash (cs_head cs)) b"
    "log_append ex (block_envelope_of b' [] 0) (cs_log cs) = Inr l" "cs_log cs' = l"
    using assms(3) by (rule save_block_Inr)
  show "log_inv ex (cs_log cs')" "cs_head cs' = block_id ex b'"
    using log_append_Inr(1,3) [OF assms(1,2) l(2)] l(3) by simp_all
  show "cb_sequence b' = bid_sequence (cs_head cs) + 1" "cb_tag b' = cb_tag b" by (simp_all add: l(1))
qed

lemma commit_saves:
  "commit_block ex b cs = Inr (b', cs') \<Longrightarrow> \<exists>t. set_and_save_block ex b t cs = Inr (b', cs')"
  "commit_foreign ex b cs = Inr (b', cs') \<Longrightarrow> \<exists>t. set_and_save_block ex b t cs = Inr (b', cs')"
  by (auto simp: commit_block_def commit_foreign_def bind_result_Inr split: option.splits)

lemma store_assignment_head: "store_assignment tag e l = Inr l' \<Longrightarrow> cl_head l' = cl_head l"
  by (auto simp: store_assignment_def split: option.splits)

lemma for_each_listener_keeps:
  assumes "for_each_listener alive f st = (evs, st')"
  shows "st' = st\<lparr>ss_listeners := filter alive (ss_listeners st)\<rparr>" "set evs \<subseteq> range f"
  using assms by (auto simp: for_each_listener_def)

text \<open>The signed assignments that leave the server.\<close>

fun event_envelopes :: "storage_event \<Rightarrow> block_envelope list" where
  "event_envelopes (Notify _ _ (Some e)) = [e]"
| "event_envelopes (Push_peers _ e) = [e]"
| "event_envelopes _ = []"

definition outcome_envelopes :: "(chain_block \<times> block_envelope option) result \<Rightarrow> block_envelope list" where
  "outcome_envelopes r = (case r of Inr (_, Some e) \<Rightarrow> [e] | _ \<Rightarrow> [])"

lemma make_envelope_block:
  "make_envelope ex b st = Some e \<Longrightarrow> be_block e = b \<and> be_term e = 0"
  by (auto simp: make_envelope_def envelope_sign_def block_envelope_of_def Let_def)

lemma sign_block: "be_block (envelope_sign ex sid key e) = be_block e" "be_term (envelope_sign ex sid key e) = be_term e"
  by (simp_all add: envelope_sign_def Let_def)

lemma commit_block_step:
  assumes inv: "storage_inv ex st" and room: "bid_sequence (cl_head (ss_log st)) \<noteq> - 1"
    and step: "storage_commit_block ex alive cb st = (res, evs, st')"
  shows "storage_inv ex st' \<and> ((cl_head (ss_log st') = cl_head (ss_log st) \<and> outcome_envelopes res @ concat (map event_envelopes evs) = [])
    \<or> (\<exists>b. cl_head (ss_log st') = block_id ex b \<and> cb_sequence b = bid_sequence (cl_head (ss_log st)) + 1
         \<and> (\<forall>e\<in>set (outcome_envelopes res @ concat (map event_envelopes evs)). be_block e = b)))"
proof (cases "commit_block ex cb (ss_sync st)")
  case (Inl err)
  then show ?thesis using step inv by (auto simp: storage_commit_block_def outcome_envelopes_def)
next
  case (Inr p)
  obtain b cs where p: "p = (b, cs)" by (cases p)
  then obtain t where t: "set_and_save_block ex cb t (ss_sync st) = Inr (b, cs)" using commit_saves(1) Inr by blast
  note h = save_block_head [OF _ room t]
  have linv: "log_inv ex (ss_log st)" using inv by (simp add: storage_inv_def)
  note h = h [OF linv]
  show ?thesis
  proof (cases "make_envelope ex b (st\<lparr>ss_sync := cs\<rparr>)")
    case None
    then show ?thesis using step Inr p h inv
      by (auto simp: storage_commit_block_def for_each_listener_def outcome_envelopes_def storage_inv_def)
  next
    case (Some e)
    note e = make_envelope_block [OF Some]
    show ?thesis
    proof (cases "store_assignment (cb_tag b) e (cs_log cs)")
      case (Inl err)
      then show ?thesis using step Inr p h inv Some
        by (auto simp: storage_commit_block_def outcome_envelopes_def storage_inv_def)
    next
      case l: (Inr l)
      have "log_inv ex l" "cl_head l = block_id ex b"
        using store_assignment_inv [OF h(1) l] store_assignment_head [OF l] h(2) by auto
      then show ?thesis using step Inr p h inv Some l e
        by (auto simp: storage_commit_block_def for_each_listener_def outcome_envelopes_def storage_inv_def Let_def split: if_splits)
    qed
  qed
qed

text \<open>Everything but the log is kept by the evidence and by admission.\<close>

lemma note_evidence_keeps:
  assumes "note_evidence ex now alive keys p st = (fresh, evs, st')"
  shows "ss_sync st' = ss_sync st" "ss_heads st' = ss_heads st" "concat (map event_envelopes evs) = []"
    "ss_modes st' = ss_modes st" "ss_keys st' = ss_keys st" "ss_id st' = ss_id st" "ss_own_id st' = ss_own_id st"
    "set (ss_evidence st) \<subseteq> set (ss_evidence st')"
    "proof_verify ex (ss_id st) keys p = None \<Longrightarrow> evidence_condemned (proof_origin p) (ss_evidence st')"
  using assms by (auto simp: note_evidence_def for_each_listener_def evidence_record_def evidence_condemned_def
      split: option.splits if_splits)

lemma admit_foreign_keeps:
  assumes "admit_foreign ex now alive env st = (err, found, evs, st')"
  shows "ss_sync st' = ss_sync st" "ss_heads st' = ss_heads st" "concat (map event_envelopes evs) = []"
    "ss_modes st' = ss_modes st" "ss_keys st' = ss_keys st" "ss_id st' = ss_id st" "ss_own_id st' = ss_own_id st"
    "set (ss_evidence st) \<subseteq> set (ss_evidence st')" "err = None \<Longrightarrow> st' = st"
proof -
  have "st' = st \<and> evs = [] \<or> err \<noteq> None \<and> (\<exists>keys p fresh. note_evidence ex now alive keys p st = (fresh, evs, st'))"
    using assms by (auto simp: admit_foreign_def Let_def split: if_splits option.splits list.splits prod.splits)
  then show "ss_sync st' = ss_sync st" "ss_heads st' = ss_heads st" "concat (map event_envelopes evs) = []"
    "ss_modes st' = ss_modes st" "ss_keys st' = ss_keys st" "ss_id st' = ss_id st" "ss_own_id st' = ss_own_id st"
    "set (ss_evidence st) \<subseteq> set (ss_evidence st')" "err = None \<Longrightarrow> st' = st"
    using note_evidence_keeps by (elim disjE exE conjE; simp; fail)+
qed

lemma heads_advance_note: "heads_advance cr h t = Inr (x, t') \<Longrightarrow> t' = heads_note cr h t"
  by (simp add: heads_note_def)

lemma notify_envelopes:
  assumes "e \<in> set (concat (map event_envelopes (map (\<lambda>p. Notify p b (make_envelope ex b s)) ps)))"
  shows "be_block e = b"
  using assms make_envelope_block [of ex b s] by (cases "make_envelope ex b s") (auto split: if_splits)

lemma apply_admitted_step:
  assumes inv: "storage_inv ex st" and room: "bid_sequence (cl_head (ss_log st)) \<noteq> - 1"
    and step: "apply_admitted ex alive env st = (res, evs, st')"
  shows "storage_inv ex st' \<and> ((cl_head (ss_log st') = cl_head (ss_log st) \<and> concat (map event_envelopes evs) = [])
    \<or> (\<exists>b. cl_head (ss_log st') = block_id ex b \<and> cb_sequence b = bid_sequence (cl_head (ss_log st)) + 1
         \<and> (\<forall>e\<in>set (concat (map event_envelopes evs)). be_block e = b)))"
proof -
  let ?h = "\<lparr>oh_origin = be_origin env, oh_term = be_term env, oh_block = block_id ex (be_block env)\<rparr>"
  have linv: "log_inv ex (ss_log st)" and srt: "keys_sorted (ss_heads st)" using inv by (simp_all add: storage_inv_def)
  have srt': "keys_sorted t'" if "heads_advance (ex_cr ex) ?h (ss_heads st) = Inr (x, t')" for x t'
    using heads_advance_note [OF that] heads_note_sorted [OF srt] by simp
  show ?thesis
  proof (cases "be_origin env = ss_own_id st \<or> find_tag (cb_tag (be_block env)) (cs_records (ss_sync st)) \<noteq> None
      \<or> is_error (commit_foreign ex (be_block env) (ss_sync st))")
    case True
    then show ?thesis using step inv srt' unfolding apply_admitted_def
      by (auto simp: Let_def storage_inv_def is_error_def split: if_splits sum.splits prod.splits)
  next
    case False
    then obtain b cs where c: "commit_foreign ex (be_block env) (ss_sync st) = Inr (b, cs)"
      by (cases "commit_foreign ex (be_block env) (ss_sync st)") auto
    then obtain t where t: "set_and_save_block ex (be_block env) t (ss_sync st) = Inr (b, cs)" using commit_saves(2) by blast
    note h = save_block_head [OF linv room t]
    show ?thesis
    proof (cases "store_assignment (cb_tag (be_block env)) env (cs_log cs)")
      case (Inl err)
      then show ?thesis using step False c h srt srt' unfolding apply_admitted_def
        by (auto simp: Let_def storage_inv_def split: sum.splits prod.splits)
    next
      case (Inr l)
      have l: "log_inv ex l" "cl_head l = block_id ex b"
        using store_assignment_inv [OF h(1) Inr] store_assignment_head [OF Inr] h(2) by auto
      show ?thesis
      proof (cases "heads_advance (ex_cr ex) ?h (ss_heads st)")
        case (Inl err)
        then show ?thesis using step False c h srt unfolding apply_admitted_def by (auto simp: Let_def storage_inv_def)
      next
        case t: (Inr p)
        obtain x t' where p: "p = (x, t')" by (cases p)
        let ?s = "st\<lparr>ss_heads := t', ss_sync := cs\<lparr>cs_log := l\<rparr>\<rparr>"
        have evs: "evs = map (\<lambda>p. Notify p b (make_envelope ex b ?s)) (filter alive (ss_listeners st))"
          "st' = ?s\<lparr>ss_listeners := filter alive (ss_listeners st)\<rparr>"
          using step False c Inr t p unfolding apply_admitted_def by (auto simp: Let_def for_each_listener_def)
        have "\<forall>e\<in>set (concat (map event_envelopes evs)). be_block e = b" unfolding evs(1) using notify_envelopes by blast
        then show ?thesis using evs(2) l h(3) srt' [OF t [unfolded p]] by (simp add: storage_inv_def) blast
      qed
    qed
  qed
qed

lemma log_inv_data:
  "log_inv ex l \<Longrightarrow> rs_records r = rs_records (cl_records l) \<Longrightarrow> rs_wf (ex_tag_size ex) r \<Longrightarrow> log_inv ex (l\<lparr>cl_records := r\<rparr>)"
  by (simp add: log_inv_def)

lemma release_dead_keeps:
  assumes "storage_inv ex st" "release_dead_data pruned st = (evs, st')"
  shows "storage_inv ex st'" "cl_head (ss_log st') = cl_head (ss_log st)" "concat (map event_envelopes evs) = []"
    "rs_records (cs_records (ss_sync st')) = rs_records (cs_records (ss_sync st))"
proof -
  let ?r = "snd (remove_unreferenced_data (cs_records (ss_sync st)))"
  have linv: "log_inv ex (ss_log st)" using assms(1) by (simp add: storage_inv_def)
  have rows: "rs_records ?r = rs_records (cs_records (ss_sync st))" by (simp add: remove_unreferenced_data_def Let_def)
  have "log_inv ex ((ss_log st)\<lparr>cl_records := ?r\<rparr>)"
    using linv rows remove_unreferenced_wf [OF log_invD(1) [OF linv]] by (rule log_inv_data)
  then show "storage_inv ex st'" "cl_head (ss_log st') = cl_head (ss_log st)" "concat (map event_envelopes evs) = []"
    "rs_records (cs_records (ss_sync st')) = rs_records (cs_records (ss_sync st))"
    using assms rows by (auto simp: release_dead_data_def storage_inv_def split: prod.splits if_splits)
qed

lemma cut_history_step:
  assumes inv: "storage_inv ex st" and cut: "cut_history (ex_tag_size ex) tag st = Inr (removed, evs, st')"
  shows "storage_inv ex st'" "cl_head (ss_log st') = cl_head (ss_log st)" "concat (map event_envelopes evs) = []"
proof -
  let ?kept = "kept_data_versions (sm_limits (ss_modes st))"
  have linv: "log_inv ex (ss_log st)" and srt: "keys_sorted (ss_heads st)" using inv by (simp_all add: storage_inv_def)
  obtain l and seg :: record_row where l: "cut_before tag (ss_log st) = Inr (removed, l)"
    and rel: "release_dead_data (fst (prune_superseded_data (ex_tag_size ex) (rr_seq seg) ?kept (cl_records l)))
       (st\<lparr>ss_sync := (ss_sync st)\<lparr>cs_log := l\<lparr>cl_records := snd (prune_superseded_data (ex_tag_size ex) (rr_seq seg) ?kept (cl_records l))\<rparr>\<rparr>\<rparr>)
       = (evs, st')"
    using cut by (auto simp: cut_history_def bind_result_Inr case_prod_unfold Let_def split: option.splits)
  let ?r = "snd (prune_superseded_data (ex_tag_size ex) (rr_seq seg) ?kept (cl_records l))"
  have linv': "log_inv ex l" "cl_head l = cl_head (ss_log st)"
    using cut_before_inv [OF linv l] cut_before_head [OF linv l] by auto
  have "log_inv ex (l\<lparr>cl_records := ?r\<rparr>)"
    using linv'(1) _ data_prune_wf [OF log_invD(1) [OF linv'(1)]] unfolding prune_superseded_data_def
    by (rule log_inv_data) (simp add: data_prune_def)
  then have "storage_inv ex (st\<lparr>ss_sync := (ss_sync st)\<lparr>cs_log := l\<lparr>cl_records := ?r\<rparr>\<rparr>\<rparr>)" using srt by (simp add: storage_inv_def)
  from release_dead_keeps [OF this rel] show "storage_inv ex st'" "cl_head (ss_log st') = cl_head (ss_log st)"
    "concat (map event_envelopes evs) = []" using linv'(2) by simp_all
qed

section \<open>Properties\<close>

text \<open>
  The life of a storage that is not rolled back: the operations in any order, with all the signed
  assignments that left the server in answers, notifications and pushes.
\<close>

inductive storage_run :: "externals \<Rightarrow> server_storage \<Rightarrow> block_envelope list \<Rightarrow> server_storage \<Rightarrow> bool" for ex st0 where
  run_open: "storage_run ex st0 [] st0"
| run_commit: "storage_run ex st0 es st \<Longrightarrow> bid_sequence (cl_head (ss_log st)) \<noteq> - 1 \<Longrightarrow>
    storage_commit_block ex alive cb st = (res, evs, st') \<Longrightarrow>
    storage_run ex st0 (es @ outcome_envelopes res @ concat (map event_envelopes evs)) st'"
| run_foreign: "storage_run ex st0 es st \<Longrightarrow> bid_sequence (cl_head (ss_log st)) \<noteq> - 1 \<Longrightarrow>
    apply_foreign ex now alive env st = (r, evs, st') \<Longrightarrow>
    storage_run ex st0 (es @ concat (map event_envelopes evs)) st'"
| run_evidence: "storage_run ex st0 es st \<Longrightarrow> record_evidence ex now alive p st = (fresh, evs, st') \<Longrightarrow>
    storage_run ex st0 (es @ concat (map event_envelopes evs)) st'"
| run_cut: "storage_run ex st0 es st \<Longrightarrow> cut_history (ex_tag_size ex) tag st = Inr (removed, evs, st') \<Longrightarrow>
    storage_run ex st0 (es @ concat (map event_envelopes evs)) st'"
| run_notify: "storage_run ex st0 es st \<Longrightarrow> notify_data alive i complete st = (evs, st') \<Longrightarrow>
    storage_run ex st0 (es @ concat (map event_envelopes evs)) st'"
| run_listener: "storage_run ex st0 es st \<Longrightarrow> storage_run ex st0 es (add_listener p st)"
| run_bootstrapping: "storage_run ex st0 es st \<Longrightarrow> storage_run ex st0 es (set_bootstrapping on st)"

lemma apply_foreign_step:
  assumes inv: "storage_inv ex st" and room: "bid_sequence (cl_head (ss_log st)) \<noteq> - 1"
    and step: "apply_foreign ex now alive env st = (res, evs, st')"
  shows "storage_inv ex st' \<and> ((cl_head (ss_log st') = cl_head (ss_log st) \<and> concat (map event_envelopes evs) = [])
    \<or> (\<exists>b. cl_head (ss_log st') = block_id ex b \<and> cb_sequence b = bid_sequence (cl_head (ss_log st)) + 1
         \<and> (\<forall>e\<in>set (concat (map event_envelopes evs)). be_block e = b)))"
proof -
  obtain err found evs1 st1 where a: "admit_foreign ex now alive env st = (err, found, evs1, st1)"
    by (cases "admit_foreign ex now alive env st") auto
  note k = admit_foreign_keeps [OF a]
  show ?thesis
  proof (cases err)
    case None
    then obtain evs2 where "apply_admitted ex alive env st = (res, evs2, st')" "evs = evs1 @ evs2"
      using step a k(9) by (auto simp: apply_foreign_def split: prod.splits)
    then show ?thesis using apply_admitted_step [OF inv room] k(3) by simp
  next
    case (Some e)
    then show ?thesis using step a k(1-3) inv by (auto simp: apply_foreign_def storage_inv_def split: option.splits)
  qed
qed

definition assignments_ok :: "chain_log \<Rightarrow> block_envelope list \<Rightarrow> bool" where
  "assignments_ok l es = ((\<forall>e\<in>set es. cb_sequence (be_block e) \<le> bid_sequence (cl_head l))
     \<and> (\<forall>e\<in>set es. \<forall>f\<in>set es. cb_sequence (be_block e) = cb_sequence (be_block f) \<longrightarrow> be_block e = be_block f))"

lemma assignments_ok_new:
  assumes "assignments_ok l es" "bid_sequence (cl_head l) \<noteq> - 1" "cl_head l' = block_id ex b"
    "cb_sequence b = bid_sequence (cl_head l) + 1" "\<forall>e\<in>set fs. be_block e = b"
  shows "assignments_ok l' (es @ fs)"
proof -
  have less: "x < cb_sequence b" if "x \<le> bid_sequence (cl_head l)" for x
    using that word_less_inc_iff [OF assms(2)] assms(4) by simp
  then have "cb_sequence (be_block e) < cb_sequence b" if "e \<in> set es" for e using assms(1) that by (auto simp: assignments_ok_def)
  then show ?thesis using assms(1,3,5) by (fastforce simp: assignments_ok_def block_id_def)
qed

lemma assignments_ok_step:
  assumes "assignments_ok l es" "bid_sequence (cl_head l) \<noteq> - 1"
    "(cl_head l' = cl_head l \<and> fs = []) \<or> (\<exists>b. cl_head l' = block_id ex b \<and> cb_sequence b = bid_sequence (cl_head l) + 1
       \<and> (\<forall>e\<in>set fs. be_block e = b))"
  shows "assignments_ok l' (es @ fs)"
  using assms(3)
proof (elim disjE exE conjE)
  assume "cl_head l' = cl_head l" "fs = []"
  then show ?thesis using assms(1) by (simp add: assignments_ok_def)
next
  fix b
  assume "cl_head l' = block_id ex b" "cb_sequence b = bid_sequence (cl_head l) + 1" "\<forall>e\<in>set fs. be_block e = b"
  then show ?thesis by (rule assignments_ok_new [OF assms(1,2)])
qed

lemma storage_run_assignments:
  assumes "storage_run ex st0 es st" "storage_inv ex st0"
  shows "storage_inv ex st \<and> assignments_ok (ss_log st) es"
  using assms
proof (induction rule: storage_run.induct)
  case run_open
  then show ?case by (simp add: assignments_ok_def)
next
  case (run_commit es st alive cb res evs st')
  then show ?case using commit_block_step [OF _ run_commit(2,3)] assignments_ok_step [OF _ run_commit(2)] by meson
next
  case (run_foreign es st now alive env r evs st')
  then show ?case using apply_foreign_step [OF _ run_foreign(2,3)] assignments_ok_step [OF _ run_foreign(2)] by meson
next
  case (run_evidence es st now alive p fresh evs st')
  have same: "ss_sync st' = ss_sync st" "ss_heads st' = ss_heads st" and none: "concat (map event_envelopes evs) = []"
    using run_evidence(2) note_evidence_keeps by (auto simp: record_evidence_def split: option.splits prod.splits if_splits)
  show ?case unfolding none using run_evidence(3,4) same by (simp add: storage_inv_def)
next
  case (run_cut es st tag removed evs st')
  have inv: "storage_inv ex st" "assignments_ok (ss_log st) es" using run_cut(3,4) by auto
  note c = cut_history_step [OF inv(1) run_cut(2)]
  show ?case unfolding c(3) using c(1,2) inv(2) by (simp add: assignments_ok_def)
next
  case (run_notify es st alive i complete evs st')
  have none: "concat (map event_envelopes evs) = []" and st': "st' = st\<lparr>ss_listeners := filter alive (ss_listeners st)\<rparr>"
    using run_notify(2) by (auto simp: notify_data_def for_each_listener_def)
  show ?case unfolding none using run_notify(3,4) by (simp add: st' storage_inv_def)
next
  case (run_listener es st p)
  then show ?case by (simp add: add_listener_def storage_inv_def)
next
  case (run_bootstrapping es st on)
  then show ?case by (simp add: set_bootstrapping_def storage_inv_def)
qed


definition sample_modes :: storage_modes where
  "sample_modes = \<lparr>sm_mode = require_all_seen, sm_auth = only_tag, sm_replication = repl_none, sm_limits = no_limits\<rparr>"

definition sample_storage :: server_storage where
  "sample_storage = projr (storage_open [5] default_storage_limits (Some sample_modes) (Some (\<lambda>_. Some [9])) (Some ex_key) None)"

definition sample_outcome :: "(chain_block \<times> block_envelope option) result \<times> storage_event list \<times> server_storage" where
  "sample_outcome = storage_commit_block sample_ex (\<lambda>_. True) sample_block1 sample_storage"

lemma sample_storage_inv: "storage_inv sample_ex sample_storage"
proof -
  have "ss_log sample_storage = chain_log_open empty_record_storage" "ss_heads sample_storage = []"
    by code_simp+
  then show ?thesis by (simp add: storage_inv_def log_inv_empty keys_sorted_Nil)
qed


end
