(* ===== verification/Replication.thy ===== *)
theory Replication
  imports Server_Storage
begin

text \<open>
  What a replica promises about the records other servers assigned: when it takes them, when the
  head it holds of their origin moves, how it detects an origin that assigned a position twice, and
  that it never takes anything of that origin again. And that the modes of a storage are final.
\<close>

section \<open>Modes are final\<close>



section \<open>Condemned origins\<close>

lemma commit_keeps_rest:
  assumes "storage_commit_block ex alive cb st = (res, evs, st')"
  shows "ss_evidence st' = ss_evidence st" "ss_heads st' = ss_heads st" "ss_keys st' = ss_keys st" "ss_id st' = ss_id st"
    "ss_modes st' = ss_modes st" "ss_own_id st' = ss_own_id st" "ss_private_key st' = ss_private_key st"
  using assms by (auto simp: storage_commit_block_def for_each_listener_def Let_def split: sum.splits option.splits prod.splits)

lemma apply_admitted_rest:
  assumes "apply_admitted ex alive env st = (res, evs, st')"
  shows "ss_evidence st' = ss_evidence st \<and> ss_keys st' = ss_keys st \<and> ss_id st' = ss_id st \<and> ss_modes st' = ss_modes st
    \<and> ss_own_id st' = ss_own_id st \<and> ss_private_key st' = ss_private_key st"
  using assms by (auto simp: apply_admitted_def for_each_listener_def Let_def split: sum.splits option.splits prod.splits if_splits)

lemma note_evidence_private [simp]: "note_evidence ex now alive keys p st = (fresh, evs, st') \<Longrightarrow> ss_private_key st' = ss_private_key st"
  by (auto simp: note_evidence_def for_each_listener_def Let_def split: option.splits prod.splits if_splits)

lemma admit_foreign_private:
  "admit_foreign ex now alive env st = (err, found, evs, st') \<Longrightarrow> ss_private_key st' = ss_private_key st"
  by (auto simp: admit_foreign_def Let_def split: if_splits option.splits list.splits prod.splits)

lemma apply_foreign_rest:
  assumes "apply_foreign ex now alive env st = (res, evs, st')"
  shows "set (ss_evidence st) \<subseteq> set (ss_evidence st')" "ss_keys st' = ss_keys st \<and> ss_id st' = ss_id st \<and> ss_modes st' = ss_modes st
    \<and> ss_own_id st' = ss_own_id st \<and> ss_private_key st' = ss_private_key st"
proof -
  obtain err found evs1 st1 where a: "admit_foreign ex now alive env st = (err, found, evs1, st1)"
    by (cases "admit_foreign ex now alive env st") auto
  note k = admit_foreign_keeps [OF a] admit_foreign_private [OF a]
  have "st' = st1 \<or> (\<exists>res evs2. apply_admitted ex alive env st1 = (res, evs2, st'))"
    using assms a by (cases err) (auto simp: apply_foreign_def split: prod.splits)
  then show "set (ss_evidence st) \<subseteq> set (ss_evidence st')" "ss_keys st' = ss_keys st \<and> ss_id st' = ss_id st \<and> ss_modes st' = ss_modes st
    \<and> ss_own_id st' = ss_own_id st \<and> ss_private_key st' = ss_private_key st"
    using k apply_admitted_rest by (elim disjE exE; metis)+
qed

lemma record_evidence_rest:
  assumes "record_evidence ex now alive p st = (fresh, evs, st')"
  shows "set (ss_evidence st) \<subseteq> set (ss_evidence st')" "ss_keys st' = ss_keys st \<and> ss_id st' = ss_id st \<and> ss_modes st' = ss_modes st
    \<and> ss_own_id st' = ss_own_id st \<and> ss_private_key st' = ss_private_key st \<and> ss_sync st' = ss_sync st \<and> ss_heads st' = ss_heads st"
proof -
  have "st' = st \<or> (\<exists>keys fresh evs. note_evidence ex now alive keys p st = (fresh, evs, st'))"
    using assms by (auto simp: record_evidence_def split: option.splits prod.splits if_splits)
  then show "set (ss_evidence st) \<subseteq> set (ss_evidence st')" "ss_keys st' = ss_keys st \<and> ss_id st' = ss_id st \<and> ss_modes st' = ss_modes st
    \<and> ss_own_id st' = ss_own_id st \<and> ss_private_key st' = ss_private_key st \<and> ss_sync st' = ss_sync st \<and> ss_heads st' = ss_heads st"
    using note_evidence_keeps note_evidence_private by (elim disjE exE; metis order_refl)+
qed

lemma cut_history_rest:
  assumes "cut_history ts tag st = Inr (removed, evs, st')"
  shows "ss_evidence st' = ss_evidence st \<and> ss_keys st' = ss_keys st \<and> ss_id st' = ss_id st \<and> ss_modes st' = ss_modes st
    \<and> ss_own_id st' = ss_own_id st \<and> ss_private_key st' = ss_private_key st \<and> ss_heads st' = ss_heads st"
  using assms by (auto simp: cut_history_def release_dead_data_def bind_result_Inr case_prod_unfold Let_def split: option.splits)

lemma storage_run_rest:
  assumes "storage_run ex st0 es st"
  shows "set (ss_evidence st0) \<subseteq> set (ss_evidence st) \<and> ss_keys st = ss_keys st0 \<and> ss_id st = ss_id st0 \<and> ss_modes st = ss_modes st0
    \<and> ss_own_id st = ss_own_id st0 \<and> ss_private_key st = ss_private_key st0"
  using assms
proof (induction rule: storage_run.induct)
  case (run_commit es st alive cb res evs st')
  then show ?case using commit_keeps_rest [OF run_commit(3)] by simp
next
  case (run_foreign es st now alive env r evs st')
  then show ?case using apply_foreign_rest [OF run_foreign(3)] by auto
next
  case (run_evidence es st now alive p fresh evs st')
  then show ?case using record_evidence_rest [OF run_evidence(2)] by auto
next
  case (run_cut es st tag removed evs st')
  then show ?case using cut_history_rest [OF run_cut(2)] by auto
qed (auto simp: notify_data_def for_each_listener_def add_listener_def set_bootstrapping_def)

text \<open>C16. A condemned origin stays condemned: once a replica holds a proof of equivocation, then
  after any further operations every record of that origin is refused with an error and neither the
  log nor any recorded head changes.\<close>

theorem condemned_origin_refused:
  assumes "storage_run ex st0 es st" "evidence_condemned (be_origin env) (ss_evidence st0)"
    and "apply_foreign ex now alive env st = (r, evs, st')"
  shows "storage_condemned (be_origin env) st \<and> (\<exists>err. r = Inr (Some err)) \<and> ss_sync st' = ss_sync st \<and> ss_heads st' = ss_heads st"
proof -
  have c: "evidence_condemned (be_origin env) (ss_evidence st)"
    using storage_run_rest [OF assms(1)] assms(2) by (auto simp: evidence_condemned_def)
  obtain err found evs1 st1 where a: "admit_foreign ex now alive env st = (err, found, evs1, st1)"
    by (cases "admit_foreign ex now alive env st") auto
  have "err \<noteq> None" using a c by (auto simp: admit_foreign_def dest: sym split: if_splits option.splits)
  then show ?thesis using assms(3) a c admit_foreign_keeps(1,2) [OF a] by (auto simp: apply_foreign_def storage_condemned_def)
qed

definition condemned_storage :: server_storage where
  "condemned_storage = sample_storage\<lparr>ss_evidence := [\<lparr>ev_proof = \<lparr>ep_first = ex_envelope [7], ep_second = ex_envelope [8]\<rparr>, ev_found = 0\<rparr>]\<rparr>"

theorem condemned_origin_refused_witness:
  "\<exists>err. fst (apply_foreign sample_ex 0 (\<lambda>_. True) (ex_envelope [7]) condemned_storage) = Inr (Some err)"
proof -
  obtain r evs st' where a: "apply_foreign sample_ex 0 (\<lambda>_. True) (ex_envelope [7]) condemned_storage = (r, evs, st')"
    by (cases "apply_foreign sample_ex 0 (\<lambda>_. True) (ex_envelope [7]) condemned_storage") auto
  have "evidence_condemned (be_origin (ex_envelope [7])) (ss_evidence condemned_storage)"
    by (simp add: condemned_storage_def evidence_condemned_def proof_origin_def)
  from condemned_origin_refused [OF run_open this a] show ?thesis by (simp add: a)
qed

section \<open>Heads follow the records\<close>

lemma find_tag_iff: "find_tag tag st \<noteq> None \<longleftrightarrow> tag \<in> rr_tag ` set (rs_records st)"
  by (auto simp: find_tag_def find_None_all)

lemma store_assignment_tags:
  assumes "store_assignment tag env l = Inr l'"
  shows "rr_tag ` set (rs_records (cl_records l')) = rr_tag ` set (rs_records (cl_records l))"
proof -
  have "map rr_tag (rs_records (cl_records l')) = map rr_tag (rs_records (cl_records l))"
    using assms by (rule store_assignment_rows(1)) simp
  then show ?thesis by (metis list.set_map)
qed

definition foreign_head :: "externals \<Rightarrow> block_envelope \<Rightarrow> origin_head" where
  "foreign_head ex env = \<lparr>oh_origin = be_origin env, oh_term = be_term env, oh_block = block_id ex (be_block env)\<rparr>"

lemma advance_covers:
  assumes "keys_sorted t" "heads_advance cr h t = Inr (x, t')"
  shows "\<exists>w. heads_find (oh_origin h) t' = Some w \<and> \<not> head_before w h"
proof -
  have "valid_head cr h" using assms(2) by (auto simp: heads_advance_def valid_head_def split: if_splits)
  then show ?thesis using heads.fold_upper [OF assms(1), of h "[h]" cr] heads_advance_note [OF assms(2)] by simp
qed

lemma apply_admitted_result:
  assumes inv: "storage_inv ex st" and room: "bid_sequence (cl_head (ss_log st)) \<noteq> - 1"
    and step: "apply_admitted ex alive env st = (r, evs, st')" and other: "be_origin env \<noteq> ss_own_id st"
  shows "r = Inr (Some err) \<Longrightarrow> ss_heads st' = ss_heads st \<and> ss_sync st' = ss_sync st"
    "r = Inr None \<Longrightarrow> (\<exists>w. heads_find (be_origin env) (ss_heads st') = Some w \<and> \<not> head_before w (foreign_head ex env))
       \<and> (cb_tag (be_block env) \<in> rr_tag ` set (rs_records (cs_records (ss_sync st')))
          \<or> (\<exists>err. commit_foreign ex (be_block env) (ss_sync st) = Inl err \<and> foreign_record_skipped err))"
proof -
  let ?b = "be_block env" and ?tags = "\<lambda>l. rr_tag ` set (rs_records (cl_records l))"
  have linv: "log_inv ex (ss_log st)" and srt: "keys_sorted (ss_heads st)" using inv by (simp_all add: storage_inv_def)
  note cover = advance_covers [OF srt, of "ex_cr ex" "foreign_head ex env", unfolded foreign_head_def origin_head.simps]
  have saved: "cb_tag ?b \<in> ?tags (cs_log cs)" if c: "commit_foreign ex ?b (ss_sync st) = Inr (b, cs)" for b cs
  proof -
    obtain t where t: "set_and_save_block ex ?b t (ss_sync st) = Inr (b, cs)" using commit_saves(2) [OF c] by blast
    obtain row where "rs_records (cs_records cs) = rs_records (cs_records (ss_sync st)) @ [row]" "rr_tag row = cb_tag ?b"
      using save_block_rows [OF linv room t] by metis
    then show ?thesis by auto
  qed
  show "ss_heads st' = ss_heads st \<and> ss_sync st' = ss_sync st" if "r = Inr (Some err)"
    using step that other unfolding apply_admitted_def
    by (auto simp: Let_def for_each_listener_def split: if_splits sum.splits prod.splits)
  show "(\<exists>w. heads_find (be_origin env) (ss_heads st') = Some w \<and> \<not> head_before w (foreign_head ex env))
       \<and> (cb_tag ?b \<in> rr_tag ` set (rs_records (cs_records (ss_sync st')))
          \<or> (\<exists>err. commit_foreign ex ?b (ss_sync st) = Inl err \<and> foreign_record_skipped err))" if ok: "r = Inr None"
  proof (cases "find_tag (cb_tag ?b) (cs_records (ss_sync st)) \<noteq> None \<or> is_error (commit_foreign ex ?b (ss_sync st))")
    case True
    then show ?thesis using step ok other cover find_tag_iff [of "cb_tag ?b" "cs_records (ss_sync st)"]
      unfolding apply_admitted_def foreign_head_def
      by (auto simp: Let_def is_error_def split: if_splits sum.splits prod.splits)
  next
    case False
    then obtain b cs where c: "commit_foreign ex ?b (ss_sync st) = Inr (b, cs)"
      by (cases "commit_foreign ex ?b (ss_sync st)") auto
    then obtain x t' l where adv: "heads_advance (ex_cr ex) (foreign_head ex env) (ss_heads st) = Inr (x, t')"
      and l: "store_assignment (cb_tag ?b) env (cs_log cs) = Inr l" and st': "ss_heads st' = t'" "ss_log st' = l"
      using step ok other False unfolding apply_admitted_def foreign_head_def
      by (auto simp: Let_def for_each_listener_def split: sum.splits prod.splits)
    show ?thesis using advance_covers [OF srt adv] saved [OF c] store_assignment_tags [OF l] st' by (simp add: foreign_head_def)
  qed
qed


section \<open>Detecting equivocation\<close>

text \<open>Every stored assignment names its origin and position and is signed by it.\<close>

definition log_signed :: "externals \<Rightarrow> storage_id \<Rightarrow> key_access \<Rightarrow> chain_log \<Rightarrow> bool" where
  "log_signed ex sid keys l = (\<forall>r\<in>set (rs_records (cl_records l)). \<forall>origin. rr_origin r = Some origin \<longrightarrow>
     (\<exists>e. rr_envelope r = Some e \<and> be_origin e = origin \<and> rr_origin_seq r = Some (cb_sequence (be_block e))
        \<and> envelope_verify ex sid keys e = None))"

lemma set_assignment_signed:
  assumes "log_signed ex sid keys l" "o' = [] \<or> (o' = be_origin e \<and> q = cb_sequence (be_block e) \<and> envelope_verify ex sid keys e = None)"
  shows "log_signed ex sid keys (l\<lparr>cl_records := rs_set_assignment k (Some e) o' q (cl_records l)\<rparr>)"
  using assms by (auto simp: log_signed_def rs_set_assignment_rows split: if_splits)

lemma store_signed:
  assumes "log_signed ex sid keys l" "envelope_verify ex sid keys e = None" "store_assignment tag e l = Inr l'"
  shows "log_signed ex sid keys l'"
  using assms(3) set_assignment_signed [OF assms(1)] assms(2) by (auto simp: store_assignment_def split: option.splits)

lemma save_signed:
  assumes "log_signed ex sid keys (cs_log cs)" "log_inv ex (cs_log cs)" "set_and_save_block ex b t cs = Inr (b', cs')"
  shows "log_signed ex sid keys (cs_log cs')"
proof -
  let ?e = "block_envelope_of b' [] 0"
  obtain l where "log_append ex ?e (cs_log cs) = Inr l" and l: "cs_log cs' = l" using assms(3) by (rule save_block_Inr)
  then obtain k st where st: "rs_create ex b' rs_in_sync (cs_records cs) = Inr (k, st)"
    and l': "l = \<lparr>cl_records = (if env_is_signed ex ?e then rs_set_assignment k (Some ?e) [] (cb_sequence b') st else st),
                cl_head = block_id ex b'\<rparr>"
    by (auto simp: log_append_def Let_def bind_result_Inr block_envelope_of_def split: if_splits)
  obtain row where "rs_records st = rs_records (cs_records cs) @ [row]" "rr_origin row = None"
    using rs_create_Inr [OF log_invD(1) [OF assms(2)] st] by metis
  then have s: "log_signed ex sid keys \<lparr>cl_records = st, cl_head = block_id ex b'\<rparr>" using assms(1) by (auto simp: log_signed_def)
  then show ?thesis using set_assignment_signed [OF s, of "[]" ?e "cb_sequence b'" k] by (simp add: l l')
qed

lemma own_envelope_verifies:
  assumes "make_envelope ex b st = Some e" "ss_private_key st = Some key" "key_ok (ex_cr ex) keys key"
  shows "envelope_verify ex (ss_id st) keys e = None"
proof -
  have dg: "assignment_digest ex sid (x\<lparr>be_origin := o', be_signature := s\<rparr>) = assignment_digest ex sid (x\<lparr>be_origin := o'\<rparr>)"
    for sid x o' s by (simp add: assignment_digest_def)
  show ?thesis using assms
    by (auto simp: make_envelope_def envelope_sign_def Let_def envelope_verify_None_iff dg key_ok_def)
qed

lemma store_assignment_total:
  "tag \<in> rr_tag ` set (rs_records (cl_records l)) \<Longrightarrow> \<exists>l'. store_assignment tag e l = Inr l'"
  using find_tag_iff [of tag "cl_records l"] by (auto simp: store_assignment_def)

lemma log_signed_filter:
  "log_signed ex sid keys l \<Longrightarrow> set (rs_records (cl_records l')) \<subseteq> set (rs_records (cl_records l)) \<Longrightarrow> log_signed ex sid keys l'"
  by (auto simp: log_signed_def)

lemma commit_signed:
  assumes inv: "log_inv ex (ss_log st)" and sg: "log_signed ex (ss_id st) keys (ss_log st)"
    and key: "\<And>key. ss_private_key st = Some key \<Longrightarrow> key_ok (ex_cr ex) keys key"
    and step: "storage_commit_block ex alive cb st = (res, evs, st')"
  shows "log_signed ex (ss_id st) keys (ss_log st')"
proof (cases "commit_block ex cb (ss_sync st)")
  case (Inl err)
  then show ?thesis using step sg by (auto simp: storage_commit_block_def)
next
  case (Inr p)
  obtain b cs where p: "p = (b, cs)" by (cases p)
  then obtain t where t: "set_and_save_block ex cb t (ss_sync st) = Inr (b, cs)" using commit_saves(1) Inr by blast
  have s: "log_signed ex (ss_id st) keys (cs_log cs)" using save_signed [OF sg inv t] .
  have "ss_log st' = cs_log cs \<or> (\<exists>e l. make_envelope ex b (st\<lparr>ss_sync := cs\<rparr>) = Some e
      \<and> store_assignment (cb_tag b) e (cs_log cs) = Inr l \<and> ss_log st' = l)"
    using step Inr p by (auto simp: storage_commit_block_def for_each_listener_def Let_def split: option.splits sum.splits)
  then show ?thesis
  proof (elim disjE exE conjE)
    assume "ss_log st' = cs_log cs"
    then show ?thesis using s by simp
  next
    fix e l
    assume e: "make_envelope ex b (st\<lparr>ss_sync := cs\<rparr>) = Some e" and l: "store_assignment (cb_tag b) e (cs_log cs) = Inr l" "ss_log st' = l"
    obtain k where k: "ss_private_key st = Some k" using e by (auto simp: make_envelope_def)
    then have "envelope_verify ex (ss_id st) keys e = None" using own_envelope_verifies [OF e, of k keys] key by simp
    then show ?thesis using store_signed [OF s _ l(1)] l(2) by simp
  qed
qed

lemma foreign_signed:
  assumes inv: "log_inv ex (ss_log st)" and sg: "log_signed ex (ss_id st) keys (ss_log st)" and keys: "ss_keys st = Some keys"
    and step: "apply_foreign ex now alive env st = (res, evs, st')"
  shows "log_signed ex (ss_id st) keys (ss_log st')"
proof -
  obtain err found evs1 st1 where a: "admit_foreign ex now alive env st = (err, found, evs1, st1)"
    by (cases "admit_foreign ex now alive env st") auto
  show ?thesis
  proof (cases err)
    case None
    then have v: "envelope_verify ex (ss_id st) keys env = None" using a keys
      by (auto simp: admit_foreign_def dest: sym split: if_splits option.splits)
    obtain evs2 where ap: "apply_admitted ex alive env st = (res, evs2, st')"
      using step a None admit_foreign_keeps(9) [OF a] by (auto simp: apply_foreign_def split: prod.splits)
    have "ss_log st' = ss_log st \<or> (\<exists>b cs. commit_foreign ex (be_block env) (ss_sync st) = Inr (b, cs)
        \<and> (ss_log st' = cs_log cs \<or> store_assignment (cb_tag (be_block env)) env (cs_log cs) = Inr (ss_log st')))"
      using ap unfolding apply_admitted_def
      by (auto simp: Let_def for_each_listener_def split: if_splits sum.splits prod.splits)
    then show ?thesis
    proof (elim disjE exE conjE)
      fix b cs
      assume "commit_foreign ex (be_block env) (ss_sync st) = Inr (b, cs)"
        and s: "store_assignment (cb_tag (be_block env)) env (cs_log cs) = Inr (ss_log st')"
      then obtain t where "set_and_save_block ex (be_block env) t (ss_sync st) = Inr (b, cs)" using commit_saves(2) by blast
      then show ?thesis using store_signed [OF _ v s] save_signed [OF sg inv] by blast
    qed (use sg commit_saves(2) save_signed [OF sg inv] in \<open>simp, metis\<close>)
  next
    case (Some e)
    then show ?thesis using step a sg admit_foreign_keeps(1) [OF a] by (auto simp: apply_foreign_def)
  qed
qed

lemma cut_history_rows:
  assumes inv: "log_inv ex (ss_log st)" and cut: "cut_history ts tag st = Inr (removed, evs, st')"
  shows "set (rs_records (cs_records (ss_sync st'))) \<subseteq> set (rs_records (cs_records (ss_sync st)))"
proof -
  obtain l where l: "cut_before tag (ss_log st) = Inr (removed, l)"
    and rows: "rs_records (cs_records (ss_sync st')) = rs_records (cl_records l)"
    using cut by (auto simp: cut_history_def release_dead_data_def bind_result_Inr case_prod_unfold Let_def
        remove_unreferenced_data_def prune_superseded_data_def data_prune_def split: option.splits)
  obtain seg G where "seg \<in> set (rs_records (cs_records (ss_sync st)))"
    and "rs_records (cl_records l) = filter (\<lambda>r. rr_tag r \<notin> G) (rs_records (cs_records (ss_sync st)))"
    using inv l by (rule cut_before_Inr)
  then show ?thesis by (simp add: rows)
qed

lemma run_signed:
  assumes "storage_run ex st0 es st" "storage_inv ex st0" "ss_keys st0 = Some keys" "log_signed ex (ss_id st0) keys (ss_log st0)"
    "\<And>key. ss_private_key st0 = Some key \<Longrightarrow> key_ok (ex_cr ex) keys key"
  shows "log_signed ex (ss_id st0) keys (ss_log st)"
  using assms
proof (induction rule: storage_run.induct)
  case (run_commit es st alive cb res evs st')
  have inv: "log_inv ex (ss_log st)" using storage_run_assignments [OF run_commit(1,5)] by (simp add: storage_inv_def)
  then show ?case using commit_signed [OF inv _ _ run_commit(3), of keys] run_commit storage_run_rest [OF run_commit(1)] by simp
next
  case (run_foreign es st now alive env r evs st')
  have inv: "log_inv ex (ss_log st)" using storage_run_assignments [OF run_foreign(1,5)] by (simp add: storage_inv_def)
  then show ?case using foreign_signed [OF inv _ _ run_foreign(3), of keys] run_foreign storage_run_rest [OF run_foreign(1)] by simp
next
  case (run_evidence es st now alive p fresh evs st')
  then show ?case using record_evidence_rest(2) [OF run_evidence(2)] by simp
next
  case (run_cut es st tag removed evs st')
  have inv: "log_inv ex (ss_log st)" using storage_run_assignments [OF run_cut(1,4)] by (simp add: storage_inv_def)
  then show ?case using run_cut log_signed_filter cut_history_rows [OF inv run_cut(2)] by blast
qed (auto simp: notify_data_def for_each_listener_def add_listener_def set_bootstrapping_def)

lemma sort_key_same: "\<forall>x\<in>set xs. f x = c \<Longrightarrow> sort_key f xs = xs"
  by (rule sort_key_id_if_sorted) (induction xs, auto)

text \<open>The stored assignment a foreign one is compared with is the one that the evidence is made of.\<close>

lemma held_envelope:
  assumes inv: "log_inv ex l" and held: "origin_block_hash ex orig q (cl_records l) \<noteq> []"
  obtains r e rest where "r \<in> set (rs_records (cl_records l))" "rr_origin r = Some orig" "rr_origin_seq r = Some q" "rr_envelope r = Some e"
    "origin_block_hash ex orig q (cl_records l) = block_hash ex (be_block e)"
    "log_get_by_origin orig q q 1 mb l = e # rest"
proof -
  let ?rows = "of_origin orig (cl_records l)"
  obtain r e where f: "find (\<lambda>r. rr_origin_seq r = Some q) ?rows = Some r" and e: "rr_envelope r = Some e"
    "origin_block_hash ex orig q (cl_records l) = block_hash ex (be_block e)"
    using held by (auto simp: origin_block_hash_def split: option.splits)
  have r: "r \<in> set (rs_records (cl_records l))" "rr_origin r = Some orig" "rr_origin_seq r = Some q"
    using find_SomeD [OF f] by (auto simp: of_origin_def of_state_def)
  let ?match = "filter (\<lambda>r. \<exists>p. rr_origin_seq r = Some p \<and> q \<le> p \<and> p \<le> q) ?rows"
  have match: "?match = filter (\<lambda>r. rr_origin_seq r = Some q) ?rows"
    by (rule filter_cong) (auto intro: antisym)
  have "filter P xs = y # tl (filter P xs)" if "find P xs = Some y" for P and xs :: "record_row list" and y
    using that by (induction xs) (auto split: if_splits)
  from this [OF f] obtain ms where ms: "?match = r # ms" unfolding match by blast
  have "sort_key origin_seq_of ?match = ?match"
    by (rule sort_key_same [of _ _ q]) (auto simp: origin_seq_of_def intro: antisym)
  then have "find_origin_assignments orig q q 1 (cl_records l) = [e]"
    using ms e(1) by (simp add: find_origin_assignments_def List.map_filter_def)
  then have "log_get_by_origin orig q q 1 mb l = [e]" by (simp add: log_get_by_origin_def append_within_budget_def Let_def)
  then show ?thesis using that r e by blast
qed

text \<open>C13. An origin that assigns a position twice is caught: when a replica that holds the record an
  origin assigned to a position is offered another one the origin signed for the same position, it
  refuses it and holds the origin condemned from then on.\<close>

theorem equivocation_is_caught:
  assumes "storage_run ex st0 es st" "storage_inv ex st0" "ss_keys st0 = Some keys" "log_signed ex (ss_id st0) keys (ss_log st0)"
    and "\<And>key. ss_private_key st0 = Some key \<Longrightarrow> key_ok (ex_cr ex) keys key"
    and "sm_replication (ss_modes st0) = repl_weak" "envelope_verify ex (ss_id st0) keys env = None"
    and "\<not> storage_condemned (be_origin env) st"
    and "origin_block_hash ex (be_origin env) (cb_sequence (be_block env)) (cs_records (ss_sync st)) \<notin> {[], block_hash ex (be_block env)}"
    and "\<And>r e. r \<in> set (rs_records (cs_records (ss_sync st))) \<Longrightarrow> rr_envelope r = Some e \<Longrightarrow> be_term e = be_term env"
    and "apply_foreign ex now alive env st = (res, evs, st')"
  shows "res = Inr (Some (Protocol origin_diverged)) \<and> storage_condemned (be_origin env) st'"
proof -
  let ?q = "cb_sequence (be_block env)"
  have inv: "log_inv ex (ss_log st)" using storage_run_assignments [OF assms(1,2)] by (simp add: storage_inv_def)
  have rest: "ss_keys st = Some keys" "ss_id st = ss_id st0" "sm_replication (ss_modes st) = repl_weak"
    using storage_run_rest [OF assms(1)] assms(3,6) by auto
  have sg: "log_signed ex (ss_id st0) keys (ss_log st)" using run_signed [OF assms(1-5)] .
  obtain r e ms where r: "r \<in> set (rs_records (cs_records (ss_sync st)))" "rr_origin r = Some (be_origin env)"
    "rr_origin_seq r = Some ?q" "rr_envelope r = Some e"
    and h: "origin_block_hash ex (be_origin env) ?q (cs_records (ss_sync st)) = block_hash ex (be_block e)"
    and ours: "log_get_by_origin (be_origin env) ?q ?q 1 (2 ^ 64 - 1) (ss_log st) = e # ms"
    using held_envelope [OF inv, of "be_origin env" ?q "2 ^ 64 - 1"] assms(9) by (auto simp del: One_nat_def)
  have e: "be_origin e = be_origin env" "cb_sequence (be_block e) = ?q" "envelope_verify ex (ss_id st0) keys e = None"
    using sg r by (auto simp: log_signed_def)
  let ?p = "\<lparr>ep_first = e, ep_second = env\<rparr>"
  have "proof_verify ex (ss_id st) keys ?p = None"
    using e assms(7,9) assms(10) [OF r(1,4)] h rest(2) by (simp add: proof_verify_None_iff)
  moreover obtain fresh evs1 st1 where n: "note_evidence ex now alive keys ?p st = (fresh, evs1, st1)"
    by (cases "note_evidence ex now alive keys ?p st") auto
  ultimately have c: "evidence_condemned (be_origin env) (ss_evidence st1)"
    using note_evidence_keeps(9) [OF n] e(1) by (simp add: proof_origin_def)
  have "admit_foreign ex now alive env st = (Some (Protocol origin_diverged), if fresh then Some ?p else None, evs1, st1)"
    using rest assms(7-9) h ours n by (simp add: admit_foreign_def storage_condemned_def Let_def)
  then show ?thesis using assms(11) c by (simp add: apply_foreign_def storage_condemned_def)
qed

section \<open>A replica in two steps\<close>

definition peer_key :: private_key where
  "peer_key = \<lparr>key_id = [3], key_sign = (\<lambda>d. \<lparr>sig_issuer = [3], sig_data = d\<rparr>)\<rparr>"

definition peer_envelope :: "u8 \<Rightarrow> block_envelope" where
  "peer_envelope x =
     (let b = sample_block 0 0 x 0 x [];
          signed = b\<lparr>cb_auth := auth_sign (ex_cr sample_ex) ex_key (cb_record b) (cb_auth b)\<rparr>
      in envelope_sign sample_ex [5] peer_key (block_envelope_of signed [3] 0))"

definition weak_modes :: storage_modes where
  "weak_modes = \<lparr>sm_mode = allow_all, sm_auth = sign_records, sm_replication = repl_weak, sm_limits = no_limits\<rparr>"

definition weak_storage :: server_storage where
  "weak_storage = projr (storage_open [5] default_storage_limits (Some weak_modes) (Some (\<lambda>_. Some [9])) (Some ex_key) None)"

definition first_applied :: "error option result \<times> storage_event list \<times> server_storage" where
  "first_applied = apply_foreign sample_ex 0 (\<lambda>_. True) (peer_envelope 1) weak_storage"

definition held_storage :: server_storage where
  "held_storage = snd (snd first_applied)"

lemma weak_storage_facts:
  "ss_log weak_storage = chain_log_open empty_record_storage" "ss_heads weak_storage = []" "ss_id weak_storage = [5]"
  "sm_replication (ss_modes weak_storage) = repl_weak" "ss_own_id weak_storage = [2]"
  "bid_sequence (cl_head (ss_log weak_storage)) \<noteq> - 1"
  by code_simp+

lemma weak_storage_keys: "ss_keys weak_storage = Some (\<lambda>_. Some [9])" "ss_private_key weak_storage = Some ex_key"
proof -
  let ?o = "storage_open [5] default_storage_limits (Some weak_modes) (Some (\<lambda>_. Some [9])) (Some ex_key) None"
  have "\<not> is_error ?o" by code_simp
  then obtain st where st: "?o = Inr st" by (cases ?o) auto
  then have "ss_keys st = Some (\<lambda>_. Some [9])" "ss_private_key st = Some ex_key"
    by (auto simp: storage_open_def bind_result_Inr Let_def split: if_splits)
  then show "ss_keys weak_storage = Some (\<lambda>_. Some [9])" "ss_private_key weak_storage = Some ex_key"
    by (simp_all add: weak_storage_def st)
qed

lemma weak_storage_inv: "storage_inv sample_ex weak_storage"
  using weak_storage_facts by (simp add: storage_inv_def log_inv_empty keys_sorted_Nil)

lemma first_applied_result: "fst first_applied = Inr None" "be_origin (peer_envelope 1) = [3]"
  by code_simp+

lemma first_applied_eq:
  "apply_foreign sample_ex 0 (\<lambda>_. True) (peer_envelope 1) weak_storage = (Inr None, fst (snd first_applied), held_storage)"
  using first_applied_result(1) by (simp add: held_storage_def flip: first_applied_def) (metis prod.collapse)


theorem equivocation_is_caught_witness:
  "\<exists>res evs st'. apply_foreign sample_ex 0 (\<lambda>_. True) (peer_envelope 2) held_storage = (res, evs, st') \<and> storage_condemned [3] st'"
proof -
  obtain res evs st' where a: "apply_foreign sample_ex 0 (\<lambda>_. True) (peer_envelope 2) held_storage = (res, evs, st')"
    by (cases "apply_foreign sample_ex 0 (\<lambda>_. True) (peer_envelope 2) held_storage") auto
  have "list_all (\<lambda>r. case rr_envelope r of Some e \<Rightarrow> be_term e = be_term (peer_envelope 2) | None \<Rightarrow> True)
      (rs_records (cs_records (ss_sync held_storage)))" by code_simp
  then have terms: "be_term e = be_term (peer_envelope 2)"
    if "r \<in> set (rs_records (cs_records (ss_sync held_storage)))" "rr_envelope r = Some e" for r e
    using that by (auto simp: list_all_iff split: option.splits)
  have "storage_condemned (be_origin (peer_envelope 2)) st'"
  proof (rule conjunct2 [OF equivocation_is_caught [OF run_foreign [OF run_open weak_storage_facts(6) first_applied_eq]
        weak_storage_inv weak_storage_keys(1) _ _ weak_storage_facts(4) _ _ _ terms a]])
    show "log_signed sample_ex (ss_id weak_storage) (\<lambda>_. Some [9]) (ss_log weak_storage)"
      by (simp add: weak_storage_facts log_signed_def) (simp add: chain_log_open_def empty_record_storage_def)
    show "key_ok (ex_cr sample_ex) (\<lambda>_. Some [9]) key" if "ss_private_key weak_storage = Some key" for key
      using that weak_storage_keys(2) by (auto simp: key_ok_def ex_key_def sample_ex_def ex_plain_def ex_honest_def)
    show "envelope_verify sample_ex (ss_id weak_storage) (\<lambda>_. Some [9]) (peer_envelope 2) = None"
      "\<not> storage_condemned (be_origin (peer_envelope 2)) held_storage"
      "origin_block_hash sample_ex (be_origin (peer_envelope 2)) (cb_sequence (be_block (peer_envelope 2))) (cs_records (ss_sync held_storage))
        \<notin> {[], block_hash sample_ex (be_block (peer_envelope 2))}"
      by code_simp+
  qed
  moreover have "be_origin (peer_envelope 2) = [3]" by code_simp
  ultimately show ?thesis using a by auto
qed

end
