(* ===== verification/Rebase_Policy.thy ===== *)
theory Rebase_Policy
  imports Chain_Sync
begin

text \<open>
  The client's view of the server's rules (engine/rebase_policy.cpp and its use in
  engine/sync_engine.cpp): whether a pending record has to be rebuilt on top of the current head
  before it is committed.
\<close>

section \<open>The policy\<close>

record rebase_state =
  rb_mode :: sync_mode
  rb_type :: record_type_tag
  rb_has_adds :: bool
  rb_last_seen :: chain_block_id
  rb_head :: chain_block_id
  rb_special_ref :: record_tag
  rb_newest_special :: record_tag
  rb_last_data_add :: sequence_number

definition special_behind :: "sync_mode \<Rightarrow> record_tag \<Rightarrow> record_tag \<Rightarrow> bool" where
  "special_behind mode newest_special special_ref =
     (sync_mode_value require_special_seen \<le> sync_mode_value mode \<and> newest_special \<noteq> [] \<and> special_ref \<noteq> newest_special)"

definition needs_rebase :: "rebase_state \<Rightarrow> bool" where
  "needs_rebase s =
     (if rb_mode s = require_all_seen then rb_last_seen s \<noteq> rb_head s
      else if rb_type s = segment_tag
      then sync_mode_value require_special_seen \<le> sync_mode_value (rb_mode s) \<and> rb_last_seen s \<noteq> rb_head s
      else let behind = special_behind (rb_mode s) (rb_newest_special s) (rb_special_ref s)
           in if rb_type s = user_change_tag then behind
              else if behind then True
              else if rb_mode s = require_data_add_remove_seen \<and> rb_has_adds s
              then seq_is_valid (rb_last_data_add s) \<and> bid_sequence (rb_last_seen s) < rb_last_data_add s
              else False)"

definition last_special_tag :: "record_storage \<Rightarrow> record_tag" where
  "last_special_tag records =
     (let q = last_special_sequence records
      in if seq_is_valid q then case find_seq q rs_in_sync records of Some h \<Rightarrow> rr_tag h | None \<Rightarrow> [] else [])"

definition has_adds :: "change_record \<Rightarrow> bool" where
  "has_adds rec = (case rec of Data_change _ changes _ \<Rightarrow> list_ex (\<lambda>c. pc_previous_tag (sc_data c) = []) changes | _ \<Rightarrow> False)"

definition pending_needs_rebase :: "sync_mode \<Rightarrow> record_storage \<Rightarrow> change_record \<Rightarrow> bool" where
  "pending_needs_rebase mode records rec =
     needs_rebase \<lparr>rb_mode = mode, rb_type = record_type rec, rb_has_adds = has_adds rec,
       rb_last_seen = rb_last_seen_block (record_base_part rec), rb_head = last_block False records,
       rb_special_ref = rb_last_seen_special_tag (record_base_part rec), rb_newest_special = last_special_tag records,
       rb_last_data_add = last_data_add_sequence records\<rparr>"

section \<open>The server's rules and the policy\<close>

lemma sorted_seq_inj:
  assumes "sorted_wrt (<) (map rr_seq rows)" "r \<in> set rows" "r' \<in> set rows" "rr_seq r = rr_seq r'"
  shows "r = r'"
proof -
  have "distinct (map rr_seq rows)" using assms(1) by (simp add: strict_sorted_iff)
  then show ?thesis using assms(2-) by (auto simp: distinct_map inj_on_def)
qed

lemma newest_special_row:
  assumes inv: "sync_inv ex cs"
  shows "last_special_sequence (cs_records cs) = 0 \<longleftrightarrow> last_special_tag (cs_records cs) = []"
    and "last_special_sequence (cs_records cs) \<noteq> 0 \<Longrightarrow> \<exists>h\<in>set (rs_records (cs_records cs)).
      rr_tag h = last_special_tag (cs_records cs) \<and> is_special_type (rr_type h) \<and> rr_seq h = last_special_sequence (cs_records cs)"
proof -
  let ?st = "cs_records cs"
  have tagged: "rr_tag r \<noteq> []" if "r \<in> set (rs_records ?st)" for r using sync_invD(2) [OF inv] that by (auto simp: tagged_def)
  have "\<exists>h\<in>set (rs_records ?st). rr_tag h = last_special_tag ?st \<and> is_special_type (rr_type h) \<and> rr_seq h = last_special_sequence ?st"
    if q: "last_special_sequence ?st \<noteq> 0"
  proof -
    obtain h where h: "h \<in> set (rs_records ?st)" "is_special_type (rr_type h)" "rr_state h = rs_in_sync"
      "rr_seq h = last_special_sequence ?st"
      using max_of_in [of rr_seq "filter (\<lambda>r. is_special_type (rr_type r)) (of_state rs_in_sync ?st)"] q
      by (auto simp: last_special_sequence_def of_state_def)
    then obtain r where r: "find_seq (last_special_sequence ?st) rs_in_sync ?st = Some r"
      by (cases "find_seq (last_special_sequence ?st) rs_in_sync ?st") (auto simp: find_seq_def find_None_all)
    then have "r = h"
      using h sorted_seq_inj [OF log_invD(3) [OF sync_invD(1) [OF inv]]] by (auto simp: find_seq_def dest!: find_SomeD)
    then have "last_special_tag ?st = rr_tag h" using r q by (simp add: last_special_tag_def seq_is_valid_def)
    then show ?thesis using h by auto
  qed
  moreover have "last_special_tag ?st = []" if "last_special_sequence ?st = 0"
    using that by (simp add: last_special_tag_def seq_is_valid_def)
  ultimately show "last_special_sequence ?st = 0 \<longleftrightarrow> last_special_tag ?st = []"
    "last_special_sequence ?st \<noteq> 0 \<Longrightarrow> \<exists>h\<in>set (rs_records ?st).
      rr_tag h = last_special_tag ?st \<and> is_special_type (rr_type h) \<and> rr_seq h = last_special_sequence ?st"
    using tagged by fastforce+
qed

lemma special_seen_iff:
  assumes inv: "sync_inv ex cs"
  shows "check_rules_special_seen cs tag = None \<longleftrightarrow> \<not> special_behind (cc_mode (cs_config cs)) (last_special_tag (cs_records cs)) tag"
proof (cases "cc_mode (cs_config cs) = allow_all \<or> last_special_sequence (cs_records cs) = 0")
  case True
  then show ?thesis
    using sync_invD(4) [OF inv] newest_special_row(1) [OF inv]
    by (auto simp: check_rules_special_seen_def special_behind_def seq_is_valid_def)
next
  case False
  then obtain h where h: "h \<in> set (rs_records (cs_records cs))" "rr_tag h = last_special_tag (cs_records cs)"
    "is_special_type (rr_type h)" "rr_seq h = last_special_sequence (cs_records cs)"
    using newest_special_row(2) [OF inv] by blast
  have mode: "sync_mode_value require_special_seen \<le> sync_mode_value (cc_mode (cs_config cs))"
    using False by (cases "cc_mode (cs_config cs)") (simp_all add: word_le_nat_alt)
  have seen: "check_rules_special_seen cs (rr_tag h) = None"
  proof -
    have "find_by_tag (rr_tag h) (cs_log cs) = Some h"
      unfolding find_by_tag_def find_tag_def
      using log_invD(6) [OF sync_invD(1) [OF inv]] h(1) by (intro find_distinct) (auto simp: rows_wf_def rows_unique_def)
    then show ?thesis using h(3,4) sync_invD(4) [OF inv]
      by (auto simp: check_rules_special_seen_def is_special_type_def)
  qed
  have "tag = rr_tag h" if t: "check_rules_special_seen cs tag = None"
  proof -
    obtain h' where "h' \<in> set (rs_records (cs_records cs))" "rr_tag h' = tag" "rr_seq h' = last_special_sequence (cs_records cs)"
      using special_seen_None [OF t _ _ inv] False sync_invD(4) [OF inv] by auto
    then show ?thesis using sorted_seq_inj [OF log_invD(3) [OF sync_invD(1) [OF inv]]] h by metis
  qed
  then show ?thesis using seen h(2) mode newest_special_row(1) [OF inv] False by (auto simp: special_behind_def)
qed

text \<open>What the server asks of a record in every mode.\<close>

fun content_ok :: "externals \<Rightarrow> chain_sync \<Rightarrow> change_record \<Rightarrow> bool" where
  "content_ok ex cs (Data_change base changes _) =
     (\<forall>c\<in>set changes. object_id_is_valid (pc_id (sc_data c)) \<and> \<not> bad_descriptor ex c
        \<and> pc_previous_tag (sc_data c) = (case find_last_object (pc_id (sc_data c)) (cs_records cs) of None \<Rightarrow> [] | Some r \<Rightarrow> rr_tag r))"
| "content_ok ex cs (User_change base data _) =
     (cc_replication (cs_config cs) = repl_none \<or> us_mode (uc_access data) = delta_mode \<or> bid_sequence (cs_head cs) = 0)"
| "content_ok ex cs (Segment_change base data _) = (check_rules_segment_coverage ex cs base data = Inr None)"

lemma check_rules_data_ok:
  "(\<forall>c\<in>set changes. change_ok ex cs base c) \<Longrightarrow> ru_err (check_rules_data ex cs base t changes) = None"
  by (induction changes arbitrary: t) (auto simp: no_rule_result_def change_ok_def Let_def split: option.splits)

lemma check_rules_data_iff:
  "ru_err (check_rules_data ex cs base t changes) = None \<longleftrightarrow> (\<forall>c\<in>set changes. change_ok ex cs base c)"
  using check_rules_data_ok check_rules_data_None(1) by blast

lemma sync_head_last_block: "sync_inv ex cs \<Longrightarrow> last_block False (cs_records cs) = cs_head cs"
  using log_reopen [OF sync_invD(1), of ex cs] by (simp add: chain_log_open_def) (metis chain_log.select_convs(2))

text \<open>A client in step with the server: the same head, newest special record and newest addition.\<close>

definition in_step :: "record_storage \<Rightarrow> chain_sync \<Rightarrow> bool" where
  "in_step client cs = (last_block False client = cs_head cs
     \<and> last_special_tag client = last_special_tag (cs_records cs)
     \<and> last_data_add_sequence client = last_data_add_sequence (cs_records cs))"

lemma in_step_self: "sync_inv ex cs \<Longrightarrow> in_step (cs_records cs) cs"
  by (simp add: in_step_def sync_head_last_block)

lemma rules_add_iff:
  assumes "sync_inv ex cs"
  shows "check_rules_existing cs base = None \<longleftrightarrow>
      (if cc_mode (cs_config cs) = require_all_seen then rb_last_seen_block base = cs_head cs
       else \<not> special_behind (cc_mode (cs_config cs)) (last_special_tag (cs_records cs)) (rb_last_seen_special_tag base))"
    and "check_rules_add cs base = None \<longleftrightarrow> check_rules_existing cs base = None
      \<and> \<not> (cc_mode (cs_config cs) = require_data_add_remove_seen \<and> seq_is_valid (last_data_add_sequence (cs_records cs))
           \<and> bid_sequence (rb_last_seen_block base) < last_data_add_sequence (cs_records cs))"
  using special_seen_iff [OF assms, of "rb_last_seen_special_tag base"] sync_invD(3) [OF assms]
  by (cases "check_rules_special_seen cs (rb_last_seen_special_tag base)";
      auto simp: check_rules_existing_def check_rules_add_def)+

lemma change_ok_content:
  "change_ok ex cs base c \<longleftrightarrow> object_id_is_valid (pc_id (sc_data c)) \<and> \<not> bad_descriptor ex c
     \<and> pc_previous_tag (sc_data c) = (case find_last_object (pc_id (sc_data c)) (cs_records cs) of None \<Rightarrow> [] | Some r \<Rightarrow> rr_tag r)
     \<and> (if find_last_object (pc_id (sc_data c)) (cs_records cs) = None then check_rules_add cs base = None
        else check_rules_existing cs base = None)"
  by (auto simp: change_ok_def split: option.splits)

lemma data_rules_iff:
  assumes inv: "sync_inv ex cs" and "in_step client cs" "changes \<noteq> []"
  shows "ru_err (check_rules_data ex cs base rt_none changes) = None \<longleftrightarrow>
    \<not> pending_needs_rebase (cc_mode (cs_config cs)) client (Data_change base changes tr) \<and> content_ok ex cs (Data_change base changes tr)"
    (is "?L \<longleftrightarrow> \<not> ?N \<and> ?C")
proof -
  have first: "find_last_object (pc_id (sc_data c)) (cs_records cs) = None \<longleftrightarrow> pc_previous_tag (sc_data c) = []"
    if "?C" "c \<in> set changes" for c
    using that sync_invD(2) [OF inv] find_last_object_row
    by (fastforce simp: tagged_def split: option.splits)
  have "?L \<longleftrightarrow> ?C \<and> (if has_adds (Data_change base changes tr) then check_rules_add cs base = None else check_rules_existing cs base = None)"
  proof (cases ?C)
    case True
    then have "?L \<longleftrightarrow> (\<forall>c\<in>set changes. if pc_previous_tag (sc_data c) = [] then check_rules_add cs base = None
        else check_rules_existing cs base = None)"
      unfolding check_rules_data_iff change_ok_content using first by simp
    then show ?thesis using True rules_add_iff(2) [OF inv] assms(3)
      by (auto simp: has_adds_def list_ex_iff neq_Nil_conv split: if_splits)
  next
    case False
    then show ?thesis unfolding check_rules_data_iff change_ok_content by auto
  qed
  moreover have "\<not> ?N \<longleftrightarrow> (if has_adds (Data_change base changes tr) then check_rules_add cs base = None else check_rules_existing cs base = None)"
    using assms(2) unfolding rules_add_iff [OF inv]
    by (auto simp: pending_needs_rebase_def needs_rebase_def Let_def in_step_def)
  ultimately show ?thesis by blast
qed


definition sample_rebase_record :: "change_record" where
  "sample_rebase_record = the (deserialise_record sample_ex sample_block2)"


end
