(* ===== verification/Key_Storage.thy ===== *)
theory Key_Storage
  imports Util
begin

text \<open>
  The encryption keys of a storage (core/encryption_key_storage.cpp). Concurrent key rotations can
  give one sequence number to several keys; all of them are kept, and the order of their serialised
  octets decides which one is picked.

  The table is the list of its rows in the order they were inserted. The DER codec of a key is the
  parameter \<open>key_codec\<close>; reading a blob may throw.
\<close>

section \<open>The table\<close>

record encryption_key =
  ek_seq :: sequence_number
  ek_key :: octets
  ek_trailing :: octets

record key_row =
  kr_seq :: sequence_number
  kr_key :: octets
  kr_carrier_tag :: record_tag

type_synonym key_storage = "key_row list"

record key_codec =
  kc_ser :: "encryption_key \<Rightarrow> octets"
  kc_deser :: "octets \<Rightarrow> encryption_key option"

definition key_of_row :: "key_codec \<Rightarrow> key_row \<Rightarrow> encryption_key result" where
  "key_of_row kc r = (case kc_deser kc (kr_key r) of None \<Rightarrow> Inl (General general_exception_occurred) | Some k \<Rightarrow> Inr k)"

fun keys_of_rows :: "key_codec \<Rightarrow> key_row list \<Rightarrow> encryption_key list result" where
  "keys_of_rows kc [] = Inr []"
| "keys_of_rows kc (r # rs) = bind_result (key_of_row kc r) (\<lambda>k. bind_result (keys_of_rows kc rs) (\<lambda>ks. Inr (k # ks)))"

text \<open>The rows of a sequence number, \<open>ORDER BY key ASC\<close>.\<close>

definition rows_of_seq :: "sequence_number \<Rightarrow> key_storage \<Rightarrow> key_row list" where
  "rows_of_seq q t = sort_key kr_key (filter (\<lambda>r. kr_seq r = q) t)"

definition last_seq :: "key_storage \<Rightarrow> sequence_number" where
  "last_seq t = max_of kr_seq t"

definition current_key :: "key_codec \<Rightarrow> key_storage \<Rightarrow> encryption_key result" where
  "current_key kc t = (case rows_of_seq (max_of kr_seq t) t of [] \<Rightarrow> Inl (Sync no_encryption_key_set) | r # _ \<Rightarrow> key_of_row kc r)"

definition find_key :: "key_codec \<Rightarrow> sequence_number \<Rightarrow> key_storage \<Rightarrow> encryption_key option result" where
  "find_key kc q t = (case rows_of_seq q t of [] \<Rightarrow> Inr None | r # _ \<Rightarrow> bind_result (key_of_row kc r) (\<lambda>k. Inr (Some k)))"

definition find_all_keys :: "key_codec \<Rightarrow> sequence_number \<Rightarrow> key_storage \<Rightarrow> encryption_key list result" where
  "find_all_keys kc q t = keys_of_rows kc (rows_of_seq q t)"

definition insert_key :: "key_codec \<Rightarrow> encryption_key \<Rightarrow> record_tag \<Rightarrow> key_storage \<Rightarrow> key_storage" where
  "insert_key kc key carrier_tag t =
     (let blob = kc_ser kc key
      in if \<exists>r\<in>set t. kr_seq r = ek_seq key \<and> kr_key r = blob then t
         else t @ [\<lparr>kr_seq = ek_seq key, kr_key = blob, kr_carrier_tag = carrier_tag\<rparr>])"

text \<open>The argument is the 32 random octets of the new key.\<close>

definition create_key :: "key_codec \<Rightarrow> octets \<Rightarrow> key_storage \<Rightarrow> encryption_key \<times> key_storage" where
  "create_key kc random t =
     (let res = \<lparr>ek_seq = last_seq t + 1, ek_key = random, ek_trailing = []\<rparr> in (res, insert_key kc res [] t))"

definition export_keys :: "key_codec \<Rightarrow> key_storage \<Rightarrow> encryption_key list result" where
  "export_keys kc t = keys_of_rows kc t"

definition encryption_key_eq :: "encryption_key \<Rightarrow> encryption_key \<Rightarrow> bool" where
  "encryption_key_eq l r = (ek_seq l = ek_seq r \<and> ek_key l = ek_key r)"

section \<open>What the picks depend on\<close>

definition key_codec_ok :: "key_codec \<Rightarrow> bool" where
  "key_codec_ok kc = (\<forall>k. kc_deser kc (kc_ser kc k) = Some k)"

abbreviation row_id :: "key_row \<Rightarrow> sequence_number \<times> octets" where
  "row_id r \<equiv> (kr_seq r, kr_key r)"

definition insert_keys :: "key_codec \<Rightarrow> (encryption_key \<times> record_tag) list \<Rightarrow> key_storage \<Rightarrow> key_storage" where
  "insert_keys kc ks t = fold (\<lambda>(k, tag). insert_key kc k tag) ks t"

lemma codec_inj: "key_codec_ok kc \<Longrightarrow> kc_ser kc k = kc_ser kc k' \<longleftrightarrow> k = k'"
  unfolding key_codec_ok_def by (metis option.inject)

lemma insert_key_ids: "row_id ` set (insert_key kc k tag t) = insert (ek_seq k, kc_ser kc k) (row_id ` set t)"
  by (force simp: insert_key_def Let_def)

lemma insert_key_distinct: "distinct (map row_id t) \<Longrightarrow> distinct (map row_id (insert_key kc k tag t))"
  by (auto simp: insert_key_def Let_def)

lemma insert_keys_ids:
  "row_id ` set (insert_keys kc ks t) = (\<lambda>k. (ek_seq k, kc_ser kc k)) ` fst ` set ks \<union> row_id ` set t"
  "distinct (map row_id t) \<Longrightarrow> distinct (map row_id (insert_keys kc ks t))"
  unfolding insert_keys_def
  by (induction ks arbitrary: t) (auto simp: insert_key_ids insert_key_distinct split_def)

text \<open>The blobs of one sequence number in their order depend only on the set of the rows.\<close>

definition blobs_of_seq :: "sequence_number \<Rightarrow> (sequence_number \<times> octets) set \<Rightarrow> octets list" where
  "blobs_of_seq q ids = sorted_list_of_set {b. (q, b) \<in> ids}"

lemma rows_of_seq_blobs:
  assumes "distinct (map row_id t)"
  shows "map kr_key (rows_of_seq q t) = blobs_of_seq q (row_id ` set t)"
proof -
  have "distinct (map kr_key (filter (\<lambda>r. kr_seq r = q) t))"
    using assms by (induction t) (auto simp: image_iff)
  then have "distinct (map kr_key (rows_of_seq q t))" unfolding rows_of_seq_def by (simp add: distinct_map)
  moreover have "set (map kr_key (rows_of_seq q t)) = {b. (q, b) \<in> row_id ` set t}"
    by (auto simp: rows_of_seq_def)
  moreover have "sorted (map kr_key (rows_of_seq q t))" by (simp add: rows_of_seq_def)
  moreover have "{b. (q, b) \<in> row_id ` set t} = snd ` {i \<in> row_id ` set t. fst i = q}" by force
  ultimately show ?thesis
    unfolding blobs_of_seq_def by (intro sorted_distinct_set_unique) simp_all
qed

lemma keys_of_rows_blobs: "map kr_key rs = map kr_key rs' \<Longrightarrow> keys_of_rows kc rs = keys_of_rows kc rs'"
proof (induction rs arbitrary: rs')
  case (Cons r rs)
  from Cons.prems obtain r' rs'' where rs': "rs' = r' # rs''" "kr_key r' = kr_key r" "map kr_key rs = map kr_key rs''"
    by (cases rs') auto
  show ?case unfolding rs'(1) using Cons.IH [OF rs'(3)] rs'(2) by (simp add: key_of_row_def)
qed simp

lemma first_key_blobs:
  assumes "map kr_key rs = map kr_key rs'"
  shows "(case rs of [] \<Rightarrow> e | r # _ \<Rightarrow> f (key_of_row kc r)) = (case rs' of [] \<Rightarrow> e | r # _ \<Rightarrow> f (key_of_row kc r))"
  using assms by (cases rs; cases rs') (auto simp: key_of_row_def)

lemma max_of_seqs: "row_id ` set t = row_id ` set t' \<Longrightarrow> max_of kr_seq t = max_of kr_seq t'"
proof -
  assume eq: "row_id ` set t = row_id ` set t'"
  have "kr_seq ` set t = fst ` row_id ` set t" "kr_seq ` set t' = fst ` row_id ` set t'"
    by (simp_all add: image_image)
  then have "kr_seq ` set t = kr_seq ` set t'" using eq by simp
  then have "(\<forall>x\<in>kr_seq ` set t. x \<le> m) \<longleftrightarrow> (\<forall>x\<in>kr_seq ` set t'. x \<le> m)" for m by simp
  then have "max_of kr_seq t \<le> m \<longleftrightarrow> max_of kr_seq t' \<le> m" for m by (simp add: max_of_le)
  then show ?thesis by (meson order_antisym order_refl)
qed

lemma keys_of_rows_ok:
  assumes "\<And>r. r \<in> set rs \<Longrightarrow> kc_deser kc (kr_key r) \<noteq> None"
  shows "\<exists>ks. keys_of_rows kc rs = Inr ks \<and> set ks = {k. \<exists>r\<in>set rs. kc_deser kc (kr_key r) = Some k}"
  using assms by (induction rs) (auto simp: key_of_row_def split: option.splits)

text \<open>Every key that was inserted is among the candidates of its sequence number, and nothing else is.\<close>

lemma candidates_complete:
  assumes "key_codec_ok kc"
  shows "\<exists>cs. find_all_keys kc q (insert_keys kc ks []) = Inr cs \<and> set cs = {k \<in> fst ` set ks. ek_seq k = q}"
proof -
  let ?t = "insert_keys kc ks []"
  have ids: "row_id ` set ?t = (\<lambda>k. (ek_seq k, kc_ser kc k)) ` fst ` set ks" by (simp add: insert_keys_ids)
  have row: "\<exists>k\<in>fst ` set ks. kr_seq r = ek_seq k \<and> kr_key r = kc_ser kc k" if "r \<in> set ?t" for r
    using imageI [OF that, of row_id] unfolding ids by auto
  have col: "\<exists>r\<in>set ?t. kr_seq r = ek_seq k \<and> kr_key r = kc_ser kc k" if "k \<in> fst ` set ks" for k
    using imageI [OF that, of "\<lambda>k. (ek_seq k, kc_ser kc k)"] unfolding ids [symmetric] by auto
  have rows: "set (rows_of_seq q ?t) = {r \<in> set ?t. kr_seq r = q}" by (auto simp: rows_of_seq_def)
  have deser: "kc_deser kc (kc_ser kc k) = Some k" for k using assms by (simp add: key_codec_ok_def)
  have "kc_deser kc (kr_key r) \<noteq> None" if r: "r \<in> set (rows_of_seq q ?t)" for r
  proof -
    obtain k where "kr_key r = kc_ser kc k" using row [of r] r rows by auto
    then show ?thesis by (simp add: deser)
  qed
  then obtain cs where cs: "find_all_keys kc q ?t = Inr cs"
      "set cs = {k. \<exists>r\<in>set (rows_of_seq q ?t). kc_deser kc (kr_key r) = Some k}"
    using keys_of_rows_ok [of "rows_of_seq q ?t" kc] unfolding find_all_keys_def by blast
  have "k \<in> set cs \<longleftrightarrow> k \<in> fst ` set ks \<and> ek_seq k = q" for k
  proof
    assume "k \<in> set cs"
    then obtain r where r: "r \<in> set ?t" "kr_seq r = q" "kc_deser kc (kr_key r) = Some k" using cs(2) rows by auto
    obtain k' where "k' \<in> fst ` set ks" "kr_seq r = ek_seq k'" "kr_key r = kc_ser kc k'" using row [OF r(1)] by auto
    then show "k \<in> fst ` set ks \<and> ek_seq k = q" using r deser by simp
  next
    assume k: "k \<in> fst ` set ks \<and> ek_seq k = q"
    then obtain r where "r \<in> set ?t" "kr_seq r = q" "kr_key r = kc_ser kc k" using col by blast
    then show "k \<in> set cs" unfolding cs(2) rows using deser by auto
  qed
  then show ?thesis using cs(1) by blast
qed

section \<open>Agreement of replicas\<close>


text \<open>A codec for the examples: unary numbers, and a marker before each octet of the key.\<close>

definition plain_ser :: "encryption_key \<Rightarrow> octets" where
  "plain_ser k = replicate (unat (ek_seq k)) 1 @ 0 # concat (map (\<lambda>b. [1, b]) (ek_key k)) @ 0 # ek_trailing k"

fun split_key :: "octets \<Rightarrow> octets \<times> octets" where
  "split_key (a # b # t) = (if a = 0 then ([], b # t) else (case split_key t of (k, r) \<Rightarrow> (b # k, r)))"
| "split_key _ = ([], [])"

definition plain_deser :: "octets \<Rightarrow> encryption_key option" where
  "plain_deser b =
     (let n = length (takeWhile (\<lambda>x. x = 1) b); (k, r) = split_key (drop (Suc n) b)
      in Some \<lparr>ek_seq = of_nat n, ek_key = k, ek_trailing = r\<rparr>)"

definition plain_key_codec :: key_codec where
  "plain_key_codec = \<lparr>kc_ser = plain_ser, kc_deser = plain_deser\<rparr>"

lemma split_key_concat: "split_key (concat (map (\<lambda>b. [1, b]) k) @ 0 # r) = (k, r)"
  by (induction k) (cases r; simp)+

lemma plain_key_codec_ok: "key_codec_ok plain_key_codec"
proof -
  have "takeWhile (\<lambda>x. x = 1) (plain_ser k) = replicate (unat (ek_seq k)) (1 :: octet)"
    and "drop (Suc (unat (ek_seq k))) (plain_ser k) = concat (map (\<lambda>b. [1, b]) (ek_key k)) @ 0 # ek_trailing k" for k
    by (simp_all add: plain_ser_def takeWhile_append)
  then show ?thesis by (simp add: key_codec_ok_def plain_key_codec_def plain_deser_def split_key_concat)
qed

definition rotation_a :: encryption_key where
  "rotation_a = \<lparr>ek_seq = 2, ek_key = [9], ek_trailing = []\<rparr>"

definition rotation_b :: encryption_key where
  "rotation_b = \<lparr>ek_seq = 2, ek_key = [4], ek_trailing = []\<rparr>"

lemmas rotation_defs = rotation_a_def rotation_b_def


end
