(* ===== verification/Record_Crypto.thy ===== *)
theory Record_Crypto
  imports Records Key_Storage
begin

text \<open>
  Building and opening records (engine/record_creator.cpp, engine/record_verifier.cpp): the base and
  the plain parts of a record are authenticated, the headers are padded and encrypted, and the tag of
  the whole is the tag of the record.

  AES-GCM as a stream and the DER codec belong to the base library: they are the fields of
  \<open>record_codec\<close>. A cipher stream is its key, its initialisation vector and what it has processed so
  far; what it makes of the next octets depends on these. Opening a header may throw, which is \<open>None\<close>.
\<close>

section \<open>Headers\<close>

record data_change_header =
  dch_creation_time :: int
  dch_data :: "data_header option"
  dch_metadata :: metadata
  dch_trailing :: octets

record user_change_header =
  uch_info :: octets
  uch_metadata :: metadata
  uch_trailing :: octets

record segment_header =
  sgh_creation_time :: int
  sgh_metadata :: metadata
  sgh_trailing :: octets

datatype cipher_input = Auth octets | Cipher octets

record record_codec =
  rx_encrypt :: "octets \<Rightarrow> octets \<Rightarrow> cipher_input list \<Rightarrow> octets \<Rightarrow> octets"
  rx_decrypt :: "octets \<Rightarrow> octets \<Rightarrow> cipher_input list \<Rightarrow> octets \<Rightarrow> octets"
  rx_tag :: "octets \<Rightarrow> octets \<Rightarrow> cipher_input list \<Rightarrow> octets"
  rx_ser_base :: "record_base \<Rightarrow> octets"
  rx_ser_change :: "plain_single_change_data \<Rightarrow> octets"
  rx_ser_user :: "plain_user_change_data \<Rightarrow> octets"
  rx_ser_segment :: "plain_segment_data \<Rightarrow> octets"
  rx_ser_padded :: "octets \<times> octets \<Rightarrow> octets"
  rx_deser_padded :: "octets \<Rightarrow> (octets \<times> octets) option"
  rx_ser_dch :: "data_change_header \<Rightarrow> octets"
  rx_deser_dch :: "octets \<Rightarrow> data_change_header option"
  rx_ser_uch :: "user_change_header \<Rightarrow> octets"
  rx_deser_uch :: "octets \<Rightarrow> user_change_header option"
  rx_ser_sgh :: "segment_header \<Rightarrow> octets"
  rx_deser_sgh :: "octets \<Rightarrow> segment_header option"

definition pad_record_header :: "record_codec \<Rightarrow> octets \<Rightarrow> octets" where
  "pad_record_header rx header =
     (let padding = padded_size (of_nat (length header)) min_padded_header_size - of_nat (length header)
      in rx_ser_padded rx (header, replicate (unat padding) 0))"

definition unpad_record_header :: "record_codec \<Rightarrow> octets \<Rightarrow> octets option" where
  "unpad_record_header rx plain = map_option fst (rx_deser_padded rx plain)"

section \<open>Cipher streams\<close>

record cipher_stream =
  st_key :: octets
  st_iv :: octets
  st_done :: "cipher_input list"

definition stream_start :: "octets \<Rightarrow> octets \<Rightarrow> cipher_stream" where
  "stream_start key iv = \<lparr>st_key = key, st_iv = iv, st_done = []\<rparr>"

definition process_auth :: "octets \<Rightarrow> cipher_stream \<Rightarrow> cipher_stream" where
  "process_auth d s = s\<lparr>st_done := st_done s @ [Auth d]\<rparr>"

definition process_encrypt :: "record_codec \<Rightarrow> octets \<Rightarrow> cipher_stream \<Rightarrow> octets \<times> cipher_stream" where
  "process_encrypt rx p s =
     (let c = rx_encrypt rx (st_key s) (st_iv s) (st_done s) p in (c, s\<lparr>st_done := st_done s @ [Cipher c]\<rparr>))"

definition process_decrypt :: "record_codec \<Rightarrow> octets \<Rightarrow> cipher_stream \<Rightarrow> octets \<times> cipher_stream" where
  "process_decrypt rx c s =
     (rx_decrypt rx (st_key s) (st_iv s) (st_done s) c, s\<lparr>st_done := st_done s @ [Cipher c]\<rparr>)"

definition stream_tag :: "record_codec \<Rightarrow> cipher_stream \<Rightarrow> octets" where
  "stream_tag rx s = rx_tag rx (st_key s) (st_iv s) (st_done s)"

section \<open>Creating records\<close>

record record_creator =
  rc_base :: record_base
  rc_stream :: cipher_stream
  rc_signer :: "private_key option"

text \<open>The first two arguments after the codec are the random vector and the random operation id.\<close>

definition record_creator_of ::
  "record_codec \<Rightarrow> octets \<Rightarrow> octets \<Rightarrow> encryption_key \<Rightarrow> chain_block_id \<Rightarrow> private_key option \<Rightarrow> octets \<Rightarrow> record_tag
    \<Rightarrow> record_creator" where
  "record_creator_of rx iv fresh_op key last_seen signer op_id last_seen_special =
     (let base = record_base_of last_seen iv (ek_seq key) (if op_id = [] then fresh_op else op_id) last_seen_special
      in \<lparr>rc_base = base, rc_stream = process_auth (rx_ser_base rx base) (stream_start (ek_key key) iv), rc_signer = signer\<rparr>)"

definition make_auth :: "externals \<Rightarrow> record_codec \<Rightarrow> record_creator \<Rightarrow> change_record \<Rightarrow> content_auth" where
  "make_auth ex rx rc rec =
     (let auth = content_auth_of_tag (stream_tag rx (rc_stream rc))
      in case rc_signer rc of Some key \<Rightarrow> auth_sign (ex_cr ex) key (ex_ser_record ex rec) auth | None \<Rightarrow> auth)"

definition add_change ::
  "record_codec \<Rightarrow> plain_single_change_data \<times> data_change_header \<Rightarrow> record_creator \<times> single_change list
    \<Rightarrow> record_creator \<times> single_change list" where
  "add_change rx ch st =
     (let (rc, changes) = st; (data, header) = ch;
          s1 = process_auth (rx_ser_change rx data) (rc_stream rc);
          (enc, s2) = process_encrypt rx (pad_record_header rx (rx_ser_dch rx header)) s1
      in (rc\<lparr>rc_stream := s2\<rparr>, changes @ [\<lparr>sc_data = data, sc_header = enc, sc_trailing = []\<rparr>]))"

definition data_change_result ::
  "externals \<Rightarrow> record_codec \<Rightarrow> record_creator \<times> single_change list \<Rightarrow> change_record \<times> content_auth" where
  "data_change_result ex rx st =
     (let (rc, changes) = st; rec = Data_change (rc_base rc) changes [] in (rec, make_auth ex rx rc rec))"

definition create_data_change ::
  "externals \<Rightarrow> record_codec \<Rightarrow> record_creator \<Rightarrow> (plain_single_change_data \<times> data_change_header) list \<Rightarrow> change_record \<times> content_auth" where
  "create_data_change ex rx rc chs = data_change_result ex rx (fold (add_change rx) chs (rc, []))"

definition user_change_result ::
  "externals \<Rightarrow> record_codec \<Rightarrow> record_creator \<Rightarrow> user_change_header \<Rightarrow> plain_user_change_data \<Rightarrow> change_record \<times> content_auth" where
  "user_change_result ex rx rc header data =
     (let s1 = process_auth (rx_ser_user rx data) (rc_stream rc);
          (enc, s2) = process_encrypt rx (pad_record_header rx (rx_ser_uch rx header)) s1;
          rec = User_change (rc_base rc) data enc
      in (rec, make_auth ex rx (rc\<lparr>rc_stream := s2\<rparr>) rec))"

definition segment_result ::
  "externals \<Rightarrow> record_codec \<Rightarrow> record_creator \<Rightarrow> segment_header \<Rightarrow> plain_segment_data \<Rightarrow> change_record \<times> content_auth" where
  "segment_result ex rx rc header data =
     (let s1 = process_auth (rx_ser_segment rx data) (rc_stream rc);
          (enc, s2) = process_encrypt rx (pad_record_header rx (rx_ser_sgh rx header)) s1;
          rec = Segment_change (rc_base rc) data enc
      in (rec, make_auth ex rx (rc\<lparr>rc_stream := s2\<rparr>) rec))"

section \<open>Opening records\<close>

text \<open>The decrypted parts; a header is missing when the structure version is not the current one.\<close>

datatype opened_record =
    Opened_user plain_user_change_data "user_change_header option"
  | Opened_data "(plain_single_change_data \<times> data_change_header) list"
  | Opened_segment plain_segment_data "segment_header option"

record record_verifier =
  rv_base :: record_base
  rv_auth :: content_auth
  rv_stream :: cipher_stream
  rv_opened :: opened_record

definition supported :: "record_base \<Rightarrow> bool" where
  "supported base = (rb_structure_version base = current_structure_version)"

definition verifier_stream :: "record_codec \<Rightarrow> encryption_key \<Rightarrow> record_base \<Rightarrow> cipher_stream" where
  "verifier_stream rx key base = process_auth (rx_ser_base rx base) (stream_start (ek_key key) (rb_iv base))"

definition open_header :: "record_codec \<Rightarrow> (octets \<Rightarrow> 'h option) \<Rightarrow> octets \<Rightarrow> cipher_stream \<Rightarrow> ('h \<times> cipher_stream) option" where
  "open_header rx deser enc s =
     (let (plain, s1) = process_decrypt rx enc s
      in case unpad_record_header rx plain of None \<Rightarrow> None | Some bytes \<Rightarrow> map_option (\<lambda>h. (h, s1)) (deser bytes))"

fun open_changes ::
  "record_codec \<Rightarrow> single_change list \<Rightarrow> cipher_stream
    \<Rightarrow> ((plain_single_change_data \<times> data_change_header) list \<times> cipher_stream) option" where
  "open_changes rx [] s = Some ([], s)"
| "open_changes rx (c # cs) s =
     (case open_header rx (rx_deser_dch rx) (sc_header c) (process_auth (rx_ser_change rx (sc_data c)) s) of
        None \<Rightarrow> None
      | Some (h, s1) \<Rightarrow> map_option (\<lambda>(hs, s2). ((sc_data c, h) # hs, s2)) (open_changes rx cs s1))"

fun verifier_of :: "record_codec \<Rightarrow> encryption_key \<Rightarrow> change_record \<Rightarrow> content_auth \<Rightarrow> record_verifier option" where
  "verifier_of rx key (Data_change base changes _) auth =
     (let s = verifier_stream rx key base; v = (\<lambda>hs s. \<lparr>rv_base = base, rv_auth = auth, rv_stream = s, rv_opened = Opened_data hs\<rparr>)
      in if supported base then map_option (\<lambda>(hs, s1). v hs s1) (open_changes rx changes s) else Some (v [] s))"
| "verifier_of rx key (User_change base data header) auth =
     (let s = process_auth (rx_ser_user rx data) (verifier_stream rx key base);
          v = (\<lambda>h s. \<lparr>rv_base = base, rv_auth = auth, rv_stream = s, rv_opened = Opened_user data h\<rparr>)
      in if supported base then map_option (\<lambda>(h, s1). v (Some h) s1) (open_header rx (rx_deser_uch rx) header s)
         else Some (v None s))"
| "verifier_of rx key (Segment_change base data header) auth =
     (let s = process_auth (rx_ser_segment rx data) (verifier_stream rx key base);
          v = (\<lambda>h s. \<lparr>rv_base = base, rv_auth = auth, rv_stream = s, rv_opened = Opened_segment data h\<rparr>)
      in if supported base then map_option (\<lambda>(h, s1). v (Some h) s1) (open_header rx (rx_deser_sgh rx) header s)
         else Some (v None s))"

definition is_authentic :: "record_codec \<Rightarrow> record_verifier \<Rightarrow> bool" where
  "is_authentic rx v = (supported (rv_base v) \<and> stream_tag rx (rv_stream v) = gcm_tag (rv_auth v))"

text \<open>
  The parameters of a client in one place: the codecs and the opening of the envelope a user change
  carries for this member, which throws for another member's envelope.
\<close>

record client_codec =
  cx_ex :: externals
  cx_rx :: record_codec
  cx_kc :: key_codec
  cx_open_envelope :: "octets \<Rightarrow> encryption_key list option"

section \<open>What is created can be opened\<close>

text \<open>
  What the code relies on of the base library: decryption undoes encryption at the same place of the
  same stream, and the codec reads back the padding and the headers it wrote.
\<close>

definition stream_ok :: "record_codec \<Rightarrow> bool" where
  "stream_ok rx = (\<forall>k iv done p. rx_decrypt rx k iv done (rx_encrypt rx k iv done p) = p)"

definition padding_ok :: "record_codec \<Rightarrow> bool" where
  "padding_ok rx = (\<forall>hp. rx_deser_padded rx (rx_ser_padded rx hp) = Some hp)"

lemma unpad_pad: "padding_ok rx \<Longrightarrow> unpad_record_header rx (pad_record_header rx h) = Some h"
  by (simp add: padding_ok_def unpad_record_header_def pad_record_header_def Let_def)

lemma open_encrypted:
  assumes "stream_ok rx" "padding_ok rx" "deser bytes = Some (h :: 'h)" "process_encrypt rx (pad_record_header rx bytes) s = (enc, s1)"
  shows "open_header rx deser enc s = Some (h, s1)"
  using assms unpad_pad [OF assms(2)]
  by (auto simp: open_header_def process_encrypt_def process_decrypt_def stream_ok_def Let_def)

lemma open_changes_snoc:
  "open_changes rx (cs @ [c]) s =
     (case open_changes rx cs s of None \<Rightarrow> None | Some (hs, s1) \<Rightarrow>
        map_option (\<lambda>(h, s2). (hs @ [(sc_data c, h)], s2))
          (open_header rx (rx_deser_dch rx) (sc_header c) (process_auth (rx_ser_change rx (sc_data c)) s1)))"
  by (induction cs arbitrary: s) (auto simp: option.map_comp comp_def split_def split: option.splits)

lemma open_created_changes:
  assumes "stream_ok rx" "padding_ok rx" "\<forall>ch\<in>set chs. rx_deser_dch rx (rx_ser_dch rx (snd ch)) = Some (snd ch)"
    and "fold (add_change rx) chs (rc, []) = (rc', changes)"
  shows "open_changes rx changes (rc_stream rc) = Some (chs, rc_stream rc') \<and> rc_base rc' = rc_base rc \<and> rc_signer rc' = rc_signer rc"
  using assms(3,4)
proof (induction chs arbitrary: rc' changes rule: rev_induct)
  case (snoc ch chs)
  obtain rc1 changes1 where f: "fold (add_change rx) chs (rc, []) = (rc1, changes1)" by fastforce
  have IH: "open_changes rx changes1 (rc_stream rc) = Some (chs, rc_stream rc1)" "rc_base rc1 = rc_base rc" "rc_signer rc1 = rc_signer rc"
    using snoc.IH [OF _ f] snoc.prems(1) by auto
  obtain enc s2 where e: "process_encrypt rx (pad_record_header rx (rx_ser_dch rx (snd ch)))
      (process_auth (rx_ser_change rx (fst ch)) (rc_stream rc1)) = (enc, s2)" by fastforce
  have c: "rc' = rc1\<lparr>rc_stream := s2\<rparr>" "changes = changes1 @ [\<lparr>sc_data = fst ch, sc_header = enc, sc_trailing = []\<rparr>]"
    using snoc.prems(2) e by (simp_all add: f add_change_def [of rx ch] split_def Let_def)
  have "open_header rx (rx_deser_dch rx) enc (process_auth (rx_ser_change rx (fst ch)) (rc_stream rc1)) = Some (snd ch, s2)"
    using snoc.prems(1) by (intro open_encrypted [where deser = "rx_deser_dch rx", OF assms(1,2) _ e]) simp
  then show ?case using IH by (simp add: c open_changes_snoc)
qed simp

lemma make_auth_tag: "gcm_tag (make_auth ex rx rc rec) = stream_tag rx (rc_stream rc)"
  by (simp add: make_auth_def auth_sign_def content_auth_of_tag_def Let_def split: option.splits)

lemma creator_stream:
  "rc_stream (record_creator_of rx iv fresh key ls signer op special)
     = verifier_stream rx key (rc_base (record_creator_of rx iv fresh key ls signer op special))"
  "supported (rc_base (record_creator_of rx iv fresh key ls signer op special))"
  by (simp_all add: record_creator_of_def verifier_stream_def record_base_of_def supported_def Let_def)

text \<open>C24.
  What a member creates every holder of the key can open. A record made with a key verifies as
  authentic with that key, whether or not it is signed, and yields the headers and plain parts it was
  made of.
\<close>

theorem created_record_opens:
  assumes "stream_ok rx" "padding_ok rx" "rc = record_creator_of rx iv fresh key last_seen signer op special"
  shows "(\<forall>chs rec auth. (\<forall>ch\<in>set chs. rx_deser_dch rx (rx_ser_dch rx (snd ch)) = Some (snd ch))
           \<and> create_data_change ex rx rc chs = (rec, auth)
         \<longrightarrow> (\<exists>v. verifier_of rx key rec auth = Some v \<and> is_authentic rx v \<and> rv_opened v = Opened_data chs))
    \<and> (\<forall>h data rec auth. rx_deser_uch rx (rx_ser_uch rx h) = Some h \<and> user_change_result ex rx rc h data = (rec, auth)
         \<longrightarrow> (\<exists>v. verifier_of rx key rec auth = Some v \<and> is_authentic rx v \<and> rv_opened v = Opened_user data (Some h)))
    \<and> (\<forall>h data rec auth. rx_deser_sgh rx (rx_ser_sgh rx h) = Some h \<and> segment_result ex rx rc h data = (rec, auth)
         \<longrightarrow> (\<exists>v. verifier_of rx key rec auth = Some v \<and> is_authentic rx v \<and> rv_opened v = Opened_segment data (Some h)))"
proof (intro conjI allI impI; elim conjE)
  note start = creator_stream [of rx iv fresh key last_seen signer op special, folded assms(3)]
  {
    fix chs rec auth
    assume ok: "\<forall>ch\<in>set chs. rx_deser_dch rx (rx_ser_dch rx (snd ch)) = Some (snd ch)" and c: "create_data_change ex rx rc chs = (rec, auth)"
    obtain rc' changes where f: "fold (add_change rx) chs (rc, []) = (rc', changes)" by fastforce
    note opened = open_created_changes [OF assms(1,2) ok f]
    have "rec = Data_change (rc_base rc) changes []" "gcm_tag auth = stream_tag rx (rc_stream rc')"
      using c f opened by (auto simp: create_data_change_def data_change_result_def Let_def make_auth_tag)
    then show "\<exists>v. verifier_of rx key rec auth = Some v \<and> is_authentic rx v \<and> rv_opened v = Opened_data chs"
      using opened start by (auto simp: is_authentic_def)
  }
  {
    fix h data rec auth
    assume ok: "rx_deser_uch rx (rx_ser_uch rx h) = Some h" and c: "user_change_result ex rx rc h data = (rec, auth)"
    obtain enc s where e: "process_encrypt rx (pad_record_header rx (rx_ser_uch rx h)) (process_auth (rx_ser_user rx data) (rc_stream rc)) = (enc, s)"
      by fastforce
    then show "\<exists>v. verifier_of rx key rec auth = Some v \<and> is_authentic rx v \<and> rv_opened v = Opened_user data (Some h)"
      using c open_encrypted [where deser = "rx_deser_uch rx", OF assms(1,2) ok e] start make_auth_tag
      by (auto simp: user_change_result_def Let_def is_authentic_def)
  }
  {
    fix h data rec auth
    assume ok: "rx_deser_sgh rx (rx_ser_sgh rx h) = Some h" and c: "segment_result ex rx rc h data = (rec, auth)"
    obtain enc s where e: "process_encrypt rx (pad_record_header rx (rx_ser_sgh rx h)) (process_auth (rx_ser_segment rx data) (rc_stream rc)) = (enc, s)"
      by fastforce
    then show "\<exists>v. verifier_of rx key rec auth = Some v \<and> is_authentic rx v \<and> rv_opened v = Opened_segment data (Some h)"
      using c open_encrypted [where deser = "rx_deser_sgh rx", OF assms(1,2) ok e] start make_auth_tag
      by (auto simp: segment_result_def Let_def is_authentic_def)
  }
qed

text \<open>
  A codec for the examples: the identity as the cipher, all octets processed as the tag, a marked
  header before its padding, and the octets of an operation and a position as the header.
\<close>

definition sample_metadata :: metadata where
  "sample_metadata = \<lparr>md_data = [], md_trailing = []\<rparr>"

definition sample_rx :: record_codec where
  "sample_rx = \<lparr>rx_encrypt = (\<lambda>_ _ _ p. p), rx_decrypt = (\<lambda>_ _ _ c. c),
     rx_tag = (\<lambda>k iv done. k @ iv @ concat (map (\<lambda>i. case i of Auth d \<Rightarrow> d | Cipher d \<Rightarrow> take 4 d) done)),
     rx_ser_base = (\<lambda>b. bid_hash (rb_last_seen_block b) @ rb_op_id b), rx_ser_change = (\<lambda>d. pc_previous_tag d),
     rx_ser_user = uc_enveloped, rx_ser_segment = (\<lambda>d. concat (sg_tags d)),
     rx_ser_padded = (\<lambda>(h, p). concat (map (\<lambda>b. [1, b]) h) @ 0 # p), rx_deser_padded = (\<lambda>b. Some (split_key b)),
     rx_ser_dch = dch_trailing, rx_deser_dch = (\<lambda>b. Some \<lparr>dch_creation_time = 0, dch_data = None, dch_metadata = sample_metadata, dch_trailing = b\<rparr>),
     rx_ser_uch = uch_trailing, rx_deser_uch = (\<lambda>b. Some \<lparr>uch_info = [], uch_metadata = sample_metadata, uch_trailing = b\<rparr>),
     rx_ser_sgh = sgh_trailing, rx_deser_sgh = (\<lambda>b. Some \<lparr>sgh_creation_time = 0, sgh_metadata = sample_metadata, sgh_trailing = b\<rparr>)\<rparr>"

lemma sample_rx_ok: "stream_ok sample_rx" "padding_ok sample_rx"
  by (simp_all add: stream_ok_def padding_ok_def sample_rx_def split_key_concat split_def)

definition sample_header :: data_change_header where
  "sample_header = \<lparr>dch_creation_time = 0, dch_data = None, dch_metadata = sample_metadata, dch_trailing = [5]\<rparr>"

definition sample_change :: plain_single_change_data where
  "sample_change = \<lparr>pc_id = replicate 16 7, pc_previous_tag = [], pc_data = None, pc_trailing = []\<rparr>"

definition sample_creator :: record_creator where
  "sample_creator = record_creator_of sample_rx [6] [8] rotation_a no_block None [] []"

theorem created_record_opens_witness:
  "\<exists>v. verifier_of sample_rx rotation_a (fst (create_data_change ex_plain sample_rx sample_creator [(sample_change, sample_header)]))
         (snd (create_data_change ex_plain sample_rx sample_creator [(sample_change, sample_header)])) = Some v
     \<and> is_authentic sample_rx v \<and> rv_opened v = Opened_data [(sample_change, sample_header)]"
proof -
  have "\<forall>ch\<in>set [(sample_change, sample_header)]. rx_deser_dch sample_rx (rx_ser_dch sample_rx (snd ch)) = Some (snd ch)"
    by (simp add: sample_rx_def sample_header_def)
  then show ?thesis
    by (intro conjunct1 [OF created_record_opens [OF sample_rx_ok sample_creator_def, of ex_plain], rule_format] conjI)
      (simp_all only: prod.collapse)
qed

end
