(* ===== verification/History_Verifier.thy ===== *)
theory History_Verifier
  imports Record_Crypto Record_Invariants
begin

text \<open>
  Verification of the stored history (engine/history_verifier.cpp): the full walk over every record
  and the fast one, which verifies the records from the end of the newest segment on and vouches for
  the older ones by the tag lists of the segments. An exception ends the verification with its error.
\<close>

section \<open>Single records\<close>

record history_verify_report =
  hv_verified_records :: u64
  hv_verified_segments :: u64
  hv_covered_records :: u64

definition no_report :: history_verify_report where
  "no_report = \<lparr>hv_verified_records = 0, hv_verified_segments = 0, hv_covered_records = 0\<rparr>"

definition committed_block :: "record_row \<Rightarrow> chain_block" where
  "committed_block h = set_sequence_and_parent_hash (rr_seq h) (rr_parent_hash h) (rr_record h)"

definition check_stored_hash :: "externals \<Rightarrow> record_row \<Rightarrow> chain_block \<Rightarrow> unit result" where
  "check_stored_hash ex h block = (if block_hash ex block \<noteq> rr_hash h then Inl (Sync not_authentic) else Inr ())"

definition verify_record ::
  "client_codec \<Rightarrow> key_storage \<Rightarrow> chain_block \<Rightarrow> history_verify_report \<Rightarrow> history_verify_report result" where
  "verify_record cx keys block report =
     (case deserialise_record (cx_ex cx) block of
        None \<Rightarrow> Inl (General general_exception_occurred)
      | Some rec \<Rightarrow>
          bind_result (find_key (cx_kc cx) (rb_encryption_key (record_base_part rec)) keys) (\<lambda>key.
            case key of
              None \<Rightarrow> Inl (Sync no_encryption_key_found)
            | Some k \<Rightarrow>
                (case verifier_of (cx_rx cx) k rec (cb_auth block) of
                   None \<Rightarrow> Inl (General general_exception_occurred)
                 | Some ver \<Rightarrow>
                     (if \<not> is_authentic (cx_rx cx) ver then Inl (Sync not_authentic)
                      else if record_type rec = segment_tag
                      then Inr (report\<lparr>hv_verified_segments := hv_verified_segments report + 1\<rparr>)
                      else Inr (report\<lparr>hv_verified_records := hv_verified_records report + 1\<rparr>)))))"

section \<open>Ranges\<close>

text \<open>The walk over \<open>[first, last]\<close>; it stops at the last one, where the counter may not be increased.\<close>

function verify_range ::
  "client_codec \<Rightarrow> record_storage \<Rightarrow> key_storage \<Rightarrow> sequence_number \<Rightarrow> sequence_number \<Rightarrow> octets
    \<Rightarrow> history_verify_report \<Rightarrow> history_verify_report result" where
  "verify_range cx records keys q to parent report =
     (if to < q then Inr report
      else case find_seq q rs_in_sync records of
          None \<Rightarrow> Inl (Sync invalid_record_chain_state)
        | Some h \<Rightarrow>
            (let block = committed_block h
             in bind_result (check_stored_hash (cx_ex cx) h block) (\<lambda>_.
                  if cb_parent_hash block \<noteq> parent then Inl (Sync invalid_record_chain_state)
                  else bind_result (verify_record cx keys block report) (\<lambda>report1.
                    if q = to then Inr report1
                    else verify_range cx records keys (q + 1) to (block_hash (cx_ex cx) block) report1))))"
  by pat_completeness auto
termination
  by (relation "measure (\<lambda>(_, _, _, q, to, _). unat to - unat q)") (auto intro: word_count_down)

declare verify_range.simps [simp del]

fun verify_rows ::
  "client_codec \<Rightarrow> key_storage \<Rightarrow> record_row list \<Rightarrow> history_verify_report \<Rightarrow> history_verify_report result" where
  "verify_rows cx keys [] report = Inr report"
| "verify_rows cx keys (h # hs) report =
     bind_result (check_stored_hash (cx_ex cx) h (committed_block h)) (\<lambda>_.
       bind_result (verify_record cx keys (committed_block h) report) (verify_rows cx keys hs))"

definition verify_detached ::
  "client_codec \<Rightarrow> record_storage \<Rightarrow> key_storage \<Rightarrow> sequence_number \<Rightarrow> sequence_number
    \<Rightarrow> history_verify_report \<Rightarrow> history_verify_report result" where
  "verify_detached cx records keys first to report =
     verify_rows cx keys (find_range first to rs_in_sync (length (rs_records records)) records) report"

definition verify_anchor ::
  "client_codec \<Rightarrow> record_storage \<Rightarrow> key_storage \<Rightarrow> octets \<Rightarrow> history_verify_report
    \<Rightarrow> (record_row \<times> history_verify_report) result" where
  "verify_anchor cx records keys anchor report =
     (case find_hash anchor rs_in_sync records of
        None \<Rightarrow> Inl (Sync invalid_record_chain_state)
      | Some h \<Rightarrow>
          bind_result (verify_detached cx records keys 1 (rr_seq h - 1) report) (\<lambda>report1.
            bind_result (check_stored_hash (cx_ex cx) h (committed_block h)) (\<lambda>_.
              bind_result (verify_record cx keys (committed_block h) report1) (\<lambda>report2. Inr (h, report2)))))"

definition full_verify ::
  "client_codec \<Rightarrow> record_storage \<Rightarrow> key_storage \<Rightarrow> octets \<Rightarrow> history_verify_report result" where
  "full_verify cx records keys anchor =
     (let head = bid_sequence (last_block False records)
      in if anchor = [] then verify_range cx records keys 1 head [] no_report
         else bind_result (verify_anchor cx records keys anchor no_report) (\<lambda>(a, report).
           verify_range cx records keys (rr_seq a + 1) head (rr_hash a) report))"

section \<open>The backbone\<close>

definition check_segment_coverage ::
  "record_storage \<Rightarrow> plain_segment_data \<Rightarrow> sequence_number \<Rightarrow> history_verify_report \<Rightarrow> history_verify_report result" where
  "check_segment_coverage records data expected_end report =
     (if segment_end data \<le> segment_start data then Inl (Sync invalid_record_chain_state)
      else if seq_is_valid expected_end \<and> segment_end data \<noteq> expected_end then Inl (Sync invalid_record_chain_state)
      else if sg_tags data \<noteq> tags_in_range (segment_start data) (segment_end data - 1) records then Inl (Sync not_authentic)
      else Inr (report\<lparr>hv_covered_records := hv_covered_records report + of_nat (length (sg_tags data))\<rparr>))"

definition next_backbone_segment :: "record_storage \<Rightarrow> plain_segment_data \<Rightarrow> record_row option result" where
  "next_backbone_segment records data =
     (if previous_segment_tag data \<noteq> []
      then case find_tag (previous_segment_tag data) records of
          Some h \<Rightarrow> (if rr_type h = segment_tag \<and> rr_state h = rs_in_sync then Inr (Some h) else Inl (Sync invalid_record_chain_state))
        | None \<Rightarrow> Inl (Sync invalid_record_chain_state)
      else if segment_start data \<noteq> 1 then Inl (Sync invalid_record_chain_state)
      else Inr None)"

definition verify_tail ::
  "client_codec \<Rightarrow> record_storage \<Rightarrow> key_storage \<Rightarrow> sequence_number \<Rightarrow> history_verify_report \<Rightarrow> history_verify_report result" where
  "verify_tail cx records keys boundary report =
     (case find_seq (boundary - 1) rs_in_sync records of
        None \<Rightarrow> Inl (Sync invalid_record_chain_state)
      | Some before \<Rightarrow> verify_range cx records keys boundary (bid_sequence (last_block False records)) (rr_hash before) report)"

text \<open>The segment data of a stored row; reading a record of another kind throws.\<close>

definition segment_data_of :: "externals \<Rightarrow> chain_block \<Rightarrow> plain_segment_data result" where
  "segment_data_of ex block =
     (case deserialise_record ex block of Some (Segment_change _ d _) \<Rightarrow> Inr d | _ \<Rightarrow> Inl (General general_exception_occurred))"

definition verify_walked ::
  "client_codec \<Rightarrow> key_storage \<Rightarrow> record_row \<Rightarrow> sequence_number \<Rightarrow> u64 \<Rightarrow> history_verify_report \<Rightarrow> (u64 \<times> history_verify_report) result" where
  "verify_walked cx keys h boundary walked report =
     (if rr_seq h < boundary
      then bind_result (check_stored_hash (cx_ex cx) h (committed_block h)) (\<lambda>_.
             bind_result (verify_record cx keys (committed_block h) report) (\<lambda>report1. Inr (walked + 1, report1)))
      else Inr (walked, report))"

text \<open>One round of the walk: the next segment with what it must end at, or the end of the walk.\<close>

definition backbone_step ::
  "client_codec \<Rightarrow> record_storage \<Rightarrow> key_storage \<Rightarrow> sequence_number \<Rightarrow> octets
    \<Rightarrow> record_row \<times> sequence_number \<times> u64 \<times> history_verify_report
    \<Rightarrow> (record_row option \<times> sequence_number \<times> u64 \<times> history_verify_report) result" where
  "backbone_step cx records keys boundary anchor st =
     (let (h, expected_end, walked, report) = st
      in bind_result (segment_data_of (cx_ex cx) (committed_block h)) (\<lambda>data.
        bind_result (verify_walked cx keys h boundary walked report) (\<lambda>(walked1, report1).
          if anchor \<noteq> [] \<and> rr_hash h = anchor then Inr (None, expected_end, walked1, report1)
          else bind_result (check_segment_coverage records data expected_end report1) (\<lambda>report2.
            bind_result (next_backbone_segment records data) (\<lambda>next.
              Inr (next, segment_start data, walked1, report2))))))"

partial_function (option) verify_backbone ::
  "client_codec \<Rightarrow> record_storage \<Rightarrow> key_storage \<Rightarrow> sequence_number \<Rightarrow> octets
    \<Rightarrow> record_row \<times> sequence_number \<times> u64 \<times> history_verify_report \<Rightarrow> history_verify_report result option" where
  "verify_backbone cx records keys boundary anchor st =
     (case backbone_step cx records keys boundary anchor st of
        Inl err \<Rightarrow> Some (Inl err)
      | Inr (next, expected_end, walked, report) \<Rightarrow>
          (case next of
             None \<Rightarrow> Some (Inr (report\<lparr>hv_covered_records := hv_covered_records report - walked\<rparr>))
           | Some h \<Rightarrow> verify_backbone cx records keys boundary anchor (h, expected_end, walked, report)))"

declare verify_backbone.simps [code]

text \<open>\<open>None\<close> stands for a walk over the backbone that does not end.\<close>

definition fast_verify ::
  "client_codec \<Rightarrow> record_storage \<Rightarrow> key_storage \<Rightarrow> octets \<Rightarrow> history_verify_report result option" where
  "fast_verify cx records keys anchor =
     (case find_last_of_type segment_tag records of
        None \<Rightarrow> Some (full_verify cx records keys anchor)
      | Some newest \<Rightarrow>
          (let head = bid_sequence (last_block False records)
           in if anchor \<noteq> [] \<and> rr_hash newest = anchor
              then Some (bind_result (verify_anchor cx records keys anchor no_report) (\<lambda>(a, report).
                     verify_range cx records keys (rr_seq newest + 1) head (rr_hash newest) report))
              else case (if anchor \<noteq> []
                         then case find_hash anchor rs_in_sync records of
                             None \<Rightarrow> Inl (Sync invalid_record_chain_state)
                           | Some a \<Rightarrow> verify_detached cx records keys 1 (rr_seq a - 1) no_report
                         else Inr no_report) of
                  Inl err \<Rightarrow> Some (Inl err)
                | Inr report \<Rightarrow>
                    (case bind_result (segment_data_of (cx_ex cx) (rr_record newest)) (\<lambda>data.
                            bind_result (verify_tail cx records keys (segment_end data) report) (\<lambda>report1.
                              Inr (segment_end data, report1))) of
                       Inl err \<Rightarrow> Some (Inl err)
                     | Inr (boundary, report1) \<Rightarrow>
                         verify_backbone cx records keys boundary anchor (newest, 0, 0, report1))))"

datatype history_verification = verify_full | verify_fast

definition verify_history ::
  "client_codec \<Rightarrow> record_storage \<Rightarrow> key_storage \<Rightarrow> history_verification \<Rightarrow> octets \<Rightarrow> history_verify_report result option" where
  "verify_history cx records keys mode trusted_anchor =
     (if mode = verify_full then Some (full_verify cx records keys trusted_anchor)
      else fast_verify cx records keys trusted_anchor)"

section \<open>Full verification\<close>

definition authentic_block :: "client_codec \<Rightarrow> key_storage \<Rightarrow> chain_block \<Rightarrow> bool" where
  "authentic_block cx keys block = (\<exists>rec k ver. deserialise_record (cx_ex cx) block = Some rec
     \<and> find_key (cx_kc cx) (rb_encryption_key (record_base_part rec)) keys = Inr (Some k)
     \<and> verifier_of (cx_rx cx) k rec (cb_auth block) = Some ver \<and> is_authentic (cx_rx cx) ver)"

text \<open>A row whose content hashes to the stored hash and authenticates.\<close>

definition authentic_row :: "client_codec \<Rightarrow> key_storage \<Rightarrow> record_row \<Rightarrow> bool" where
  "authentic_row cx keys h = (block_hash (cx_ex cx) (committed_block h) = rr_hash h \<and> authentic_block cx keys (committed_block h))"

definition hv_total :: "history_verify_report \<Rightarrow> u64" where
  "hv_total r = hv_verified_records r + hv_verified_segments r + hv_covered_records r"

definition counted :: "client_codec \<Rightarrow> chain_block \<Rightarrow> history_verify_report \<Rightarrow> history_verify_report" where
  "counted cx block report = (case deserialise_record (cx_ex cx) block of
       Some rec \<Rightarrow> (if record_type rec = segment_tag then report\<lparr>hv_verified_segments := hv_verified_segments report + 1\<rparr>
                     else report\<lparr>hv_verified_records := hv_verified_records report + 1\<rparr>)
     | None \<Rightarrow> report)"

lemma verify_record_Inr:
  "verify_record cx keys block report = Inr report' \<longleftrightarrow> authentic_block cx keys block \<and> report' = counted cx block report"
proof (cases "deserialise_record (cx_ex cx) block")
  case (Some rec)
  show ?thesis
  proof (cases "find_key (cx_kc cx) (rb_encryption_key (record_base_part rec)) keys")
    case (Inr key)
    then show ?thesis
    proof (cases key)
      case (Some k)
      then show ?thesis using \<open>deserialise_record (cx_ex cx) block = Some rec\<close> Inr
        by (cases "verifier_of (cx_rx cx) k rec (cb_auth block)") (auto simp: verify_record_def authentic_block_def counted_def)
    qed (simp add: verify_record_def authentic_block_def Some)
  qed (simp add: verify_record_def authentic_block_def Some)
qed (simp add: verify_record_def authentic_block_def)

lemma verify_record_total:
  assumes "verify_record cx keys block report = Inr report'"
  shows "hv_total report' = hv_total report + 1"
  using assms by (auto simp: verify_record_Inr counted_def authentic_block_def hv_total_def)

lemma check_stored_hash_Inr: "check_stored_hash ex h block = Inr u \<longleftrightarrow> block_hash ex block = rr_hash h"
  by (simp add: check_stored_hash_def)

definition hash_at :: "record_storage \<Rightarrow> sequence_number \<Rightarrow> octets" where
  "hash_at st q = (case find_seq q rs_in_sync st of Some h \<Rightarrow> rr_hash h | None \<Rightarrow> [])"

definition chain_ok :: "client_codec \<Rightarrow> record_storage \<Rightarrow> key_storage \<Rightarrow> octets \<Rightarrow> sequence_number \<Rightarrow> sequence_number \<Rightarrow> bool" where
  "chain_ok cx st keys parent a b = (\<forall>q. a \<le> q \<and> q \<le> b \<longrightarrow> (\<exists>h. find_seq q rs_in_sync st = Some h \<and> authentic_row cx keys h
     \<and> rr_parent_hash h = (if q = a then parent else hash_at st (q - 1))))"

lemma committed_block_parent [simp]: "cb_parent_hash (committed_block h) = rr_parent_hash h"
  by (simp add: committed_block_def set_sequence_and_parent_hash_def)

lemma chain_ok_step:
  assumes "a < b"
  shows "chain_ok cx st keys parent a b \<longleftrightarrow> (\<exists>h. find_seq a rs_in_sync st = Some h \<and> authentic_row cx keys h
    \<and> rr_parent_hash h = parent \<and> chain_ok cx st keys (rr_hash h) (a + 1) b)"
proof -
  have a: "a \<noteq> - 1" using assms word_less_not_max by blast
  have later: "a + 1 \<le> q \<longleftrightarrow> a \<le> q \<and> q \<noteq> a" for q
    using word_inc_le_iff [OF a, of q] by (simp add: order_less_le conj_commute eq_commute)
  let ?ok = "\<lambda>q p. \<exists>h. find_seq q rs_in_sync st = Some h \<and> authentic_row cx keys h \<and> rr_parent_hash h = p"
  have "chain_ok cx st keys parent a b \<longleftrightarrow> ?ok a parent \<and> (\<forall>q. a \<le> q \<and> q \<noteq> a \<and> q \<le> b \<longrightarrow> ?ok q (hash_at st (q - 1)))"
  proof -
    have "a \<le> b" using assms by simp
    then show ?thesis unfolding chain_ok_def by auto
  qed
  moreover have "(\<forall>q. a \<le> q \<and> q \<noteq> a \<and> q \<le> b \<longrightarrow> ?ok q (hash_at st (q - 1))) \<longleftrightarrow> chain_ok cx st keys (rr_hash h) (a + 1) b"
    if "find_seq a rs_in_sync st = Some h" for h
  proof -
    have prev: "hash_at st (q - 1) = (if q = a + 1 then rr_hash h else hash_at st (q - 1))" for q
      using that by (simp add: hash_at_def)
    show ?thesis unfolding chain_ok_def later by (subst prev) simp
  qed
  ultimately show ?thesis by blast
qed

lemma verify_range_Inr:
  assumes "q \<le> to"
  shows "verify_range cx st keys q to parent report = Inr report' \<longleftrightarrow>
    (\<exists>h. find_seq q rs_in_sync st = Some h \<and> authentic_row cx keys h \<and> rr_parent_hash h = parent
       \<and> (if q = to then report' = counted cx (committed_block h) report
          else verify_range cx st keys (q + 1) to (rr_hash h) (counted cx (committed_block h) report) = Inr report'))"
  using assms by (subst verify_range.simps)
    (auto simp: check_stored_hash_Inr verify_record_Inr Let_def bind_result_Inr authentic_row_def split: option.splits)

lemma count_down_induct:
  assumes "P to" "\<And>q. q < to \<Longrightarrow> P (q + 1) \<Longrightarrow> P q"
  shows "q \<le> to \<Longrightarrow> P (q :: u64)"
proof (induction "unat to - unat q" arbitrary: q rule: less_induct)
  case less
  show ?case
  proof (cases "q = to")
    case False
    then have q: "q < to" using less.prems by simp
    then have "q + 1 \<le> to" using word_inc_le_iff [OF word_less_not_max [OF q]] by simp
    then show ?thesis using less.hyps [OF word_count_down [OF q]] assms(2) [OF q] by blast
  qed (simp add: assms(1))
qed

lemma verify_range_iff:
  "(\<exists>report'. verify_range cx st keys q to parent report = Inr report') \<longleftrightarrow> chain_ok cx st keys parent q to"
proof (cases "q \<le> to")
  case True
  have "\<forall>parent report. (\<exists>report'. verify_range cx st keys q to parent report = Inr report') \<longleftrightarrow> chain_ok cx st keys parent q to"
  proof (rule count_down_induct [OF _ _ True])
    show "\<forall>parent report. (\<exists>report'. verify_range cx st keys to to parent report = Inr report') \<longleftrightarrow> chain_ok cx st keys parent to to"
      by (auto simp: verify_range_Inr chain_ok_def)
    fix q assume q: "q < to" and
      IH: "\<forall>parent report. (\<exists>report'. verify_range cx st keys (q + 1) to parent report = Inr report') \<longleftrightarrow> chain_ok cx st keys parent (q + 1) to"
    then show "\<forall>parent report. (\<exists>report'. verify_range cx st keys q to parent report = Inr report') \<longleftrightarrow> chain_ok cx st keys parent q to"
      using q unfolding chain_ok_step [OF q] verify_range_Inr [OF less_imp_le [OF q]]
      by (simp add: IH [rule_format, symmetric]) blast
  qed
  then show ?thesis by blast
qed (subst verify_range.simps, auto simp: chain_ok_def)

lemma counted_total: "authentic_block cx keys block \<Longrightarrow> hv_total (counted cx block report) = hv_total report + 1"
  by (auto simp: counted_def authentic_block_def hv_total_def)

lemma verify_range_total:
  assumes "verify_range cx st keys q to parent report = Inr report'"
  shows "hv_total report' = hv_total report + (if to < q then 0 else to - q + 1)"
proof (cases "q \<le> to")
  case True
  have "\<forall>parent report. verify_range cx st keys q to parent report = Inr report' \<longrightarrow> hv_total report' = hv_total report + (to - q + 1)"
  proof (rule count_down_induct [OF _ _ True])
    show "\<forall>parent report. verify_range cx st keys to to parent report = Inr report' \<longrightarrow> hv_total report' = hv_total report + (to - to + 1)"
      by (auto simp: verify_range_Inr authentic_row_def counted_total)
    fix q assume q: "q < to" and
      IH: "\<forall>parent report. verify_range cx st keys (q + 1) to parent report = Inr report' \<longrightarrow> hv_total report' = hv_total report + (to - (q + 1) + 1)"
    then show "\<forall>parent report. verify_range cx st keys q to parent report = Inr report' \<longrightarrow> hv_total report' = hv_total report + (to - q + 1)"
      using verify_range_Inr [OF less_imp_le [OF q]] by (auto simp: authentic_row_def counted_total)
  qed
  then show ?thesis using assms True by auto
next
  case False
  then show ?thesis using assms by (subst (asm) verify_range.simps) auto
qed

text \<open>C20.
  Full verification accepts exactly the intact histories. Without a trusted anchor it succeeds if and
  only if every sequence number up to the head has an in sync record whose content hashes to the
  stored hash, authenticates, and links to the record before it; the counters of its report then add
  up to the length of the chain.
\<close>

theorem full_verification_exact:
  "((\<exists>report. verify_history cx st keys verify_full [] = Some (Inr report))
      \<longleftrightarrow> chain_ok cx st keys [] 1 (bid_sequence (last_block False st)))
   \<and> (\<forall>report. verify_history cx st keys verify_full [] = Some (Inr report) \<longrightarrow> hv_total report = bid_sequence (last_block False st))"
proof -
  let ?h = "bid_sequence (last_block False st)"
  have full: "verify_history cx st keys verify_full [] = Some (verify_range cx st keys 1 ?h [] no_report)"
    by (simp add: verify_history_def full_verify_def)
  have "hv_total report = ?h" if "verify_range cx st keys 1 ?h [] no_report = Inr report" for report
    using verify_range_total [OF that] word_ge_1 [of ?h]
    by (cases "?h = 0") (auto simp: no_report_def hv_total_def not_less)
  then show ?thesis using verify_range_iff [of cx st keys 1 ?h "[]" no_report] unfolding full by auto
qed

section \<open>Fast verification\<close>

definition rows_between :: "record_storage \<Rightarrow> sequence_number \<Rightarrow> sequence_number \<Rightarrow> record_row list" where
  "rows_between st a b = filter (\<lambda>r. a \<le> rr_seq r \<and> rr_seq r < b) (of_state rs_in_sync st)"

lemma rows_between_split:
  "a \<le> m \<Longrightarrow> m \<le> b \<Longrightarrow> length (rows_between st a b) = length (rows_between st a m) + length (rows_between st m b)"
proof -
  assume "a \<le> m" "m \<le> b"
  have "length (filter (\<lambda>r. a \<le> rr_seq r \<and> rr_seq r < b) rows)
      = length (filter (\<lambda>r. a \<le> rr_seq r \<and> rr_seq r < m) rows) + length (filter (\<lambda>r. m \<le> rr_seq r \<and> rr_seq r < b) rows)" for rows
    using \<open>a \<le> m\<close> \<open>m \<le> b\<close> by (induction rows) auto
  then show ?thesis by (simp add: rows_between_def)
qed

lemma tags_between: "a < b \<Longrightarrow> tags_in_range a (b - 1) st = map rr_tag (sort_key rr_seq (rows_between st a b))"
proof -
  assume "a < b"
  then have b: "b - 1 \<noteq> - 1" by auto
  have "r \<le> b - 1 \<longleftrightarrow> r < b" for r using word_less_inc_iff [OF b, of r] by simp
  then show ?thesis by (simp add: tags_in_range_def rows_between_def)
qed

text \<open>A segment in the storage that authenticates, with the data it states.\<close>

definition vouching_segment :: "client_codec \<Rightarrow> record_storage \<Rightarrow> key_storage \<Rightarrow> plain_segment_data \<Rightarrow> bool" where
  "vouching_segment cx st keys d = (\<exists>g\<in>set (rs_records st). rr_state g = rs_in_sync \<and> rr_type g = segment_tag
     \<and> authentic_row cx keys g \<and> segment_data_of (cx_ex cx) (committed_block g) = Inr d)"

definition segment_row :: "record_storage \<Rightarrow> record_row \<Rightarrow> bool" where
  "segment_row st g = (g \<in> set (rs_records st) \<and> rr_state g = rs_in_sync \<and> rr_type g = segment_tag)"

definition starts_valid :: "client_codec \<Rightarrow> record_storage \<Rightarrow> bool" where
  "starts_valid cx st = (\<forall>g d. segment_row st g \<and> segment_data_of (cx_ex cx) (committed_block g) = Inr d \<longrightarrow> segment_start d \<noteq> 0)"

lemma verify_walked_Inr:
  assumes "verify_walked cx keys h boundary walked report = Inr (walked1, report1)"
  shows "hv_total report1 - walked1 = hv_total report - walked" "rr_seq h < boundary \<Longrightarrow> authentic_row cx keys h"
  using assms by (auto simp: verify_walked_def bind_result_Inr check_stored_hash_Inr verify_record_Inr authentic_row_def
      counted_total split: if_splits)

lemma coverage_Inr:
  assumes "check_segment_coverage st d e report = Inr report1"
  shows "segment_start d < segment_end d" "e \<noteq> 0 \<Longrightarrow> segment_end d = e"
    "sg_tags d = map rr_tag (sort_key rr_seq (rows_between st (segment_start d) (segment_end d)))"
    "hv_total report1 = hv_total report + of_nat (length (rows_between st (segment_start d) (segment_end d)))"
proof -
  show lt: "segment_start d < segment_end d" using assms by (auto simp: check_segment_coverage_def split: if_splits)
  show tags: "sg_tags d = map rr_tag (sort_key rr_seq (rows_between st (segment_start d) (segment_end d)))"
    using assms tags_between [OF lt, of st] by (auto simp: check_segment_coverage_def split: if_splits)
  show "e \<noteq> 0 \<Longrightarrow> segment_end d = e" using assms by (auto simp: check_segment_coverage_def seq_is_valid_def split: if_splits)
  show "hv_total report1 = hv_total report + of_nat (length (rows_between st (segment_start d) (segment_end d)))"
  proof -
    have "length (sg_tags d) = length (rows_between st (segment_start d) (segment_end d))" by (simp add: tags)
    then show ?thesis using assms by (simp add: check_segment_coverage_def hv_total_def split: if_splits) (auto simp: algebra_simps)
  qed
qed

lemma next_backbone_Inr:
  assumes "next_backbone_segment st d = Inr next"
  shows "next = None \<Longrightarrow> segment_start d = 1" "next = Some h \<Longrightarrow> segment_row st h"
  using assms by (auto simp: next_backbone_segment_def segment_row_def find_tag_def split: if_splits option.splits dest!: find_SomeD)

text \<open>What one round of the walk checked.\<close>

lemma backbone_step_Inr:
  assumes "backbone_step cx st keys boundary [] (h, e, walked, report) = Inr (next, e', walked', report')"
  shows "\<exists>d. segment_data_of (cx_ex cx) (committed_block h) = Inr d \<and> (rr_seq h < boundary \<longrightarrow> authentic_row cx keys h)
    \<and> segment_start d < segment_end d \<and> (e \<noteq> 0 \<longrightarrow> segment_end d = e) \<and> e' = segment_start d
    \<and> sg_tags d = map rr_tag (sort_key rr_seq (rows_between st (segment_start d) (segment_end d)))
    \<and> hv_total report' - walked' = hv_total report - walked + of_nat (length (rows_between st (segment_start d) (segment_end d)))
    \<and> (next = None \<longrightarrow> segment_start d = 1) \<and> (\<forall>g. next = Some g \<longrightarrow> segment_row st g)"
proof -
  obtain d walked1 report1 where d: "segment_data_of (cx_ex cx) (committed_block h) = Inr d"
    and w: "verify_walked cx keys h boundary walked report = Inr (walked1, report1)"
    and c: "check_segment_coverage st d e report1 = Inr report'"
    and n: "next_backbone_segment st d = Inr next" and e': "e' = segment_start d" "walked' = walked1"
    using assms by (auto simp: backbone_step_def Let_def bind_result_Inr)
  have "hv_total report' - walked' = hv_total report - walked + of_nat (length (rows_between st (segment_start d) (segment_end d)))"
    using verify_walked_Inr(1) [OF w] coverage_Inr(4) [OF c] e' by (simp add: algebra_simps)
  then show ?thesis
    using d verify_walked_Inr(2) [OF w] coverage_Inr(1,2,3) [OF c] next_backbone_Inr [OF n] e'(1) by (intro exI [of _ d]) simp
qed

definition vouched_below :: "client_codec \<Rightarrow> record_storage \<Rightarrow> key_storage \<Rightarrow> sequence_number \<Rightarrow> bool" where
  "vouched_below cx st keys b = (\<forall>r\<in>set (rows_between st 1 b). \<exists>d. vouching_segment cx st keys d \<and> rr_tag r \<in> set (sg_tags d))"

text \<open>
  The walk from a segment that must end at \<open>e\<close> returns, and when it succeeds it has counted every
  row below \<open>e\<close> once.
\<close>

lemma backbone_step_ok:
  assumes "\<forall>g. segment_row st g \<and> boundary \<le> rr_seq g \<longrightarrow> authentic_row cx keys g" "starts_valid cx st" "segment_row st h"
    and "backbone_step cx st keys boundary [] (h, e, walked, report) = Inr (next, e', walked', report')"
  shows "\<exists>d. segment_data_of (cx_ex cx) (committed_block h) = Inr d \<and> (e \<noteq> 0 \<longrightarrow> segment_end d = e)
    \<and> e' \<noteq> 0 \<and> e' < segment_end d \<and> (vouched_below cx st keys e' \<longrightarrow> vouched_below cx st keys (segment_end d))
    \<and> hv_total report' - walked' + of_nat (length (rows_between st 1 e'))
        = hv_total report - walked + of_nat (length (rows_between st 1 (segment_end d)))
    \<and> (next = None \<longrightarrow> e' = 1) \<and> (\<forall>g. next = Some g \<longrightarrow> segment_row st g)"
proof -
  obtain d' where d: "segment_data_of (cx_ex cx) (committed_block h) = Inr d'" "rr_seq h < boundary \<longrightarrow> authentic_row cx keys h"
    "segment_start d' < segment_end d'" "e \<noteq> 0 \<longrightarrow> segment_end d' = e" "e' = segment_start d'"
    "sg_tags d' = map rr_tag (sort_key rr_seq (rows_between st (segment_start d') (segment_end d')))"
    "hv_total report' - walked' = hv_total report - walked + of_nat (length (rows_between st (segment_start d') (segment_end d')))"
    "next = None \<longrightarrow> segment_start d' = 1" "\<forall>g. next = Some g \<longrightarrow> segment_row st g"
    using backbone_step_Inr [OF assms(4)] by (elim exE conjE)
  have pos: "segment_start d' \<noteq> 0" using assms(2,3) d(1) by (auto simp: starts_valid_def)
  then have one: "1 \<le> segment_start d'" by (rule word_ge_1)
  have auth: "authentic_row cx keys h" using d(2) assms(1,3) by (cases "rr_seq h < boundary") auto
  then have seg: "vouching_segment cx st keys d'" using assms(3) d(1) by (auto simp: vouching_segment_def segment_row_def)
  have covered: "rr_tag r \<in> set (sg_tags d')" if "r \<in> set (rows_between st 1 (segment_end d'))" "\<not> rr_seq r < e'" for r
    using that d(5,6) by (auto simp: rows_between_def not_less)
  have vouched: "vouched_below cx st keys (segment_end d')" if v: "vouched_below cx st keys e'"
    unfolding vouched_below_def
  proof
    fix r assume r: "r \<in> set (rows_between st 1 (segment_end d'))"
    show "\<exists>d. vouching_segment cx st keys d \<and> rr_tag r \<in> set (sg_tags d)"
    proof (cases "rr_seq r < e'")
      case True
      then have "r \<in> set (rows_between st 1 e')" using r by (auto simp: rows_between_def)
      then show ?thesis using v by (simp add: vouched_below_def)
    next
      case False
      then show ?thesis using seg covered [OF r] by blast
    qed
  qed
  have "length (rows_between st 1 (segment_end d')) = length (rows_between st 1 e') + length (rows_between st e' (segment_end d'))"
    using rows_between_split [of 1 e' "segment_end d'" st] one d(3,5) by simp
  then show ?thesis
    using d pos vouched by (intro exI [of _ d']) auto
qed

definition walk_ok :: "client_codec \<Rightarrow> record_storage \<Rightarrow> key_storage \<Rightarrow> sequence_number \<Rightarrow> u64 \<Rightarrow> history_verify_report result option \<Rightarrow> bool" where
  "walk_ok cx st keys e t out = (\<exists>res. out = Some res \<and> (\<forall>final. res = Inr final \<longrightarrow>
     e \<noteq> 0 \<and> vouched_below cx st keys e \<and> hv_total final = t + of_nat (length (rows_between st 1 e))))"

lemma walk_ok_step:
  assumes "\<forall>g. segment_row st g \<and> boundary \<le> rr_seq g \<longrightarrow> authentic_row cx keys g" "starts_valid cx st" "segment_row st h"
    and "segment_data_of (cx_ex cx) (committed_block h) = Inr d" "e = 0 \<or> e = segment_end d"
    and rest: "\<And>g e' walked' report'. segment_row st g \<Longrightarrow> e' \<noteq> 0 \<Longrightarrow> e' < segment_end d \<Longrightarrow>
      walk_ok cx st keys e' (hv_total report' - walked') (verify_backbone cx st keys boundary [] (g, e', walked', report'))"
  shows "walk_ok cx st keys (segment_end d) (hv_total report - walked) (verify_backbone cx st keys boundary [] (h, e, walked, report))"
proof (cases "backbone_step cx st keys boundary [] (h, e, walked, report)")
  case (Inl err)
  then show ?thesis by (subst verify_backbone.simps) (simp add: walk_ok_def)
next
  case (Inr out)
  obtain "next" e' walked' report' where out: "out = (next, e', walked', report')" by (cases out)
  have step: "e' \<noteq> 0" "e' < segment_end d" "vouched_below cx st keys e' \<longrightarrow> vouched_below cx st keys (segment_end d)"
    "hv_total report' - walked' + of_nat (length (rows_between st 1 e'))
       = hv_total report - walked + of_nat (length (rows_between st 1 (segment_end d)))"
    "next = None \<longrightarrow> e' = 1" "\<forall>g. next = Some g \<longrightarrow> segment_row st g"
    using backbone_step_ok [OF assms(1,2,3) Inr [unfolded out]] assms(4) by auto
  show ?thesis
  proof (cases "next")
    case None
    have "rows_between st 1 1 = []" by (auto simp: rows_between_def filter_empty_conv)
    moreover have "segment_end d \<noteq> 0" using step(2) by auto
    ultimately show ?thesis using None step(3,4,5)
      by (subst verify_backbone.simps) (simp add: Inr out walk_ok_def vouched_below_def hv_total_def algebra_simps)
  next
    case (Some g)
    then show ?thesis using rest [of g e' report' walked'] step
      by (subst verify_backbone.simps) (auto simp: Inr out walk_ok_def)
  qed
qed

lemma backbone_walk:
  assumes "\<forall>g. segment_row st g \<and> boundary \<le> rr_seq g \<longrightarrow> authentic_row cx keys g" "starts_valid cx st"
    and "segment_row st h" "e \<noteq> 0"
  shows "walk_ok cx st keys e (hv_total report - walked) (verify_backbone cx st keys boundary [] (h, e, walked, report))"
  using assms(3,4)
proof (induction "unat e" arbitrary: h e walked report rule: less_induct)
  case less
  show ?case
  proof (cases "backbone_step cx st keys boundary [] (h, e, walked, report)")
    case (Inl err)
    then show ?thesis by (subst verify_backbone.simps) (simp add: walk_ok_def)
  next
    case (Inr out)
    obtain d where d: "segment_data_of (cx_ex cx) (committed_block h) = Inr d" "segment_end d = e"
      using backbone_step_ok [OF assms(1,2) less.prems(1), of e walked report] Inr less.prems(2) by (cases out) blast
    show ?thesis using walk_ok_step [OF assms(1,2) less.prems(1) d(1), of e] less.hyps d(2) by (auto simp: word_less_nat_alt)
  qed
qed

text \<open>The in sync rows at valid positions: the records of the chain.\<close>

definition chain_rows :: "record_storage \<Rightarrow> record_row list" where
  "chain_rows st = filter (\<lambda>r. rr_seq r \<noteq> 0) (of_state rs_in_sync st)"

lemma in_sync_seq_inj:
  assumes "rows_wf (rs_records st)" "r \<in> set (of_state rs_in_sync st)" "r' \<in> set (of_state rs_in_sync st)" "rr_seq r = rr_seq r'"
  shows "r = r'"
proof -
  have "distinct (map rr_seq (filter rr_useq (rs_records st)))" using assms(1) by (simp add: rows_wf_def rows_unique_def)
  moreover have "r \<in> set (filter rr_useq (rs_records st))" "r' \<in> set (filter rr_useq (rs_records st))"
    using assms by (auto simp: rows_wf_def of_state_def is_server_confirmed_def)
  ultimately show ?thesis using assms(4) by (meson distinct_map inj_onD)
qed

lemma find_seq_in_sync:
  assumes "rows_wf (rs_records st)" "r \<in> set (of_state rs_in_sync st)"
  shows "find_seq (rr_seq r) rs_in_sync st = Some r"
proof -
  obtain r' where r': "find_seq (rr_seq r) rs_in_sync st = Some r'"
    using assms(2) by (cases "find_seq (rr_seq r) rs_in_sync st") (auto simp: find_seq_def find_None_all of_state_def)
  then have "r' \<in> set (of_state rs_in_sync st)" "rr_seq r' = rr_seq r" by (auto simp: find_seq_def of_state_def dest!: find_SomeD)
  then show ?thesis using r' in_sync_seq_inj [OF assms(1)] assms(2) by metis
qed

lemma in_sync_le_head:
  assumes "r \<in> set (of_state rs_in_sync st)"
  shows "rr_seq r \<le> bid_sequence (last_block False st)"
proof -
  let ?rows = "local_rows False st"
  have rows: "?rows = of_state rs_in_sync st" by (simp add: local_rows_def of_state_def)
  have "r \<in> set ?rows" using assms rows by simp
  then have "\<exists>x\<in>set ?rows. rr_seq x = max_of rr_seq ?rows"
    using max_of_in [of rr_seq ?rows] max_of_upper [of r ?rows rr_seq] by force
  then have "filter (\<lambda>x. rr_seq x = max_of rr_seq ?rows) ?rows \<noteq> []" by (auto simp: filter_empty_conv)
  then have "bid_sequence (last_block False st) = max_of rr_seq ?rows"
    using last_in_set [of "filter (\<lambda>x. rr_seq x = max_of rr_seq ?rows) ?rows"]
    by (auto simp: last_block_def find_last_def row_block_id_def Let_def)
  then show ?thesis using max_of_upper \<open>r \<in> set ?rows\<close> by metis
qed

text \<open>A verified range holds one row at each position.\<close>

lemma verified_rows_count:
  assumes "rows_wf (rs_records st)" "chain_ok cx st keys parent a (bid_sequence (last_block False st))" "a \<noteq> 0"
  shows "of_nat (length (chain_rows st)) = of_nat (length (rows_between st 1 a))
    + (if bid_sequence (last_block False st) < a then 0 else bid_sequence (last_block False st) - a + (1 :: u64))"
proof -
  let ?h = "bid_sequence (last_block False st)"
  let ?up = "filter (\<lambda>r. a \<le> rr_seq r) (of_state rs_in_sync st)"
  have cases: "(q \<noteq> 0) = (1 \<le> q \<and> q < a \<or> a \<le> q)" "\<not> (q < a \<and> a \<le> q)" for q :: u64
    using word_ge_1 [of q] assms(3) by (auto simp: not_less dest: word_le_0_iff [THEN iffD1])
  have "length (filter (\<lambda>r. rr_seq r \<noteq> 0) rows) = length (filter (\<lambda>r. 1 \<le> rr_seq r \<and> rr_seq r < a) rows)
      + length (filter (\<lambda>r. a \<le> rr_seq r) rows)" for rows :: "record_row list"
  proof (induction rows)
    case (Cons r rows)
    then show ?case using cases [of "rr_seq r"] by (cases "a \<le> rr_seq r"; cases "rr_seq r < a"; simp)
  qed simp
  then have split: "length (chain_rows st) = length (rows_between st 1 a) + length ?up"
    by (simp add: chain_rows_def rows_between_def)
  have "distinct (map rr_seq ?up)"
    using assms(1) in_sync_seq_inj [OF assms(1)] unfolding distinct_map
    by (auto simp: inj_on_def of_state_def rows_wf_def rows_unique_def distinct_map intro: distinct_filter)
  then have "length ?up = card (rr_seq ` set ?up)" by (metis distinct_card length_map set_map)
  also have "rr_seq ` set ?up = {a..?h}"
  proof
    show "rr_seq ` set ?up \<subseteq> {a..?h}" using in_sync_le_head by auto
    show "{a..?h} \<subseteq> rr_seq ` set ?up"
    proof
      fix q assume "q \<in> {a..?h}"
      then obtain r where "find_seq q rs_in_sync st = Some r" "a \<le> q" using assms(2) by (auto simp: chain_ok_def)
      then show "q \<in> rr_seq ` set ?up" by (auto simp: find_seq_def of_state_def dest!: find_SomeD)
    qed
  qed
  also have "card {a..?h} = (if ?h < a then 0 else unat ?h - unat a + 1)"
  proof -
    have "unat ` {a..?h} = {unat a..unat ?h}"
    proof
      show "unat ` {a..?h} \<subseteq> {unat a..unat ?h}" by (auto simp: word_le_nat_alt)
      show "{unat a..unat ?h} \<subseteq> unat ` {a..?h}"
      proof
        fix n assume n: "n \<in> {unat a..unat ?h}"
        then have "unat (of_nat n :: u64) = n"
          using unat_less_2_64 [of ?h] by (intro unat_of_nat_small) (simp add: less_le_trans)
        then show "n \<in> unat ` {a..?h}" using n by (intro image_eqI [of _ _ "of_nat n"]) (auto simp: word_le_nat_alt)
      qed
    qed
    moreover have "inj_on unat {a..?h}" by (auto simp: inj_on_def intro: word_unat_eq_iff [THEN iffD2])
    ultimately have "card {a..?h} = card {unat a..unat ?h}" by (metis card_image)
    then show ?thesis by (auto simp: word_less_nat_alt)
  qed
  finally have up: "length ?up = (if ?h < a then 0 else unat ?h - unat a + 1)" .
  have "of_nat (length ?up) = (if ?h < a then 0 else ?h - a + (1 :: u64))"
  proof (cases "?h < a")
    case True
    then show ?thesis unfolding up by simp
  next
    case False
    then have "unat ?h - unat a = unat (?h - a)" by (simp add: word_sub_unat not_less)
    then show ?thesis unfolding up using False by simp
  qed
  then show ?thesis using split by simp
qed

lemma chain_ok_authentic:
  assumes "rows_wf (rs_records st)" "chain_ok cx st keys parent a (bid_sequence (last_block False st))"
    "r \<in> set (of_state rs_in_sync st)" "a \<le> rr_seq r"
  shows "authentic_row cx keys r"
  using assms(2,4) in_sync_le_head [OF assms(3)] find_seq_in_sync [OF assms(1,3)] unfolding chain_ok_def by fastforce

text \<open>C21.
  Fast verification returns, and a success vouches for every record. In a storage whose segments
  start at valid positions the walk over the segments ends; when the verification succeeds, every
  record of the chain either authenticates itself or is named in the tag list of a segment that does,
  and the counters add up to the number of records in the chain.
\<close>

theorem fast_verification_vouches:
  assumes "rs_wf ts st" "starts_valid cx st" "find_last_of_type segment_tag st \<noteq> None"
  shows "\<exists>res. verify_history cx st keys verify_fast [] = Some res
    \<and> (\<forall>report. res = Inr report \<longrightarrow> hv_total report = of_nat (length (chain_rows st))
         \<and> (\<forall>r\<in>set (chain_rows st). authentic_row cx keys r \<or> (\<exists>d. vouching_segment cx st keys d \<and> rr_tag r \<in> set (sg_tags d))))"
proof -
  have wf: "rows_wf (rs_records st)" using assms(1) by (simp add: rs_wf_def)
  obtain newest where newest: "find_last_of_type segment_tag st = Some newest" using assms(3) by blast
  then have row: "segment_row st newest"
    by (auto simp: find_last_of_type_def of_state_def segment_row_def dest!: argmax_SomeD)
  have same: "segment_data_of (cx_ex cx) (rr_record newest) = segment_data_of (cx_ex cx) (committed_block newest)"
    by (simp add: segment_data_of_def deserialise_record_def committed_block_def set_sequence_and_parent_hash_def)
  note fast = verify_history_def fast_verify_def
  show ?thesis
  proof (cases "segment_data_of (cx_ex cx) (committed_block newest)")
    case (Inl err)
    then show ?thesis by (simp add: fast newest same)
  next
    case d: (Inr d)
    show ?thesis
    proof (cases "verify_tail cx st keys (segment_end d) no_report")
      case (Inl err)
      then show ?thesis by (simp add: fast newest same d)
    next
      case (Inr tail)
      obtain before where before: "verify_range cx st keys (segment_end d) (bid_sequence (last_block False st)) before no_report = Inr tail"
        using Inr by (auto simp: verify_tail_def split: option.splits)
      then have chain: "chain_ok cx st keys before (segment_end d) (bid_sequence (last_block False st))" using verify_range_iff by blast
      have upper: "\<forall>g. segment_row st g \<and> segment_end d \<le> rr_seq g \<longrightarrow> authentic_row cx keys g"
        using chain_ok_authentic [OF wf chain] by (auto simp: segment_row_def of_state_def)
      have res: "verify_history cx st keys verify_fast [] = verify_backbone cx st keys (segment_end d) [] (newest, 0, 0, tail)"
        by (simp add: fast newest same d Inr)
      have "walk_ok cx st keys (segment_end d) (hv_total tail - 0) (verify_history cx st keys verify_fast [])"
        unfolding res using backbone_walk [OF upper assms(2)] by (intro walk_ok_step [OF upper assms(2) row d]) simp_all
      then obtain out where out: "verify_history cx st keys verify_fast [] = Some out"
        "\<And>final. out = Inr final \<Longrightarrow> segment_end d \<noteq> 0 \<and> vouched_below cx st keys (segment_end d)
           \<and> hv_total final = hv_total tail + of_nat (length (rows_between st 1 (segment_end d)))"
        by (auto simp: walk_ok_def)
      have "hv_total final = of_nat (length (chain_rows st))
          \<and> (\<forall>r\<in>set (chain_rows st). authentic_row cx keys r \<or> (\<exists>d. vouching_segment cx st keys d \<and> rr_tag r \<in> set (sg_tags d)))"
        if final: "out = Inr final" for final
      proof
        show "hv_total final = of_nat (length (chain_rows st))"
          using out(2) [OF final] verified_rows_count [OF wf chain] verify_range_total [OF before]
          by (simp add: no_report_def hv_total_def)
        show "\<forall>r\<in>set (chain_rows st). authentic_row cx keys r \<or> (\<exists>d. vouching_segment cx st keys d \<and> rr_tag r \<in> set (sg_tags d))"
        proof
          fix r assume r: "r \<in> set (chain_rows st)"
          then have "r \<in> set (of_state rs_in_sync st)" "rr_seq r \<noteq> 0" by (auto simp: chain_rows_def)
          then show "authentic_row cx keys r \<or> (\<exists>d. vouching_segment cx st keys d \<and> rr_tag r \<in> set (sg_tags d))"
            using chain_ok_authentic [OF wf chain] out(2) [OF final] word_ge_1 [of "rr_seq r"]
            by (cases "segment_end d \<le> rr_seq r") (auto simp: vouched_below_def rows_between_def)
        qed
      qed
      then show ?thesis using out(1) by blast
    qed
  qed
qed

text \<open>
  A storage of two members' changes and a segment over them, for the examples: the octets of a record
  are its kind, the tag is empty, and every record authenticates.
\<close>

definition hv_decode :: "octets \<Rightarrow> change_record option" where
  "hv_decode b = (let base = record_base_of no_block [] 1 b [] in
     if b = [0] then Some (User_change base \<lparr>uc_access = users_of_mode delta_mode, uc_encrypted = [], uc_enveloped = [], uc_trailing = []\<rparr> [0])
     else if b = [1] then Some (Data_change base [] [])
     else if b = [2] then Some (Segment_change base \<lparr>segment_start = 1, segment_end = 3, sg_tags = [[1], [2]],
            previous_segment_tag = [], sg_trailing = []\<rparr> [0])
     else None)"

definition hv_cx :: client_codec where
  "hv_cx = \<lparr>cx_ex = ex_plain\<lparr>ex_deser_record := hv_decode, ex_ser_block := cb_record\<rparr>,
     cx_rx = sample_rx\<lparr>rx_tag := (\<lambda>_ iv done. case done of Auth d # _ \<Rightarrow> [hd d + 1] | _ \<Rightarrow> [])\<rparr>,
     cx_kc = plain_key_codec, cx_open_envelope = (\<lambda>_. None)\<rparr>"

definition hv_row :: "nat \<Rightarrow> octet \<Rightarrow> octets \<Rightarrow> record_type_tag \<Rightarrow> record_row" where
  "hv_row k b parent t = \<lparr>rr_key = k, rr_tag = [b + 1], rr_seq = ucast b + 1, rr_hash = [b], rr_parent_hash = parent,
     rr_state = rs_in_sync, rr_record = \<lparr>cb_record = [b], cb_auth = content_auth_of_tag [b + 1], cb_sequence = 0, cb_parent_hash = []\<rparr>,
     rr_type = t, rr_op_id = None, rr_envelope = None, rr_origin = None, rr_origin_seq = None, rr_useq = True\<rparr>"

definition hv_storage :: record_storage where
  "hv_storage = empty_record_storage\<lparr>rs_records :=
     [hv_row 1 0 [] user_change_tag, hv_row 2 1 [0] data_change_tag, hv_row 3 2 [1] segment_tag]\<rparr>"

definition hv_keys :: key_storage where
  "hv_keys = insert_key plain_key_codec \<lparr>ek_seq = 1, ek_key = [7], ek_trailing = []\<rparr> [] []"

definition succeeds :: "history_verify_report result option \<Rightarrow> bool" where
  "succeeds r = (case r of Some (Inr _) \<Rightarrow> True | _ \<Rightarrow> False)"

lemma succeeds_iff: "succeeds r \<longleftrightarrow> (\<exists>report. r = Some (Inr report))"
  by (simp add: succeeds_def split: option.splits sum.splits)

theorem full_verification_exact_witness:
  "chain_ok hv_cx hv_storage hv_keys [] 1 3"
proof -
  have "succeeds (verify_history hv_cx hv_storage hv_keys verify_full [])" by code_simp
  moreover have "bid_sequence (last_block False hv_storage) = 3" by code_simp
  ultimately show ?thesis using full_verification_exact [of hv_cx hv_storage hv_keys] by (simp add: succeeds_iff)
qed

theorem fast_verification_vouches_witness:
  "\<exists>report. verify_history hv_cx hv_storage hv_keys verify_fast [] = Some (Inr report) \<and> hv_total report = 3"
proof -
  have "succeeds (verify_history hv_cx hv_storage hv_keys verify_fast [])" by code_simp
  then obtain report where report: "verify_history hv_cx hv_storage hv_keys verify_fast [] = Some (Inr report)"
    by (auto simp: succeeds_iff)
  have wf: "rs_wf 0 hv_storage"
    by (rule rs_wfI) (simp_all add: rows_wf_def objects_wf_def hv_storage_def empty_record_storage_def hv_row_def rows_unique_def
        is_server_confirmed_def cb_tag_def content_auth_of_tag_def dt_wf_def empty_data_table_def)
  have starts: "starts_valid hv_cx hv_storage"
    by (auto simp: starts_valid_def segment_row_def hv_storage_def empty_record_storage_def hv_row_def hv_cx_def segment_data_of_def
        deserialise_record_def committed_block_def set_sequence_and_parent_hash_def hv_decode_def Let_def)
  have "list_ex (\<lambda>r. rr_type r = segment_tag) (of_state rs_in_sync hv_storage)" by code_simp
  then have "find_last_of_type segment_tag hv_storage \<noteq> None" by (auto simp: find_last_of_type_def list_ex_iff filter_empty_conv)
  from fast_verification_vouches [OF wf starts this, of hv_keys] report
  have "hv_total report = of_nat (length (chain_rows hv_storage))" by auto
  moreover have "length (chain_rows hv_storage) = 3" by code_simp
  ultimately show ?thesis using report by simp
qed

end
