(* ===== verification/Data_Placement.thy ===== *)
theory Data_Placement
  imports Records "HOL-Library.Product_Lexorder" "HOL-Library.Multiset"
begin

text \<open>
  Where the data of a storage goes and where it comes from (server/server_lib: data_availability.cpp,
  data_replication_plan.cpp, data_release.cpp, ticket_issuer.cpp, transfer_budget.cpp): the table of
  what data servers announced, the placement order, the copies that are missing, the tickets and the
  octets served per window. Each member function takes the object's lock, so it is one step.
\<close>

section \<open>What the data servers announced\<close>

record data_holding =
  hg_holder :: public_key_id
  hg_have_chunks :: u64
  hg_total_chunks :: u64
  hg_complete :: bool

record holder_load =
  hl_stored_bytes :: u64
  hl_uploads_in_progress :: u32

definition no_load :: holder_load where
  "no_load = \<lparr>hl_stored_bytes = 0, hl_uploads_in_progress = 0\<rparr>"

type_synonym data_key = "storage_id \<times> data_id"

record data_availability =
  da_holdings :: "(data_key \<times> data_holding list) list"
  da_loads :: "(public_key_id \<times> holder_load) list"

definition find_holding :: "public_key_id \<Rightarrow> data_holding list \<Rightarrow> data_holding option" where
  "find_holding holder hs = find (\<lambda>h. hg_holder h = holder) hs"

definition value_or_empty :: "'a list option \<Rightarrow> 'a list" where
  "value_or_empty x = (case x of Some l \<Rightarrow> l | None \<Rightarrow> [])"

fun put_holding :: "data_holding \<Rightarrow> data_holding list \<Rightarrow> data_holding list" where
  "put_holding h [] = [h]"
| "put_holding h (g # gs) = (if hg_holder g = hg_holder h then h # gs else g # put_holding h gs)"

definition announce :: "storage_id \<Rightarrow> data_id \<Rightarrow> data_holding \<Rightarrow> data_availability \<Rightarrow> bool \<times> data_availability" where
  "announce sid i holding av =
     (let hs = value_or_empty (map_of (da_holdings av) (sid, i));
          was_complete = (case find_holding (hg_holder holding) hs of Some h \<Rightarrow> hg_complete h | None \<Rightarrow> False)
      in (hg_complete holding \<and> \<not> was_complete, av\<lparr>da_holdings := map_put (sid, i) (put_holding holding hs) (da_holdings av)\<rparr>))"

definition forget :: "storage_id \<Rightarrow> data_id \<Rightarrow> data_availability \<Rightarrow> data_availability" where
  "forget sid i av = av\<lparr>da_holdings := map_del (sid, i) (da_holdings av)\<rparr>"

definition forget_holder :: "public_key_id \<Rightarrow> data_availability \<Rightarrow> data_availability" where
  "forget_holder holder av =
     av\<lparr>da_holdings := filter (\<lambda>(k, hs). hs \<noteq> []) (map (\<lambda>(k, hs). (k, filter (\<lambda>h. hg_holder h \<noteq> holder) hs)) (da_holdings av))\<rparr>"

definition set_load :: "public_key_id \<Rightarrow> holder_load \<Rightarrow> data_availability \<Rightarrow> data_availability" where
  "set_load holder l av = av\<lparr>da_loads := map_put holder l (da_loads av)\<rparr>"

definition holdings :: "storage_id \<Rightarrow> data_id \<Rightarrow> data_availability \<Rightarrow> data_holding list" where
  "holdings sid i av = value_or_empty (map_of (da_holdings av) (sid, i))"

definition load_of :: "data_availability \<Rightarrow> public_key_id \<Rightarrow> holder_load" where
  "load_of av holder = (case map_of (da_loads av) holder of Some l \<Rightarrow> l | None \<Rightarrow> no_load)"

definition known_data :: "data_availability \<Rightarrow> data_key list" where
  "known_data av = map fst (da_holdings av)"

section \<open>Placement\<close>

definition holds_completely :: "data_holding list \<Rightarrow> public_key_id \<Rightarrow> bool" where
  "holds_completely hs holder = (case find_holding holder hs of Some h \<Rightarrow> hg_complete h | None \<Rightarrow> False)"

definition placement_weight :: "crypto \<Rightarrow> data_endpoint \<Rightarrow> data_id \<Rightarrow> octets" where
  "placement_weight cr e i = cr_hash cr (ep_key e @ i)"

text \<open>
  The order of \<open>sort\<close> among servers of equal weight is not specified; different server keys have
  different weights unless the digest collides, so it only concerns a key that is listed twice.
\<close>

definition upload_order :: "crypto \<Rightarrow> data_endpoint list \<Rightarrow> data_id \<Rightarrow> data_endpoint list" where
  "upload_order cr es i = sort_key (\<lambda>e. placement_weight cr e i) es"

definition rank_of :: "data_holding list \<Rightarrow> data_availability \<Rightarrow> data_endpoint \<Rightarrow> nat \<times> u64 \<times> u64" where
  "rank_of hs av e =
     (case find_holding (ep_key e) hs of
        None \<Rightarrow> (2, 0, 0)
      | Some h \<Rightarrow>
          (if hg_complete h
           then let l = load_of av (ep_key e) in (0, ucast (hl_uploads_in_progress l), hl_stored_bytes l)
           else if hg_have_chunks h \<noteq> 0
           then (1, hg_total_chunks h - min (hg_have_chunks h) (hg_total_chunks h), 0)
           else (2, 0, 0)))"

definition download_order :: "crypto \<Rightarrow> data_endpoint list \<Rightarrow> data_id \<Rightarrow> data_holding list \<Rightarrow> data_availability \<Rightarrow> data_endpoint list" where
  "download_order cr es i hs av = sort_key (rank_of hs av) (upload_order cr es i)"

definition missing_copies :: "crypto \<Rightarrow> data_endpoint list \<Rightarrow> data_id \<Rightarrow> data_holding list \<Rightarrow> nat \<Rightarrow> data_endpoint list" where
  "missing_copies cr es i hs copies =
     (if list_ex (\<lambda>e. holds_completely hs (ep_key e)) es
      then filter (\<lambda>e. \<not> holds_completely hs (ep_key e)) (take copies (upload_order cr es i)) else [])"

definition replica_sources ::
  "crypto \<Rightarrow> data_endpoint list \<Rightarrow> data_id \<Rightarrow> data_holding list \<Rightarrow> data_availability \<Rightarrow> public_key_id \<Rightarrow> data_endpoint list" where
  "replica_sources cr es i hs av target =
     filter (\<lambda>e. ep_key e \<noteq> target \<and> holds_completely hs (ep_key e)) (download_order cr es i hs av)"

section \<open>The replication plan\<close>

record data_standing =
  dst_descriptor :: "data_descriptor option"
  dst_dead :: bool

record replication_view =
  rv_data_servers :: "data_endpoint list"
  rv_availability :: data_availability
  rv_copies :: nat
  rv_reachable :: "public_key_id \<Rightarrow> bool"
  rv_standing :: "storage_id \<Rightarrow> data_id \<Rightarrow> data_standing"

record replication_plan =
  rp_copies :: "(public_key_id \<times> (storage_id \<times> data_descriptor list) list) list"
  rp_stale :: "(storage_id \<times> data_id list) list"

text \<open>\<open>m[k].push_back(v)\<close> on a map of vectors.\<close>

definition map_push :: "'k::linorder \<Rightarrow> 'v \<Rightarrow> ('k \<times> 'v list) list \<Rightarrow> ('k \<times> 'v list) list" where
  "map_push k v m = map_put k (value_or_empty (map_of m k) @ [v]) m"

definition push_copy :: "public_key_id \<Rightarrow> storage_id \<Rightarrow> data_descriptor \<Rightarrow> replication_plan \<Rightarrow> replication_plan" where
  "push_copy target sid d plan =
     plan\<lparr>rp_copies := map_put target (map_push sid d (value_or_empty (map_of (rp_copies plan) target))) (rp_copies plan)\<rparr>"

definition plan_one :: "crypto \<Rightarrow> replication_view \<Rightarrow> data_key \<Rightarrow> replication_plan \<Rightarrow> replication_plan" where
  "plan_one cr view key plan =
     (let sid = fst key; i = snd key; hs = holdings sid i (rv_availability view)
      in if list_ex hg_complete hs
         then let standing = rv_standing view sid i
           in if dst_dead standing then plan\<lparr>rp_stale := map_push sid i (rp_stale plan)\<rparr>
              else case dst_descriptor standing of
                  Some d \<Rightarrow> fold (\<lambda>target plan. if rv_reachable view (ep_key target) then push_copy (ep_key target) sid d plan else plan)
                      (missing_copies cr (rv_data_servers view) i hs (rv_copies view)) plan
                | None \<Rightarrow> plan
         else plan)"

definition plan_replication :: "crypto \<Rightarrow> replication_view \<Rightarrow> data_key list \<Rightarrow> replication_plan" where
  "plan_replication cr view data = fold (plan_one cr view) data \<lparr>rp_copies = [], rp_stale = []\<rparr>"

section \<open>Batches\<close>

function in_batches :: "'a list \<Rightarrow> nat \<Rightarrow> 'a list list" where
  "in_batches items batch =
     (if items = [] then [] else take (max batch 1) items # in_batches (drop (max batch 1) items) batch)"
  by pat_completeness auto
termination
  by (relation "measure (\<lambda>(items, _). length items)") auto

declare in_batches.simps [simp del]

definition release_batch_size :: nat where
  "release_batch_size = 500"

definition release_packets :: "storage_id \<Rightarrow> data_id list \<Rightarrow> nat \<Rightarrow> (storage_id \<times> data_id list) list" where
  "release_packets sid ids batch = map (Pair sid) (in_batches ids batch)"

definition replicate_packets :: "storage_id \<Rightarrow> data_descriptor list \<Rightarrow> nat \<Rightarrow> (storage_id \<times> data_descriptor list) list" where
  "replicate_packets sid ds batch = map (Pair sid) (in_batches ds batch)"

section \<open>Tickets\<close>

record issued_ticket =
  it_ticket :: data_ticket
  it_holders :: "data_endpoint list"

record ticket_issuer =
  ti_data_servers :: "data_endpoint list"
  ti_validity :: int

definition refusal :: "ticket_issuer \<Rightarrow> data_descriptor result \<Rightarrow> private_key option \<Rightarrow> error option" where
  "refusal issuer committed server_key =
     (if server_key = None then Some (Protocol protocol_invalid_state)
      else if ti_data_servers issuer = [] then Some (Protocol no_data_servers)
      else case committed of Inl e \<Rightarrow> Some e | Inr _ \<Rightarrow> None)"

definition make_ticket :: "crypto \<Rightarrow> storage_id \<Rightarrow> data_descriptor \<Rightarrow> public_key_id \<Rightarrow> data_right \<Rightarrow> time_point \<Rightarrow> private_key \<Rightarrow> data_ticket" where
  "make_ticket cr sid d member right expiry key = ticket_sign cr key (data_ticket_of sid d member right expiry)"

text \<open>Nothing refused means that there is a descriptor and a key, so the last case is never taken.\<close>

definition issue_ticket ::
  "crypto \<Rightarrow> data_availability \<Rightarrow> storage_id \<Rightarrow> data_descriptor result \<Rightarrow> public_key_id \<Rightarrow> u32 \<Rightarrow> private_key option \<Rightarrow> time_point
    \<Rightarrow> ticket_issuer \<Rightarrow> issued_ticket result" where
  "issue_ticket cr av sid committed member right server_key now issuer =
     (let upload = (right = data_right_value right_upload); download = (right = data_right_value right_download)
      in if \<not> upload \<and> \<not> download then Inl (Protocol protocol_invalid_state)
         else case refusal issuer committed server_key of
             Some e \<Rightarrow> Inl e
           | None \<Rightarrow>
               (case (committed, server_key) of
                  (Inr d, Some key) \<Rightarrow>
                    (let i = manifest_digest d
                     in Inr \<lparr>it_ticket = make_ticket cr sid d member (if upload then right_upload else right_download) (now + ti_validity issuer) key,
                          it_holders = (if upload then upload_order cr (ti_data_servers issuer) i
                            else download_order cr (ti_data_servers issuer) i (holdings sid i av) av)\<rparr>)
                | _ \<Rightarrow> Inl (Protocol protocol_invalid_state)))"

definition issue_replica ::
  "crypto \<Rightarrow> data_availability \<Rightarrow> storage_id \<Rightarrow> data_descriptor result \<Rightarrow> public_key_id \<Rightarrow> private_key option \<Rightarrow> time_point
    \<Rightarrow> ticket_issuer \<Rightarrow> issued_ticket result" where
  "issue_replica cr av sid committed data_server server_key now issuer =
     (if \<not> list_ex (\<lambda>e. ep_key e = data_server) (ti_data_servers issuer) then Inl (Protocol protocol_invalid_state)
      else case refusal issuer committed server_key of
          Some e \<Rightarrow> Inl e
        | None \<Rightarrow>
            (case (committed, server_key) of
               (Inr d, Some key) \<Rightarrow>
                 (let i = manifest_digest d;
                      sources = replica_sources cr (ti_data_servers issuer) i (holdings sid i av) av data_server
                  in if sources = [] then Inl (Protocol data_not_held)
                     else Inr \<lparr>it_ticket = make_ticket cr sid d data_server right_replicate (now + ti_validity issuer) key, it_holders = sources\<rparr>)
             | _ \<Rightarrow> Inl (Protocol protocol_invalid_state)))"

section \<open>The transfer budget\<close>

record transfer_quota =
  tq_bytes_per_window :: u64
  tq_window :: int

record transfer_budget =
  tb_quota :: transfer_quota
  tb_window :: int
  tb_used :: u64

definition transfer_budget_of :: "transfer_quota \<Rightarrow> transfer_budget" where
  "transfer_budget_of quota = \<lparr>tb_quota = quota, tb_window = - 1, tb_used = 0\<rparr>"

text \<open>Times are not before the epoch, where the division of the source and this one agree.\<close>

definition window_of :: "transfer_quota \<Rightarrow> time_point \<Rightarrow> int" where
  "window_of quota now = now div max (tq_window quota) 1"

definition charge :: "u64 \<Rightarrow> time_point \<Rightarrow> transfer_budget \<Rightarrow> bool \<times> transfer_budget" where
  "charge bytes now b =
     (let w = window_of (tb_quota b) now;
          b1 = (if w \<noteq> tb_window b then b\<lparr>tb_window := w, tb_used := 0\<rparr> else b);
          limit = tq_bytes_per_window (tb_quota b);
          fits = (limit = 0 \<or> tb_used b1 \<le> limit \<and> bytes \<le> limit - tb_used b1)
      in (fits, if fits then b1\<lparr>tb_used := tb_used b1 + bytes\<rparr> else b1))"

definition budget_used :: "time_point \<Rightarrow> transfer_budget \<Rightarrow> u64" where
  "budget_used now b = (if window_of (tb_quota b) now = tb_window b then tb_used b else 0)"

definition retry_after :: "time_point \<Rightarrow> transfer_budget \<Rightarrow> u32" where
  "retry_after now b = (let len = max (tq_window (tb_quota b)) 1 in of_int (len - now mod len))"

section \<open>Placement is rendezvous hashing\<close>

lemma set_upload_order [simp]: "set (upload_order cr es i) = set es" "length (upload_order cr es i) = length es"
  "mset (upload_order cr es i) = mset es"
  by (simp_all add: upload_order_def)

lemma set_download_order [simp]: "set (download_order cr es i hs av) = set es" "mset (download_order cr es i hs av) = mset es"
  by (simp_all add: download_order_def)



section \<open>Copies\<close>

lemma find_put_holding:
  "find_holding p (put_holding h hs) = (if p = hg_holder h then Some h else find_holding p hs)"
  by (induction h hs rule: put_holding.induct) (auto simp: find_holding_def)

lemma holds_put: "holds_completely (put_holding h hs) p = (if p = hg_holder h then hg_complete h else holds_completely hs p)"
  by (simp add: holds_completely_def find_put_holding)

lemma announce_holdings:
  assumes "keys_sorted (da_holdings av)"
  shows "holdings sid' i' (snd (announce sid i h av)) = (if (sid', i') = (sid, i) then put_holding h (holdings sid i av) else holdings sid' i' av)"
    "keys_sorted (da_holdings (snd (announce sid i h av)))"
  using assms by (auto simp: announce_def Let_def holdings_def map_of_put value_or_empty_def keys_sorted_put)

definition complete_copy :: "u64 \<Rightarrow> data_endpoint \<Rightarrow> data_holding" where
  "complete_copy n e = \<lparr>hg_holder = ep_key e, hg_have_chunks = n, hg_total_chunks = n, hg_complete = True\<rparr>"

lemma announce_all:
  assumes "keys_sorted (da_holdings av)"
  shows "holds_completely (holdings sid i (fold (\<lambda>e av. snd (announce sid i (complete_copy n e) av)) es av)) p
    = (holds_completely (holdings sid i av) p \<or> p \<in> ep_key ` set es)"
  using assms by (induction es arbitrary: av) (auto simp: announce_holdings holds_put complete_copy_def)

lemma missing_copies_set:
  "set (missing_copies cr es i hs k) = {e \<in> set (take k (upload_order cr es i)). \<not> holds_completely hs (ep_key e) \<and> (\<exists>e\<in>set es. holds_completely hs (ep_key e))}"
  by (auto simp: missing_copies_def list_ex_iff)



section \<open>Download order\<close>

lemma rank_class: "fst (rank_of hs av e) = 0 \<longleftrightarrow> holds_completely hs (ep_key e)"
  by (auto simp: rank_of_def holds_completely_def Let_def split: option.splits)

lemma complete_first:
  assumes "j < length es" "k < j" "holds_completely hs (ep_key (download_order cr es i hs av ! j))"
  shows "holds_completely hs (ep_key (download_order cr es i hs av ! k))"
proof -
  let ?o = "download_order cr es i hs av"
  have len: "length ?o = length es" by (simp add: download_order_def)
  have "sorted (map (rank_of hs av) ?o)" by (simp add: download_order_def)
  then have "rank_of hs av (?o ! k) \<le> rank_of hs av (?o ! j)"
    using assms(1,2) len by (auto simp: sorted_iff_nth_mono)
  then have "fst (rank_of hs av (?o ! k)) \<le> fst (rank_of hs av (?o ! j))" by (auto simp: less_eq_prod_def)
  then show ?thesis using assms(3) rank_class [of hs av] by (metis le_zero_eq)
qed

section \<open>Tickets\<close>

lemma refusal_None: "refusal issuer committed server_key = None \<longleftrightarrow>
    ti_data_servers issuer \<noteq> [] \<and> (\<exists>d key. committed = Inr d \<and> server_key = Some key)"
  by (auto simp: refusal_def split: sum.splits)

lemma ticket_signed_verifies:
  assumes "key_ok cr keys key" "now < tk_expiry t"
  shows "ticket_verify cr keys now (ticket_sign cr key t) = None"
proof -
  have "ticket_digest cr (t\<lparr>tk_signature := s\<rparr>) = ticket_digest cr t" for s by (simp add: ticket_digest_def ticket_octets_def)
  then show ?thesis using assms by (auto simp: ticket_verify_None_iff ticket_sign_def key_ok_def)
qed

text \<open>What an issued ticket is.\<close>

lemma issue_ticket_Inr:
  assumes "issue_ticket cr av sid committed member right server_key now issuer = Inr t"
  obtains d key where "committed = Inr d" "server_key = Some key" "ti_data_servers issuer \<noteq> []" "right \<in> {1, 2}"
    "it_ticket t = ticket_sign cr key \<lparr>tk_storage_id = sid, tk_descriptor = d, tk_member = member, tk_right = right,
       tk_expiry = now + ti_validity issuer, tk_signature = no_signature, tk_trailing = []\<rparr>"
    "it_holders t = (if right = 1 then upload_order cr (ti_data_servers issuer) (manifest_digest d)
       else download_order cr (ti_data_servers issuer) (manifest_digest d) (holdings sid (manifest_digest d) av) av)"
proof -
  have right: "right = 1 \<or> right = 2" and none: "refusal issuer committed server_key = None"
    using assms by (auto simp: issue_ticket_def Let_def split: if_splits option.splits)
  then obtain d key where dk: "committed = Inr d" "server_key = Some key" "ti_data_servers issuer \<noteq> []" by (auto simp: refusal_None)
  show ?thesis
    by (rule that [OF dk]) (use assms right none dk in \<open>auto simp: issue_ticket_def Let_def make_ticket_def data_ticket_of_def\<close>)
qed

lemma issue_replica_Inr:
  assumes "issue_replica cr av sid committed target server_key now issuer = Inr t"
  obtains d key where "committed = Inr d" "server_key = Some key" "\<exists>e\<in>set (ti_data_servers issuer). ep_key e = target"
    "it_ticket t = ticket_sign cr key \<lparr>tk_storage_id = sid, tk_descriptor = d, tk_member = target, tk_right = 3,
       tk_expiry = now + ti_validity issuer, tk_signature = no_signature, tk_trailing = []\<rparr>"
    "it_holders t = replica_sources cr (ti_data_servers issuer) (manifest_digest d) (holdings sid (manifest_digest d) av) av target"
    "it_holders t \<noteq> []"
proof -
  have e: "\<exists>e\<in>set (ti_data_servers issuer). ep_key e = target" and none: "refusal issuer committed server_key = None"
    using assms by (auto simp: issue_replica_def list_ex_iff split: if_splits option.splits)
  then obtain d key where dk: "committed = Inr d" "server_key = Some key" by (auto simp: refusal_None)
  show ?thesis
    by (rule that [OF dk e]) (use assms none dk in \<open>auto simp: issue_replica_def Let_def make_ticket_def data_ticket_of_def split: if_splits\<close>)
qed

text \<open>C31. A ticket says what was committed: a ticket a record server issues verifies under the server's key until it
  expires, names the storage, the asking member and the right asked for, which is an upload or a download,
  and the descriptor its own chain committed; the holders it comes with are the data servers, each once,
  and for a download those that hold the data completely come first.\<close>

theorem issued_ticket_sound:
  assumes "issue_ticket cr av sid committed member right (Some key) now issuer = Inr t"
    and "key_ok cr keys key" "later < now + ti_validity issuer"
  shows "ticket_verify cr keys later (it_ticket t) = None \<and> committed = Inr (tk_descriptor (it_ticket t))
    \<and> tk_storage_id (it_ticket t) = sid \<and> tk_member (it_ticket t) = member \<and> tk_right (it_ticket t) = right \<and> right \<in> {1, 2}
    \<and> mset (it_holders t) = mset (ti_data_servers issuer)
    \<and> (right = 2 \<longrightarrow> (\<forall>j < length (it_holders t). \<forall>k < j.
        let hs = holdings sid (manifest_digest (tk_descriptor (it_ticket t))) av
        in holds_completely hs (ep_key (it_holders t ! j)) \<longrightarrow> holds_completely hs (ep_key (it_holders t ! k))))"
  using assms(1)
proof (cases rule: issue_ticket_Inr)
  case (1 d k)
  have "length (download_order cr (ti_data_servers issuer) (manifest_digest d) hs av) = length (ti_data_servers issuer)" for hs
    by (simp add: download_order_def)
  moreover have "ticket_verify cr keys later (it_ticket t) = None"
    unfolding 1(5) using assms(2,3) 1(2) by (intro ticket_signed_verifies) auto
  ultimately show ?thesis using 1 by (auto simp: ticket_sign_def Let_def intro: complete_first)
qed

theorem issued_ticket_sound_witness:
  "let d = \<lparr>enc_size = 20, dd_chunk_size = 4096, manifest_digest = [7], dd_trailing = []\<rparr>;
       a = \<lparr>ep_host = ''a'', ep_port = 1, ep_key = [2], ep_region = [], ep_trailing = []\<rparr>;
       av = \<lparr>da_holdings = [], da_loads = []\<rparr>;
       t = issue_ticket (ex_cr ex_plain) av [1] (Inr d) [4] 2 (Some ex_key) 100 \<lparr>ti_data_servers = [a], ti_validity = 60\<rparr>
   in \<exists>x. t = Inr x \<and> ticket_verify (ex_cr ex_plain) (\<lambda>_. Some [9]) 159 (it_ticket x) = None \<and> tk_descriptor (it_ticket x) = d"
proof -
  let ?d = "\<lparr>enc_size = 20, dd_chunk_size = 4096, manifest_digest = [7], dd_trailing = []\<rparr>"
  let ?i = "\<lparr>ti_data_servers = [\<lparr>ep_host = ''a'', ep_port = 1, ep_key = [2], ep_region = [], ep_trailing = []\<rparr>], ti_validity = 60\<rparr>"
  obtain x where x: "issue_ticket (ex_cr ex_plain) \<lparr>da_holdings = [], da_loads = []\<rparr> [1] (Inr ?d) [4] 2 (Some ex_key) 100 ?i = Inr x"
    by (simp add: issue_ticket_def refusal_def Let_def)
  moreover have "key_ok (ex_cr ex_plain) (\<lambda>_. Some [9]) ex_key" by (simp add: key_ok_def ex_key_def ex_plain_def ex_honest_def)
  ultimately show ?thesis using issued_ticket_sound [OF x, of _ 159] unfolding Let_def by force
qed

section \<open>The budget of a window\<close>

fun charges :: "(u64 \<times> time_point) list \<Rightarrow> transfer_budget \<Rightarrow> (bool \<times> u64 \<times> time_point) list" where
  "charges [] b = []"
| "charges ((bytes, now) # rs) b = (let (ok, b1) = charge bytes now b in (ok, bytes, now) # charges rs b1)"

definition granted_in :: "transfer_quota \<Rightarrow> int \<Rightarrow> (bool \<times> u64 \<times> time_point) list \<Rightarrow> nat" where
  "granted_in quota w gs = sum_list (map (\<lambda>(ok, bytes, now). if ok \<and> window_of quota now = w then unat bytes else 0) gs)"

lemma granted_in_Cons:
  "granted_in quota w ((ok, bytes, now) # gs) = (if ok \<and> window_of quota now = w then unat bytes else 0) + granted_in quota w gs"
  by (simp add: granted_in_def)

definition within :: "transfer_budget \<Rightarrow> bool" where
  "within b = (tq_bytes_per_window (tb_quota b) \<noteq> 0 \<and> tb_used b \<le> tq_bytes_per_window (tb_quota b))"

lemma charge_within:
  assumes "within b" "charge bytes now b = (ok, b')" "tb_window b \<le> window_of (tb_quota b) now"
  shows "within b'" "tb_quota b' = tb_quota b" "tb_window b' = window_of (tb_quota b) now"
    "unat (tb_used b') = (if tb_window b' = tb_window b then unat (tb_used b) else 0) + (if ok then unat bytes else 0)"
proof -
  define b1 where "b1 = (if window_of (tb_quota b) now \<noteq> tb_window b then b\<lparr>tb_window := window_of (tb_quota b) now, tb_used := 0\<rparr> else b)"
  let ?l = "tq_bytes_per_window (tb_quota b)"
  have b1: "within b1" "tb_quota b1 = tb_quota b" "tb_window b1 = window_of (tb_quota b) now"
    "unat (tb_used b1) = (if tb_window b1 = tb_window b then unat (tb_used b) else 0)"
    using assms(1) by (auto simp: b1_def within_def)
  have ok: "ok = (tb_used b1 \<le> ?l \<and> bytes \<le> ?l - tb_used b1)" "b' = (if ok then b1\<lparr>tb_used := tb_used b1 + bytes\<rparr> else b1)"
    using assms(1,2) by (auto simp: charge_def Let_def b1_def [symmetric] within_def split: if_splits)
  have "unat (tb_used b1 + bytes) = unat (tb_used b1) + unat bytes \<and> tb_used b1 + bytes \<le> ?l" if ok
  proof -
    have le: "tb_used b1 \<le> ?l" "bytes \<le> ?l - tb_used b1" using ok(1) that by auto
    then have "unat bytes \<le> unat ?l - unat (tb_used b1)" by (simp add: word_le_nat_alt unat_sub)
    moreover have "unat (tb_used b1) \<le> unat ?l" using le(1) by (simp add: word_le_nat_alt)
    ultimately have "unat (tb_used b1) + unat bytes \<le> unat ?l" by simp
    moreover from this have "unat (tb_used b1 + bytes) = unat (tb_used b1) + unat bytes"
      using unat_word_ariths(1) [of "tb_used b1" bytes] order.strict_trans1 [OF _ unsigned_less [of ?l], of "unat (tb_used b1) + unat bytes"]
      by simp
    ultimately show ?thesis by (simp add: word_le_nat_alt)
  qed
  then show "within b'" "tb_quota b' = tb_quota b" "tb_window b' = window_of (tb_quota b) now"
    "unat (tb_used b') = (if tb_window b' = tb_window b then unat (tb_used b) else 0) + (if ok then unat bytes else 0)"
    using b1 ok(2) by (auto simp: within_def)
qed

lemma charges_bound:
  assumes "within b" "\<forall>r\<in>set rs. tb_window b \<le> window_of (tb_quota b) (snd r)" "sorted (map (\<lambda>r. window_of (tb_quota b) (snd r)) rs)"
  shows "granted_in (tb_quota b) w (charges rs b) + (if w = tb_window b then unat (tb_used b) else 0) \<le> unat (tq_bytes_per_window (tb_quota b))"
  using assms
proof (induction rs arbitrary: b)
  case Nil
  then show ?case by (auto simp: granted_in_def within_def word_le_nat_alt)
next
  case (Cons r rs)
  obtain bytes now where r: "r = (bytes, now)" by fastforce
  obtain ok b1 where c: "charge bytes now b = (ok, b1)" by fastforce
  note w = charge_within [OF Cons.prems(1) c]
  have le: "tb_window b \<le> window_of (tb_quota b) now" using Cons.prems(2) r by simp
  have IH: "granted_in (tb_quota b) w (charges rs b1) + (if w = tb_window b1 then unat (tb_used b1) else 0) \<le> unat (tq_bytes_per_window (tb_quota b))"
    using Cons.IH [OF w(1) [OF le]] Cons.prems(3) r by (simp add: w(2,3) [OF le])
  have before: "granted_in (tb_quota b) w (charges rs b1) = 0" if "w < tb_window b1"
  proof -
    have "granted_in q v (charges xs c) = 0" if "\<forall>x\<in>set xs. v < window_of q (snd x)" for q v xs c
      using that
    proof (induction xs arbitrary: c)
      case (Cons x xs)
      obtain bytes now where x: "x = (bytes, now)" by fastforce
      obtain ok c1 where "charge bytes now c = (ok, c1)" by fastforce
      then show ?case using Cons x by (simp add: granted_in_Cons)
    qed (simp add: granted_in_def)
    moreover have "\<forall>x\<in>set rs. w < window_of (tb_quota b) (snd x)" using Cons.prems(3) that r w(3) [OF le] by (auto intro: less_le_trans)
    ultimately show ?thesis by blast
  qed
  show ?case
    using IH w(3,4) [OF le] before Cons.prems(1) le
    by (auto simp: r c Let_def granted_in_Cons within_def word_le_nat_alt split: if_splits)
qed

text \<open>C33. The transfer quota holds: whatever pieces are asked for, as long as the clock does not run
  backwards, the octets granted in any one window add up to at most the quota.\<close>

theorem transfer_quota_holds:
  assumes "tq_bytes_per_window quota \<noteq> 0" "sorted (map snd reqs)" "\<forall>r\<in>set reqs. 0 \<le> snd r"
  shows "granted_in quota w (charges reqs (transfer_budget_of quota)) \<le> unat (tq_bytes_per_window quota)"
proof -
  have mono: "window_of quota a \<le> window_of quota b" if "a \<le> b" for a b
    using that by (simp add: window_of_def zdiv_mono1)
  then have "sorted (map (\<lambda>r. window_of quota (snd r)) reqs)"
    using assms(2) by (auto simp: sorted_map elim!: sorted_wrt_mono_rel [rotated])
  moreover have "\<forall>r\<in>set reqs. -1 \<le> window_of quota (snd r)"
  proof
    fix r assume "r \<in> set reqs"
    then have "0 \<le> snd r div max (tq_window quota) 1" using assms(3) by (simp add: pos_imp_zdiv_nonneg_iff)
    then show "-1 \<le> window_of quota (snd r)" by (simp add: window_of_def)
  qed
  ultimately show ?thesis
    using charges_bound [of "transfer_budget_of quota" reqs w] assms(1)
    by (auto simp: transfer_budget_of_def within_def split: if_splits)
qed

theorem transfer_quota_holds_witness:
  "granted_in \<lparr>tq_bytes_per_window = 10, tq_window = 60\<rparr> 0 (charges [(7, 5), (7, 6), (3, 59)] (transfer_budget_of \<lparr>tq_bytes_per_window = 10, tq_window = 60\<rparr>)) \<le> 10"
  using transfer_quota_holds [of "\<lparr>tq_bytes_per_window = 10, tq_window = 60\<rparr>" "[(7, 5), (7, 6), (3, 59)]" 0] by simp

end
