(* ===== verification/Data_Stream.thy ===== *)
theory Data_Stream
  imports Data_Descriptor Key_Storage
begin

text \<open>
  Turning a source into encrypted chunks and back (core/data/data_encryptor.cpp,
  core/data/data_decryptor.cpp). The encryptor buffers what it is given until a chunk is full; the
  chunks it handed to its sink are the list \<open>de_out\<close>, and the running hash of the content is the
  content written so far.
\<close>

section \<open>The encryptor\<close>

record encrypted_data_result =
  er_descriptor :: data_descriptor
  er_header :: data_header
  er_manifest :: data_manifest

record data_encryptor =
  de_nonce :: octets
  de_data_key :: octets
  de_chunk_size :: u32
  de_key_seq :: sequence_number
  de_buffer :: octets
  de_content :: octets
  de_digests :: "digest list"
  de_plain_size :: u64
  de_enc_size :: u64
  de_chunks :: u64
  de_out :: "(u64 \<times> octets) list"

definition data_encryptor_of :: "aead \<Rightarrow> encryption_key \<Rightarrow> u32 \<Rightarrow> octets \<Rightarrow> data_encryptor result" where
  "data_encryptor_of ae group_key chunk_size nonce =
     (if chunk_size = 0 then Inl (Sync invalid_configuration)
      else Inr \<lparr>de_nonce = nonce, de_data_key = derive_data_key ae (ek_key group_key) nonce, de_chunk_size = chunk_size,
        de_key_seq = ek_seq group_key, de_buffer = [], de_content = [], de_digests = [], de_plain_size = 0,
        de_enc_size = 0, de_chunks = 0, de_out = []\<rparr>)"

definition emit_chunk :: "aead \<Rightarrow> crypto \<Rightarrow> octets \<Rightarrow> data_encryptor \<Rightarrow> data_encryptor" where
  "emit_chunk ae cr plain e =
     (let encrypted = encrypt_chunk ae (de_data_key e) (de_nonce e) (de_chunks e) plain
      in e\<lparr>de_digests := de_digests e @ [chunk_digest cr encrypted], de_enc_size := de_enc_size e + of_nat (length encrypted),
           de_out := de_out e @ [(de_chunks e, encrypted)], de_chunks := de_chunks e + 1\<rparr>)"

text \<open>The loop ends when all octets are taken; the buffer is shorter than a chunk at every round.\<close>

definition take_piece :: "aead \<Rightarrow> crypto \<Rightarrow> octets \<Rightarrow> data_encryptor \<Rightarrow> data_encryptor" where
  "take_piece ae cr piece e =
     (if de_buffer e = [] \<and> length piece = unat (de_chunk_size e) then emit_chunk ae cr piece e
      else let e1 = e\<lparr>de_buffer := de_buffer e @ piece\<rparr>
           in if length (de_buffer e1) = unat (de_chunk_size e1) then (emit_chunk ae cr (de_buffer e1) e1)\<lparr>de_buffer := []\<rparr>
              else e1)"

function consume :: "aead \<Rightarrow> crypto \<Rightarrow> octets \<Rightarrow> data_encryptor \<Rightarrow> data_encryptor" where
  "consume ae cr bytes e =
     (let n = min (unat (de_chunk_size e) - length (de_buffer e)) (length bytes)
      in if n = 0 then e else consume ae cr (drop n bytes) (take_piece ae cr (take n bytes) e))"
  by pat_completeness auto
termination
  by (relation "measure (\<lambda>(_, _, bytes, _). length bytes)") (auto simp: Let_def)

declare consume.simps [simp del]

definition encryptor_write :: "aead \<Rightarrow> crypto \<Rightarrow> octets \<Rightarrow> data_encryptor \<Rightarrow> data_encryptor" where
  "encryptor_write ae cr plain e =
     consume ae cr plain (e\<lparr>de_plain_size := de_plain_size e + of_nat (length plain), de_content := de_content e @ plain\<rparr>)"

function pad_loop :: "aead \<Rightarrow> crypto \<Rightarrow> nat \<Rightarrow> octets \<Rightarrow> data_encryptor \<Rightarrow> data_encryptor" where
  "pad_loop ae cr left zeros e =
     (let n = min left (length zeros)
      in if left = 0 \<or> n = 0 then e else pad_loop ae cr (left - n) zeros (consume ae cr (take n zeros) e))"
  by pat_completeness auto
termination
  by (relation "measure (\<lambda>(_, _, left, _, _). left)") (auto simp: Let_def)

declare pad_loop.simps [simp del]

definition encryptor_pad :: "aead \<Rightarrow> crypto \<Rightarrow> data_encryptor \<Rightarrow> data_encryptor" where
  "encryptor_pad ae cr e =
     (let left = unat (padded_size (de_plain_size e) min_padded_data_size - de_plain_size e)
      in pad_loop ae cr left (replicate (min left (unat (de_chunk_size e))) 0) e)"

definition encryptor_finish :: "aead \<Rightarrow> crypto \<Rightarrow> data_encryptor \<Rightarrow> encrypted_data_result \<times> data_encryptor" where
  "encryptor_finish ae cr e =
     (let e1 = encryptor_pad ae cr e;
          e2 = (if de_buffer e1 \<noteq> [] then (emit_chunk ae cr (de_buffer e1) e1)\<lparr>de_buffer := []\<rparr> else e1);
          manifest = \<lparr>chunk_digests = de_digests e2, dm_trailing = []\<rparr>
      in (\<lparr>er_descriptor = \<lparr>enc_size = de_enc_size e2, dd_chunk_size = de_chunk_size e2,
             manifest_digest = manifest_digest_of cr manifest, dd_trailing = []\<rparr>,
           er_header = \<lparr>plain_size = de_plain_size e2, content_digest = cr_hash cr (de_content e2), dh_nonce = de_nonce e2,
             key_seq = de_key_seq e2, dh_flags = 0, dh_trailing = []\<rparr>,
           er_manifest = manifest\<rparr>, e2\<lparr>de_digests := []\<rparr>))"

section \<open>The decryptor\<close>

record data_decryptor =
  dc_descriptor :: data_descriptor
  dc_header :: data_header
  dc_data_key :: octets

definition data_decryptor_of :: "aead \<Rightarrow> encryption_key \<Rightarrow> data_descriptor \<Rightarrow> data_header \<Rightarrow> data_decryptor" where
  "data_decryptor_of ae group_key d h =
     \<lparr>dc_descriptor = d, dc_header = h, dc_data_key = derive_data_key ae (ek_key group_key) (dh_nonce h)\<rparr>"

definition chunk_plain_size :: "data_decryptor \<Rightarrow> u64 \<Rightarrow> u64" where
  "chunk_plain_size dc chunk_no =
     (let start = chunk_no * ucast (dd_chunk_size (dc_descriptor dc))
      in if start < plain_size (dc_header dc) then min (plain_size (dc_header dc) - start) (ucast (dd_chunk_size (dc_descriptor dc))) else 0)"

definition decryptor_decrypt :: "aead \<Rightarrow> data_decryptor \<Rightarrow> u64 \<Rightarrow> octets \<Rightarrow> octets option" where
  "decryptor_decrypt ae dc chunk_no encrypted =
     (if chunk_no < chunk_count (chunk_tag_size ae) (dc_descriptor dc)
      then case decrypt_chunk ae (dc_data_key dc) (dh_nonce (dc_header dc)) chunk_no encrypted of
          Some plain \<Rightarrow> (let keep = unat (chunk_plain_size dc chunk_no) in if length plain < keep then None else Some (take keep plain))
        | None \<Rightarrow> None
      else None)"

section \<open>Blocks\<close>

fun full_blocks :: "nat \<Rightarrow> octets \<Rightarrow> octets list" where
  "full_blocks n xs = (if n = 0 \<or> length xs < n then [] else take n xs # full_blocks n (drop n xs))"

fun rest_block :: "nat \<Rightarrow> octets \<Rightarrow> octets" where
  "rest_block n xs = (if n = 0 \<or> length xs < n then xs else rest_block n (drop n xs))"

declare full_blocks.simps [simp del] rest_block.simps [simp del]

lemma full_blocks_short: "length xs < n \<Longrightarrow> full_blocks n xs = [] \<and> rest_block n xs = xs"
  by (simp add: full_blocks.simps rest_block.simps)

lemma full_blocks_step:
  "0 < n \<Longrightarrow> length b = n \<Longrightarrow> full_blocks n (b @ xs) = b # full_blocks n xs \<and> rest_block n (b @ xs) = rest_block n xs"
  by (simp add: full_blocks.simps [of n "b @ xs"] rest_block.simps [of n "b @ xs"])

lemma rest_block_length: "0 < n \<Longrightarrow> length (rest_block n xs) < n"
  by (induction n xs rule: rest_block.induct) (simp add: rest_block.simps)

lemma blocks_append:
  "0 < n \<Longrightarrow> full_blocks n (xs @ ys) = full_blocks n xs @ full_blocks n (rest_block n xs @ ys)
     \<and> rest_block n (xs @ ys) = rest_block n (rest_block n xs @ ys)"
proof (induction n xs rule: full_blocks.induct)
  case (1 n xs)
  show ?case
  proof (cases "length xs < n")
    case True
    then show ?thesis by (simp add: full_blocks_short)
  next
    case False
    have "xs @ ys = take n xs @ (drop n xs @ ys)" by simp
    then have "full_blocks n (xs @ ys) = take n xs # full_blocks n (drop n xs @ ys)"
      "rest_block n (xs @ ys) = rest_block n (drop n xs @ ys)"
      using full_blocks_step [of n "take n xs" "drop n xs @ ys"] False "1.prems" by (metis length_take min.absorb2 not_less)+
    then show ?thesis using "1.IH" False "1.prems"
      by (simp add: full_blocks.simps [of n xs] rest_block.simps [of n xs])
  qed
qed

lemma split_blocks: "0 < n \<Longrightarrow> split_digests n xs = full_blocks n xs @ (if rest_block n xs = [] then [] else [rest_block n xs])"
proof (induction n xs rule: split_digests.induct)
  case (1 n xs)
  then show ?case
    by (cases "length xs < n") (auto simp: split_digests.simps [of n xs] full_blocks.simps [of n xs] rest_block.simps [of n xs])
qed

section \<open>What the encryptor makes of a content\<close>

definition emit_all :: "aead \<Rightarrow> crypto \<Rightarrow> octets list \<Rightarrow> data_encryptor \<Rightarrow> data_encryptor" where
  "emit_all ae cr bs e = fold (emit_chunk ae cr) bs e"

lemma emit_chunk_keeps:
  "de_buffer (emit_chunk ae cr p e) = de_buffer e" "de_chunk_size (emit_chunk ae cr p e) = de_chunk_size e"
  "emit_chunk ae cr p (e\<lparr>de_buffer := b\<rparr>) = (emit_chunk ae cr p e)\<lparr>de_buffer := b\<rparr>"
  by (simp_all add: emit_chunk_def Let_def)

lemma emit_all_buffer: "emit_all ae cr bs (e\<lparr>de_buffer := b\<rparr>) = (emit_all ae cr bs e)\<lparr>de_buffer := b\<rparr>"
  unfolding emit_all_def by (induction bs arbitrary: e) (simp_all add: emit_chunk_keeps)

lemma emit_all_cons: "emit_all ae cr (b # bs) e = emit_all ae cr bs (emit_chunk ae cr b e)"
  by (simp add: emit_all_def)

lemma take_piece_eq:
  "take_piece ae cr piece e =
     (if length (de_buffer e @ piece) = unat (de_chunk_size e) then (emit_chunk ae cr (de_buffer e @ piece) e)\<lparr>de_buffer := []\<rparr>
      else e\<lparr>de_buffer := de_buffer e @ piece\<rparr>)"
  by (auto simp: take_piece_def Let_def emit_chunk_def)

lemma consume_eq:
  assumes "length (de_buffer e) < n" "n = unat (de_chunk_size e)"
  shows "consume ae cr bytes e = (emit_all ae cr (full_blocks n (de_buffer e @ bytes)) e)\<lparr>de_buffer := rest_block n (de_buffer e @ bytes)\<rparr>"
  using assms
proof (induction "length bytes" arbitrary: bytes e rule: less_induct)
  case less
  let ?k = "min (n - length (de_buffer e)) (length bytes)"
  let ?b = "de_buffer e @ take ?k bytes"
  have all: "de_buffer e @ bytes = ?b @ drop ?k bytes" by simp
  show ?case
  proof (cases "bytes = []")
    case True
    then show ?thesis using less.prems full_blocks_short [of "de_buffer e" n] by (subst consume.simps) (simp add: emit_all_def)
  next
    case False
    then have k: "?k \<noteq> 0" using less.prems by auto
    have shorter: "length (drop ?k bytes) < length bytes" using k by auto
    show ?thesis
    proof (cases "length ?b = n")
      case full: True
      then have blocks: "full_blocks n (de_buffer e @ bytes) = ?b # full_blocks n (drop ?k bytes)"
          "rest_block n (de_buffer e @ bytes) = rest_block n (drop ?k bytes)"
        unfolding all using full_blocks_step [of n ?b "drop ?k bytes"] less.prems by auto
      let ?e = "(emit_chunk ae cr ?b e)\<lparr>de_buffer := []\<rparr>"
      have "consume ae cr bytes e = consume ae cr (drop ?k bytes) ?e"
        using k full less.prems(2) by (subst consume.simps) (simp add: take_piece_eq Let_def)
      also have "\<dots> = (emit_all ae cr (full_blocks n (drop ?k bytes)) ?e)\<lparr>de_buffer := rest_block n (drop ?k bytes)\<rparr>"
        using less.hyps [OF shorter, of ?e] less.prems by (simp add: emit_chunk_keeps)
      finally show ?thesis unfolding blocks by (simp add: emit_all_cons emit_all_buffer)
    next
      case short: False
      then have taken: "?k = length bytes" using less.prems(1) by (auto simp: min_def split: if_splits)
      have "consume ae cr bytes e = consume ae cr [] (e\<lparr>de_buffer := de_buffer e @ bytes\<rparr>)"
        using k short taken less.prems(2) by (subst consume.simps) (simp add: take_piece_eq Let_def)
      also have "\<dots> = e\<lparr>de_buffer := de_buffer e @ bytes\<rparr>" by (subst consume.simps) simp
      finally show ?thesis using short taken less.prems full_blocks_short [of "de_buffer e @ bytes" n]
        by (auto simp: emit_all_def min_def split: if_splits)
    qed
  qed
qed


abbreviation room :: "data_encryptor \<Rightarrow> bool" where
  "room e \<equiv> length (de_buffer e) < unat (de_chunk_size e)"

lemma emit_all_keeps:
  "de_buffer (emit_all ae cr bs e) = de_buffer e" "de_chunk_size (emit_all ae cr bs e) = de_chunk_size e"
  unfolding emit_all_def by (induction bs arbitrary: e) (simp_all add: emit_chunk_keeps)

lemma emit_all_append: "emit_all ae cr (as @ bs) e = emit_all ae cr bs (emit_all ae cr as e)"
  by (simp add: emit_all_def)

lemma consume_room [simp]:
  assumes "room e"
  shows "length (de_buffer (consume ae cr bytes e)) < unat (de_chunk_size e)"
    and "de_chunk_size (consume ae cr bytes e) = de_chunk_size e"
  using assms rest_block_length by (simp_all add: consume_eq [OF _ refl] emit_all_keeps)

lemma consume_append: "room e \<Longrightarrow> consume ae cr (xs @ ys) e = consume ae cr ys (consume ae cr xs e)"
  using rest_block_length [of "unat (de_chunk_size e)" "de_buffer e @ xs"] blocks_append [of "unat (de_chunk_size e)" "de_buffer e @ xs" ys]
  by (simp add: consume_eq [OF _ refl] emit_all_keeps emit_all_buffer emit_all_append)

definition with_content :: "octets \<Rightarrow> data_encryptor \<Rightarrow> data_encryptor" where
  "with_content xs e = e\<lparr>de_plain_size := de_plain_size e + of_nat (length xs), de_content := de_content e @ xs\<rparr>"

lemma with_content_simps [simp]:
  "de_buffer (with_content xs e) = de_buffer e" "de_chunk_size (with_content xs e) = de_chunk_size e"
  "with_content ys (with_content xs e) = with_content (xs @ ys) e"
  by (simp_all add: with_content_def add.assoc)

lemma emit_all_content: "emit_all ae cr bs (with_content xs e) = with_content xs (emit_all ae cr bs e)"
proof (induction bs arbitrary: e)
  case (Cons b bs)
  have "emit_chunk ae cr b (with_content xs e) = with_content xs (emit_chunk ae cr b e)"
    by (simp add: emit_chunk_def with_content_def Let_def)
  then show ?case using Cons.IH by (simp add: emit_all_cons)
qed (simp add: emit_all_def)

lemma consume_content: "room e \<Longrightarrow> consume ae cr ys (with_content xs e) = with_content xs (consume ae cr ys e)"
  by (simp add: consume_eq [OF _ refl] emit_all_content) (simp add: with_content_def)

lemma write_all_eq: "room e \<Longrightarrow> fold (encryptor_write ae cr) pieces e = consume ae cr (concat pieces) (with_content (concat pieces) e)"
proof (induction pieces arbitrary: e)
  case Nil
  then show ?case by (subst consume.simps) (simp add: with_content_def)
next
  case (Cons p ps)
  have "encryptor_write ae cr p e = consume ae cr p (with_content p e)" by (simp add: encryptor_write_def with_content_def)
  then have "fold (encryptor_write ae cr) (p # ps) e = consume ae cr (concat ps) (with_content (concat ps) (consume ae cr p (with_content p e)))"
    using Cons.IH [of "consume ae cr p (with_content p e)"] Cons.prems consume_room [of "with_content p e"] by simp
  also have "\<dots> = consume ae cr (concat ps) (consume ae cr p (with_content (p @ concat ps) e))"
    using Cons.prems by (simp flip: consume_content)
  finally show ?case using Cons.prems by (simp add: consume_append)
qed

lemma pad_loop_eq:
  "room e \<Longrightarrow> 0 < z \<or> left = 0 \<Longrightarrow> pad_loop ae cr left (replicate z 0) e = consume ae cr (replicate left 0) e"
proof (induction left arbitrary: e rule: less_induct)
  case (less left)
  let ?n = "min left z"
  show ?case
  proof (cases "left = 0")
    case True
    then show ?thesis by (subst pad_loop.simps, subst consume.simps) simp
  next
    case False
    then have z: "0 < z" using less.prems by simp
    let ?e = "consume ae cr (replicate ?n 0) e"
    have "pad_loop ae cr left (replicate z 0) e = pad_loop ae cr (left - ?n) (replicate z 0) ?e"
      using False z by (subst pad_loop.simps) (simp add: Let_def take_replicate)
    also have "\<dots> = consume ae cr (replicate (left - ?n) 0) ?e"
      using less.IH [of "left - ?n" ?e] False z less.prems(1) by simp
    also have "\<dots> = consume ae cr (replicate ?n 0 @ replicate (left - ?n) 0) e" by (simp add: consume_append less.prems)
    finally show ?thesis by (simp flip: replicate_add)
  qed
qed

section \<open>The chunks of a content\<close>

text \<open>The chunks are the blocks of the padded content, sealed with consecutive numbers.\<close>

definition padding_of :: "octets \<Rightarrow> nat" where
  "padding_of plain = unat (padded_size (of_nat (length plain)) min_padded_data_size - of_nat (length plain))"

definition content_blocks :: "u32 \<Rightarrow> octets \<Rightarrow> octets list" where
  "content_blocks chunk_size plain = split_digests (unat chunk_size) (plain @ replicate (padding_of plain) 0)"

fun seal :: "aead \<Rightarrow> octets \<Rightarrow> octets \<Rightarrow> u64 \<Rightarrow> octets list \<Rightarrow> (u64 \<times> octets) list" where
  "seal ae k nonce c [] = []"
| "seal ae k nonce c (b # bs) = (c, encrypt_chunk ae k nonce c b) # seal ae k nonce (c + 1) bs"

lemma emit_all_seal:
  "emit_all ae cr bs e = (let s = seal ae (de_data_key e) (de_nonce e) (de_chunks e) bs
     in e\<lparr>de_digests := de_digests e @ map (chunk_digest cr \<circ> snd) s,
          de_enc_size := de_enc_size e + of_nat (length (concat (map snd s))),
          de_out := de_out e @ s, de_chunks := de_chunks e + of_nat (length bs)\<rparr>)"
proof (induction bs arbitrary: e)
  case (Cons b bs)
  show ?case unfolding emit_all_cons Cons.IH
    by (simp add: emit_chunk_def Let_def algebra_simps)
qed (simp add: emit_all_def)

lemma emit_all_sizes [simp]:
  "de_plain_size (emit_all ae cr bs e) = de_plain_size e" "de_content (emit_all ae cr bs e) = de_content e"
  by (simp_all add: emit_all_seal Let_def)

lemma encryptor_padded:
  assumes "room e" "de_plain_size e = 0"
  shows "encryptor_pad ae cr (fold (encryptor_write ae cr) pieces e) =
    with_content (concat pieces) (consume ae cr (concat pieces @ replicate (padding_of (concat pieces)) 0) e)"
proof -
  let ?p = "concat pieces"
  let ?e = "with_content ?p (consume ae cr ?p e)"
  have w: "fold (encryptor_write ae cr) pieces e = ?e" using assms(1) by (simp add: write_all_eq consume_content)
  have r: "room (consume ae cr ?p e)" "0 < unat (de_chunk_size e)" "de_chunk_size (consume ae cr ?p e) = de_chunk_size e"
    using assms(1) by auto
  have "de_plain_size ?e = of_nat (length ?p)" using assms by (simp add: with_content_def consume_eq [OF _ refl])
  then have "encryptor_pad ae cr ?e =
      pad_loop ae cr (padding_of ?p) (replicate (min (padding_of ?p) (unat (de_chunk_size e))) 0) ?e"
    using r(3) by (simp add: encryptor_pad_def Let_def padding_of_def)
  moreover have "0 < min (padding_of ?p) (unat (de_chunk_size e)) \<or> padding_of ?p = 0" using r(2) by auto
  moreover have "room ?e" using assms(1) by simp
  ultimately have "encryptor_pad ae cr ?e = consume ae cr (replicate (padding_of ?p) 0) ?e"
    using pad_loop_eq by presburger
  then show ?thesis using r assms(1) w by (simp add: consume_content consume_append)
qed

lemma last_block_emitted:
  assumes "0 < n"
  shows "(let e1 = with_content xs ((emit_all ae cr (full_blocks n p) e)\<lparr>de_buffer := rest_block n p\<rparr>)
          in if de_buffer e1 \<noteq> [] then (emit_chunk ae cr (de_buffer e1) e1)\<lparr>de_buffer := []\<rparr> else e1)
    = (with_content xs (emit_all ae cr (split_digests n p) e))\<lparr>de_buffer := []\<rparr>"
proof (cases "rest_block n p = []")
  case True
  then show ?thesis using assms by (simp add: split_blocks Let_def with_content_def)
next
  case False
  then show ?thesis using assms
    by (simp add: split_blocks emit_all_append Let_def) (simp add: emit_all_def emit_chunk_def with_content_def Let_def)
qed

lemma seal_length [simp]: "length (seal ae k nonce c bs) = length bs"
  by (induction bs arbitrary: c) simp_all

lemma encryptor_total:
  fixes cr :: crypto
  assumes "data_encryptor_of ae key cs nonce = Inr e" "concat pieces = plain"
  defines "s \<equiv> seal ae (derive_data_key ae (ek_key key) nonce) nonce 0 (content_blocks cs plain)"
  defines "m \<equiv> \<lparr>chunk_digests = map (chunk_digest cr \<circ> snd) s, dm_trailing = []\<rparr>"
  shows "encryptor_finish ae cr (fold (encryptor_write ae cr) pieces e) =
    (\<lparr>er_descriptor = \<lparr>enc_size = of_nat (length (concat (map snd s))), dd_chunk_size = cs,
        manifest_digest = manifest_digest_of cr m, dd_trailing = []\<rparr>,
      er_header = \<lparr>plain_size = of_nat (length plain), content_digest = cr_hash cr plain, dh_nonce = nonce,
        key_seq = ek_seq key, dh_flags = 0, dh_trailing = []\<rparr>, er_manifest = m\<rparr>,
     e\<lparr>de_plain_size := of_nat (length plain), de_content := plain, de_digests := [],
       de_enc_size := of_nat (length (concat (map snd s))), de_out := s, de_chunks := of_nat (length s)\<rparr>)"
proof -
  let ?n = "unat cs" and ?p = "plain @ replicate (padding_of plain) 0"
  have cs: "0 < ?n" and e: "e = \<lparr>de_nonce = nonce, de_data_key = derive_data_key ae (ek_key key) nonce, de_chunk_size = cs,
      de_key_seq = ek_seq key, de_buffer = [], de_content = [], de_digests = [], de_plain_size = 0,
      de_enc_size = 0, de_chunks = 0, de_out = []\<rparr>"
    using assms(1) by (auto simp: data_encryptor_of_def unat_gt_0 split: if_splits)
  have r: "room e" "de_plain_size e = 0" "de_buffer e = []" "de_chunk_size e = cs" using e cs by simp_all
  have "encryptor_pad ae cr (fold (encryptor_write ae cr) pieces e) =
      with_content plain ((emit_all ae cr (full_blocks ?n ?p) e)\<lparr>de_buffer := rest_block ?n ?p\<rparr>)"
    using encryptor_padded [OF r(1,2), of ae cr pieces] assms(2) r by (simp add: consume_eq [OF _ refl])
  then show ?thesis
    unfolding encryptor_finish_def using last_block_emitted [OF cs, where xs = plain and ae = ae and cr = cr and p = ?p and e = e]
    by (simp add: Let_def emit_all_seal content_blocks_def with_content_def s_def m_def e)
qed

subsection \<open>Counting\<close>

lemma length_split: "0 < n \<Longrightarrow> length (split_digests n xs) = length xs div n + (if length xs mod n \<noteq> 0 then 1 else 0)"
proof (induction n xs rule: split_digests.induct)
  case (1 n xs)
  show ?case
  proof (cases "length xs \<le> n")
    case True
    then show ?thesis using "1.prems" by (cases "length xs = n") (auto simp: split_digests.simps [of n xs])
  next
    case False
    then have "length xs div n = Suc ((length xs - n) div n)" "length xs mod n = (length xs - n) mod n"
      using "1.prems" le_div_geq [of n "length xs"] le_mod_geq [of n "length xs"] by simp_all
    then show ?thesis using False 1 by (auto simp: split_digests.simps [of n xs])
  qed
qed

lemma split_nth: "0 < n \<Longrightarrow> i < length (split_digests n xs) \<Longrightarrow> split_digests n xs ! i = take n (drop (i * n) xs)"
proof (induction n xs arbitrary: i rule: split_digests.induct)
  case (1 n xs)
  then have ne: "xs \<noteq> []" by auto
  then have s: "split_digests n xs = take n xs # split_digests n (drop n xs)"
    using "1.prems" by (simp add: split_digests.simps [of n xs])
  show ?case
  proof (cases i)
    case 0
    then show ?thesis by (simp add: s)
  next
    case (Suc j)
    then show ?thesis using "1.IH" [of j] "1.prems" ne by (simp add: s add.commute)
  qed
qed

lemma seal_nth: "i < length bs \<Longrightarrow> seal ae k nonce c bs ! i = (c + of_nat i, encrypt_chunk ae k nonce (c + of_nat i) (bs ! i))"
  by (induction bs arbitrary: c i) (auto simp: nth_Cons' of_nat_diff algebra_simps split: nat.splits)

lemma seal_size: "aead_ok ae \<Longrightarrow> length (concat (map snd (seal ae k nonce c bs))) = length (concat bs) + chunk_tag_size ae * length bs"
  by (induction bs arbitrary: c) (simp_all add: length_encrypt_chunk)

lemma sealed_count:
  fixes n ts :: nat
  assumes "0 < n" "k = len div n + (if len mod n \<noteq> 0 then 1 else 0)"
  shows "(len + ts * k) div (n + ts) + (if (len + ts * k) mod (n + ts) \<noteq> 0 then 1 else 0) = k"
proof -
  let ?q = "len div n" and ?r = "len mod n"
  have len: "len = ?q * n + ?r" by simp
  show ?thesis
  proof (cases "?r = 0")
    case True
    then have "len + ts * k = ?q * (n + ts)" using assms(2) len by (simp add: algebra_simps)
    then show ?thesis using assms True by simp
  next
    case False
    then have "len + ts * k = (?r + ts) + ?q * (n + ts)" using assms(2) len by (simp add: algebra_simps)
    moreover have "?r + ts < n + ts" using assms(1) by simp
    ultimately have "(len + ts * k) div (n + ts) = ?q" "(len + ts * k) mod (n + ts) = ?r + ts"
      by (simp_all only: div_mult_self1 mod_mult_self1) simp_all
    then show ?thesis using assms(2) False by simp
  qed
qed

lemma concat_pieces: "concat (map (\<lambda>i. take n (drop (i * n) xs)) [0..<k]) = take (k * n) xs"
proof (induction k)
  case (Suc k)
  then show ?case by (simp add: take_add add.commute [of n])
qed simp

lemma padding_fits:
  assumes "length plain \<le> 2 ^ 62"
  shows "padding_of plain \<le> length plain + 4096"
proof -
  have u: "unat (of_nat (length plain) :: u64) = length plain"
    using assms by (intro unat_of_nat_small) simp
  show ?thesis
  proof (cases "min_padded_data_size < (of_nat (length plain) :: u64)")
    case True
    have le: "(of_nat (length plain) :: u64) \<le> padded_size (of_nat (length plain)) min_padded_data_size"
      using padding_overhead(1) [OF True] assms u by (simp add: word_le_nat_alt)
    have "(unat (padded_size (of_nat (length plain)) min_padded_data_size) - length plain)
        * 2 ^ bit_width (bit_width (length plain) - 1) \<le> length plain"
      using padding_overhead(2) [OF True] assms u by simp
    then have "unat (padded_size (of_nat (length plain)) min_padded_data_size) - length plain \<le> length plain"
      by (rule order_trans [rotated]) simp
    then show ?thesis using le u by (simp add: padding_of_def word_sub_unat)
  next
    case False
    then have "(of_nat (length plain) :: u64) \<le> min_padded_data_size" by simp
    then show ?thesis using False u
      by (simp add: padding_of_def padded_size_def word_sub_unat) (simp add: min_padded_data_size_def)
  qed
qed

subsection \<open>Reading the chunks back\<close>

lemma content_block_count:
  assumes "cs \<noteq> 0"
  shows "length plain \<le> length (content_blocks cs plain) * unat cs"
    and "length (content_blocks cs plain) \<le> length plain + padding_of plain"
  using assms ceil_div_covers [of "unat cs" "length plain + padding_of plain"]
    ceil_div_bound [of "unat cs" "length plain + padding_of plain"]
  by (auto simp: content_blocks_def length_split unat_gt_0 split: if_splits)

text \<open>The sizes at which no 64 bit count wraps, for a tag of \<open>ts\<close> octets.\<close>

definition stream_fits :: "nat \<Rightarrow> octets \<Rightarrow> bool" where
  "stream_fits ts plain = ((2 * length plain + 4096) * (1 + ts) < 2 ^ 63 \<and> tag_ok ts)"

lemma stream_fits_sizes:
  assumes "stream_fits ts plain" "cs \<noteq> 0"
  defines "k \<equiv> length (content_blocks cs plain)"
  shows "length plain \<le> 2 ^ 62" "length plain + padding_of plain + ts * k < 2 ^ 64" "k < 2 ^ 64" "k * unat cs < 2 ^ 64"
proof -
  have f: "(2 * length plain + 4096) * (1 + ts) < 2 ^ 63" using assms(1) by (simp add: stream_fits_def)
  then have "2 * length plain + 4096 < 2 ^ 63" by (simp add: algebra_simps)
  then show l: "length plain \<le> 2 ^ 62" by simp
  let ?P = "length plain + padding_of plain"
  have P: "?P \<le> 2 * length plain + 4096" using padding_fits [OF l] by simp
  have k: "k \<le> ?P" using content_block_count(2) [OF assms(2)] by (simp add: k_def)
  have "?P + ts * k \<le> ?P * (1 + ts)" using mult_le_mono2 [OF k, of ts] by (simp add: algebra_simps)
  also have "\<dots> \<le> (2 * length plain + 4096) * (1 + ts)" using P by (rule mult_le_mono1)
  finally show t: "?P + ts * k < 2 ^ 64" using f by simp
  have P63: "?P < 2 ^ 63" using P \<open>2 * length plain + 4096 < 2 ^ 63\<close> by simp
  then show "k < 2 ^ 64" using k by simp
  have "k * unat cs \<le> ?P + unat cs"
    using assms(2) by (auto simp: k_def content_blocks_def length_split unat_gt_0 algebra_simps)
  then show "k * unat cs < 2 ^ 64" using P63 unat_less_2_32 [of cs] by simp
qed

lemma stream_chunk_count:
  assumes "aead_ok ae" "stream_fits (chunk_tag_size ae) plain" "cs \<noteq> 0"
    and s_def: "s = seal ae k nonce 0 (content_blocks cs plain)"
    and d: "enc_size d = of_nat (length (concat (map snd s)))" "dd_chunk_size d = cs"
  shows "chunk_count (chunk_tag_size ae) d = of_nat (length (content_blocks cs plain))"
proof -
  let ?ts = "chunk_tag_size ae" and ?k = "length (content_blocks cs plain)" and ?P = "length plain + padding_of plain"
  have n: "0 < unat cs" using assms(3) by (simp add: unat_gt_0)
  have "length (concat (map snd s)) = ?P + ?ts * ?k"
    unfolding s_def seal_size [OF assms(1)] using n by (simp add: content_blocks_def concat_split_digests)
  then have "enc_size d = of_nat (?P + ?ts * ?k)" "?P + ?ts * ?k < 2 ^ LENGTH(64)"
    using d(1) stream_fits_sizes(2) [OF assms(2,3)] by simp_all
  then have "unat (enc_size d) = ?P + ?ts * ?k" by (simp only: unat_of_nat_small)
  then have k: "?k = unat (chunk_count ?ts d)"
    using sealed_count [OF n, of ?k ?P ?ts] assms(2,3) d(2) length_split [OF n]
    by (simp add: unat_chunk_count stream_fits_def content_blocks_def)
  show ?thesis unfolding k by simp
qed

lemma unat_ucast_32: "unat (ucast w :: u64) = unat w" for w :: u32
  using unat_of_nat_small [of "unat w", where 'a = 64] unat_less_2_32 [of w] by simp

lemma decrypt_sealed:
  assumes "aead_ok ae" "stream_fits (chunk_tag_size ae) plain" "cs \<noteq> 0" "i < length (content_blocks cs plain)"
    and "chunk_count (chunk_tag_size ae) (dc_descriptor dc) = of_nat (length (content_blocks cs plain))"
    and "dd_chunk_size (dc_descriptor dc) = cs" "plain_size (dc_header dc) = of_nat (length plain)"
  shows "decryptor_decrypt ae dc (of_nat i)
      (encrypt_chunk ae (dc_data_key dc) (dh_nonce (dc_header dc)) (of_nat i) (content_blocks cs plain ! i))
    = Some (take (unat cs) (drop (i * unat cs) plain))"
proof -
  let ?n = "unat cs" and ?b = "content_blocks cs plain ! i"
  note fits = stream_fits_sizes [OF assms(2,3)]
  have u: "unat (of_nat i :: u64) = i" "unat (of_nat (length (content_blocks cs plain)) :: u64) = length (content_blocks cs plain)"
      "unat (of_nat (length plain) :: u64) = length plain"
    using assms(4) fits(1,3) by (simp_all add: unat_of_nat_small)
  have "i * ?n \<le> length (content_blocks cs plain) * ?n" using assms(4) by (intro mult_le_mono1) simp
  then have "i * ?n < 2 ^ 64" using fits(4) by linarith
  then have start: "unat ((of_nat i :: u64) * ucast cs) = i * ?n"
    using unat_of_nat_small [of "i * ?n", where 'a = 64] by simp
  have keep: "unat (chunk_plain_size dc (of_nat i)) = min (length plain - i * ?n) ?n"
    using start u assms(6,7) by (auto simp: unat_ucast_32 chunk_plain_size_def Let_def word_less_nat_alt word_sub_unat word_le_nat_alt unat_min)
  have "?b = take ?n (drop (i * ?n) (plain @ replicate (padding_of plain) 0))"
    using assms(3,4) by (simp add: content_blocks_def split_nth unat_gt_0)
  then have "take (min (length plain - i * ?n) ?n) ?b = take ?n (drop (i * ?n) plain)"
      "min (length plain - i * ?n) ?n \<le> length ?b"
    by (auto simp: min_def)
  then show ?thesis using assms(1,4,5) u
    by (simp add: decryptor_decrypt_def decrypt_encrypt_chunk word_less_nat_alt Let_def keep not_less min_le_iff_disj del: min_less_iff_disj)
qed

definition read_back :: "aead \<Rightarrow> data_decryptor \<Rightarrow> (u64 \<times> octets) list \<Rightarrow> octets option list" where
  "read_back ae dc out = map (\<lambda>(c, x). decryptor_decrypt ae dc c x) out"

lemma read_back_seal:
  assumes "aead_ok ae" "stream_fits (chunk_tag_size ae) plain" "cs \<noteq> 0"
    and "chunk_count (chunk_tag_size ae) (dc_descriptor dc) = of_nat (length (content_blocks cs plain))"
    and "dd_chunk_size (dc_descriptor dc) = cs" "plain_size (dc_header dc) = of_nat (length plain)"
  shows "read_back ae dc (seal ae (dc_data_key dc) (dh_nonce (dc_header dc)) 0 (content_blocks cs plain)) =
    map (\<lambda>i. Some (take (unat cs) (drop (i * unat cs) plain))) [0..<length (content_blocks cs plain)]"
  by (rule nth_equalityI) (simp_all add: read_back_def seal_nth decrypt_sealed [OF assms(1,2,3) _ assms(4,5,6)])

lemma verify_sealed:
  assumes "(c, x) \<in> set (seal ae k nonce 0 bs)" "length bs < 2 ^ 64"
  shows "verify_chunk cr \<lparr>chunk_digests = map (chunk_digest cr \<circ> snd) (seal ae k nonce 0 bs), dm_trailing = []\<rparr> c x"
proof -
  obtain i where i: "i < length bs" "seal ae k nonce 0 bs ! i = (c, x)" using assms(1) by (auto simp: in_set_conv_nth)
  moreover have "unat (of_nat i :: u64) = i" using i(1) assms(2) by (intro unat_of_nat_small) simp
  ultimately show ?thesis by (auto simp: verify_chunk_def seal_nth)
qed


subsection \<open>A sample cipher\<close>

definition plain_aead :: aead where
  "plain_aead = \<lparr>ae_tag_size = 16, ae_iv_size = 12, ae_key_size = 32, ae_hkdf = \<lambda>n key salt info. take n (key @ salt @ info),
     ae_encrypt = \<lambda>key iv aad p. (p, replicate 16 7), ae_decrypt = \<lambda>key iv aad c. (c, replicate 16 7)\<rparr>"

lemma plain_aead_ok: "aead_ok plain_aead"
  by (simp add: aead_ok_def plain_aead_def)

definition plain_crypto :: crypto where
  "plain_crypto = \<lparr>cr_hash = take 4, cr_sig_valid = \<lambda>s. True, cr_key_id_valid = \<lambda>i. True, cr_key_verify = \<lambda>k s d. True\<rparr>"

definition plain_key :: encryption_key where
  "plain_key = \<lparr>ek_seq = 1, ek_key = [1], ek_trailing = []\<rparr>"


end
