(* ===== verification/Data_Store.thy ===== *)
theory Data_Store
  imports Data_Stream Record_Storage
begin

text \<open>
  The data store (core/data/record_data_store.cpp) over its chunk files (core/data/chunk_files.cpp)
  and the data table. A directory is a map from chunk numbers to the octets of the chunk's file; the
  file of a chunk is complete or absent. The names of the staging areas are random octets, given by
  the caller here. The rows of the table have a non-empty data identifier, so the empty name that
  \<open>data_dir\<close> refuses never reaches it.

  What a disk does behind the store's back is a step of its own (\<open>disk_loses\<close>,
  \<open>disk_rots\<close>), and \<open>io\<close> says whether a file that is there can be read at the moment.
\<close>

section \<open>Chunk files\<close>

type_synonym chunk_dir = "u64 \<rightharpoonup> octets"
type_synonym stage_name = octets

record chunk_files =
  cf_dirs :: "data_id \<rightharpoonup> chunk_dir"
  cf_stages :: "stage_name \<rightharpoonup> chunk_dir"

definition write_file :: "u64 \<Rightarrow> octets \<Rightarrow> chunk_dir option \<Rightarrow> chunk_dir" where
  "write_file chunk_no bytes dir = (case dir of None \<Rightarrow> Map.empty | Some d \<Rightarrow> d)(chunk_no \<mapsto> bytes)"

definition read_file_piece :: "octets \<Rightarrow> u64 \<Rightarrow> u64 \<Rightarrow> octets option" where
  "read_file_piece bytes offset sz =
     (if offset \<le> of_nat (length bytes) \<and> sz \<le> of_nat (length bytes) - offset
      then Some (take (unat sz) (drop (unat offset) bytes)) else None)"

definition cf_file :: "data_id \<Rightarrow> u64 \<Rightarrow> chunk_files \<Rightarrow> octets option" where
  "cf_file i chunk_no f = (case cf_dirs f i of None \<Rightarrow> None | Some d \<Rightarrow> d chunk_no)"

definition cf_write :: "data_id \<Rightarrow> u64 \<Rightarrow> octets \<Rightarrow> chunk_files \<Rightarrow> chunk_files" where
  "cf_write i chunk_no encrypted f = f\<lparr>cf_dirs := (cf_dirs f)(i \<mapsto> write_file chunk_no encrypted (cf_dirs f i))\<rparr>"

definition cf_read :: "bool \<Rightarrow> data_id \<Rightarrow> u64 \<Rightarrow> chunk_files \<Rightarrow> octets option" where
  "cf_read io i chunk_no f = (if io then cf_file i chunk_no f else None)"

definition cf_read_piece :: "bool \<Rightarrow> data_id \<Rightarrow> u64 \<Rightarrow> u64 \<Rightarrow> u64 \<Rightarrow> chunk_files \<Rightarrow> octets option" where
  "cf_read_piece io i chunk_no offset sz f =
     (case cf_file i chunk_no f of Some bytes \<Rightarrow> (if io then read_file_piece bytes offset sz else None) | None \<Rightarrow> None)"

definition cf_has :: "data_id \<Rightarrow> u64 \<Rightarrow> chunk_files \<Rightarrow> bool" where
  "cf_has i chunk_no f = (cf_file i chunk_no f \<noteq> None)"

definition cf_size :: "data_id \<Rightarrow> u64 \<Rightarrow> chunk_files \<Rightarrow> u64 option" where
  "cf_size i chunk_no f = map_option (\<lambda>b. of_nat (length b)) (cf_file i chunk_no f)"

definition cf_remove_chunk :: "data_id \<Rightarrow> u64 \<Rightarrow> chunk_files \<Rightarrow> chunk_files" where
  "cf_remove_chunk i chunk_no f =
     f\<lparr>cf_dirs := (cf_dirs f)(i := map_option (\<lambda>d. d(chunk_no := None)) (cf_dirs f i))\<rparr>"

definition cf_remove :: "data_id \<Rightarrow> chunk_files \<Rightarrow> chunk_files" where
  "cf_remove i f = f\<lparr>cf_dirs := (cf_dirs f)(i := None)\<rparr>"

definition begin_staging :: "stage_name \<Rightarrow> chunk_files \<Rightarrow> chunk_files" where
  "begin_staging stage f = (case cf_stages f stage of
     None \<Rightarrow> f\<lparr>cf_stages := (cf_stages f)(stage \<mapsto> Map.empty)\<rparr> | Some _ \<Rightarrow> f)"

definition write_staged :: "stage_name \<Rightarrow> u64 \<Rightarrow> octets \<Rightarrow> chunk_files \<Rightarrow> chunk_files" where
  "write_staged stage chunk_no encrypted f =
     f\<lparr>cf_stages := (cf_stages f)(stage \<mapsto> write_file chunk_no encrypted (cf_stages f stage))\<rparr>"

definition staged_file :: "stage_name \<Rightarrow> u64 \<Rightarrow> chunk_files \<Rightarrow> octets option" where
  "staged_file stage chunk_no f = (case cf_stages f stage of None \<Rightarrow> None | Some d \<Rightarrow> d chunk_no)"

definition append_staged :: "stage_name \<Rightarrow> u64 \<Rightarrow> octets \<Rightarrow> chunk_files \<Rightarrow> chunk_files" where
  "append_staged stage chunk_no piece f =
     write_staged stage chunk_no (value_or (staged_file stage chunk_no f) [] @ piece) f"

definition staged_size :: "stage_name \<Rightarrow> u64 \<Rightarrow> chunk_files \<Rightarrow> u64 option" where
  "staged_size stage chunk_no f = map_option (\<lambda>b. of_nat (length b)) (staged_file stage chunk_no f)"

definition discard_staging :: "stage_name \<Rightarrow> chunk_files \<Rightarrow> chunk_files" where
  "discard_staging stage f = f\<lparr>cf_stages := (cf_stages f)(stage := None)\<rparr>"

definition adopt_staged_chunk :: "stage_name \<Rightarrow> u64 \<Rightarrow> data_id \<Rightarrow> chunk_files \<Rightarrow> chunk_files result" where
  "adopt_staged_chunk stage chunk_no i f =
     (case staged_file stage chunk_no f of
        None \<Rightarrow> Inl Io
      | Some bytes \<Rightarrow> Inr (discard_staging stage (cf_write i chunk_no bytes f)))"

definition commit_staging :: "stage_name \<Rightarrow> data_id \<Rightarrow> bool \<Rightarrow> chunk_files \<Rightarrow> chunk_files result" where
  "commit_staging stage i replace f =
     (let f1 = (if replace then cf_remove i f else f)
      in if cf_dirs f1 i \<noteq> None then Inr (discard_staging stage f1)
         else case cf_stages f1 stage of
             None \<Rightarrow> Inl Io
           | Some d \<Rightarrow> Inr (discard_staging stage (f1\<lparr>cf_dirs := (cf_dirs f1)(i \<mapsto> d)\<rparr>)))"

definition clear_staging :: "chunk_files \<Rightarrow> chunk_files" where
  "clear_staging f = f\<lparr>cf_stages := Map.empty\<rparr>"

section \<open>The store\<close>

record data_store =
  ds_table :: data_state_table
  ds_files :: chunk_files
  ds_drops :: u64

definition record_data_store_of :: "data_state_table \<Rightarrow> chunk_files \<Rightarrow> data_store" where
  "record_data_store_of t f = \<lparr>ds_table = t, ds_files = clear_staging f, ds_drops = 0\<rparr>"

abbreviation store_find :: "externals \<Rightarrow> data_id \<Rightarrow> data_store \<Rightarrow> data_state_row option" where
  "store_find ex i ds \<equiv> dt_find (ex_tag_size ex) i (ds_table ds)"

definition mark_held :: "data_state_row \<Rightarrow> u64 \<Rightarrow> data_store \<Rightarrow> data_store" where
  "mark_held row chunk_no ds =
     (let have = bm_set (dr_have row) chunk_no True;
          t = dt_set_have (dr_local_id row) have (ds_table ds)
      in ds\<lparr>ds_table := (if bm_complete have \<and> dr_state row \<noteq> ds_upload_pending
           then dt_set_state (dr_local_id row) ds_in_sync t else t)\<rparr>)"

definition drop_chunk :: "data_state_row \<Rightarrow> u64 \<Rightarrow> data_store \<Rightarrow> data_store" where
  "drop_chunk row chunk_no ds =
     (let ds1 = ds\<lparr>ds_drops := ds_drops ds + 1\<rparr>
      in if dr_state row = ds_upload_pending
         then ds1\<lparr>ds_table := dt_set_state (dr_local_id row) ds_invalid (ds_table ds1)\<rparr>
         else ds1\<lparr>ds_files := cf_remove_chunk (manifest_digest (dr_descriptor row)) chunk_no (ds_files ds1),
                ds_table := dt_set_state (dr_local_id row) ds_download_pending
                  (dt_set_have (dr_local_id row) (bm_set (dr_have row) chunk_no False) (ds_table ds1))\<rparr>)"

definition drop_if_lost :: "externals \<Rightarrow> data_state_row \<Rightarrow> u64 \<Rightarrow> data_store \<Rightarrow> data_store" where
  "drop_if_lost ex row chunk_no ds =
     (case cf_size (manifest_digest (dr_descriptor row)) chunk_no (ds_files ds) of
        None \<Rightarrow> drop_chunk row chunk_no ds
      | Some on_disk \<Rightarrow>
          (if on_disk < chunk_enc_size (ex_tag_size ex) (dr_descriptor row) chunk_no then drop_chunk row chunk_no ds else ds))"

definition read_chunk :: "externals \<Rightarrow> bool \<Rightarrow> data_id \<Rightarrow> u64 \<Rightarrow> data_store \<Rightarrow> octets option \<times> data_store" where
  "read_chunk ex io i chunk_no ds =
     (case store_find ex i ds of
        Some row \<Rightarrow>
          (if bm_test (dr_have row) chunk_no
           then case cf_read io i chunk_no (ds_files ds) of
               Some b \<Rightarrow> (Some b, ds)
             | None \<Rightarrow> (None, drop_if_lost ex row chunk_no ds)
           else (None, ds))
      | None \<Rightarrow> (None, ds))"

definition chunk_failed :: "externals \<Rightarrow> data_id \<Rightarrow> u64 \<Rightarrow> octets \<Rightarrow> data_store \<Rightarrow> data_store" where
  "chunk_failed ex i chunk_no encrypted ds =
     (case store_find ex i ds of
        None \<Rightarrow> ds
      | Some row \<Rightarrow>
          (case dt_manifest (ex_hash_size ex) (dr_local_id row) (ds_table ds) of
             Some m \<Rightarrow>
               (if \<not> verify_chunk (ex_cr ex) m chunk_no encrypted then drop_chunk row chunk_no ds
                else ds\<lparr>ds_table := dt_set_state (dr_local_id row) ds_invalid (ds_table ds)\<rparr>)
           | None \<Rightarrow> ds\<lparr>ds_table := dt_set_state (dr_local_id row) ds_invalid (ds_table ds)\<rparr>))"

definition register_held ::
  "externals \<Rightarrow> stage_name \<Rightarrow> encrypted_data_result \<Rightarrow> record_data_state \<Rightarrow> bool \<Rightarrow> data_store \<Rightarrow> error option \<times> data_store" where
  "register_held ex stage res state replace ds =
     (let d = er_descriptor res; ts = ex_tag_size ex
      in case dt_ensure ts d (ds_table ds) of
          Inl e \<Rightarrow> (Some e, ds)
        | Inr (local_id, t) \<Rightarrow>
            (let ds1 = ds\<lparr>ds_table := dt_set_header local_id (er_header res) (dt_set_manifest local_id (er_manifest res) t)\<rparr>
             in case commit_staging stage (manifest_digest d) replace (ds_files ds1) of
                 Inl e \<Rightarrow> (Some e, ds1)
               | Inr f \<Rightarrow> (None, ds1\<lparr>ds_files := f, ds_table := dt_set_state local_id state
                   (dt_set_have local_id (bm_set_all (have_none (chunk_count ts d))) (ds_table ds1))\<rparr>)))"

definition add_chunk :: "data_state_row \<Rightarrow> u64 \<Rightarrow> octets \<Rightarrow> data_store \<Rightarrow> data_store" where
  "add_chunk row chunk_no encrypted ds =
     (if \<not> bm_test (dr_have row) chunk_no
      then mark_held row chunk_no (ds\<lparr>ds_files := cf_write (manifest_digest (dr_descriptor row)) chunk_no encrypted (ds_files ds)\<rparr>)
      else ds)"

definition adopt_chunk :: "externals \<Rightarrow> data_id \<Rightarrow> u64 \<Rightarrow> stage_name \<Rightarrow> data_store \<Rightarrow> (bool \<times> data_store) result" where
  "adopt_chunk ex i chunk_no stage ds =
     (let discarded = ds\<lparr>ds_files := discard_staging stage (ds_files ds)\<rparr>
      in case store_find ex i ds of
          None \<Rightarrow> Inr (False, discarded)
        | Some row \<Rightarrow>
            (if \<not> bm_test (dr_have row) chunk_no
             then bind_result (adopt_staged_chunk stage chunk_no i (ds_files ds)) (\<lambda>f.
                    Inr (True, mark_held row chunk_no (ds\<lparr>ds_files := f\<rparr>)))
             else Inr (True, discarded)))"

definition read_piece :: "externals \<Rightarrow> bool \<Rightarrow> data_id \<Rightarrow> u64 \<Rightarrow> u64 \<Rightarrow> u64 \<Rightarrow> data_store \<Rightarrow> octets option \<times> data_store" where
  "read_piece ex io i chunk_no offset sz ds =
     (case store_find ex i ds of
        Some row \<Rightarrow>
          (if bm_test (dr_have row) chunk_no \<and> chunk_holds_range (ex_tag_size ex) (dr_descriptor row) chunk_no offset sz
           then case cf_read_piece io i chunk_no offset sz (ds_files ds) of
               Some b \<Rightarrow> (Some b, ds)
             | None \<Rightarrow> (None, drop_if_lost ex row chunk_no ds)
           else (None, ds))
      | None \<Rightarrow> (None, ds))"

definition drop_chunks :: "data_state_row \<Rightarrow> record_data_state \<Rightarrow> data_store \<Rightarrow> data_store" where
  "drop_chunks row state ds =
     ds\<lparr>ds_drops := ds_drops ds + 1, ds_files := cf_remove (manifest_digest (dr_descriptor row)) (ds_files ds),
        ds_table := dt_set_state (dr_local_id row) state (dt_set_have (dr_local_id row) (bm_clear (dr_have row)) (ds_table ds))\<rparr>"

definition evict_data :: "externals \<Rightarrow> data_id \<Rightarrow> data_store \<Rightarrow> bool \<times> data_store" where
  "evict_data ex i ds =
     (case store_find ex i ds of
        Some row \<Rightarrow>
          (if dr_state row \<noteq> ds_upload_pending
           then let held = (dr_state row = ds_in_sync \<or> dr_state row = ds_removed)
                in (True, drop_chunks row (if held then ds_removed else dr_state row) ds)
           else (False, ds))
      | None \<Rightarrow> (False, ds))"

definition store_set_state :: "externals \<Rightarrow> data_id \<Rightarrow> record_data_state \<Rightarrow> data_store \<Rightarrow> data_store" where
  "store_set_state ex i state ds =
     (case store_find ex i ds of
        Some row \<Rightarrow> ds\<lparr>ds_table := dt_set_state (dr_local_id row) state (ds_table ds)\<rparr>
      | None \<Rightarrow> ds)"

definition store_prune :: "externals \<Rightarrow> data_id \<Rightarrow> data_store \<Rightarrow> bool \<times> data_store" where
  "store_prune ex i ds =
     (case store_find ex i ds of Some row \<Rightarrow> (True, drop_chunks row ds_pruned ds) | None \<Rightarrow> (False, ds))"

definition store_remove_one :: "externals \<Rightarrow> data_id \<Rightarrow> nat \<times> data_store \<Rightarrow> nat \<times> data_store" where
  "store_remove_one ex i s =
     (case store_find ex i (snd s) of
        Some row \<Rightarrow> (Suc (fst s), (snd s)\<lparr>ds_drops := ds_drops (snd s) + 1, ds_files := cf_remove i (ds_files (snd s)),
          ds_table := dt_remove (dr_local_id row) (ds_table (snd s))\<rparr>)
      | None \<Rightarrow> s)"

definition store_remove :: "externals \<Rightarrow> data_id list \<Rightarrow> data_store \<Rightarrow> nat \<times> data_store" where
  "store_remove ex ids ds = fold (store_remove_one ex) ids (0, ds)"

definition store_set_manifest :: "externals \<Rightarrow> data_id \<Rightarrow> data_manifest \<Rightarrow> data_store \<Rightarrow> bool \<times> data_store" where
  "store_set_manifest ex i m ds =
     (case store_find ex i ds of
        Some row \<Rightarrow>
          (if manifest_matches (ex_cr ex) (ex_tag_size ex) (dr_descriptor row) m
           then (True, ds\<lparr>ds_table := dt_set_manifest (dr_local_id row) m (ds_table ds)\<rparr>) else (False, ds))
      | None \<Rightarrow> (False, ds))"

definition register_data_manifest ::
  "externals \<Rightarrow> data_descriptor \<Rightarrow> data_manifest \<Rightarrow> data_store \<Rightarrow> (data_state_row option \<times> data_store) result" where
  "register_data_manifest ex d m ds =
     (if usable_data_descriptor (ex_tag_size ex) d \<and> manifest_matches (ex_cr ex) (ex_tag_size ex) d m
      then bind_result (dt_ensure (ex_tag_size ex) d (ds_table ds)) (\<lambda>(local_id, t).
             case dt_find_local (ex_tag_size ex) local_id t of
               Some row \<Rightarrow>
                 (if dr_descriptor row = d then Inr (Some row, ds\<lparr>ds_table := dt_set_manifest local_id m t\<rparr>)
                  else Inr (None, ds\<lparr>ds_table := t\<rparr>))
             | None \<Rightarrow> Inr (None, ds\<lparr>ds_table := t\<rparr>))
      else Inr (None, ds))"

definition register_data :: "externals \<Rightarrow> data_descriptor \<Rightarrow> data_store \<Rightarrow> (data_state_row option \<times> data_store) result" where
  "register_data ex d ds =
     (if usable_data_descriptor (ex_tag_size ex) d
      then bind_result (dt_ensure (ex_tag_size ex) d (ds_table ds)) (\<lambda>(local_id, t).
             Inr (case dt_find_local (ex_tag_size ex) local_id t of
                 Some row \<Rightarrow> (if dr_descriptor row = d then Some row else None)
               | None \<Rightarrow> None, ds\<lparr>ds_table := t\<rparr>))
      else Inr (None, ds))"

definition store_manifest :: "externals \<Rightarrow> data_id \<Rightarrow> data_store \<Rightarrow> data_manifest option" where
  "store_manifest ex i ds =
     (case store_find ex i ds of
        Some row \<Rightarrow> dt_manifest (ex_hash_size ex) (dr_local_id row) (ds_table ds)
      | None \<Rightarrow> None)"

definition store_has_manifest :: "externals \<Rightarrow> data_id \<Rightarrow> data_store \<Rightarrow> bool" where
  "store_has_manifest ex i ds =
     (case store_find ex i ds of Some row \<Rightarrow> dt_has_manifest (dr_local_id row) (ds_table ds) | None \<Rightarrow> False)"

definition store_chunk :: "externals \<Rightarrow> data_id \<Rightarrow> u64 \<Rightarrow> octets \<Rightarrow> data_store \<Rightarrow> bool \<times> data_store" where
  "store_chunk ex i chunk_no encrypted ds =
     (case store_manifest ex i ds of
        Some m \<Rightarrow>
          (if verify_chunk (ex_cr ex) m chunk_no encrypted
           then case store_find ex i ds of
               Some row \<Rightarrow> (True, add_chunk row chunk_no encrypted ds)
             | None \<Rightarrow> (False, ds)
           else (False, ds))
      | None \<Rightarrow> (False, ds))"

section \<open>A chunk on its way in\<close>

record incoming_chunk =
  ic_id :: data_id
  ic_chunk_no :: u64
  ic_expected_size :: u64
  ic_expected_digest :: digest
  ic_stage :: stage_name
  ic_hashed :: octets
  ic_received :: u64
  ic_open :: bool

definition begin_chunk :: "externals \<Rightarrow> stage_name \<Rightarrow> data_id \<Rightarrow> u64 \<Rightarrow> data_store \<Rightarrow> incoming_chunk option \<times> data_store" where
  "begin_chunk ex stage i chunk_no ds =
     (case store_find ex i ds of
        None \<Rightarrow> (None, ds)
      | Some row \<Rightarrow>
          (case (if chunk_no < chunk_count (ex_tag_size ex) (dr_descriptor row)
                 then dt_chunk_digest (ex_hash_size ex) (dr_local_id row) (unat chunk_no) (ds_table ds) else None) of
             None \<Rightarrow> (None, ds)
           | Some dig \<Rightarrow>
               (Some \<lparr>ic_id = i, ic_chunk_no = chunk_no, ic_expected_size = chunk_enc_size (ex_tag_size ex) (dr_descriptor row) chunk_no,
                  ic_expected_digest = dig, ic_stage = stage, ic_hashed = [], ic_received = 0, ic_open = True\<rparr>,
                ds\<lparr>ds_files := begin_staging stage (ds_files ds)\<rparr>)))"

definition chunk_discard :: "incoming_chunk \<Rightarrow> data_store \<Rightarrow> incoming_chunk \<times> data_store" where
  "chunk_discard ic ds =
     (if ic_open ic then (ic\<lparr>ic_open := False\<rparr>, ds\<lparr>ds_files := discard_staging (ic_stage ic) (ds_files ds)\<rparr>) else (ic, ds))"

definition chunk_append ::
  "bool \<Rightarrow> u64 \<Rightarrow> octets \<Rightarrow> incoming_chunk \<Rightarrow> data_store \<Rightarrow> bool result \<times> incoming_chunk \<times> data_store" where
  "chunk_append io offset piece ic ds =
     (if ic_open ic \<and> offset = ic_received ic \<and> piece \<noteq> [] \<and> of_nat (length piece) \<le> ic_expected_size ic - ic_received ic
      then if io
           then (Inr True, ic\<lparr>ic_hashed := ic_hashed ic @ piece, ic_received := ic_received ic + of_nat (length piece)\<rparr>,
                 ds\<lparr>ds_files := append_staged (ic_stage ic) (ic_chunk_no ic) piece (ds_files ds)\<rparr>)
           else (Inl Io, chunk_discard ic ds)
      else (Inr False, chunk_discard ic ds))"

definition chunk_finish :: "externals \<Rightarrow> incoming_chunk \<Rightarrow> data_store \<Rightarrow> bool result \<times> incoming_chunk \<times> data_store" where
  "chunk_finish ex ic ds =
     (if ic_open ic \<and> ic_received ic = ic_expected_size ic \<and> cr_hash (ex_cr ex) (ic_hashed ic) = ic_expected_digest ic
         \<and> staged_size (ic_stage ic) (ic_chunk_no ic) (ds_files ds) = Some (ic_expected_size ic)
      then let ic1 = ic\<lparr>ic_open := False\<rparr>
           in case adopt_chunk ex (ic_id ic) (ic_chunk_no ic) (ic_stage ic) ds of
               Inl e \<Rightarrow> (Inl e, ic1, ds)
             | Inr (ok, ds1) \<Rightarrow> (Inr ok, ic1, ds1)
      else (Inr False, chunk_discard ic ds))"

section \<open>Reading a data\<close>

record stored_record_data =
  sd_local_id :: nat
  sd_id :: data_id
  sd_plain_size :: u64
  sd_chunk_size :: u64
  sd_decryptors :: "data_decryptor list"
  sd_cached_no :: "u64 option"
  sd_cached :: octets
  sd_cached_at_drops :: u64

definition store_open ::
  "externals \<Rightarrow> aead \<Rightarrow> encryption_key list \<Rightarrow> data_descriptor \<Rightarrow> data_header \<Rightarrow> data_store
    \<Rightarrow> (stored_record_data option \<times> data_store) result" where
  "store_open ex ae group_keys d h ds =
     (if group_keys = [] then Inl (Sync no_encryption_key_found)
      else if \<not> usable_data_descriptor (ex_tag_size ex) d then Inr (None, ds)
      else bind_result (dt_ensure (ex_tag_size ex) d (ds_table ds)) (\<lambda>(local_id, t).
        case dt_find_local (ex_tag_size ex) local_id t of
          Some row \<Rightarrow>
            (if dr_descriptor row = d
             then Inr (Some \<lparr>sd_local_id = local_id, sd_id = manifest_digest d, sd_plain_size = plain_size h,
                    sd_chunk_size = ucast (dd_chunk_size d), sd_decryptors = map (\<lambda>key. data_decryptor_of ae key d h) group_keys,
                    sd_cached_no = None, sd_cached = [], sd_cached_at_drops = 0\<rparr>,
                  ds\<lparr>ds_table := (if dt_header local_id t = None then dt_set_header local_id h t else t)\<rparr>)
             else Inr (None, ds\<lparr>ds_table := t\<rparr>))
        | None \<Rightarrow> Inr (None, ds\<lparr>ds_table := t\<rparr>)))"

text \<open>The position of the first key candidate that opens the chunk, and what it gives.\<close>

fun try_decryptors :: "aead \<Rightarrow> u64 \<Rightarrow> octets \<Rightarrow> nat \<Rightarrow> data_decryptor list \<Rightarrow> (nat \<times> octets) option" where
  "try_decryptors ae chunk_no encrypted i [] = None"
| "try_decryptors ae chunk_no encrypted i (dc # dcs) =
     (case decryptor_decrypt ae dc chunk_no encrypted of
        Some p \<Rightarrow> Some (i, p)
      | None \<Rightarrow> try_decryptors ae chunk_no encrypted (Suc i) dcs)"

definition handle_decrypt :: "aead \<Rightarrow> u64 \<Rightarrow> octets \<Rightarrow> stored_record_data \<Rightarrow> octets option \<times> stored_record_data" where
  "handle_decrypt ae chunk_no encrypted h =
     (case try_decryptors ae chunk_no encrypted 0 (sd_decryptors h) of
        Some (i, p) \<Rightarrow> (Some p, h\<lparr>sd_decryptors := (sd_decryptors h)[0 := sd_decryptors h ! i, i := sd_decryptors h ! 0]\<rparr>)
      | None \<Rightarrow> (None, h))"

definition handle_load ::
  "externals \<Rightarrow> aead \<Rightarrow> bool \<Rightarrow> u64 \<Rightarrow> stored_record_data \<times> data_store \<Rightarrow> bool \<times> stored_record_data \<times> data_store" where
  "handle_load ex ae io chunk_no s =
     (let ds = snd s;
          h = (if ds_drops ds \<noteq> sd_cached_at_drops (fst s)
               then (fst s)\<lparr>sd_cached_no := None, sd_cached := [], sd_cached_at_drops := ds_drops ds\<rparr> else fst s)
      in if sd_cached_no h = Some chunk_no then (True, h, ds)
         else case read_chunk ex io (sd_id h) chunk_no ds of
             (Some encrypted, ds1) \<Rightarrow>
               (case handle_decrypt ae chunk_no encrypted h of
                  (Some plain, h1) \<Rightarrow> (True, h1\<lparr>sd_cached := plain, sd_cached_no := Some chunk_no\<rparr>, ds1)
                | (None, h1) \<Rightarrow> (False, h1, chunk_failed ex (sd_id h) chunk_no encrypted ds1))
           | (None, ds1) \<Rightarrow> (False, h, ds1))"

definition copy_cached :: "u64 \<Rightarrow> u64 \<Rightarrow> stored_record_data \<Rightarrow> octets" where
  "copy_cached in_chunk mx h =
     (if in_chunk < of_nat (length (sd_cached h)) then take (unat mx) (drop (unat in_chunk) (sd_cached h)) else [])"

text \<open>One round of the loop of \<open>read\<close>: what is copied out at a position.\<close>

definition read_at ::
  "externals \<Rightarrow> aead \<Rightarrow> bool \<Rightarrow> u64 \<Rightarrow> u64 \<Rightarrow> stored_record_data \<times> data_store \<Rightarrow> octets \<times> stored_record_data \<times> data_store" where
  "read_at ex ae io pos mx s =
     (let cs = sd_chunk_size (fst s); (ok, h, ds) = handle_load ex ae io (pos div cs) s
      in (if ok then copy_cached (pos mod cs) mx h else [], h, ds))"

lemma advance_less: "xs \<noteq> [] \<Longrightarrow> p < n \<Longrightarrow> n - (p + length xs) < n - p"
  by (cases xs) auto

lemma length_copy_cached: "length (copy_cached c mx h) \<le> unat mx"
  by (simp add: copy_cached_def)

lemma length_read_at: "length (fst (read_at ex ae io pos mx s)) \<le> unat mx"
  by (auto simp: read_at_def Let_def length_copy_cached split: prod.splits)

function handle_read_loop ::
  "externals \<Rightarrow> aead \<Rightarrow> bool \<Rightarrow> u64 \<Rightarrow> octets \<Rightarrow> u64 \<Rightarrow> stored_record_data \<times> data_store \<Rightarrow> octets \<times> stored_record_data \<times> data_store" where
  "handle_read_loop ex ae io offset buf sz s =
     (if length buf < unat sz \<and> offset + of_nat (length buf) < sd_plain_size (fst s)
      then let r = read_at ex ae io (offset + of_nat (length buf)) (sz - of_nat (length buf)) s
           in if fst r = [] then (buf, snd r) else handle_read_loop ex ae io offset (buf @ fst r) sz (snd r)
      else (buf, s))"
  by pat_completeness auto
termination
  by (relation "measure (\<lambda>(ex, ae, io, offset, buf, sz, s). unat sz - length buf)") (simp_all add: advance_less)

declare handle_read_loop.simps [simp del]

definition handle_read ::
  "externals \<Rightarrow> aead \<Rightarrow> bool \<Rightarrow> u64 \<Rightarrow> u64 \<Rightarrow> stored_record_data \<times> data_store \<Rightarrow> octets \<times> stored_record_data \<times> data_store" where
  "handle_read ex ae io offset sz s =
     (if sd_chunk_size (fst s) \<noteq> 0 then handle_read_loop ex ae io offset [] sz s else ([], s))"

fun handle_available_loop :: "have_bitmap \<Rightarrow> data_decryptor \<Rightarrow> nat \<Rightarrow> u64" where
  "handle_available_loop have dc 0 = 0"
| "handle_available_loop have dc (Suc n) =
     handle_available_loop have dc n + (if bm_test have (of_nat n) then chunk_plain_size dc (of_nat n) else 0)"

definition handle_available_size :: "externals \<Rightarrow> stored_record_data \<times> data_store \<Rightarrow> u64" where
  "handle_available_size ex s =
     (case store_find ex (sd_id (fst s)) (snd s) of
        Some row \<Rightarrow> handle_available_loop (dr_have row) (hd (sd_decryptors (fst s))) (unat (hb_chunk_count (dr_have row)))
      | None \<Rightarrow> 0)"

definition handle_write :: "stored_record_data \<Rightarrow> octets \<Rightarrow> u64 result" where
  "handle_write h bytes = Inl (Sync constraint_violation)"

definition handle_state :: "externals \<Rightarrow> stored_record_data \<times> data_store \<Rightarrow> record_data_state" where
  "handle_state ex s = (case store_find ex (sd_id (fst s)) (snd s) of Some row \<Rightarrow> dr_state row | None \<Rightarrow> ds_invalid)"

definition handle_set_state ::
  "externals \<Rightarrow> record_data_state \<Rightarrow> stored_record_data \<times> data_store \<Rightarrow> stored_record_data \<times> data_store" where
  "handle_set_state ex state s =
     (case store_find ex (sd_id (fst s)) (snd s) of
        Some row \<Rightarrow> (fst s, (snd s)\<lparr>ds_table := dt_set_state (dr_local_id row) state (ds_table (snd s))\<rparr>)
      | None \<Rightarrow> s)"

definition handle_remove_data :: "externals \<Rightarrow> stored_record_data \<times> data_store \<Rightarrow> stored_record_data \<times> data_store" where
  "handle_remove_data ex s =
     (case evict_data ex (sd_id (fst s)) (snd s) of
        (True, ds) \<Rightarrow> ((fst s)\<lparr>sd_cached_no := None, sd_cached := []\<rparr>, ds)
      | (False, ds) \<Rightarrow> (fst s, ds))"

section \<open>Sources\<close>

text \<open>
  A source is a size and a read function over a state. \<open>stream_record_data\<close> hands its pieces to a
  write function over the same state; the Boolean says whether the source ended before its size.
\<close>

definition memory_read :: "octets \<Rightarrow> u64 \<Rightarrow> u64 \<Rightarrow> octets" where
  "memory_read bytes offset sz =
     (if offset < of_nat (length bytes) then take (unat (min sz (of_nat (length bytes) - offset))) (drop (unat offset) bytes) else [])"

definition memory_write :: "u64 \<Rightarrow> octets \<Rightarrow> octets \<Rightarrow> u64 \<times> octets" where
  "memory_write offset buf bytes =
     (if offset \<le> of_nat (length bytes) \<and> buf \<noteq> []
      then (of_nat (length buf), take (unat offset) bytes @ buf @ drop (unat offset + length buf) bytes)
      else (0, bytes))"

text \<open>The source of a file keeps the size the file had; the file may be shorter by now.\<close>

definition file_read :: "u64 \<Rightarrow> octets \<Rightarrow> u64 \<Rightarrow> u64 \<Rightarrow> octets" where
  "file_read size_then bytes offset sz =
     (if offset < size_then then take (unat (min sz (size_then - offset))) (drop (unat offset) bytes) else [])"

definition file_write :: "octets \<Rightarrow> u64 result" where
  "file_write buf = Inl (Sync constraint_violation)"

function stream_loop ::
  "(u64 \<Rightarrow> u64 \<Rightarrow> 'st \<Rightarrow> octets \<times> 'st) \<Rightarrow> (octets \<Rightarrow> 'st \<Rightarrow> 'st) \<Rightarrow> nat \<Rightarrow> nat \<Rightarrow> nat \<Rightarrow> 'st \<Rightarrow> bool \<times> 'st" where
  "stream_loop rd wr piece total_size pos st =
     (if pos < total_size
      then let r = rd (of_nat pos) (of_nat (min piece (total_size - pos))) st
           in if fst r = [] then (False, snd r) else stream_loop rd wr piece total_size (pos + length (fst r)) (wr (fst r) (snd r))
      else (True, st))"
  by pat_completeness auto
termination
  by (relation "measure (\<lambda>(rd, wr, piece, total_size, pos, st). total_size - pos)") (simp_all add: advance_less)

declare stream_loop.simps [simp del]

definition stream_record_data ::
  "(u64 \<Rightarrow> u64 \<Rightarrow> 'st \<Rightarrow> octets \<times> 'st) \<Rightarrow> (octets \<Rightarrow> 'st \<Rightarrow> 'st) \<Rightarrow> u64 \<Rightarrow> 'st \<Rightarrow> error option \<times> 'st" where
  "stream_record_data rd wr total_size st =
     (case stream_loop rd wr (min (unat total_size) (256 * 1024)) (unat total_size) 0 st of
        (True, st1) \<Rightarrow> (None, st1)
      | (False, st1) \<Rightarrow> (Some (General general_invalid_data), st1))"

section \<open>Writing a data\<close>

record data_writer =
  dw_stage :: stage_name
  dw_encryptor :: "data_encryptor option"

text \<open>The sink of the encryptor: what it emitted beyond \<open>before\<close> goes to the staging area.\<close>

definition stage_emitted :: "stage_name \<Rightarrow> data_encryptor \<Rightarrow> data_encryptor \<Rightarrow> data_store \<Rightarrow> data_store" where
  "stage_emitted stage before after ds =
     ds\<lparr>ds_files := fold (\<lambda>(c, x). write_staged stage c x) (drop (length (de_out before)) (de_out after)) (ds_files ds)\<rparr>"

definition store_create :: "aead \<Rightarrow> stage_name \<Rightarrow> octets \<Rightarrow> encryption_key \<Rightarrow> u32 \<Rightarrow> data_store \<Rightarrow> data_writer result \<times> data_store" where
  "store_create ae stage nonce group_key chunk_size ds =
     (let ds1 = ds\<lparr>ds_files := begin_staging stage (ds_files ds)\<rparr>
      in case data_encryptor_of ae group_key chunk_size nonce of
          Inl e \<Rightarrow> (Inl e, ds1\<lparr>ds_files := discard_staging stage (ds_files ds1)\<rparr>)
        | Inr enc \<Rightarrow> (Inr \<lparr>dw_stage = stage, dw_encryptor = Some enc\<rparr>, ds1))"

definition writer_drop :: "data_writer \<Rightarrow> data_store \<Rightarrow> data_store" where
  "writer_drop w ds =
     (if dw_encryptor w \<noteq> None then ds\<lparr>ds_files := discard_staging (dw_stage w) (ds_files ds)\<rparr> else ds)"

definition writer_write ::
  "externals \<Rightarrow> aead \<Rightarrow> octets \<Rightarrow> data_writer \<times> data_store \<Rightarrow> error option \<times> data_writer \<times> data_store" where
  "writer_write ex ae plain s =
     (case dw_encryptor (fst s) of
        None \<Rightarrow> (Some (General general_invalid_state), s)
      | Some enc \<Rightarrow>
          (let enc1 = encryptor_write ae (ex_cr ex) plain enc
           in (None, (fst s)\<lparr>dw_encryptor := Some enc1\<rparr>, stage_emitted (dw_stage (fst s)) enc enc1 (snd s))))"

definition writer_finish ::
  "externals \<Rightarrow> aead \<Rightarrow> data_writer \<times> data_store \<Rightarrow> encrypted_data_result result \<times> data_writer \<times> data_store" where
  "writer_finish ex ae s =
     (case dw_encryptor (fst s) of
        None \<Rightarrow> (Inl (General general_invalid_state), s)
      | Some enc \<Rightarrow>
          (let (res, enc1) = encryptor_finish ae (ex_cr ex) enc;
               ds1 = stage_emitted (dw_stage (fst s)) enc enc1 (snd s)
           in case register_held ex (dw_stage (fst s)) res ds_upload_pending False ds1 of
               (Some e, ds2) \<Rightarrow> (Inl e, (fst s)\<lparr>dw_encryptor := Some enc1\<rparr>, ds2)
             | (None, ds2) \<Rightarrow> (Inr res, (fst s)\<lparr>dw_encryptor := None\<rparr>, ds2)))"

text \<open>A source copied into a writer; the state is the source's, the writer's and the store's.\<close>

definition copy_record_data ::
  "externals \<Rightarrow> aead \<Rightarrow> (u64 \<Rightarrow> u64 \<Rightarrow> octets) \<Rightarrow> u64 \<Rightarrow> data_writer \<times> data_store \<Rightarrow> error option \<times> data_writer \<times> data_store" where
  "copy_record_data ex ae rd total_size s =
     (if dw_encryptor (fst s) = None \<and> total_size \<noteq> 0 \<and> rd 0 (min total_size (256 * 1024)) \<noteq> []
      then (Some (General general_invalid_state), s)
      else stream_record_data (\<lambda>pos n st. (rd pos n, st)) (\<lambda>piece st. snd (writer_write ex ae piece st)) total_size s)"

section \<open>Content held under another identifier\<close>

record held_content =
  hc_descriptor :: data_descriptor
  hc_header :: data_header

definition find_content :: "externals \<Rightarrow> digest \<Rightarrow> data_id \<Rightarrow> data_store \<Rightarrow> held_content option" where
  "find_content ex dig other_than ds =
     fold (\<lambda>row ret.
       (case (ret, dt_header (dr_local_id row) (ds_table ds)) of
          (None, Some h) \<Rightarrow>
            (if bm_complete (dr_have row) \<and> manifest_digest (dr_descriptor row) \<noteq> other_than \<and> dr_state row \<noteq> ds_invalid
             then Some \<lparr>hc_descriptor = dr_descriptor row, hc_header = h\<rparr> else None)
        | _ \<Rightarrow> ret)) (dt_find_by_content (ex_tag_size ex) dig (ds_table ds)) None"

text \<open>The state of an adoption: the source's handle, the encryptor and the store.\<close>

definition adopt_content ::
  "externals \<Rightarrow> aead \<Rightarrow> bool \<Rightarrow> stage_name \<Rightarrow> stored_record_data \<Rightarrow> encryption_key \<Rightarrow> data_descriptor \<Rightarrow> data_header \<Rightarrow> data_store
    \<Rightarrow> bool result \<times> stored_record_data \<times> data_store" where
  "adopt_content ex ae io stage source group_key wanted wanted_header ds =
     (if sd_plain_size source = plain_size wanted_header \<and> dd_chunk_size wanted \<noteq> 0
      then let ds1 = ds\<lparr>ds_files := begin_staging stage (ds_files ds)\<rparr>;
               discard = (\<lambda>d. d\<lparr>ds_files := discard_staging stage (ds_files d)\<rparr>)
           in case data_encryptor_of ae group_key (dd_chunk_size wanted) (dh_nonce wanted_header) of
               Inl e \<Rightarrow> (Inl e, source, discard ds1)
             | Inr enc \<Rightarrow>
                 (case stream_record_data
                      (\<lambda>pos n (h, en, d). let (b, h1, d1) = handle_read ex ae io pos n (h, d) in (b, h1, en, d1))
                      (\<lambda>piece (h, en, d). let en1 = encryptor_write ae (ex_cr ex) piece en in (h, en1, stage_emitted stage en en1 d))
                      (sd_plain_size source) (source, enc, ds1) of
                    (Some e, h, en, d) \<Rightarrow> (Inl e, h, discard d)
                  | (None, h, en, d) \<Rightarrow>
                      (let (res, en1) = encryptor_finish ae (ex_cr ex) en; d1 = stage_emitted stage en en1 d
                       in if er_descriptor res = wanted \<and> content_digest (er_header res) = content_digest wanted_header
                          then case register_held ex stage res ds_in_sync True d1 of
                              (Some e, d2) \<Rightarrow> (Inl e, h, discard d2)
                            | (None, d2) \<Rightarrow> (Inr True, h, d2)
                          else (Inr False, h, discard d1)))
      else (Inr False, source, ds))"

section \<open>What the disk does\<close>

definition disk_loses :: "data_id \<Rightarrow> u64 \<Rightarrow> data_store \<Rightarrow> data_store" where
  "disk_loses i chunk_no ds = ds\<lparr>ds_files := cf_remove_chunk i chunk_no (ds_files ds)\<rparr>"

definition disk_rots :: "data_id \<Rightarrow> u64 \<Rightarrow> octets \<Rightarrow> data_store \<Rightarrow> data_store" where
  "disk_rots i chunk_no bytes ds = ds\<lparr>ds_files := cf_write i chunk_no bytes (ds_files ds)\<rparr>"

end
