(* ===== verification/Data_Store_Invariant.thy ===== *)
theory Data_Store_Invariant
  imports Data_Store
begin

text \<open>
  What the data store promises of its files. A data identifier is the digest of the manifest, so it
  commits to the chunks: a file is a chunk of the data when its digest is the entry of a manifest
  with that digest. The invariant says that every chunk a row of the table claims to hold is on
  disk and is a chunk of its data. The manifests that ever occur are a set on which the digest has
  no collision.
\<close>

section \<open>The invariant\<close>

definition names_chunk :: "externals \<Rightarrow> octets set \<Rightarrow> data_id \<Rightarrow> u64 \<Rightarrow> octets \<Rightarrow> bool" where
  "names_chunk ex U i c x = (\<exists>b\<in>U. cr_hash (ex_cr ex) b = i
     \<and> cr_hash (ex_cr ex) x = take (ex_hash_size ex) (drop (unat c * ex_hash_size ex) b))"

definition row_held :: "externals \<Rightarrow> data_table_row \<Rightarrow> u64 \<Rightarrow> bool" where
  "row_held ex r c = bm_test (dr_have (extract_row (ex_tag_size ex) r)) c"

definition row_ok :: "externals \<Rightarrow> octets set \<Rightarrow> chunk_files \<Rightarrow> data_table_row \<Rightarrow> bool" where
  "row_ok ex U f r = ((\<forall>b. tr_digests r = Some b \<longrightarrow> b \<in> U \<and> cr_hash (ex_cr ex) b = tr_data_id r)
     \<and> (\<forall>c. row_held ex r c \<longrightarrow> (\<exists>x. cf_file (tr_data_id r) c f = Some x \<and> names_chunk ex U (tr_data_id r) c x)))"

definition store_inv :: "externals \<Rightarrow> octets set \<Rightarrow> data_store \<Rightarrow> bool" where
  "store_inv ex U ds = (dt_wf (ex_tag_size ex) (ds_table ds)
     \<and> (\<forall>r\<in>set (dt_rows (ds_table ds)). row_ok ex U (ds_files ds) r))"

text \<open>What the digest and the tag sizes are required to be.\<close>

definition store_env :: "externals \<Rightarrow> octets set \<Rightarrow> bool" where
  "store_env ex U = (inj_on (cr_hash (ex_cr ex)) U \<and> (\<forall>x. length (cr_hash (ex_cr ex) x) = ex_hash_size ex)
     \<and> 0 < ex_hash_size ex \<and> tag_ok (ex_tag_size ex))"

section \<open>Rows and their bitmaps\<close>

lemma row_descriptor [simp]:
  "dr_descriptor (extract_row ts r) = \<lparr>enc_size = tr_enc_size r, dd_chunk_size = tr_chunk_size r,
     manifest_digest = tr_data_id r, dd_trailing = []\<rparr>"
  "dr_local_id (extract_row ts r) = tr_key r" "dr_state (extract_row ts r) = tr_state r"
  "dr_have (extract_row ts r) = have_of_octets (chunk_count ts \<lparr>enc_size = tr_enc_size r, dd_chunk_size = tr_chunk_size r,
     manifest_digest = tr_data_id r, dd_trailing = []\<rparr>) (tr_have r)"
  by (simp_all add: extract_row_def Let_def)

abbreviation row_chunks :: "externals \<Rightarrow> data_table_row \<Rightarrow> u64" where
  "row_chunks ex r \<equiv> chunk_count (ex_tag_size ex) \<lparr>enc_size = tr_enc_size r, dd_chunk_size = tr_chunk_size r,
     manifest_digest = tr_data_id r, dd_trailing = []\<rparr>"

lemma row_chunks_small:
  assumes "store_inv ex U ds" "store_env ex U'" "r \<in> set (dt_rows (ds_table ds))"
  shows "unat (row_chunks ex r) + 7 < 2 ^ 64"
proof -
  have "usable_data_descriptor (ex_tag_size ex) (dr_descriptor (extract_row (ex_tag_size ex) r))" "tag_ok (ex_tag_size ex)"
    using assms by (auto simp: store_inv_def dt_wf_def store_env_def)
  from usable_chunks(2) [OF this] show ?thesis by simp
qed

lemma have_wf:
  assumes "unat cc + 7 < 2 ^ 64"
  shows "bitmap_wf (have_of_octets cc bits)" "hb_chunk_count (have_of_octets cc bits) = cc"
    "held_chunks (have_of_octets cc bits) = {k. octet_bit bits k \<and> k < unat cc}"
  using assms wf_normalise [of "\<lparr>hb_bits = bits, hb_chunk_count = cc\<rparr>"] held_normalise [of "\<lparr>hb_bits = bits, hb_chunk_count = cc\<rparr>"]
  by (auto simp: have_of_octets_def held_chunks_def)

lemma have_test:
  "unat cc + 7 < 2 ^ 64 \<Longrightarrow> bm_test (have_of_octets cc bits) c \<longleftrightarrow> octet_bit bits (unat c) \<and> c < cc"
  using have_wf [of cc bits] by (simp add: bm_test_iff word_less_nat_alt)

section \<open>Changing one row\<close>

lemma dt_update_comp: "(\<And>r. tr_key (g r) = tr_key r) \<Longrightarrow> dt_update k f (dt_update k g t) = dt_update k (\<lambda>r. f (g r)) t"
  by (simp add: dt_update_def comp_def)

lemma find_row:
  assumes "store_find ex i ds = Some row"
  obtains r where "r \<in> set (dt_rows (ds_table ds))" "tr_data_id r = i" "row = extract_row (ex_tag_size ex) r"
  using assms by (auto simp: dt_find_def dest: table_row_SomeD)

lemma inv_update:
  assumes "store_inv ex U ds" "r \<in> set (dt_rows (ds_table ds))" "ds_table ds' = dt_update (tr_key r) f (ds_table ds)"
    and f: "\<And>r. tr_key (f r) = tr_key r \<and> tr_data_id (f r) = tr_data_id r \<and> tr_enc_size (f r) = tr_enc_size r
      \<and> tr_chunk_size (f r) = tr_chunk_size r"
    and files: "\<And>j c. j \<noteq> tr_data_id r \<Longrightarrow> cf_file j c (ds_files ds') = cf_file j c (ds_files ds)"
    and ok: "row_ok ex U (ds_files ds') (f r)"
  shows "store_inv ex U ds'"
proof -
  have wf: "dt_wf (ex_tag_size ex) (ds_table ds)" using assms(1) by (simp add: store_inv_def)
  have "row_ok ex U (ds_files ds') s" if s: "s \<in> set (dt_rows (ds_table ds'))" for s
  proof -
    obtain s0 where s0: "s0 \<in> set (dt_rows (ds_table ds))" "s = (if tr_key s0 = tr_key r then f s0 else s0)"
      using s assms(3) by (auto simp: dt_update_def)
    show ?thesis
    proof (cases "tr_key s0 = tr_key r")
      case True
      then have "s0 = r" using table_row_at_mem [OF wf] s0(1) assms(2) by (metis option.inject)
      then show ?thesis using s0(2) ok by simp
    next
      case False
      then have "tr_data_id s0 \<noteq> tr_data_id r" using table_row_mem [OF wf] s0(1) assms(2) by (metis option.inject)
      moreover have "row_ok ex U (ds_files ds) s0" using assms(1) s0(1) by (simp add: store_inv_def)
      ultimately show ?thesis using False s0(2) files by (simp add: row_ok_def)
    qed
  qed
  moreover have "dt_wf (ex_tag_size ex) (ds_table ds')" unfolding assms(3) using wf f by (intro dt_wf_update) auto
  ultimately show ?thesis by (simp add: store_inv_def)
qed

lemma cf_file_simps [simp]:
  "cf_file j d (cf_write i c x f) = (if j = i \<and> d = c then Some x else cf_file j d f)"
  "cf_file j d (cf_remove_chunk i c f) = (if j = i \<and> d = c then None else cf_file j d f)"
  "cf_file j d (cf_remove i f) = (if j = i then None else cf_file j d f)"
  "cf_file j d (begin_staging s f) = cf_file j d f" "cf_file j d (write_staged s c x f) = cf_file j d f"
  "cf_file j d (append_staged s c x f) = cf_file j d f" "cf_file j d (discard_staging s f) = cf_file j d f"
  by (auto simp: cf_file_def cf_write_def write_file_def cf_remove_chunk_def cf_remove_def begin_staging_def write_staged_def
      append_staged_def discard_staging_def split: option.splits)

lemmas table_setters = dt_set_state_def dt_set_have_def dt_set_manifest_def dt_set_header_def

section \<open>Every operation keeps the invariant\<close>

lemma row_ok_weaken:
  assumes "row_ok ex U f r" "tr_data_id s = tr_data_id r" "tr_digests s = tr_digests r"
    "\<And>c. row_held ex s c \<Longrightarrow> row_held ex r c \<and> cf_file (tr_data_id r) c f' = cf_file (tr_data_id r) c f"
  shows "row_ok ex U f' s"
  using assms unfolding row_ok_def by metis

lemma inv_row: "store_inv ex U ds \<Longrightarrow> r \<in> set (dt_rows (ds_table ds)) \<Longrightarrow> row_ok ex U (ds_files ds) r"
  by (simp add: store_inv_def)

lemma row_held_same:
  "tr_enc_size s = tr_enc_size r \<Longrightarrow> tr_chunk_size s = tr_chunk_size r \<Longrightarrow> tr_data_id s = tr_data_id r
    \<Longrightarrow> tr_have s = tr_have r \<Longrightarrow> row_held ex s c = row_held ex r c"
  by (simp add: row_held_def)

lemma inv_set_state:
  assumes "store_inv ex U ds" "r \<in> set (dt_rows (ds_table ds))"
  shows "store_inv ex U (ds\<lparr>ds_table := dt_set_state (tr_key r) state (ds_table ds)\<rparr>)"
proof (rule inv_update [OF assms, where f = "\<lambda>r. r\<lparr>tr_state := state\<rparr>"])
  have "row_held ex (r\<lparr>tr_state := state\<rparr>) c = row_held ex r c" for c by (rule row_held_same) simp_all
  then have "row_ok ex U (ds_files ds) (r\<lparr>tr_state := state\<rparr>)" by (intro row_ok_weaken [OF inv_row [OF assms]]) simp_all
  then show "row_ok ex U (ds_files (ds\<lparr>ds_table := dt_set_state (tr_key r) state (ds_table ds)\<rparr>)) (r\<lparr>tr_state := state\<rparr>)" by simp
qed (simp_all add: table_setters)

lemma inv_set_header:
  assumes "store_inv ex U ds" "r \<in> set (dt_rows (ds_table ds))"
  shows "store_inv ex U (ds\<lparr>ds_table := dt_set_header (tr_key r) h (ds_table ds)\<rparr>)"
proof (rule inv_update [OF assms, where f = "\<lambda>r. r\<lparr>tr_header := Some h\<rparr>"])
  have "row_held ex (r\<lparr>tr_header := Some h\<rparr>) c = row_held ex r c" for c by (rule row_held_same) simp_all
  then have "row_ok ex U (ds_files ds) (r\<lparr>tr_header := Some h\<rparr>)" by (intro row_ok_weaken [OF inv_row [OF assms]]) simp_all
  then show "row_ok ex U (ds_files (ds\<lparr>ds_table := dt_set_header (tr_key r) h (ds_table ds)\<rparr>)) (r\<lparr>tr_header := Some h\<rparr>)" by simp
qed (simp_all add: table_setters)

lemma inv_set_manifest:
  assumes "store_inv ex U ds" "r \<in> set (dt_rows (ds_table ds))" "manifest_octets m \<in> U"
    "cr_hash (ex_cr ex) (manifest_octets m) = tr_data_id r"
  shows "store_inv ex U (ds\<lparr>ds_table := dt_set_manifest (tr_key r) m (ds_table ds)\<rparr>)"
proof (rule inv_update [OF assms(1,2), where f = "\<lambda>r. r\<lparr>tr_digests := Some (manifest_octets m)\<rparr>"])
  show "row_ok ex U (ds_files (ds\<lparr>ds_table := dt_set_manifest (tr_key r) m (ds_table ds)\<rparr>)) (r\<lparr>tr_digests := Some (manifest_octets m)\<rparr>)"
    using inv_row [OF assms(1,2)] assms(3,4) row_held_same [of "r\<lparr>tr_digests := Some (manifest_octets m)\<rparr>" r ex]
    by (simp add: row_ok_def)
qed (simp_all add: table_setters)

lemma inv_insert:
  assumes "store_inv ex U ds" "store_env ex U" "usable_data_descriptor (ex_tag_size ex) d"
  shows "store_inv ex U (ds\<lparr>ds_table := dt_insert (ex_tag_size ex) d (ds_table ds)\<rparr>)"
proof (cases "table_row (manifest_digest d) (ds_table ds)")
  case None
  let ?ts = "ex_tag_size ex"
  let ?r = "\<lparr>tr_key = Suc (dt_last_key (ds_table ds)), tr_data_id = manifest_digest d,
            tr_enc_size = enc_size d, tr_chunk_size = dd_chunk_size d, tr_state = ds_deferred,
            tr_have = hb_bits (have_none (chunk_count ?ts d)), tr_digests = None, tr_header = None\<rparr>"
  have rows: "dt_rows (dt_insert ?ts d (ds_table ds)) = dt_rows (ds_table ds) @ [?r]" using None by (simp add: dt_insert_def)
  have "\<not> octet_bit (hb_bits (have_none (chunk_count ?ts d))) k" for k using held_have_none [of "chunk_count ?ts d"] by (auto simp: held_chunks_def)
  moreover have "unat (row_chunks ex ?r) + 7 < 2 ^ 64"
    using usable_chunks(2) [of ?ts "dr_descriptor (extract_row ?ts ?r)"] assms(2,3) by (simp add: store_env_def)
  ultimately have "\<not> row_held ex ?r c" for c using have_test by (simp add: row_held_def)
  then have "row_ok ex U (ds_files ds) ?r" by (simp add: row_ok_def)
  then show ?thesis using assms rows dt_wf_insert by (auto simp: store_inv_def)
qed (use assms in \<open>simp add: dt_insert_def store_inv_def\<close>)

lemma inv_ensure:
  assumes "store_inv ex U ds" "store_env ex U" "dt_ensure (ex_tag_size ex) d (ds_table ds) = Inr (k, t)"
  shows "store_inv ex U (ds\<lparr>ds_table := t\<rparr>)"
    and "\<exists>r\<in>set (dt_rows t). tr_key r = k \<and> tr_data_id r = manifest_digest d"
proof -
  have "usable_data_descriptor (ex_tag_size ex) d" "t = dt_insert (ex_tag_size ex) d (ds_table ds)"
      "\<exists>r. table_row (manifest_digest d) t = Some r \<and> tr_key r = k"
    using dt_ensure_cases [OF assms(3)] by auto
  then show "store_inv ex U (ds\<lparr>ds_table := t\<rparr>)" "\<exists>r\<in>set (dt_rows t). tr_key r = k \<and> tr_data_id r = manifest_digest d"
    using inv_insert [OF assms(1,2)] table_row_SomeD by blast+
qed

lemma inv_have_octets:
  assumes "store_inv ex U ds" "store_env ex U" "r \<in> set (dt_rows (ds_table ds))"
    and files: "\<And>j c. j \<noteq> tr_data_id r \<Longrightarrow> cf_file j c f = cf_file j c (ds_files ds)"
    and held: "\<And>c. octet_bit (hb_bits b) (unat c) \<Longrightarrow> \<exists>x. cf_file (tr_data_id r) c f = Some x \<and> names_chunk ex U (tr_data_id r) c x"
  shows "store_inv ex U (ds\<lparr>ds_files := f, ds_table := dt_set_have (tr_key r) b (ds_table ds), ds_drops := n\<rparr>)"
proof (rule inv_update [OF assms(1,3), where f = "\<lambda>r. r\<lparr>tr_have := hb_bits b\<rparr>"])
  have "octet_bit (hb_bits b) (unat c)" if "row_held ex (r\<lparr>tr_have := hb_bits b\<rparr>) c" for c
    using that have_test [OF row_chunks_small [OF assms(1-3)]] by (simp add: row_held_def)
  then show "row_ok ex U (ds_files (ds\<lparr>ds_files := f, ds_table := dt_set_have (tr_key r) b (ds_table ds), ds_drops := n\<rparr>)) (r\<lparr>tr_have := hb_bits b\<rparr>)"
    using inv_row [OF assms(1,3)] held by (auto simp: row_ok_def)
qed (auto simp: table_setters files)

lemma inv_have:
  assumes "store_inv ex U ds" "store_env ex U" "r \<in> set (dt_rows (ds_table ds))" "bitmap_wf b"
    and files: "\<And>j c. j \<noteq> tr_data_id r \<Longrightarrow> cf_file j c f = cf_file j c (ds_files ds)"
    and held: "\<And>c. bm_test b c \<Longrightarrow> \<exists>x. cf_file (tr_data_id r) c f = Some x \<and> names_chunk ex U (tr_data_id r) c x"
  shows "store_inv ex U (ds\<lparr>ds_files := f, ds_table := dt_set_have (tr_key r) b (ds_table ds), ds_drops := n\<rparr>)"
  by (rule inv_have_octets [OF assms(1-3)]) (auto simp: files intro: held simp: bm_test_iff [OF assms(4)] held_chunks_def)

text \<open>The bitmap of a row is well formed and a chunk it claims is a chunk of the data.\<close>

lemma row_bitmap:
  assumes "store_inv ex U ds" "store_env ex U" "r \<in> set (dt_rows (ds_table ds))"
  defines "b \<equiv> dr_have (extract_row (ex_tag_size ex) r)"
  shows "bitmap_wf b" "hb_chunk_count b = row_chunks ex r"
    and "bm_test b c \<Longrightarrow> \<exists>x. cf_file (tr_data_id r) c (ds_files ds) = Some x \<and> names_chunk ex U (tr_data_id r) c x"
  using have_wf [OF row_chunks_small [OF assms(1-3)]] inv_row [OF assms(1,3)]
  by (auto simp: b_def row_ok_def row_held_def)

lemma have_row:
  assumes "r \<in> set (dt_rows t)" shows "\<exists>s\<in>set (dt_rows (dt_set_have k b t)). tr_key s = tr_key r"
proof -
  have "(if tr_key r = k then r\<lparr>tr_have := hb_bits b\<rparr> else r) \<in> set (dt_rows (dt_set_have k b t))"
    using assms by (simp add: dt_set_have_def dt_update_def)
  then show ?thesis by (rule rev_bexI) simp
qed

lemma inv_set_state_key:
  assumes "store_inv ex U ds" "\<exists>r\<in>set (dt_rows (ds_table ds)). tr_key r = k"
  shows "store_inv ex U (ds\<lparr>ds_table := dt_set_state k state (ds_table ds)\<rparr>)"
  using inv_set_state [OF assms(1)] assms(2) by blast

lemma inv_mark_held:
  assumes "store_inv ex U ds" "store_env ex U" "r \<in> set (dt_rows (ds_table ds))" "names_chunk ex U (tr_data_id r) c x"
    and files: "\<And>j d. cf_file j d f = (if j = tr_data_id r \<and> d = c then Some x else cf_file j d (ds_files ds))"
  shows "store_inv ex U (mark_held (extract_row (ex_tag_size ex) r) c (ds\<lparr>ds_files := f\<rparr>))"
proof -
  let ?row = "extract_row (ex_tag_size ex) r" and ?b = "dr_have (extract_row (ex_tag_size ex) r)"
  note wf = row_bitmap [OF assms(1-3)]
  have "\<exists>x. cf_file (tr_data_id r) d f = Some x \<and> names_chunk ex U (tr_data_id r) d x" if d: "bm_test (bm_set ?b c True) d" for d
    using d wf(3) [of d] bitmap.test_mark [OF wf(1), of c True d] assms(4) files by (auto split: if_splits)
  then have inv: "store_inv ex U (ds\<lparr>ds_files := f, ds_table := dt_set_have (tr_key r) (bm_set ?b c True) (ds_table ds), ds_drops := ds_drops ds\<rparr>)"
    using wf files by (intro inv_have [OF assms(1-3)]) (simp_all add: wf_bm_set)
  then show ?thesis
    using inv_set_state_key [OF inv, of "tr_key r" ds_in_sync] have_row [OF assms(3)]
    by (simp add: mark_held_def Let_def store_inv_def)
qed

lemma inv_drop_chunk:
  assumes "store_inv ex U ds" "store_env ex U" "r \<in> set (dt_rows (ds_table ds))"
  shows "store_inv ex U (drop_chunk (extract_row (ex_tag_size ex) r) c ds)"
proof -
  let ?b = "dr_have (extract_row (ex_tag_size ex) r)"
  let ?f = "cf_remove_chunk (tr_data_id r) c (ds_files ds)"
  note wf = row_bitmap [OF assms(1-3)]
  have "\<exists>x. cf_file (tr_data_id r) d ?f = Some x \<and> names_chunk ex U (tr_data_id r) d x" if d: "bm_test (bm_set ?b c False) d" for d
  proof -
    have "bm_test ?b d" "d \<noteq> c" using d bitmap.test_mark [OF wf(1), of c False d] by (auto simp: bm_test_def split: if_splits)
    then show ?thesis using wf(3) by simp
  qed
  then have inv: "store_inv ex U (ds\<lparr>ds_files := ?f, ds_table := dt_set_have (tr_key r) (bm_set ?b c False) (ds_table ds), ds_drops := ds_drops ds + 1\<rparr>)"
    using wf by (intro inv_have [OF assms(1-3)]) (simp_all add: wf_bm_set)
  have drops: "store_inv ex U (ds\<lparr>ds_drops := ds_drops ds + 1\<rparr>)" using assms(1) by (simp add: store_inv_def)
  show ?thesis
    using inv_set_state_key [OF inv, of "tr_key r" ds_download_pending] have_row [OF assms(3)] inv_set_state [OF drops, of r ds_invalid] assms(3)
    by (simp add: drop_chunk_def Let_def store_inv_def)
qed

lemma inv_drop_chunks:
  assumes "store_inv ex U ds" "store_env ex U" "r \<in> set (dt_rows (ds_table ds))"
  shows "store_inv ex U (drop_chunks (extract_row (ex_tag_size ex) r) state ds)"
proof -
  let ?b = "dr_have (extract_row (ex_tag_size ex) r)"
  note wf = row_bitmap [OF assms(1-3)]
  have "\<not> bm_test (bm_clear ?b) c" for c using wf_bm_clear [OF wf(1)] held_bm_clear by (simp add: bm_test_iff)
  then have inv: "store_inv ex U (ds\<lparr>ds_files := cf_remove (tr_data_id r) (ds_files ds),
      ds_table := dt_set_have (tr_key r) (bm_clear ?b) (ds_table ds), ds_drops := ds_drops ds + 1\<rparr>)"
    using wf wf_bm_clear [OF wf(1)] by (intro inv_have [OF assms(1-3)]) (simp_all add: bm_clear_def)
  show ?thesis
    using inv_set_state_key [OF inv, of "tr_key r" state] have_row [OF assms(3)] by (simp add: drop_chunks_def store_inv_def)
qed

text \<open>An operation keeps the store when it keeps the invariant and leaves the staging areas alone.\<close>

definition keeps :: "externals \<Rightarrow> octets set \<Rightarrow> data_store \<Rightarrow> data_store \<Rightarrow> bool" where
  "keeps ex U ds ds' = ((store_inv ex U ds \<longrightarrow> store_inv ex U ds') \<and> cf_stages (ds_files ds') = cf_stages (ds_files ds))"

lemma keeps_refl [simp]: "keeps ex U ds ds"
  by (simp add: keeps_def)

lemma keeps_trans: "keeps ex U a b \<Longrightarrow> keeps ex U b c \<Longrightarrow> keeps ex U a c"
  by (auto simp: keeps_def)

lemma stages_same [simp]:
  "cf_stages (cf_remove_chunk i c f) = cf_stages f" "cf_stages (cf_remove i f) = cf_stages f" "cf_stages (cf_write i c x f) = cf_stages f"
  by (simp_all add: cf_remove_chunk_def cf_remove_def cf_write_def)

lemma keeps_drop_chunk:
  assumes "store_env ex U" "store_find ex i ds = Some row"
  shows "keeps ex U ds (drop_chunk row c ds)" "keeps ex U ds (drop_if_lost ex row c ds)"
proof -
  obtain r where r: "r \<in> set (dt_rows (ds_table ds))" "row = extract_row (ex_tag_size ex) r" using find_row [OF assms(2)] by metis
  show "keeps ex U ds (drop_chunk row c ds)"
    using inv_drop_chunk [OF _ assms(1) r(1)] by (auto simp: keeps_def r(2)) (simp add: drop_chunk_def Let_def)
  then show "keeps ex U ds (drop_if_lost ex row c ds)" by (auto simp: drop_if_lost_def split: option.splits)
qed

lemma keeps_set_state: "store_find ex i ds = Some row \<Longrightarrow> keeps ex U ds (ds\<lparr>ds_table := dt_set_state (dr_local_id row) state (ds_table ds)\<rparr>)"
  by (erule find_row) (auto simp: keeps_def intro: inv_set_state)

lemma keeps_drop_chunks: "store_env ex U \<Longrightarrow> store_find ex i ds = Some row \<Longrightarrow> keeps ex U ds (drop_chunks row state ds)"
  by (erule find_row) (auto simp: keeps_def intro: inv_drop_chunks, simp add: drop_chunks_def)

lemma keeps_reads:
  assumes "store_env ex U"
  shows "keeps ex U ds (snd (read_chunk ex io i c ds))" "keeps ex U ds (snd (read_piece ex io i c off sz ds))"
    "keeps ex U ds (chunk_failed ex i c x ds)" "keeps ex U ds (store_set_state ex i state ds)"
    "keeps ex U ds (snd (evict_data ex i ds))" "keeps ex U ds (snd (store_prune ex i ds))"
  using keeps_drop_chunk [OF assms] keeps_set_state keeps_drop_chunks [OF assms]
  by (auto simp: read_chunk_def read_piece_def chunk_failed_def store_set_state_def evict_data_def store_prune_def Let_def
      split: option.splits)

lemma keeps_remove:
  "keeps ex U ds (snd (store_remove ex ids ds))"
proof -
  have one: "keeps ex U (snd s) (snd (store_remove_one ex i s))" for i s
  proof (cases "store_find ex i (snd s)")
    case (Some row)
    obtain r where r: "r \<in> set (dt_rows (ds_table (snd s)))" "tr_data_id r = i" "row = extract_row (ex_tag_size ex) r"
      using find_row [OF Some] by metis
    have "row_ok ex U (cf_remove i (ds_files (snd s))) q"
      if "store_inv ex U (snd s)" "q \<in> set (dt_rows (ds_table (snd s)))" "tr_key q \<noteq> tr_key r" for q
    proof -
      have "tr_data_id q \<noteq> i" using that r table_row_mem by (metis option.inject store_inv_def)
      then show ?thesis using inv_row [OF that(1,2)] by (simp add: row_ok_def)
    qed
    then show ?thesis using Some r
      by (auto simp: keeps_def store_remove_one_def store_inv_def dt_wf_remove) (auto simp: dt_remove_def)
  qed (simp add: store_remove_one_def)
  have "keeps ex U (snd s) (snd (fold (store_remove_one ex) ids s))" for s
  proof (induction ids arbitrary: s)
    case (Cons i ids)
    show ?case using keeps_trans [OF one Cons.IH] by simp
  qed simp
  then show ?thesis unfolding store_remove_def using snd_conv by metis
qed

lemma keeps_ensure:
  assumes "store_env ex U" "dt_ensure (ex_tag_size ex) d (ds_table ds) = Inr (k, t)"
  shows "keeps ex U ds (ds\<lparr>ds_table := t\<rparr>)"
  using inv_ensure(1) [OF _ assms] by (simp add: keeps_def)

lemma matching_manifest:
  "manifest_matches cr ts d m \<Longrightarrow> cr_hash cr (manifest_octets m) = manifest_digest d"
  by (simp add: manifest_matches_def manifest_digest_of_def manifest_octets_def)

lemma keeps_manifests:
  assumes "store_env ex U" "manifest_octets m \<in> U"
  shows "keeps ex U ds (snd (store_set_manifest ex i m ds))"
    and "register_data_manifest ex d m ds = Inr (row, ds') \<Longrightarrow> keeps ex U ds ds'"
proof -
  show "keeps ex U ds (snd (store_set_manifest ex i m ds))"
  proof (cases "store_find ex i ds")
    case (Some row)
    obtain r where r: "r \<in> set (dt_rows (ds_table ds))" "tr_data_id r = i" "row = extract_row (ex_tag_size ex) r"
      using find_row [OF Some] by metis
    have "keeps ex U ds (ds\<lparr>ds_table := dt_set_manifest (tr_key r) m (ds_table ds)\<rparr>)"
      if "manifest_matches (ex_cr ex) (ex_tag_size ex) (dr_descriptor row) m"
      using inv_set_manifest [OF _ r(1) assms(2)] matching_manifest [OF that] r(3) by (simp add: keeps_def)
    then show ?thesis using Some r(3) by (simp add: store_set_manifest_def)
  qed (simp add: store_set_manifest_def)
  assume reg: "register_data_manifest ex d m ds = Inr (row, ds')"
  show "keeps ex U ds ds'"
  proof (cases "usable_data_descriptor (ex_tag_size ex) d \<and> manifest_matches (ex_cr ex) (ex_tag_size ex) d m")
    case True
    then obtain k t where e: "dt_ensure (ex_tag_size ex) d (ds_table ds) = Inr (k, t)"
      and cases: "ds' = ds\<lparr>ds_table := dt_set_manifest k m t\<rparr> \<or> ds' = ds\<lparr>ds_table := t\<rparr>"
      using reg by (auto simp: register_data_manifest_def bind_result_Inr split: option.splits if_splits)
    obtain r where r: "r \<in> set (dt_rows t)" "tr_key r = k" "tr_data_id r = manifest_digest d"
      using dt_ensure_cases [OF e] table_row_SomeD by blast
    have "store_inv ex U (ds\<lparr>ds_table := dt_set_manifest k m t\<rparr>)" if "store_inv ex U ds"
      using inv_set_manifest [OF inv_ensure(1) [OF that assms(1) e], of r m] r assms(2) matching_manifest [of "ex_cr ex" "ex_tag_size ex" d m] True by simp
    then show ?thesis using cases keeps_ensure [OF assms(1) e] by (auto simp: keeps_def)
  qed (use reg in \<open>auto simp: register_data_manifest_def\<close>)
qed

lemma keeps_registers:
  assumes "store_env ex U"
  shows "register_data ex d ds = Inr (row, ds') \<Longrightarrow> keeps ex U ds ds'"
    and "store_open ex ae keys d h ds = Inr (sd, ds') \<Longrightarrow> keeps ex U ds ds'"
    and "data_reference (ex_tag_size ex) d (ds_table ds) = Inr (k, t) \<Longrightarrow> keeps ex U ds (ds\<lparr>ds_table := t\<rparr>)"
proof -
  show "register_data ex d ds = Inr (row, ds') \<Longrightarrow> keeps ex U ds ds'"
    using keeps_ensure [OF assms] by (auto simp: register_data_def bind_result_Inr split: if_splits)
next
  assume op: "store_open ex ae keys d h ds = Inr (sd, ds')"
  show "keeps ex U ds ds'"
  proof (cases "usable_data_descriptor (ex_tag_size ex) d")
    case True
    then obtain k t where e: "dt_ensure (ex_tag_size ex) d (ds_table ds) = Inr (k, t)"
      and cases: "ds' = ds\<lparr>ds_table := dt_set_header k h t\<rparr> \<or> ds' = ds\<lparr>ds_table := t\<rparr>"
      using op by (auto simp: store_open_def bind_result_Inr split: option.splits if_splits)
    obtain r where r: "r \<in> set (dt_rows t)" "tr_key r = k" using dt_ensure_cases [OF e] table_row_SomeD by blast
    have "store_inv ex U (ds\<lparr>ds_table := dt_set_header k h t\<rparr>)" if "store_inv ex U ds"
      using inv_set_header [OF inv_ensure(1) [OF that assms e], of r h] r by simp
    then show ?thesis using cases keeps_ensure [OF assms e] by (auto simp: keeps_def)
  qed (use op in \<open>auto simp: store_open_def split: if_splits\<close>)
next
  assume "data_reference (ex_tag_size ex) d (ds_table ds) = Inr (k, t)"
  then obtain t1 where e: "dt_ensure (ex_tag_size ex) d (ds_table ds) = Inr (k, t1)"
    and cases: "t = dt_set_state k ds_deferred t1 \<or> t = t1"
    by (auto simp: data_reference_def bind_result_Inr split: option.splits if_splits)
  obtain r where r: "r \<in> set (dt_rows t1)" "tr_key r = k" using dt_ensure_cases [OF e] table_row_SomeD by blast
  have "store_inv ex U (ds\<lparr>ds_table := dt_set_state k ds_deferred t1\<rparr>)" if "store_inv ex U ds"
    using inv_set_state [OF inv_ensure(1) [OF that assms e], of r ds_deferred] r by simp
  then show "keeps ex U ds (ds\<lparr>ds_table := t\<rparr>)" using cases keeps_ensure [OF assms e] by (auto simp: keeps_def)
qed

text \<open>What verifies against the stored manifest is a chunk of the data.\<close>

lemma verified_chunk:
  assumes "store_inv ex U ds" "store_env ex U" "store_manifest ex i ds = Some m" "verify_chunk (ex_cr ex) m c x"
  shows "names_chunk ex U i c x"
proof -
  obtain row where row: "store_find ex i ds = Some row" "dt_manifest (ex_hash_size ex) (dr_local_id row) (ds_table ds) = Some m"
    using assms(3) by (auto simp: store_manifest_def split: option.splits)
  obtain r where r: "r \<in> set (dt_rows (ds_table ds))" "tr_data_id r = i" "row = extract_row (ex_tag_size ex) r"
    using find_row [OF row(1)] by metis
  have "table_row_at (tr_key r) (ds_table ds) = Some r" using table_row_at_mem assms(1) r(1) by (auto simp: store_inv_def)
  then obtain b where b: "tr_digests r = Some b" "chunk_digests m = split_digests (ex_hash_size ex) b"
    using row(2) r(3) by (auto simp: dt_manifest_def manifest_from_octets_def split: option.splits if_splits)
  have "cr_hash (ex_cr ex) x = take (ex_hash_size ex) (drop (unat c * ex_hash_size ex) b)"
    using assms(2,4) b(2) split_nth [of "ex_hash_size ex" "unat c" b] by (auto simp: verify_chunk_def store_env_def chunk_digest_def)
  then show ?thesis using inv_row [OF assms(1) r(1)] b(1) r(2) by (auto simp: names_chunk_def row_ok_def)
qed

lemma keeps_store_chunk:
  assumes "store_env ex U"
  shows "keeps ex U ds (snd (store_chunk ex i c x ds))"
proof (cases "\<exists>m row. store_manifest ex i ds = Some m \<and> verify_chunk (ex_cr ex) m c x \<and> store_find ex i ds = Some row")
  case True
  then obtain m row where m: "store_manifest ex i ds = Some m" "verify_chunk (ex_cr ex) m c x" "store_find ex i ds = Some row" by blast
  obtain r where r: "r \<in> set (dt_rows (ds_table ds))" "tr_data_id r = i" "row = extract_row (ex_tag_size ex) r"
    using find_row [OF m(3)] by metis
  have "store_inv ex U (add_chunk row c x ds)" if inv: "store_inv ex U ds"
    using inv_mark_held [OF inv assms r(1), of c x "cf_write (tr_data_id r) c x (ds_files ds)"] verified_chunk [OF inv assms m(1,2)] r inv
    by (simp add: add_chunk_def)
  then show ?thesis using m by (simp add: keeps_def store_chunk_def add_chunk_def mark_held_def Let_def)
qed (auto simp: store_chunk_def split: option.splits)

section \<open>Chunks that arrive in pieces\<close>

text \<open>
  The staged file of an open chunk holds the octets hashed so far, and the digest it has to have is
  the entry of a manifest of its data.
\<close>

definition incoming_ok :: "externals \<Rightarrow> octets set \<Rightarrow> chunk_files \<Rightarrow> incoming_chunk \<Rightarrow> bool" where
  "incoming_ok ex U f ic = (ic_open ic \<longrightarrow>
     staged_file (ic_stage ic) (ic_chunk_no ic) f = (if ic_hashed ic = [] then None else Some (ic_hashed ic))
     \<and> (\<exists>b\<in>U. cr_hash (ex_cr ex) b = ic_id ic
          \<and> ic_expected_digest ic = take (ex_hash_size ex) (drop (unat (ic_chunk_no ic) * ex_hash_size ex) b)))"

abbreviation open_stages :: "incoming_chunk list \<Rightarrow> stage_name list" where
  "open_stages ics \<equiv> map ic_stage (filter ic_open ics)"

definition world_inv :: "externals \<Rightarrow> octets set \<Rightarrow> data_store \<times> incoming_chunk list \<Rightarrow> bool" where
  "world_inv ex U w = (store_inv ex U (fst w) \<and> (\<forall>ic\<in>set (snd w). incoming_ok ex U (ds_files (fst w)) ic)
     \<and> distinct (open_stages (snd w)))"

lemma world_keeps: "world_inv ex U (ds, ics) \<Longrightarrow> keeps ex U ds ds' \<Longrightarrow> world_inv ex U (ds', ics)"
  by (simp add: world_inv_def keeps_def incoming_ok_def staged_file_def)

lemma staged_file_simps:
  "staged_file s' c' (discard_staging s f) = (if s' = s then None else staged_file s' c' f)"
  "staged_file s' c' (append_staged s c p f) = (if s' = s \<and> c' = c then Some (value_or (staged_file s c f) [] @ p) else staged_file s' c' f)"
  "cf_stages f s = None \<Longrightarrow> staged_file s' c' (begin_staging s f) = (if s' = s then None else staged_file s' c' f)"
  "staged_file s' c' (cf_write i d x f) = staged_file s' c' f"
  by (auto simp: staged_file_def discard_staging_def append_staged_def write_staged_def write_file_def begin_staging_def cf_write_def
      split: option.splits)

lemma distinct_open_update:
  assumes "n < length ics" "distinct (open_stages ics)" "ic_stage ic = ic_stage (ics ! n)" "ic_open ic \<longrightarrow> ic_open (ics ! n)"
  shows "distinct (open_stages (ics[n := ic]))"
    and "j \<in> set (ics[n := ic]) \<Longrightarrow> ic_open j \<Longrightarrow> ic_open (ics ! n) \<Longrightarrow> j = ic \<or> (j \<in> set ics \<and> ic_stage j \<noteq> ic_stage (ics ! n))"
proof -
  obtain as bs where ics: "ics = as @ ics ! n # bs" "length as = n" using id_take_nth_drop [OF assms(1)] assms(1) by (metis length_take min.absorb4)
  then have upd: "ics[n := ic] = as @ ic # bs" by (metis list_update_length)
  have d: "distinct (open_stages (as @ ics ! n # bs))" using assms(2) ics(1) by simp
  show "distinct (open_stages (ics[n := ic]))" unfolding upd using d assms(3,4) by (auto split: if_splits)
  assume j: "j \<in> set (ics[n := ic])" "ic_open j" "ic_open (ics ! n)"
  have "j \<in> set ics" if "j \<in> set (as @ bs)" using that by (subst ics(1)) auto
  moreover have "ic_stage j \<noteq> ic_stage (ics ! n)" if "j \<in> set (as @ bs)"
  proof -
    have "ic_stage (ics ! n) \<notin> set (open_stages as) \<union> set (open_stages bs)" using d j(3) by auto
    moreover have "ic_stage j \<in> set (open_stages as) \<union> set (open_stages bs)" using that j(2) by auto
    ultimately show ?thesis by metis
  qed
  ultimately show "j = ic \<or> (j \<in> set ics \<and> ic_stage j \<noteq> ic_stage (ics ! n))" using j(1) unfolding upd by auto
qed

text \<open>One incoming chunk and its own staging area change.\<close>

lemma world_incoming:
  assumes "world_inv ex U (ds, ics)" "n < length ics" "ic_open (ics ! n)" "ic_stage ic = ic_stage (ics ! n)"
    and "store_inv ex U ds'" "incoming_ok ex U (ds_files ds') ic"
    and "\<And>s c. s \<noteq> ic_stage (ics ! n) \<Longrightarrow> staged_file s c (ds_files ds') = staged_file s c (ds_files ds)"
  shows "world_inv ex U (ds', ics[n := ic])"
proof -
  have "incoming_ok ex U (ds_files ds') j" if j: "j \<in> set (ics[n := ic])" for j
  proof (cases "ic_open j")
    case True
    then have "j = ic \<or> (j \<in> set ics \<and> ic_stage j \<noteq> ic_stage (ics ! n))"
      using distinct_open_update(2) [OF assms(2) _ assms(4) _ j True assms(3)] assms(1,3) by (simp add: world_inv_def)
    then show ?thesis using assms(1,6,7) by (auto simp: world_inv_def incoming_ok_def)
  qed (simp add: incoming_ok_def)
  then show ?thesis using assms distinct_open_update(1) [OF assms(2) _ assms(4)] by (auto simp: world_inv_def)
qed

lemma files_only: "store_inv ex U ds \<Longrightarrow> (\<And>j c. cf_file j c f = cf_file j c (ds_files ds)) \<Longrightarrow> store_inv ex U (ds\<lparr>ds_files := f\<rparr>)"
  by (simp add: store_inv_def row_ok_def)

lemma world_begin:
  assumes "world_inv ex U (ds, ics)" "store_env ex U" "cf_stages (ds_files ds) stage = None" "stage \<notin> set (open_stages ics)"
    "begin_chunk ex stage i c ds = (Some ic, ds')"
  shows "world_inv ex U (ds', ic # ics)"
proof -
  have inv: "store_inv ex U ds" using assms(1) by (simp add: world_inv_def)
  obtain row dig where row: "store_find ex i ds = Some row"
      "dt_chunk_digest (ex_hash_size ex) (dr_local_id row) (unat c) (ds_table ds) = Some dig"
      "ds' = ds\<lparr>ds_files := begin_staging stage (ds_files ds)\<rparr>"
    and ic: "ic_id ic = i" "ic_chunk_no ic = c" "ic_expected_digest ic = dig" "ic_stage ic = stage" "ic_hashed ic = []" "ic_open ic"
    using assms(5) by (auto simp: begin_chunk_def split: option.splits if_splits)
  obtain r where r: "r \<in> set (dt_rows (ds_table ds))" "tr_data_id r = i" "row = extract_row (ex_tag_size ex) r"
    using find_row [OF row(1)] by metis
  have "table_row_at (tr_key r) (ds_table ds) = Some r" using table_row_at_mem inv r(1) by (auto simp: store_inv_def)
  then obtain b where b: "tr_digests r = Some b" "dig = take (ex_hash_size ex) (drop (unat c * ex_hash_size ex) b)"
    using row(2) r(3) by (auto simp: dt_chunk_digest_def Let_def split: option.splits if_splits)
  then have "b \<in> U" "cr_hash (ex_cr ex) b = i" using inv_row [OF inv r(1)] r(2) by (auto simp: row_ok_def)
  then have new: "incoming_ok ex U (ds_files ds') ic"
    using ic b(2) row(3) assms(3) by (auto simp: incoming_ok_def staged_file_simps)
  have "incoming_ok ex U (ds_files ds') j" if "j \<in> set ics" for j
    using that assms(1,3,4) row(3) by (auto simp: world_inv_def incoming_ok_def staged_file_simps)
  then show ?thesis using new inv files_only [OF inv] assms(1,4) ic(4) row(3) by (auto simp: world_inv_def)
qed

lemma world_discard:
  assumes "world_inv ex U (ds, ics)" "n < length ics"
  shows "world_inv ex U (snd (chunk_discard (ics ! n) ds), ics[n := fst (chunk_discard (ics ! n) ds)])"
proof (cases "ic_open (ics ! n)")
  case True
  have "store_inv ex U ds" using assms(1) by (simp add: world_inv_def)
  then have "store_inv ex U (ds\<lparr>ds_files := discard_staging (ic_stage (ics ! n)) (ds_files ds)\<rparr>)" by (rule files_only) simp
  then show ?thesis using True
    by (simp add: chunk_discard_def) (rule world_incoming [OF assms True], simp_all add: incoming_ok_def staged_file_simps)
qed (use assms in \<open>simp add: chunk_discard_def\<close>)

lemma world_append:
  assumes "world_inv ex U (ds, ics)" "n < length ics" "chunk_append io off piece (ics ! n) ds = (res, ic, ds')"
  shows "world_inv ex U (ds', ics[n := ic])"
proof (cases "ds' = snd (chunk_discard (ics ! n) ds) \<and> ic = fst (chunk_discard (ics ! n) ds)")
  case False
  let ?ic = "ics ! n"
  have op: "ic_open ?ic" "piece \<noteq> []" and ic: "ic = ?ic\<lparr>ic_hashed := ic_hashed ?ic @ piece, ic_received := ic_received ?ic + of_nat (length piece)\<rparr>"
    and ds': "ds' = ds\<lparr>ds_files := append_staged (ic_stage ?ic) (ic_chunk_no ?ic) piece (ds_files ds)\<rparr>"
    using assms(3) False by (auto simp: chunk_append_def split: if_splits)
  have inv: "store_inv ex U ds" and ok: "incoming_ok ex U (ds_files ds) ?ic"
    using assms(1,2) by (auto simp: world_inv_def)
  show ?thesis
  proof (rule world_incoming [OF assms(1,2) op(1)])
    show "store_inv ex U ds'" unfolding ds' using inv by (rule files_only) simp
    show "incoming_ok ex U (ds_files ds') ic" using ok op unfolding ds' ic by (simp add: incoming_ok_def staged_file_simps)
  qed (simp_all add: ic ds' staged_file_simps)
qed (use world_discard [OF assms(1,2)] in simp)

lemma world_finish:
  assumes "world_inv ex U (ds, ics)" "store_env ex U" "n < length ics" "chunk_finish ex (ics ! n) ds = (res, ic, ds')"
  shows "world_inv ex U (ds', ics[n := ic])"
proof (cases "ds' = snd (chunk_discard (ics ! n) ds) \<and> ic = fst (chunk_discard (ics ! n) ds)")
  case False
  let ?ic = "ics ! n"
  let ?i = "ic_id ?ic" and ?c = "ic_chunk_no ?ic" and ?s = "ic_stage ?ic"
  have op: "ic_open ?ic" "cr_hash (ex_cr ex) (ic_hashed ?ic) = ic_expected_digest ?ic" "staged_file ?s ?c (ds_files ds) \<noteq> None"
    and adopt: "(\<exists>e. adopt_chunk ex ?i ?c ?s ds = Inl e \<and> ds' = ds) \<or> (\<exists>ok. adopt_chunk ex ?i ?c ?s ds = Inr (ok, ds'))"
    and ic: "ic = ?ic\<lparr>ic_open := False\<rparr>"
    using assms(4) False by (auto simp: chunk_finish_def staged_size_def Let_def split: if_splits sum.splits)
  have inv: "store_inv ex U ds" and ok: "incoming_ok ex U (ds_files ds) ?ic" using assms(1,3) by (auto simp: world_inv_def)
  have staged: "staged_file ?s ?c (ds_files ds) = Some (ic_hashed ?ic)" "names_chunk ex U ?i ?c (ic_hashed ?ic)"
    using ok op by (auto simp: incoming_ok_def names_chunk_def split: if_splits)
  have disc: "store_inv ex U (ds\<lparr>ds_files := discard_staging ?s (ds_files ds)\<rparr>)" using inv by (rule files_only) simp
  have "store_inv ex U ds' \<and> (\<forall>s c. s \<noteq> ?s \<longrightarrow> staged_file s c (ds_files ds') = staged_file s c (ds_files ds))"
  proof (cases "store_find ex ?i ds")
    case None
    then show ?thesis using adopt disc by (auto simp: adopt_chunk_def Let_def staged_file_simps)
  next
    case (Some row)
    obtain r where r: "r \<in> set (dt_rows (ds_table ds))" "tr_data_id r = ?i" "row = extract_row (ex_tag_size ex) r"
      using find_row [OF Some] by metis
    let ?f = "discard_staging ?s (cf_write ?i ?c (ic_hashed ?ic) (ds_files ds))"
    have "ds' = ds\<lparr>ds_files := discard_staging ?s (ds_files ds)\<rparr> \<or> ds' = mark_held row ?c (ds\<lparr>ds_files := ?f\<rparr>)"
      using adopt Some staged(1) by (auto simp: adopt_chunk_def adopt_staged_chunk_def Let_def split: if_splits)
    moreover have "store_inv ex U (mark_held row ?c (ds\<lparr>ds_files := ?f\<rparr>))"
      unfolding r(3) using staged(2) r(2) by (intro inv_mark_held [OF inv assms(2) r(1), of _ "ic_hashed ?ic"]) simp_all
    ultimately show ?thesis using disc by (auto simp: staged_file_simps mark_held_def Let_def)
  qed
  then show ?thesis by (intro world_incoming [OF assms(1,3) op(1)]) (simp_all add: ic incoming_ok_def)
qed (use world_discard [OF assms(1,3)] in simp)

end
