(* ===== verification/Data_Store_Run.thy ===== *)
theory Data_Store_Run
  imports Data_Store_Invariant
begin

text \<open>
  The data store as a whole: what a writer leaves in the store, the runs of the store with chunks
  that arrive in pieces, and reading a data back through its handle.
\<close>

section \<open>Streaming a source\<close>

lemma stream_loop_reads:
  assumes "Q pos st" "0 < piece \<or> pos = length content" "pos \<le> length content"
    and step: "\<And>pos st. Q pos st \<Longrightarrow> pos < length content \<Longrightarrow>
      fst (rd (of_nat pos) (of_nat (min piece (length content - pos))) st) = take (min piece (length content - pos)) (drop pos content)
      \<and> Q (pos + min piece (length content - pos)) (wr (take (min piece (length content - pos)) (drop pos content))
            (snd (rd (of_nat pos) (of_nat (min piece (length content - pos))) st)))"
  shows "\<exists>st'. stream_loop rd wr piece (length content) pos st = (True, st') \<and> Q (length content) st'"
  using assms(1-3)
proof (induction "length content - pos" arbitrary: pos st rule: less_induct)
  case less
  show ?case
  proof (cases "pos < length content")
    case True
    let ?n = "min piece (length content - pos)"
    let ?b = "take ?n (drop pos content)"
    have b: "length ?b = ?n" "?b \<noteq> []" "?n \<noteq> 0" using True less.prems(2) by auto
    note s = step [OF less.prems(1) True]
    have "stream_loop rd wr piece (length content) pos st =
        stream_loop rd wr piece (length content) (pos + ?n) (wr ?b (snd (rd (of_nat pos) (of_nat ?n) st)))"
      using s [THEN conjunct1] b by (subst stream_loop.simps) (simp only: True Let_def if_True if_False)
    moreover have "length content - (pos + ?n) < length content - pos" using b(3) True by linarith
    ultimately show ?thesis using less.hyps [of "pos + ?n"] s less.prems(2) True by auto
  next
    case False
    then show ?thesis using less.prems by (subst stream_loop.simps) auto
  qed
qed

lemma memory_read_eq:
  assumes "pos < length content" "length content < 2 ^ 64" "n \<le> length content - pos"
  shows "memory_read content (of_nat pos) (of_nat n) = take n (drop pos content)"
proof -
  have u: "unat (of_nat pos :: u64) = pos" "unat (of_nat (length content) :: u64) = length content" "unat (of_nat n :: u64) = n"
    using assms by (simp_all add: unat_of_nat_small)
  then show ?thesis using assms
    by (simp add: memory_read_def word_less_nat_alt unat_min word_sub_unat word_le_nat_alt)
qed

section \<open>What a writer stages\<close>

definition stage_all :: "stage_name \<Rightarrow> (u64 \<times> octets) list \<Rightarrow> chunk_files \<Rightarrow> chunk_files" where
  "stage_all stage xs f = fold (\<lambda>(c, x). write_staged stage c x) xs f"

lemma stage_emitted_eq:
  assumes "de_out after = de_out before @ new" "ds_files ds' = stage_all stage (de_out before) f"
  shows "stage_emitted stage before after ds' = ds'\<lparr>ds_files := stage_all stage (de_out after) f\<rparr>"
  using assms by (simp add: stage_emitted_def stage_all_def)

lemma consume_extends: "room e \<Longrightarrow> \<exists>new. de_out (consume ae cr xs e) = de_out e @ new"
  by (simp add: consume_eq [OF _ refl] emit_all_seal Let_def)

lemma write_extends: "room e \<Longrightarrow> \<exists>new. de_out (encryptor_write ae cr p e) = de_out e @ new"
  using consume_extends [of "with_content p e" ae cr p] by (simp add: encryptor_write_def with_content_def)

lemma write_room: "room e \<Longrightarrow> room (encryptor_write ae cr p e)"
  using consume_room [of "with_content p e" ae cr p] by (simp add: encryptor_write_def with_content_def)

lemma writes_room: "room e \<Longrightarrow> room (fold (encryptor_write ae cr) ps e)"
  by (induction ps arbitrary: e) (simp_all add: write_room)

lemma finish_extends:
  assumes "room e"
  shows "\<exists>new. de_out (snd (encryptor_finish ae cr e)) = de_out e @ new"
proof -
  let ?left = "unat (padded_size (de_plain_size e) min_padded_data_size - de_plain_size e)"
  let ?z = "min ?left (unat (de_chunk_size e))"
  have "0 < ?z \<or> ?left = 0" using assms by auto
  then have "encryptor_pad ae cr e = consume ae cr (replicate ?left 0) e"
    using pad_loop_eq [OF assms, of ?z ?left] by (simp add: encryptor_pad_def Let_def)
  then obtain new where "de_out (encryptor_pad ae cr e) = de_out e @ new" using consume_extends [OF assms] by metis
  then show ?thesis by (auto simp: encryptor_finish_def Let_def emit_chunk_def)
qed

text \<open>Create, copy and finish: a content that goes into the store in one go.\<close>

definition store_write_data ::
  "externals \<Rightarrow> aead \<Rightarrow> stage_name \<Rightarrow> octets \<Rightarrow> encryption_key \<Rightarrow> u32 \<Rightarrow> octets \<Rightarrow> data_store \<Rightarrow> encrypted_data_result result \<times> data_store" where
  "store_write_data ex ae stage nonce key chunk_size content ds =
     (case store_create ae stage nonce key chunk_size ds of
        (Inl e, ds1) \<Rightarrow> (Inl e, ds1)
      | (Inr w, ds1) \<Rightarrow>
          (case copy_record_data ex ae (memory_read content) (of_nat (length content)) (w, ds1) of
             (Some e, w1, ds2) \<Rightarrow> (Inl e, writer_drop w1 ds2)
           | (None, w1, ds2) \<Rightarrow>
               (case writer_finish ex ae (w1, ds2) of
                  (Inl e, w2, ds3) \<Rightarrow> (Inl e, writer_drop w2 ds3)
                | (Inr res, w2, ds3) \<Rightarrow> (Inr res, ds3))))"

definition copied :: "externals \<Rightarrow> aead \<Rightarrow> stage_name \<Rightarrow> data_encryptor \<Rightarrow> data_store \<Rightarrow> octets \<Rightarrow> nat \<Rightarrow> data_writer \<times> data_store \<Rightarrow> bool" where
  "copied ex ae stage e0 ds content pos s = (\<exists>pieces. concat pieces = take pos content
     \<and> fst s = \<lparr>dw_stage = stage, dw_encryptor = Some (fold (encryptor_write ae (ex_cr ex)) pieces e0)\<rparr>
     \<and> snd s = ds\<lparr>ds_files := stage_all stage (de_out (fold (encryptor_write ae (ex_cr ex)) pieces e0)) (ds_files ds)\<rparr>)"

lemma copied_step:
  assumes "copied ex ae stage e0 ds content pos s" "room e0"
  shows "copied ex ae stage e0 ds content (pos + n) (snd (writer_write ex ae (take n (drop pos content)) s))"
proof -
  let ?w = "encryptor_write ae (ex_cr ex)" and ?p = "take n (drop pos content)"
  obtain pieces where ps: "concat pieces = take pos content"
      "fst s = \<lparr>dw_stage = stage, dw_encryptor = Some (fold ?w pieces e0)\<rparr>"
      "snd s = ds\<lparr>ds_files := stage_all stage (de_out (fold ?w pieces e0)) (ds_files ds)\<rparr>"
    using assms(1) by (auto simp: copied_def)
  obtain new where new: "de_out (?w ?p (fold ?w pieces e0)) = de_out (fold ?w pieces e0) @ new"
    using write_extends [OF writes_room [OF assms(2)]] by metis
  have "stage_emitted stage (fold ?w pieces e0) (?w ?p (fold ?w pieces e0)) (snd s) =
      ds\<lparr>ds_files := stage_all stage (de_out (?w ?p (fold ?w pieces e0))) (ds_files ds)\<rparr>"
    using stage_emitted_eq [OF new, of "snd s" stage "ds_files ds"] ps(3) by simp
  then show ?thesis using ps unfolding copied_def
    by (intro exI [of _ "pieces @ [?p]"]) (simp add: writer_write_def Let_def take_add)
qed

lemma copy_whole:
  assumes "room e0" "de_out e0 = []" "length content < 2 ^ 64"
  shows "\<exists>s. copy_record_data ex ae (memory_read content) (of_nat (length content)) (\<lparr>dw_stage = stage, dw_encryptor = Some e0\<rparr>, ds) = (None, s)
    \<and> copied ex ae stage e0 ds content (length content) s"
proof -
  let ?s = "(\<lparr>dw_stage = stage, dw_encryptor = Some e0\<rparr>, ds)" and ?piece = "min (length content) (256 * 1024)"
  have u: "unat (of_nat (length content) :: u64) = length content" using assms(3) by (simp add: unat_of_nat_small)
  have start: "copied ex ae stage e0 ds content 0 ?s"
    using assms(2) by (auto simp: copied_def stage_all_def intro!: exI [of _ "[]"])
  have "\<exists>s. stream_loop (\<lambda>pos n st. (memory_read content pos n, st)) (\<lambda>piece st. snd (writer_write ex ae piece st)) ?piece (length content) 0 ?s = (True, s)
      \<and> copied ex ae stage e0 ds content (length content) s"
  proof (rule stream_loop_reads)
    fix pos st
    assume "copied ex ae stage e0 ds content pos st" "pos < length content"
    then show "fst (memory_read content (of_nat pos) (of_nat (min ?piece (length content - pos))), st) =
          take (min ?piece (length content - pos)) (drop pos content) \<and>
        copied ex ae stage e0 ds content (pos + min ?piece (length content - pos))
          (snd (writer_write ex ae (take (min ?piece (length content - pos)) (drop pos content))
            (snd (memory_read content (of_nat pos) (of_nat (min ?piece (length content - pos))), st))))"
      using copied_step [OF _ assms(1)] memory_read_eq [of pos content "min ?piece (length content - pos)"] assms(3) by simp
  qed (use start in auto)
  then obtain s where "stream_loop (\<lambda>pos n st. (memory_read content pos n, st)) (\<lambda>piece st. snd (writer_write ex ae piece st)) ?piece (length content) 0 ?s = (True, s)"
      "copied ex ae stage e0 ds content (length content) s" by blast
  then show ?thesis using u by (intro exI [of _ s]) (simp add: copy_record_data_def stream_record_data_def)
qed

subsection \<open>The stored chunks\<close>

lemma stage_all_stages:
  "cf_stages f stage = Some d \<Longrightarrow> cf_stages (stage_all stage xs f) = (cf_stages f)(stage \<mapsto> d ++ map_of (rev xs))
     \<and> cf_dirs (stage_all stage xs f) = cf_dirs f"
proof (induction xs arbitrary: f d)
  case (Cons x xs)
  obtain c y where x: "x = (c, y)" by force
  let ?f = "write_staged stage c y f"
  have f: "cf_stages ?f stage = Some (d(c \<mapsto> y))" "cf_dirs ?f = cf_dirs f" "cf_stages ?f = (cf_stages f)(stage \<mapsto> d(c \<mapsto> y))"
    using Cons.prems by (simp_all add: write_staged_def write_file_def)
  have all: "stage_all stage (x # xs) f = stage_all stage xs ?f" by (simp add: stage_all_def x)
  have "d ++ map_of (rev (x # xs)) = d(c \<mapsto> y) ++ map_of (rev xs)" by (simp add: x map_add_assoc)
  then show ?case using Cons.IH [OF f(1)] unfolding all f(2,3) fun_upd_upd by presburger
qed (simp add: stage_all_def map_upd_triv)

lemma seal_keys: "map fst (seal ae k nonce c bs) = map (\<lambda>i. c + of_nat i) [0..<length bs]"
proof (induction bs arbitrary: c)
  case (Cons b bs)
  have "map (\<lambda>i. c + of_nat i) [0..<Suc (length bs)] = c # map (\<lambda>i. c + 1 + of_nat i) [0..<length bs]"
    by (simp add: upt_conv_Cons map_Suc_upt [symmetric] comp_def algebra_simps del: upt_Suc)
  then show ?case using Cons [of "c + 1"] by simp
qed simp

lemma seal_map:
  assumes "length bs < 2 ^ 64" "i < length bs"
  shows "map_of (rev (seal ae k nonce 0 bs)) (of_nat i) = Some (snd (seal ae k nonce 0 bs ! i))"
proof -
  have "inj_on (of_nat :: nat \<Rightarrow> u64) {0..<length bs}"
  proof (rule inj_onI)
    fix x y assume "x \<in> {0..<length bs}" "y \<in> {0..<length bs}" "(of_nat x :: u64) = of_nat y"
    moreover from this have "unat (of_nat x :: u64) = x" "unat (of_nat y :: u64) = y"
      using assms(1) by (intro unat_of_nat_small; simp)+
    ultimately show "x = y" by metis
  qed
  then have "distinct (rev (map fst (seal ae k nonce 0 bs)))" by (simp add: seal_keys distinct_map)
  then have "distinct (map fst (rev (seal ae k nonce 0 bs)))" by (simp only: rev_map)
  moreover have "(of_nat i, snd (seal ae k nonce 0 bs ! i)) \<in> set (rev (seal ae k nonce 0 bs))"
    using nth_mem [of i "seal ae k nonce 0 bs"] assms(2) by (simp add: seal_nth)
  ultimately show ?thesis by (rule map_of_is_SomeI)
qed

text \<open>A data that is stored completely: its row holds all chunks, and the files are the sealed blocks.\<close>

definition stored_whole :: "externals \<Rightarrow> aead \<Rightarrow> encryption_key \<Rightarrow> octets \<Rightarrow> u32 \<Rightarrow> octets \<Rightarrow> data_id \<Rightarrow> data_store \<Rightarrow> bool" where
  "stored_whole ex ae key nonce cs content i ds = (\<forall>k<length (content_blocks cs content).
     cf_file i (of_nat k) (ds_files ds) = Some (snd (seal ae (derive_data_key ae (ek_key key) nonce) nonce 0 (content_blocks cs content) ! k)))"

lemma encryptor_room: "data_encryptor_of ae key cs nonce = Inr e \<Longrightarrow> room e \<and> de_out e = [] \<and> cs \<noteq> 0"
  by (auto simp: data_encryptor_of_def unat_gt_0 split: if_splits)

text \<open>The staging area of a finished writer, and the result.\<close>

lemma finished_writer:
  assumes "data_encryptor_of ae key cs nonce = Inr e0" "copied ex ae stage e0 ds content (length content) s"
    and "encryptor_finish ae (ex_cr ex) (the (dw_encryptor (fst s))) = (res, enc1)"
  shows "stage_emitted stage (the (dw_encryptor (fst s))) enc1 (snd s) = ds\<lparr>ds_files :=
      stage_all stage (seal ae (derive_data_key ae (ek_key key) nonce) nonce 0 (content_blocks cs content)) (ds_files ds)\<rparr>"
    and "encryptor_finish ae (ex_cr ex) (encryptor_write ae (ex_cr ex) content e0) = (res, enc1)"
proof -
  let ?w = "encryptor_write ae (ex_cr ex)"
  obtain pieces where ps: "concat pieces = content"
      "fst s = \<lparr>dw_stage = stage, dw_encryptor = Some (fold ?w pieces e0)\<rparr>"
      "snd s = ds\<lparr>ds_files := stage_all stage (de_out (fold ?w pieces e0)) (ds_files ds)\<rparr>"
    using assms(2) by (auto simp: copied_def)
  have fin: "encryptor_finish ae (ex_cr ex) (fold ?w pieces e0) = (res, enc1)" using assms(3) ps(2) by simp
  have out: "de_out enc1 = seal ae (derive_data_key ae (ek_key key) nonce) nonce 0 (content_blocks cs content)"
    using encryptor_total [OF assms(1) ps(1), of "ex_cr ex"] fin by auto
  obtain new where "de_out enc1 = de_out (fold ?w pieces e0) @ new"
    using finish_extends [of "fold ?w pieces e0" ae "ex_cr ex"] writes_room [of e0] encryptor_room [OF assms(1)] fin by auto
  from stage_emitted_eq [OF this, of "snd s" stage "ds_files ds"]
  show "stage_emitted stage (the (dw_encryptor (fst s))) enc1 (snd s) = ds\<lparr>ds_files :=
      stage_all stage (seal ae (derive_data_key ae (ek_key key) nonce) nonce 0 (content_blocks cs content)) (ds_files ds)\<rparr>"
    using ps out by simp
  have "encryptor_finish ae (ex_cr ex) (fold ?w [content] e0) = encryptor_finish ae (ex_cr ex) (fold ?w pieces e0)"
    using encryptor_total [OF assms(1) ps(1), of "ex_cr ex"] encryptor_total [OF assms(1), of "[content]" content "ex_cr ex"] by simp
  then show "encryptor_finish ae (ex_cr ex) (?w content e0) = (res, enc1)" using fin by simp
qed

lemma commit_staged:
  assumes "cf_stages f stage = Some d" "replace \<or> cf_dirs f i = None"
  shows "commit_staging stage i replace f = Inr (discard_staging stage (f\<lparr>cf_dirs := (cf_dirs f)(i \<mapsto> d)\<rparr>))"
  using assms by (auto simp: commit_staging_def cf_remove_def Let_def)

lemma concat_entry: "\<forall>d\<in>set ds. length d = n \<Longrightarrow> k < length ds \<Longrightarrow> take n (drop (k * n) (concat ds)) = ds ! k"
proof (induction ds arbitrary: k)
  case (Cons d ds)
  then show ?case by (cases k) auto
qed simp

text \<open>The chunks of a content are the chunks its identifier names.\<close>

lemma sealed_named:
  assumes "store_env ex U" "s = seal ae k nonce 0 bs" "m = \<lparr>chunk_digests = map (chunk_digest (ex_cr ex) \<circ> snd) s, dm_trailing = []\<rparr>"
    "manifest_octets m \<in> U" "unat c < length bs"
  shows "names_chunk ex U (manifest_digest_of (ex_cr ex) m) c (snd (s ! unat c))"
proof -
  let ?ds = "chunk_digests m"
  have "\<forall>d\<in>set ?ds. length d = ex_hash_size ex" using assms(1,3) by (auto simp: store_env_def chunk_digest_def)
  from concat_entry [OF this, of "unat c"]
  have "take (ex_hash_size ex) (drop (unat c * ex_hash_size ex) (concat ?ds)) = cr_hash (ex_cr ex) (snd (s ! unat c))"
    using assms(2,3,5) by (simp add: chunk_digest_def)
  then show ?thesis using assms(4) unfolding names_chunk_def
    by (intro bexI [of _ "manifest_octets m"]) (simp_all add: manifest_octets_def manifest_digest_of_def)
qed

lemma set_all_bits:
  assumes "unat cc + 7 < 2 ^ 64"
  shows "octet_bit (hb_bits (bm_set_all (have_none cc))) k \<longleftrightarrow> k < unat cc"
  using held_bm_set_all [OF wf_have_none [OF assms]] by (auto simp: held_chunks_def have_none_def)

lemma finish_result:
  assumes "aead_ok ae" "chunk_tag_size ae = ex_tag_size ex"
    and "data_encryptor_of ae key cs nonce = Inr e0" "stream_fits (ex_tag_size ex) content"
    and "encryptor_finish ae (ex_cr ex) (encryptor_write ae (ex_cr ex) content e0) = (res, enc1)"
  defines "s \<equiv> seal ae (derive_data_key ae (ek_key key) nonce) nonce 0 (content_blocks cs content)"
  shows "er_manifest res = \<lparr>chunk_digests = map (chunk_digest (ex_cr ex) \<circ> snd) s, dm_trailing = []\<rparr>"
    and "manifest_digest (er_descriptor res) = manifest_digest_of (ex_cr ex) (er_manifest res)" "dd_chunk_size (er_descriptor res) = cs"
    and "chunk_count (ex_tag_size ex) (er_descriptor res) = of_nat (length (content_blocks cs content))"
    and "er_header res = \<lparr>plain_size = of_nat (length content), content_digest = cr_hash (ex_cr ex) content, dh_nonce = nonce,
        key_seq = ek_seq key, dh_flags = 0, dh_trailing = []\<rparr>"
    and "dd_trailing (er_descriptor res) = []"
    and "enc_size (er_descriptor res) =
      of_nat (length content + padding_of content + ex_tag_size ex * length (content_blocks cs content))"
proof -
  have cs: "cs \<noteq> 0" using encryptor_room [OF assms(3)] by simp
  show "er_manifest res = \<lparr>chunk_digests = map (chunk_digest (ex_cr ex) \<circ> snd) s, dm_trailing = []\<rparr>"
    and "manifest_digest (er_descriptor res) = manifest_digest_of (ex_cr ex) (er_manifest res)"
    and d: "dd_chunk_size (er_descriptor res) = cs"
    and "er_header res = \<lparr>plain_size = of_nat (length content), content_digest = cr_hash (ex_cr ex) content, dh_nonce = nonce,
        key_seq = ek_seq key, dh_flags = 0, dh_trailing = []\<rparr>"
    and "dd_trailing (er_descriptor res) = []"
    using encryptor_total [OF assms(3), of "[content]" content "ex_cr ex"] assms(5) by (auto simp: s_def)
  have es: "enc_size (er_descriptor res) = of_nat (length (concat (map snd s)))"
    using encryptor_total [OF assms(3), of "[content]" content "ex_cr ex"] assms(5) by (auto simp: s_def)
  moreover have "length (concat (content_blocks cs content)) = length content + padding_of content"
    using cs by (simp add: content_blocks_def concat_split_digests unat_gt_0)
  ultimately show "enc_size (er_descriptor res) =
      of_nat (length content + padding_of content + ex_tag_size ex * length (content_blocks cs content))"
    using assms(2) by (simp add: s_def seal_size [OF assms(1)])
  from es show "chunk_count (ex_tag_size ex) (er_descriptor res) = of_nat (length (content_blocks cs content))"
    using stream_chunk_count [OF assms(1) _ cs s_def [THEN meta_eq_to_obj_eq] _ d] assms(2,4) by simp
qed

lemma register_held_ok:
  assumes inv: "store_inv ex U ds" and env: "store_env ex U" and ae: "aead_ok ae" "chunk_tag_size ae = ex_tag_size ex"
    and enc: "data_encryptor_of ae key cs nonce = Inr e0" "stream_fits (ex_tag_size ex) content"
    and fin: "encryptor_finish ae (ex_cr ex) (encryptor_write ae (ex_cr ex) content e0) = (res, enc1)"
    and U: "manifest_octets (er_manifest res) \<in> U"
    and stage: "cf_stages (ds_files ds) stage = Some d"
      "\<And>k. k < length (content_blocks cs content) \<Longrightarrow> d (of_nat k) =
        Some (snd (seal ae (derive_data_key ae (ek_key key) nonce) nonce 0 (content_blocks cs content) ! k))"
    and free: "replace \<or> cf_dirs (ds_files ds) (manifest_digest (er_descriptor res)) = None"
    and reg: "register_held ex stage res state replace ds = (err, ds')"
  shows "err \<noteq> None \<and> ds' = ds \<and> \<not> usable_data_descriptor (ex_tag_size ex) (er_descriptor res) \<or> err = None \<and> store_inv ex U ds'
      \<and> stored_whole ex ae key nonce cs content (manifest_digest (er_descriptor res)) ds'
      \<and> cf_stages (ds_files ds') = (cf_stages (ds_files ds))(stage := None)"
proof (cases "dt_ensure (ex_tag_size ex) (er_descriptor res) (ds_table ds)")
  case (Inl e)
  then have "\<not> usable_data_descriptor (ex_tag_size ex) (er_descriptor res)"
    using dt_insert_row [of "er_descriptor res" "ex_tag_size ex" "ds_table ds"] by (auto simp: dt_ensure_def dt_find_def Let_def split: if_splits)
  then show ?thesis using Inl reg by (auto simp: register_held_def)
next
  case (Inr kt)
  obtain k t where e: "dt_ensure (ex_tag_size ex) (er_descriptor res) (ds_table ds) = Inr (k, t)" using Inr by (cases kt) simp
  let ?s = "seal ae (derive_data_key ae (ek_key key) nonce) nonce 0 (content_blocks cs content)"
  let ?i = "manifest_digest (er_descriptor res)" and ?bs = "content_blocks cs content"
  let ?b = "bm_set_all (have_none (chunk_count (ex_tag_size ex) (er_descriptor res)))"
  have cs: "cs \<noteq> 0" using encryptor_room [OF enc(1)] by simp
  note m = finish_result(1) [OF ae enc fin] and i = finish_result(2,3) [OF ae enc fin] and count = finish_result(4) [OF ae enc fin]
  have small: "length ?bs < 2 ^ 64" "unat (chunk_count (ex_tag_size ex) (er_descriptor res)) + 7 < 2 ^ 64"
    using stream_fits_sizes(3) [OF enc(2) cs] usable_chunks(2) [of "ex_tag_size ex" "er_descriptor res"] dt_ensure_cases [OF e] env
    by (auto simp: store_env_def)
  then have bits: "octet_bit (hb_bits ?b) j \<longleftrightarrow> j < length ?bs" for j using set_all_bits count by (simp add: unat_of_nat_small)
  let ?f = "discard_staging stage ((ds_files ds)\<lparr>cf_dirs := (cf_dirs (ds_files ds))(?i \<mapsto> d)\<rparr>)"
  have fl: "cf_file j c ?f = (if j = ?i then d c else cf_file j c (ds_files ds))" for j c
    by (simp add: cf_file_def discard_staging_def)
  obtain r where r: "r \<in> set (dt_rows t)" "tr_key r = k" "tr_data_id r = ?i" using dt_ensure_cases [OF e] table_row_SomeD by blast
  let ?d1 = "ds\<lparr>ds_table := dt_set_manifest k (er_manifest res) t\<rparr>"
  let ?r1 = "r\<lparr>tr_digests := Some (manifest_octets (er_manifest res))\<rparr>"
  let ?d2 = "?d1\<lparr>ds_table := dt_set_header k (er_header res) (ds_table ?d1)\<rparr>" and ?r2 = "?r1\<lparr>tr_header := Some (er_header res)\<rparr>"
  have "store_inv ex U ?d1"
    using inv_set_manifest [OF inv_ensure(1) [OF inv env e], of r "er_manifest res"] r U i(1)
    by (simp add: manifest_digest_of_def manifest_octets_def)
  moreover have r1: "?r1 \<in> set (dt_rows (ds_table ?d1))" using r by (force simp: dt_set_manifest_def dt_update_def)
  ultimately have inv2: "store_inv ex U ?d2" using inv_set_header [of ex U ?d1 ?r1 "er_header res"] r(2) by simp
  have r2: "?r2 \<in> set (dt_rows (ds_table ?d2))" using r1 r(2) by (force simp: dt_set_header_def dt_update_def)
  have held: "\<exists>x. cf_file ?i c ?f = Some x \<and> names_chunk ex U ?i c x" if "octet_bit (hb_bits ?b) (unat c)" for c
    using that bits stage(2) [of "unat c"] sealed_named [OF env refl m U, of c] i(1) fl by simp
  have inv3: "store_inv ex U (?d2\<lparr>ds_files := ?f, ds_table := dt_set_have k ?b (ds_table ?d2), ds_drops := ds_drops ds\<rparr>)"
    using inv_have_octets [OF inv2 env r2, of ?f ?b "ds_drops ds"] r(2,3) held fl by simp
  have "\<exists>q\<in>set (dt_rows (dt_set_have k ?b (ds_table ?d2))). tr_key q = k" using have_row [OF r2] r(2) by simp
  then have inv4: "store_inv ex U (ds\<lparr>ds_files := ?f, ds_table := dt_set_state k state (dt_set_have k ?b (ds_table ?d2))\<rparr>)"
    using inv_set_state_key [OF inv3, of k state] by (simp add: store_inv_def)
  have "err = None" "ds' = ds\<lparr>ds_files := ?f, ds_table := dt_set_state k state (dt_set_have k ?b (ds_table ?d2))\<rparr>"
    using reg e commit_staged [OF stage(1) free] by (simp_all add: register_held_def Let_def)
  then show ?thesis using inv4 stage(2) fl by (simp add: stored_whole_def) (simp add: discard_staging_def)
qed

lemma begin_staging_fresh:
  "cf_stages f stage = None \<Longrightarrow> cf_stages (begin_staging stage f) = (cf_stages f)(stage \<mapsto> Map.empty) \<and> cf_dirs (begin_staging stage f) = cf_dirs f"
  by (simp add: begin_staging_def)

lemma sealed_stage:
  assumes "cf_stages f stage = None" "length bs < 2 ^ 64"
    and g_def: "g = stage_all stage (seal ae k nonce 0 bs) (begin_staging stage f)"
  shows "\<exists>d. cf_stages g = (cf_stages f)(stage \<mapsto> d) \<and> cf_dirs g = cf_dirs f
    \<and> (\<forall>i<length bs. d (of_nat i) = Some (snd (seal ae k nonce 0 bs ! i)))"
proof -
  let ?d = "Map.empty ++ map_of (rev (seal ae k nonce 0 bs))"
  have "cf_stages (begin_staging stage f) stage = Some Map.empty" using begin_staging_fresh [OF assms(1)] by simp
  from stage_all_stages [OF this, of "seal ae k nonce 0 bs"]
  have "cf_stages g = (cf_stages f)(stage \<mapsto> ?d) \<and> cf_dirs g = cf_dirs f"
    unfolding g_def using begin_staging_fresh [OF assms(1)] by simp
  then show ?thesis using seal_map [OF assms(2)] by (intro exI [of _ ?d]) simp
qed

text \<open>The result of writing a content depends on the content, the key and the nonce only.\<close>

definition data_result :: "externals \<Rightarrow> aead \<Rightarrow> encryption_key \<Rightarrow> u32 \<Rightarrow> octets \<Rightarrow> octets \<Rightarrow> encrypted_data_result option" where
  "data_result ex ae key cs nonce content =
     (case data_encryptor_of ae key cs nonce of
        Inr e \<Rightarrow> Some (fst (encryptor_finish ae (ex_cr ex) (encryptor_write ae (ex_cr ex) content e)))
      | Inl _ \<Rightarrow> None)"

lemma write_data_cases:
  assumes inv: "store_inv ex U ds" and env: "store_env ex U" and ae: "aead_ok ae" "chunk_tag_size ae = ex_tag_size ex"
    and fits: "stream_fits (ex_tag_size ex) content" and fresh: "cf_stages (ds_files ds) stage = None"
    and new: "\<And>res. data_result ex ae key cs nonce content = Some res \<Longrightarrow>
      cf_dirs (ds_files ds) (manifest_digest (er_descriptor res)) = None \<and> manifest_octets (er_manifest res) \<in> U"
    and run: "store_write_data ex ae stage nonce key cs content ds = (r, ds')"
  shows "store_inv ex U ds' \<and> cf_stages (ds_files ds') = cf_stages (ds_files ds)
    \<and> (\<forall>res. r = Inr res \<longrightarrow> data_result ex ae key cs nonce content = Some res
        \<and> stored_whole ex ae key nonce cs content (manifest_digest (er_descriptor res)) ds'
        \<and> (\<exists>ds3. ds_table ds3 = ds_table ds \<and> register_held ex stage res ds_upload_pending False ds3 = (None, ds')))
    \<and> (\<forall>e res. r = Inl e \<longrightarrow> data_result ex ae key cs nonce content = Some res
        \<longrightarrow> \<not> usable_data_descriptor (ex_tag_size ex) (er_descriptor res))"
proof (cases "data_encryptor_of ae key cs nonce")
  case (Inl e)
  have "r = Inl e" "ds' = ds\<lparr>ds_files := discard_staging stage (begin_staging stage (ds_files ds))\<rparr>"
    using run Inl by (auto simp: store_write_data_def store_create_def Let_def)
  moreover have "store_inv ex U (ds\<lparr>ds_files := discard_staging stage (begin_staging stage (ds_files ds))\<rparr>)"
    using inv by (rule files_only) simp
  ultimately show ?thesis using fresh Inl by (auto simp: discard_staging_def begin_staging_def data_result_def)
next
  case (Inr e0)
  let ?ds1 = "ds\<lparr>ds_files := begin_staging stage (ds_files ds)\<rparr>" and ?bs = "content_blocks cs content"
  let ?s = "seal ae (derive_data_key ae (ek_key key) nonce) nonce 0 ?bs"
  have e0: "room e0" "de_out e0 = []" "cs \<noteq> 0" using encryptor_room [OF Inr] by auto
  note sizes = stream_fits_sizes [OF fits e0(3)]
  obtain w ds2 where copy: "copy_record_data ex ae (memory_read content) (of_nat (length content))
      (\<lparr>dw_stage = stage, dw_encryptor = Some e0\<rparr>, ?ds1) = (None, w, ds2)" "copied ex ae stage e0 ?ds1 content (length content) (w, ds2)"
    using copy_whole [OF e0(1,2), of content ex ae stage ?ds1] sizes(1) by (auto simp: split_paired_Ex)
  obtain enc where w: "w = \<lparr>dw_stage = stage, dw_encryptor = Some enc\<rparr>" using copy(2) by (auto simp: copied_def)
  obtain res enc1 where fin: "encryptor_finish ae (ex_cr ex) enc = (res, enc1)" by (meson surj_pair)
  let ?ds3 = "?ds1\<lparr>ds_files := stage_all stage ?s (begin_staging stage (ds_files ds))\<rparr>"
  have one: "encryptor_finish ae (ex_cr ex) (encryptor_write ae (ex_cr ex) content e0) = (res, enc1)"
    and staged: "stage_emitted stage enc enc1 ds2 = ?ds3"
    using finished_writer [OF Inr copy(2), of res enc1] w fin by simp_all
  have dres: "data_result ex ae key cs nonce content = Some res" using Inr one by (simp add: data_result_def)
  obtain d where d: "cf_stages (ds_files ?ds3) = (cf_stages (ds_files ds))(stage \<mapsto> d)" "cf_dirs (ds_files ?ds3) = cf_dirs (ds_files ds)"
      "\<forall>i<length ?bs. d (of_nat i) = Some (snd (?s ! i))"
    using sealed_stage [OF fresh sizes(3) refl, of ae "derive_data_key ae (ek_key key) nonce" nonce] by (elim exE conjE) simp
  have inv3: "store_inv ex U ?ds3" using inv d(2) by (simp add: store_inv_def row_ok_def cf_file_def)
  obtain err ds4 where reg: "register_held ex stage res ds_upload_pending False ?ds3 = (err, ds4)" by (meson surj_pair)
  have "err \<noteq> None \<and> ds4 = ?ds3 \<and> \<not> usable_data_descriptor (ex_tag_size ex) (er_descriptor res) \<or> err = None \<and> store_inv ex U ds4
      \<and> stored_whole ex ae key nonce cs content (manifest_digest (er_descriptor res)) ds4
      \<and> cf_stages (ds_files ds4) = (cf_stages (ds_files ?ds3))(stage := None)"
    by (rule register_held_ok [OF inv3 env ae Inr fits one _ _ _ _ reg, where d = d]) (use new [OF dres] d in auto)
  moreover have "r = (case err of None \<Rightarrow> Inr res | Some e \<Rightarrow> Inl e)"
      "ds' = (case err of None \<Rightarrow> ds4 | Some e \<Rightarrow> ds4\<lparr>ds_files := discard_staging stage (ds_files ds4)\<rparr>)"
    using run Inr copy(1) w fin staged reg
    by (auto simp: store_write_data_def store_create_def Let_def writer_finish_def writer_drop_def split: option.splits)
  moreover have "store_inv ex U (?ds3\<lparr>ds_files := discard_staging stage (ds_files ?ds3)\<rparr>)" using inv3 by (rule files_only) simp
  moreover have "ds_table ?ds3 = ds_table ds" by simp
  ultimately show ?thesis using d(1) dres fresh reg by (auto simp: discard_staging_def split: option.splits intro!: exI [of _ ?ds3])
qed

section \<open>Reading a data back\<close>

text \<open>
  A handle is good for a content when the store holds all its chunks, every key candidate opens a
  chunk to its part of the content or not at all, one of them does, and the cached chunk is a part
  of the content.
\<close>

definition part_of :: "u32 \<Rightarrow> octets \<Rightarrow> nat \<Rightarrow> octets" where
  "part_of cs content k = take (unat cs) (drop (k * unat cs) content)"

definition handle_good :: "externals \<Rightarrow> aead \<Rightarrow> u32 \<Rightarrow> octets \<Rightarrow> (nat \<Rightarrow> octets) \<Rightarrow> stored_record_data \<times> data_store \<Rightarrow> bool" where
  "handle_good ex ae cs content chunk s =
     ((\<exists>row. store_find ex (sd_id (fst s)) (snd s) = Some row
         \<and> (\<forall>k<length (content_blocks cs content). bm_test (dr_have row) (of_nat k)))
      \<and> (\<forall>k<length (content_blocks cs content). cf_file (sd_id (fst s)) (of_nat k) (ds_files (snd s)) = Some (chunk k))
      \<and> (\<forall>k<length (content_blocks cs content).
           (\<forall>dc\<in>set (sd_decryptors (fst s)). decryptor_decrypt ae dc (of_nat k) (chunk k) \<in> {None, Some (part_of cs content k)})
           \<and> (\<exists>dc\<in>set (sd_decryptors (fst s)). decryptor_decrypt ae dc (of_nat k) (chunk k) \<noteq> None))
      \<and> (\<forall>c. sd_cached_no (fst s) = Some c \<and> sd_cached_at_drops (fst s) = ds_drops (snd s) \<longrightarrow> sd_cached (fst s) = part_of cs content (unat c)))"

lemma try_decryptors_first:
  assumes "\<exists>dc\<in>set dcs. decryptor_decrypt ae dc c x \<noteq> None" "\<forall>dc\<in>set dcs. decryptor_decrypt ae dc c x \<in> {None, Some p}"
  shows "\<exists>j<length dcs. try_decryptors ae c x i dcs = Some (i + j, p)"
  using assms
proof (induction dcs arbitrary: i)
  case (Cons dc dcs)
  show ?case
  proof (cases "decryptor_decrypt ae dc c x")
    case None
    then obtain j where "j < length dcs" "try_decryptors ae c x (Suc i) dcs = Some (Suc i + j, p)"
      using Cons.IH [of "Suc i"] Cons.prems by auto
    then show ?thesis using None by (intro exI [of _ "Suc j"]) simp
  next
    case (Some q)
    then show ?thesis using Cons.prems by (intro exI [of _ 0]) auto
  qed
qed simp

lemma handle_decrypt_good:
  assumes "handle_good ex ae cs content chunk (h, ds)" "k < length (content_blocks cs content)"
  shows "\<exists>dcs. handle_decrypt ae (of_nat k) (chunk k) h = (Some (part_of cs content k), h\<lparr>sd_decryptors := dcs\<rparr>)
    \<and> set dcs = set (sd_decryptors h)"
proof -
  let ?dcs = "sd_decryptors h"
  obtain j where j: "j < length ?dcs" "try_decryptors ae (of_nat k) (chunk k) 0 ?dcs = Some (j, part_of cs content k)"
    using try_decryptors_first [of ?dcs ae "of_nat k" "chunk k" "part_of cs content k" 0] assms by (auto simp: handle_good_def)
  then have "set (?dcs[0 := ?dcs ! j, j := ?dcs ! 0]) = set ?dcs" by (intro set_swap) auto
  then show ?thesis using j(2) by (auto simp: handle_decrypt_def)
qed

lemma handle_load_good:
  assumes good: "handle_good ex ae cs content chunk (h, ds)" and k: "k < length (content_blocks cs content)" "k < 2 ^ 64"
  shows "\<exists>h'. handle_load ex ae True (of_nat k) (h, ds) = (True, h', ds) \<and> handle_good ex ae cs content chunk (h', ds)
    \<and> sd_cached h' = part_of cs content k \<and> sd_id h' = sd_id h \<and> sd_plain_size h' = sd_plain_size h \<and> sd_chunk_size h' = sd_chunk_size h"
proof -
  define h1 where "h1 = (if ds_drops ds \<noteq> sd_cached_at_drops h
    then h\<lparr>sd_cached_no := None, sd_cached := [], sd_cached_at_drops := ds_drops ds\<rparr> else h)"
  have g: "handle_good ex ae cs content chunk (h1, ds)" "sd_cached_at_drops h1 = ds_drops ds" "sd_id h1 = sd_id h"
      "sd_plain_size h1 = sd_plain_size h" "sd_chunk_size h1 = sd_chunk_size h"
    using good by (auto simp: handle_good_def h1_def)
  have load: "handle_load ex ae True (of_nat k) (h, ds) =
      (if sd_cached_no h1 = Some (of_nat k) then (True, h1, ds)
       else case read_chunk ex True (sd_id h1) (of_nat k) ds of
           (Some encrypted, ds1) \<Rightarrow>
             (case handle_decrypt ae (of_nat k) encrypted h1 of
                (Some plain, h2) \<Rightarrow> (True, h2\<lparr>sd_cached := plain, sd_cached_no := Some (of_nat k)\<rparr>, ds1)
              | (None, h2) \<Rightarrow> (False, h2, chunk_failed ex (sd_id h1) (of_nat k) encrypted ds1))
         | (None, ds1) \<Rightarrow> (False, h1, ds1))"
    unfolding handle_load_def Let_def fst_conv snd_conv h1_def by (rule refl)
  have u: "unat (of_nat k :: u64) = k" using k(2) by (simp add: unat_of_nat_small)
  show ?thesis
  proof (cases "sd_cached_no h1 = Some (of_nat k)")
    case True
    then have "handle_load ex ae True (of_nat k) (h, ds) = (True, h1, ds)" using load by simp
    moreover have "sd_cached h1 = part_of cs content k" using g(1,2) True u by (simp add: handle_good_def)
    ultimately show ?thesis using g by blast
  next
    case False
    obtain row where row: "store_find ex (sd_id h1) ds = Some row" "bm_test (dr_have row) (of_nat k)"
        "cf_file (sd_id h1) (of_nat k) (ds_files ds) = Some (chunk k)"
      using g(1) k(1) unfolding handle_good_def by auto
    then have read: "read_chunk ex True (sd_id h1) (of_nat k) ds = (Some (chunk k), ds)" by (simp add: read_chunk_def cf_read_def)
    obtain dcs where dcs: "handle_decrypt ae (of_nat k) (chunk k) h1 = (Some (part_of cs content k), h1\<lparr>sd_decryptors := dcs\<rparr>)"
        "set dcs = set (sd_decryptors h1)"
      using handle_decrypt_good [OF g(1) k(1)] by blast
    let ?h' = "h1\<lparr>sd_decryptors := dcs, sd_cached := part_of cs content k, sd_cached_no := Some (of_nat k)\<rparr>"
    have "handle_load ex ae True (of_nat k) (h, ds) = (True, ?h', ds)"
      using False read dcs(1) load by simp
    moreover have "handle_good ex ae cs content chunk (?h', ds)"
      using g(1) dcs(2) u unfolding handle_good_def by simp
    ultimately show ?thesis using g(3-5) by (intro exI [of _ ?h']) simp
  qed
qed

lemma read_at_good:
  assumes good: "handle_good ex ae cs content chunk (h, ds)" and cs: "cs \<noteq> 0" "sd_chunk_size h = ucast cs"
    and p: "p < length content" "length content < 2 ^ 64"
  shows "\<exists>h'. read_at ex ae True (of_nat p) mx (h, ds) = (take (unat mx) (drop (p mod unat cs) (part_of cs content (p div unat cs))), h', ds)
    \<and> handle_good ex ae cs content chunk (h', ds) \<and> sd_plain_size h' = sd_plain_size h \<and> sd_chunk_size h' = sd_chunk_size h"
proof -
  let ?n = "unat cs"
  have n: "0 < ?n" using cs(1) by (simp add: unat_gt_0)
  have u: "unat (of_nat p :: u64) = p" "unat (ucast cs :: u64) = ?n"
    using p by (simp_all add: unat_of_nat_small unat_ucast_32)
  have small: "p div ?n < 2 ^ 64" "p mod ?n < 2 ^ 64" using p div_le_dividend [of p ?n] mod_less_eq_dividend [of p ?n] by linarith+
  have words: "(of_nat p :: u64) div ucast cs = of_nat (p div ?n)" "(of_nat p :: u64) mod ucast cs = of_nat (p mod ?n)"
    using u small by (auto simp: word_unat_eq_iff unat_div unat_mod unat_of_nat_small)
  have k: "p div ?n < length (content_blocks cs content)"
    using content_block_count(1) [OF cs(1), of content] p(1) by (simp add: div_less_iff_less_mult n)
  obtain h' where h': "handle_load ex ae True (of_nat (p div ?n)) (h, ds) = (True, h', ds)" "handle_good ex ae cs content chunk (h', ds)"
      "sd_cached h' = part_of cs content (p div ?n)" "sd_plain_size h' = sd_plain_size h" "sd_chunk_size h' = sd_chunk_size h"
    using handle_load_good [OF good k small(1)] by blast
  have "p div ?n * ?n + p mod ?n = p" by simp
  then have "p mod ?n < length content - p div ?n * ?n" using p(1) by linarith
  then have len: "p mod ?n < length (part_of cs content (p div ?n))" using n by (simp add: part_of_def)
  have "length (part_of cs content (p div ?n)) < 2 ^ 64" using p(2) by (simp add: part_of_def)
  then have "copy_cached (of_nat (p mod ?n)) mx h' = take (unat mx) (drop (p mod ?n) (part_of cs content (p div ?n)))"
    using len h'(3) small(2) by (simp add: copy_cached_def word_less_nat_alt unat_of_nat_small)
  then show ?thesis using h' cs(2) by (auto simp: read_at_def words)
qed

lemma part_prefix:
  assumes "0 < unat cs" "p < length content"
  shows "\<exists>n>0. drop (p mod unat cs) (part_of cs content (p div unat cs)) = take n (drop p content)"
proof -
  let ?n = "unat cs"
  have "p div ?n * ?n + p mod ?n = p" by simp
  then have "drop (p mod ?n) (part_of cs content (p div ?n)) = take (?n - p mod ?n) (drop p content)"
    by (simp add: part_of_def drop_take add.commute)
  then show ?thesis using assms(1) by (intro exI [of _ "?n - p mod ?n"]) simp
qed

lemma handle_read_loop_good:
  assumes "handle_good ex ae cs content chunk (h, ds)" "cs \<noteq> 0" "sd_chunk_size h = ucast cs" "sd_plain_size h = of_nat (length content)"
    and "length content < 2 ^ 64" "unat offset + length buf \<le> length content" "buf = take (length buf) (drop (unat offset) content)"
    "length buf \<le> unat sz"
  shows "fst (handle_read_loop ex ae True offset buf sz (h, ds)) = take (unat sz) (drop (unat offset) content)"
  using assms
proof (induction "unat sz - length buf" arbitrary: buf h rule: less_induct)
  case less
  let ?p = "unat offset + length buf" and ?left = "unat sz - length buf"
  note prems = less.prems
  have pos: "offset + of_nat (length buf) = of_nat ?p" by simp
  have u: "unat (of_nat ?p :: u64) = ?p" "unat (of_nat (length content) :: u64) = length content"
    using prems(5,6) by (intro unat_of_nat_small; simp)+
  have cond: "offset + of_nat (length buf) < sd_plain_size h \<longleftrightarrow> ?p < length content"
    unfolding pos prems(4) word_less_nat_alt u ..
  show ?case
  proof (cases "length buf < unat sz \<and> ?p < length content")
    case True
    have left: "unat (sz - of_nat (length buf)) = ?left"
      using True prems(5) unat_less_2_64 [of sz] by (simp add: word_sub_unat word_le_nat_alt unat_of_nat_small)
    obtain h' where r: "read_at ex ae True (of_nat ?p) (sz - of_nat (length buf)) (h, ds) =
          (take ?left (drop (?p mod unat cs) (part_of cs content (?p div unat cs))), h', ds)"
        "handle_good ex ae cs content chunk (h', ds)" "sd_plain_size h' = sd_plain_size h" "sd_chunk_size h' = sd_chunk_size h"
      using read_at_good [OF prems(1-3) _ prems(5), of ?p "sz - of_nat (length buf)"] True left by auto
    obtain n where n: "0 < n" "drop (?p mod unat cs) (part_of cs content (?p div unat cs)) = take n (drop ?p content)"
      using part_prefix [of cs ?p content] prems(2) True by (auto simp: unat_gt_0)
    let ?b = "take ?left (take n (drop ?p content))"
    have b: "?b \<noteq> []" using n(1) True by simp
    have ext: "buf @ ?b = take (length buf + length ?b) (drop (unat offset) content)"
      using prems(7) by (simp add: take_add min_def add.commute)
    have "handle_read_loop ex ae True offset buf sz (h, ds) = handle_read_loop ex ae True offset (buf @ ?b) sz (h', ds)"
      using b True cond by (subst handle_read_loop.simps) (simp only: pos r(1) n(2) Let_def fst_conv snd_conv simp_thms if_True if_False)
    moreover have "fst (handle_read_loop ex ae True offset (buf @ ?b) sz (h', ds)) = take (unat sz) (drop (unat offset) content)"
    proof (rule less.hyps)
      show "unat sz - length (buf @ ?b) < unat sz - length buf" using b True advance_less [of ?b "length buf" "unat sz"] by simp
      show "buf @ ?b = take (length (buf @ ?b)) (drop (unat offset) content)" unfolding length_append by (rule ext)
    qed (use r prems True in auto)
    ultimately show ?thesis by simp
  next
    case False
    have "handle_read_loop ex ae True offset buf sz (h, ds) = (buf, h, ds)"
      using False cond by (subst handle_read_loop.simps) (simp only: fst_conv if_False)
    moreover have "buf = take (unat sz) (drop (unat offset) content)"
      using False prems(6,7,8) by (cases "length buf < unat sz") auto
    ultimately show ?thesis by simp
  qed
qed

text \<open>The row of a data that is registered for the first time, and its handle.\<close>

lemma registered_row:
  assumes "register_held ex stage res state replace ds = (None, ds')" "table_row (manifest_digest (er_descriptor res)) (ds_table ds) = None"
    "dd_trailing (er_descriptor res) = []"
  shows "\<exists>r\<in>set (dt_rows (ds_table ds')). tr_data_id r = manifest_digest (er_descriptor res)
    \<and> dr_descriptor (extract_row (ex_tag_size ex) r) = er_descriptor res \<and> tr_header r = Some (er_header res) \<and> tr_state r = state
    \<and> tr_have r = hb_bits (bm_set_all (have_none (chunk_count (ex_tag_size ex) (er_descriptor res))))
    \<and> usable_data_descriptor (ex_tag_size ex) (er_descriptor res)"
proof -
  let ?d = "er_descriptor res" and ?ts = "ex_tag_size ex"
  let ?b = "bm_set_all (have_none (chunk_count ?ts ?d))"
  obtain k t f where e: "dt_ensure ?ts ?d (ds_table ds) = Inr (k, t)"
    and ds': "ds_table ds' = dt_set_state k state (dt_set_have k ?b (dt_set_header k (er_header res) (dt_set_manifest k (er_manifest res) t)))"
    using assms(1) by (auto simp: register_held_def Let_def split: sum.splits)
  let ?r0 = "\<lparr>tr_key = Suc (dt_last_key (ds_table ds)), tr_data_id = manifest_digest ?d, tr_enc_size = enc_size ?d,
      tr_chunk_size = dd_chunk_size ?d, tr_state = ds_deferred, tr_have = hb_bits (have_none (chunk_count ?ts ?d)),
      tr_digests = None, tr_header = None\<rparr>"
  have t: "t = dt_insert ?ts ?d (ds_table ds)" "usable_data_descriptor ?ts ?d" using dt_ensure_cases [OF e] by auto
  then have rows: "dt_rows t = dt_rows (ds_table ds) @ [?r0]" using assms(2) by (simp add: dt_insert_def)
  moreover have "table_row (manifest_digest ?d) t = Some ?r0"
    using assms(2) rows by (simp add: table_row_def find_append)
  ultimately have "k = tr_key ?r0" using dt_ensure_cases [OF e] by auto
  then have "?r0\<lparr>tr_digests := Some (manifest_octets (er_manifest res)), tr_header := Some (er_header res), tr_have := hb_bits ?b, tr_state := state\<rparr>
      \<in> set (dt_rows (ds_table ds'))"
    unfolding ds' table_setters by (simp add: dt_update_def rows)
  moreover have "\<lparr>enc_size = enc_size ?d, dd_chunk_size = dd_chunk_size ?d, manifest_digest = manifest_digest ?d, dd_trailing = []\<rparr> = ?d"
    using assms(3) by (cases ?d) simp
  ultimately show ?thesis using t(2) by (auto intro: rev_bexI)
qed

lemma open_known:
  assumes "store_inv ex U ds" "r \<in> set (dt_rows (ds_table ds))" "dr_descriptor (extract_row (ex_tag_size ex) r) = d"
    "tr_header r \<noteq> None" "keys \<noteq> []" "usable_data_descriptor (ex_tag_size ex) d"
  shows "store_open ex ae keys d h ds = Inr (Some \<lparr>sd_local_id = tr_key r, sd_id = manifest_digest d, sd_plain_size = plain_size h,
      sd_chunk_size = ucast (dd_chunk_size d), sd_decryptors = map (\<lambda>key. data_decryptor_of ae key d h) keys,
      sd_cached_no = None, sd_cached = [], sd_cached_at_drops = 0\<rparr>, ds)"
proof -
  have wf: "dt_wf (ex_tag_size ex) (ds_table ds)" using assms(1) by (simp add: store_inv_def)
  have i: "tr_data_id r = manifest_digest d" using assms(3) by auto
  have row: "table_row (manifest_digest d) (ds_table ds) = Some r" using table_row_mem [OF wf assms(2)] i by simp
  have at: "table_row_at (tr_key r) (ds_table ds) = Some r" using table_row_at_mem [OF wf assms(2)] .
  have "dt_insert (ex_tag_size ex) d (ds_table ds) = ds_table ds" using row by (simp add: dt_insert_def)
  then have "dt_ensure (ex_tag_size ex) d (ds_table ds) = Inr (tr_key r, ds_table ds)"
    using assms(6) row by (simp add: dt_ensure_def dt_find_def)
  then show ?thesis using assms(3-6) at by (auto simp: store_open_def dt_find_local_def dt_header_def)
qed

lemma whole_handle:
  assumes "aead_ok ae" "chunk_tag_size ae = ex_tag_size ex" "store_inv ex U ds" "store_env ex U"
    and enc: "data_encryptor_of ae key cs nonce = Inr e0" "stream_fits (ex_tag_size ex) content"
      "encryptor_finish ae (ex_cr ex) (encryptor_write ae (ex_cr ex) content e0) = (res, enc1)"
    and whole: "stored_whole ex ae key nonce cs content (manifest_digest (er_descriptor res)) ds"
    and r: "r \<in> set (dt_rows (ds_table ds))" "dr_descriptor (extract_row (ex_tag_size ex) r) = er_descriptor res" "tr_header r \<noteq> None"
      "tr_have r = hb_bits (bm_set_all (have_none (chunk_count (ex_tag_size ex) (er_descriptor res))))"
      "usable_data_descriptor (ex_tag_size ex) (er_descriptor res)"
    and keys: "key \<in> set keys" "\<forall>k\<in>set keys. k \<noteq> key \<longrightarrow>
      (\<forall>c x. decryptor_decrypt ae (data_decryptor_of ae k (er_descriptor res) (er_header res)) c x = None)"
  shows "\<exists>h. store_open ex ae keys (er_descriptor res) (er_header res) ds = Inr (Some h, ds)
    \<and> (\<forall>offset sz. fst (handle_read ex ae True offset sz (h, ds)) = take (unat sz) (drop (unat offset) content))"
proof -
  let ?d = "er_descriptor res" and ?bs = "content_blocks cs content" and ?k = "derive_data_key ae (ek_key key) nonce"
  let ?chunk = "\<lambda>i. snd (seal ae ?k nonce 0 ?bs ! i)" and ?dc = "data_decryptor_of ae key ?d (er_header res)"
  have cs: "cs \<noteq> 0" using encryptor_room [OF enc(1)] by simp
  note fits = stream_fits_sizes [OF enc(2) cs] and fr = finish_result [OF assms(1,2) enc]
  define h where "h = \<lparr>sd_local_id = tr_key r, sd_id = manifest_digest ?d, sd_plain_size = plain_size (er_header res),
      sd_chunk_size = ucast (dd_chunk_size ?d), sd_decryptors = map (\<lambda>key. data_decryptor_of ae key ?d (er_header res)) keys,
      sd_cached_no = None, sd_cached = [], sd_cached_at_drops = 0\<rparr>"
  have op: "store_open ex ae keys ?d (er_header res) ds = Inr (Some h, ds)"
    unfolding h_def using keys(1) by (intro open_known [OF assms(3) r(1,2,3) _ r(5)]) auto
  have dec: "decryptor_decrypt ae ?dc (of_nat i) (?chunk i) = Some (part_of cs content i)" if "i < length ?bs" for i
    using decrypt_sealed [OF assms(1) _ cs that, of ?dc] that fr(3-5) enc(2) assms(2)
    by (simp add: seal_nth part_of_def data_decryptor_of_def)
  have i: "tr_data_id r = manifest_digest ?d" using arg_cong [OF r(2), of manifest_digest] by simp
  have find: "store_find ex (manifest_digest ?d) ds = Some (extract_row (ex_tag_size ex) r)"
    using table_row_mem [of "ex_tag_size ex" "ds_table ds" r] r(1) assms(3) i by (simp add: dt_find_def store_inv_def)
  have cc: "row_chunks ex r = chunk_count (ex_tag_size ex) ?d" "unat (chunk_count (ex_tag_size ex) ?d) + 7 < 2 ^ 64"
    using r(2) row_chunks_small [OF assms(3,4) r(1)] by simp_all
  have held: "bm_test (dr_have (extract_row (ex_tag_size ex) r)) (of_nat j)" if "j < length ?bs" for j
    using that have_test [OF cc(2)] set_all_bits [OF cc(2)] cc(1) r(4) fr(4) fits(3) by (simp add: unat_of_nat_small word_less_nat_alt)
  have all: "decryptor_decrypt ae dc (of_nat j) (?chunk j) \<in> {None, Some (part_of cs content j)}"
    if j: "j < length ?bs" and dc: "dc \<in> set (sd_decryptors h)" for j dc
  proof -
    obtain k where k: "k \<in> set keys" "dc = data_decryptor_of ae k ?d (er_header res)" using dc by (auto simp: h_def)
    then show ?thesis using dec [OF j] keys(2) by (cases "k = key") simp_all
  qed
  have one: "\<exists>dc\<in>set (sd_decryptors h). decryptor_decrypt ae dc (of_nat j) (?chunk j) \<noteq> None" if "j < length ?bs" for j
    using dec [OF that] keys(1) by (intro bexI [of _ ?dc]) (simp_all add: h_def)
  have "sd_id h = manifest_digest ?d" "sd_cached_no h = None" by (simp_all add: h_def)
  then have good: "handle_good ex ae cs content ?chunk (h, ds)"
    using find held whole all one unfolding handle_good_def stored_whole_def fst_conv snd_conv
    by (intro conjI allI impI ballI exI [of _ "extract_row (ex_tag_size ex) r"]) (simp_all only: option.distinct simp_thms)
  have "fst (handle_read ex ae True offset sz (h, ds)) = take (unat sz) (drop (unat offset) content)" for offset sz
  proof (cases "unat offset \<le> length content")
    case True
    have "sd_chunk_size h = ucast cs" "sd_plain_size h = of_nat (length content)" "sd_chunk_size h \<noteq> 0"
      using fr(3,5) cs by (simp_all add: h_def word_unat_eq_iff unat_ucast_32)
    then show ?thesis using handle_read_loop_good [OF good cs, of offset "[]" sz] True fits(1) by (simp add: handle_read_def)
  next
    case False
    have "handle_read_loop ex ae True offset [] sz (h, ds) = ([], h, ds)"
      using False fr(5) fits(1) by (subst handle_read_loop.simps) (simp add: h_def word_less_nat_alt unat_of_nat_small)
    then show ?thesis using False by (simp add: handle_read_def)
  qed
  then show ?thesis using op by blast
qed

section \<open>Content held under another identifier\<close>

lemma keeps_handle_load: "store_env ex U \<Longrightarrow> keeps ex U (snd s) (snd (snd (handle_load ex ae io c s)))"
proof -
  assume env: "store_env ex U"
  define h where "h = (if ds_drops (snd s) \<noteq> sd_cached_at_drops (fst s)
    then (fst s)\<lparr>sd_cached_no := None, sd_cached := [], sd_cached_at_drops := ds_drops (snd s)\<rparr> else fst s)"
  obtain b ds1 where r: "read_chunk ex io (sd_id h) c (snd s) = (b, ds1)" by (meson surj_pair)
  then have k: "keeps ex U (snd s) ds1" using keeps_reads(1) [OF env, of "snd s" io "sd_id h" c] by simp
  have "keeps ex U (snd s) (chunk_failed ex (sd_id h) c x ds1)" for x using keeps_trans [OF k keeps_reads(3) [OF env]] .
  then show ?thesis using r k unfolding handle_load_def Let_def h_def [symmetric] by (auto split: option.splits prod.splits)
qed

lemma keeps_read_at: "store_env ex U \<Longrightarrow> keeps ex U (snd s) (snd (snd (read_at ex ae io pos mx s)))"
  using keeps_handle_load [of ex U s ae io "pos div sd_chunk_size (fst s)"] by (auto simp: read_at_def Let_def split: prod.splits)

lemma keeps_handle_read_loop: "store_env ex U \<Longrightarrow> keeps ex U (snd s) (snd (snd (handle_read_loop ex ae io offset buf sz s)))"
proof (induction ex ae io offset buf sz s rule: handle_read_loop.induct)
  case (1 ex ae io offset buf sz s)
  let ?r = "read_at ex ae io (offset + of_nat (length buf)) (sz - of_nat (length buf)) s"
  show ?case
  proof (cases "length buf < unat sz \<and> offset + of_nat (length buf) < sd_plain_size (fst s)")
    case True
    note k = keeps_read_at [OF "1.prems", of s ae io "offset + of_nat (length buf)" "sz - of_nat (length buf)"]
    show ?thesis
    proof (cases "fst ?r = []")
      case True
      then show ?thesis using \<open>length buf < unat sz \<and> _\<close> k by (subst handle_read_loop.simps) (simp add: Let_def)
    next
      case False
      then show ?thesis using \<open>length buf < unat sz \<and> _\<close> keeps_trans [OF k "1.IH" [OF True refl False "1.prems"]]
        by (subst handle_read_loop.simps) (simp add: Let_def)
    qed
  next
    case False
    then show ?thesis by (subst handle_read_loop.simps) (simp only: if_False snd_conv keeps_refl)
  qed
qed

lemma length_handle_read_loop:
  "length buf \<le> unat sz \<Longrightarrow> length (fst (handle_read_loop ex ae io offset buf sz s)) \<le> unat sz"
proof (induction ex ae io offset buf sz s rule: handle_read_loop.induct)
  case (1 ex ae io offset buf sz s)
  let ?r = "read_at ex ae io (offset + of_nat (length buf)) (sz - of_nat (length buf)) s"
  show ?case
  proof (cases "length buf < unat sz \<and> offset + of_nat (length buf) < sd_plain_size (fst s) \<and> fst ?r \<noteq> []")
    case True
    have "unat (sz - of_nat (length buf)) = unat sz - length buf"
      using True unat_less_2_64 [of sz] by (simp add: word_sub_unat word_le_nat_alt unat_of_nat_small)
    then have "length (buf @ fst ?r) \<le> unat sz" using length_read_at [of ex ae io "offset + of_nat (length buf)" "sz - of_nat (length buf)" s] True by auto
    then show ?thesis using True "1.IH" [OF _ refl] by (subst handle_read_loop.simps) (simp add: Let_def)
  next
    case False
    then show ?thesis using "1.prems" by (subst handle_read_loop.simps) (auto simp: Let_def)
  qed
qed

lemma handle_read_keeps:
  assumes "store_env ex U"
  shows "keeps ex U (snd s) (snd (snd (handle_read ex ae io offset sz s)))" "length (fst (handle_read ex ae io offset sz s)) \<le> unat sz"
  using keeps_handle_read_loop [OF assms] length_handle_read_loop by (simp_all add: handle_read_def)

lemma stream_loop_inv:
  assumes "stream_loop rd wr piece n pos st = (ok, st')" "Q pos st" "pos \<le> n"
    and rd: "\<And>pos st. Q pos st \<Longrightarrow> pos < n \<Longrightarrow> length (fst (rd (of_nat pos) (of_nat (min piece (n - pos))) st)) \<le> n - pos
      \<and> Q pos (snd (rd (of_nat pos) (of_nat (min piece (n - pos))) st))"
    and wr: "\<And>pos st b. Q pos st \<Longrightarrow> Q (pos + length b) (wr b st)"
  shows "if ok then Q n st' else \<exists>p. Q p st'"
  using assms(1-3)
proof (induction "n - pos" arbitrary: pos st rule: less_induct)
  case less
  let ?r = "rd (of_nat pos) (of_nat (min piece (n - pos))) st"
  show ?case
  proof (cases "pos < n")
    case True
    note r = rd [OF less.prems(2) True]
    show ?thesis
    proof (cases "fst ?r = []")
      case True
      then have "(ok, st') = (False, snd ?r)" using less.prems(1) \<open>pos < n\<close> by (simp add: stream_loop.simps [of rd wr piece n pos st] Let_def)
      then show ?thesis using r by auto
    next
      case False
      have next_round: "stream_loop rd wr piece n (pos + length (fst ?r)) (wr (fst ?r) (snd ?r)) = (ok, st')"
        using less.prems(1) \<open>pos < n\<close> False by (simp add: stream_loop.simps [of rd wr piece n pos st] Let_def)
      show ?thesis by (rule less.hyps [OF advance_less [OF False True] next_round]) (use wr r True in auto)
    qed
  next
    case False
    then have "stream_loop rd wr piece n pos st = (True, st)" by (subst stream_loop.simps) simp
    then show ?thesis using less.prems False by auto
  qed
qed

text \<open>While an adoption runs: the store keeps its promise, and the staging area has what was emitted.\<close>

definition adopting ::
  "externals \<Rightarrow> aead \<Rightarrow> octets set \<Rightarrow> stage_name \<Rightarrow> data_encryptor \<Rightarrow> (stage_name \<rightharpoonup> chunk_dir) \<Rightarrow> nat
    \<Rightarrow> stored_record_data \<times> data_encryptor \<times> data_store \<Rightarrow> bool" where
  "adopting ex ae U stage e0 stages pos s = (\<exists>pieces. length (concat pieces) = pos
     \<and> fst (snd s) = fold (encryptor_write ae (ex_cr ex)) pieces e0 \<and> store_inv ex U (snd (snd s))
     \<and> cf_stages (ds_files (snd (snd s))) = stages(stage \<mapsto> Map.empty ++ map_of (rev (de_out (fst (snd s))))))"

lemma stage_emitted_stages:
  assumes "de_out after = de_out before @ new" "cf_stages (ds_files ds) = stages(stage \<mapsto> Map.empty ++ map_of (rev (de_out before)))"
  shows "cf_stages (ds_files (stage_emitted stage before after ds)) = stages(stage \<mapsto> Map.empty ++ map_of (rev (de_out after)))"
    and "cf_dirs (ds_files (stage_emitted stage before after ds)) = cf_dirs (ds_files ds)"
    and "ds_table (stage_emitted stage before after ds) = ds_table ds"
proof -
  have st: "cf_stages (ds_files ds) stage = Some (Map.empty ++ map_of (rev (de_out before)))" using assms(2) by simp
  have eq: "ds_files (stage_emitted stage before after ds) = stage_all stage new (ds_files ds)"
    using assms(1) by (simp add: stage_emitted_def stage_all_def)
  show "cf_stages (ds_files (stage_emitted stage before after ds)) = stages(stage \<mapsto> Map.empty ++ map_of (rev (de_out after)))"
    "cf_dirs (ds_files (stage_emitted stage before after ds)) = cf_dirs (ds_files ds)"
    unfolding eq using stage_all_stages [OF st, of new] assms by simp_all
  show "ds_table (stage_emitted stage before after ds) = ds_table ds" by (simp add: stage_emitted_def)
qed

lemma same_dirs_inv: "store_inv ex U ds \<Longrightarrow> ds_table ds' = ds_table ds \<Longrightarrow> cf_dirs (ds_files ds') = cf_dirs (ds_files ds) \<Longrightarrow> store_inv ex U ds'"
  by (simp add: store_inv_def row_ok_def cf_file_def)

lemma adopting_write:
  assumes "adopting ex ae U stage e0 stages pos (h, en, d)" "room e0" and en1_def: "en1 = encryptor_write ae (ex_cr ex) b en"
  shows "adopting ex ae U stage e0 stages (pos + length b) (h, en1, stage_emitted stage en en1 d)"
proof -
  obtain pieces where ps: "length (concat pieces) = pos" "en = fold (encryptor_write ae (ex_cr ex)) pieces e0" "store_inv ex U d"
      "cf_stages (ds_files d) = stages(stage \<mapsto> Map.empty ++ map_of (rev (de_out en)))"
    using assms(1) by (auto simp: adopting_def)
  obtain new where new: "de_out en1 = de_out en @ new"
    unfolding en1_def ps(2) using write_extends [OF writes_room [OF assms(2)]] by metis
  note st = stage_emitted_stages [OF new ps(4)]
  show ?thesis unfolding adopting_def fst_conv snd_conv
    using st ps same_dirs_inv [OF ps(3)] by (intro exI [of _ "pieces @ [b]"]) (simp add: en1_def)
qed

lemma adopting_read:
  assumes "adopting ex ae U stage e0 stages pos (h, en, d)" "store_env ex U" "handle_read ex ae io off n (h, d) = (b, h1, d1)"
  shows "adopting ex ae U stage e0 stages pos (h1, en, d1)" "length b \<le> unat n"
  using handle_read_keeps [OF assms(2), where s = "(h, d)" and ae = ae and io = io and offset = off and sz = n] assms(1,3) by (auto simp: adopting_def keeps_def)

lemma adopting_stream:
  assumes start: "adopting ex ae U stage e0 stages 0 (h, e0, d)" and env: "store_env ex U" and room: "room e0"
    and run: "stream_record_data
        (\<lambda>pos n (h, en, d). let (b, h1, d1) = handle_read ex ae io pos n (h, d) in (b, h1, en, d1))
        (\<lambda>piece (h, en, d). let en1 = encryptor_write ae (ex_cr ex) piece en in (h, en1, stage_emitted stage en en1 d)) size' (h, e0, d)
      = (err, st')"
  shows "if err = None then adopting ex ae U stage e0 stages (unat size') st' else \<exists>p. adopting ex ae U stage e0 stages p st'"
proof -
  let ?rd = "\<lambda>pos n (h, en, d). let (b, h1, d1) = handle_read ex ae io pos n (h, d) in (b, h1, en, d1)"
  let ?wr = "\<lambda>piece (h, en, d). let en1 = encryptor_write ae (ex_cr ex) piece en in (h, en1, stage_emitted stage en en1 d)"
  obtain ok where loop: "stream_loop ?rd ?wr (min (unat size') (256 * 1024)) (unat size') 0 (h, e0, d) = (ok, st')" "ok = (err = None)"
    using run by (auto simp: stream_record_data_def split: prod.splits bool.splits)
  have "if ok then adopting ex ae U stage e0 stages (unat size') st' else \<exists>p. adopting ex ae U stage e0 stages p st'"
  proof (rule stream_loop_inv [OF loop(1)])
    fix pos st
    let ?n = "min (min (unat size') (256 * 1024)) (unat size' - pos)"
    assume a: "adopting ex ae U stage e0 stages pos st" "pos < unat size'"
    obtain h en d where st: "st = (h, en, d)" by (cases st)
    obtain b h1 d1 where r: "handle_read ex ae io (of_nat pos) (of_nat ?n) (h, d) = (b, h1, d1)" by (metis surj_pair)
    have "unat (of_nat ?n :: u64) \<le> unat size' - pos" using unat_less_2_64 [of size'] by (subst unat_of_nat_small) auto
    then show "length (fst (?rd (of_nat pos) (of_nat ?n) st)) \<le> unat size' - pos \<and> adopting ex ae U stage e0 stages pos (snd (?rd (of_nat pos) (of_nat ?n) st))"
      using adopting_read [OF a(1) [unfolded st] env r] r by (simp add: st)
  next
    fix pos st b
    assume "adopting ex ae U stage e0 stages pos st"
    then show "adopting ex ae U stage e0 stages (pos + length b) (?wr b st)"
      using adopting_write [OF _ room refl] by (cases st) (simp add: Let_def)
  qed (use start in auto)
  then show ?thesis using loop(2) by simp
qed

lemma discard_back:
  assumes "store_inv ex U d" "cf_stages (ds_files d) = stages(stage \<mapsto> x)" "stages stage = None"
  defines "d' \<equiv> d\<lparr>ds_files := discard_staging stage (ds_files d)\<rparr>"
  shows "store_inv ex U d' \<and> cf_stages (ds_files d') = stages"
proof -
  have "store_inv ex U d'" unfolding d'_def using assms(1) by (rule files_only) simp
  then show ?thesis using assms(2,3) by (simp add: d'_def discard_staging_def fun_upd_idem)
qed

lemma adopt_tail:
  assumes env: "store_env ex U" and ae: "aead_ok ae" "chunk_tag_size ae = ex_tag_size ex"
    and e0: "data_encryptor_of ae key cs nonce = Inr e0" and n: "(2 * n + 4096) * (1 + ex_tag_size ex) < 2 ^ 63"
    and ad: "adopting ex ae U stage e0 stages n (h, en, d)" and fresh: "stages stage = None"
    and fin: "encryptor_finish ae (ex_cr ex) en = (res, en1)"
    and U: "\<And>content. data_result ex ae key cs nonce content = Some res \<Longrightarrow> manifest_octets (er_manifest res) \<in> U"
    and reg: "register_held ex stage res ds_in_sync True (stage_emitted stage en en1 d) = (err, d2)"
  defines "d1 \<equiv> stage_emitted stage en en1 d"
  shows "store_inv ex U d1 \<and> (\<exists>x. cf_stages (ds_files d1) = stages(stage \<mapsto> x))
    \<and> (err = None \<longrightarrow> store_inv ex U d2 \<and> cf_stages (ds_files d2) = stages) \<and> (err \<noteq> None \<longrightarrow> d2 = d1)"
proof -
  let ?w = "encryptor_write ae (ex_cr ex)"
  obtain pieces where ps: "length (concat pieces) = n" "en = fold ?w pieces e0" "store_inv ex U d"
      "cf_stages (ds_files d) = stages(stage \<mapsto> Map.empty ++ map_of (rev (de_out en)))"
    using ad unfolding adopting_def fst_conv snd_conv by blast
  note room = encryptor_room [OF e0]
  let ?c = "concat pieces"
  obtain new where new: "de_out en1 = de_out en @ new"
    using finish_extends [of en ae "ex_cr ex"] writes_room [of e0] room fin ps(2) by auto
  note st1 = stage_emitted_stages [OF new ps(4), folded d1_def]
  have inv1: "store_inv ex U d1" using same_dirs_inv [OF ps(3) st1(3,2)] .
  have one: "encryptor_finish ae (ex_cr ex) (?w ?c e0) = (res, en1)"
    using encryptor_total [OF e0 refl, of "ex_cr ex" pieces] encryptor_total [OF e0, of "[?c]" ?c "ex_cr ex"] fin ps(2) by simp
  have out: "de_out en1 = seal ae (derive_data_key ae (ek_key key) nonce) nonce 0 (content_blocks cs ?c)"
    using encryptor_total [OF e0 refl, of "ex_cr ex" pieces] fin ps(2) by auto
  have dres: "data_result ex ae key cs nonce ?c = Some res" using e0 one by (simp add: data_result_def)
  have sf: "stream_fits (ex_tag_size ex) ?c" using n ps(1) env by (simp add: stream_fits_def store_env_def)
  let ?dir = "Map.empty ++ map_of (rev (de_out en1))"
  have stage: "cf_stages (ds_files d1) stage = Some ?dir" using st1(1) by simp
  have dir: "?dir (of_nat k) = Some (snd (seal ae (derive_data_key ae (ek_key key) nonce) nonce 0 (content_blocks cs ?c) ! k))"
    if "k < length (content_blocks cs ?c)" for k
    using seal_map [OF stream_fits_sizes(3) [OF sf] that] room out by simp
  have "err \<noteq> None \<and> d2 = d1 \<and> \<not> usable_data_descriptor (ex_tag_size ex) (er_descriptor res) \<or> err = None \<and> store_inv ex U d2
      \<and> stored_whole ex ae key nonce cs ?c (manifest_digest (er_descriptor res)) d2
      \<and> cf_stages (ds_files d2) = (cf_stages (ds_files d1))(stage := None)"
    using register_held_ok [OF inv1 env ae e0 sf one U [OF dres] stage dir _ reg [folded d1_def]] by simp
  then show ?thesis using inv1 st1(1) fresh by auto
qed

lemma adopt_content_ok:
  assumes inv: "store_inv ex U ds" and env: "store_env ex U" and ae: "aead_ok ae" "chunk_tag_size ae = ex_tag_size ex"
    and fits: "(2 * unat (plain_size hdr) + 4096) * (1 + ex_tag_size ex) < 2 ^ 63"
    and fresh: "cf_stages (ds_files ds) stage = None"
    and U: "\<And>content res. data_result ex ae key (dd_chunk_size wanted) (dh_nonce hdr) content = Some res
      \<Longrightarrow> manifest_octets (er_manifest res) \<in> U"
    and run: "adopt_content ex ae io stage source key wanted hdr ds = (r, source', ds')"
  shows "store_inv ex U ds' \<and> cf_stages (ds_files ds') = cf_stages (ds_files ds)"
proof (cases "sd_plain_size source = plain_size hdr \<and> dd_chunk_size wanted \<noteq> 0")
  case True
  let ?ds1 = "ds\<lparr>ds_files := begin_staging stage (ds_files ds)\<rparr>" and ?stages = "cf_stages (ds_files ds)"
  obtain e0 where e0: "data_encryptor_of ae key (dd_chunk_size wanted) (dh_nonce hdr) = Inr e0" using True by (simp add: data_encryptor_of_def)
  note room = encryptor_room [OF e0]
  let ?stream = "stream_record_data
      (\<lambda>pos n (h, en, d). let (b, h1, d1) = handle_read ex ae io pos n (h, d) in (b, h1, en, d1))
      (\<lambda>piece (h, en, d). let en1 = encryptor_write ae (ex_cr ex) piece en in (h, en1, stage_emitted stage en en1 d))
      (sd_plain_size source) (source, e0, ?ds1)"
  obtain err h en d where st: "?stream = (err, h, en, d)" by (cases ?stream) auto
  have "store_inv ex U ?ds1" using inv by (rule files_only) simp
  then have start: "adopting ex ae U stage e0 ?stages 0 (source, e0, ?ds1)"
    using room fresh begin_staging_fresh [OF fresh] by (auto simp: adopting_def intro!: exI [of _ "[]"])
  note adopted = adopting_stream [OF start env conjunct1 [OF room] st]
  show ?thesis
  proof (cases err)
    case (Some e)
    obtain p where "adopting ex ae U stage e0 ?stages p (h, en, d)" using adopted Some by auto
    then have "store_inv ex U d" "\<exists>x. cf_stages (ds_files d) = ?stages(stage \<mapsto> x)" by (auto simp: adopting_def)
    moreover have "ds' = d\<lparr>ds_files := discard_staging stage (ds_files d)\<rparr>"
      using run True e0 st Some by (simp add: adopt_content_def Let_def)
    ultimately show ?thesis using discard_back [of ex U d ?stages stage] fresh by blast
  next
    case None
    have ad: "adopting ex ae U stage e0 ?stages (unat (plain_size hdr)) (h, en, d)" using adopted None True by simp
    obtain res en1 where fin: "encryptor_finish ae (ex_cr ex) en = (res, en1)" by (meson surj_pair)
    let ?d1 = "stage_emitted stage en en1 d"
    obtain err2 d2 where reg: "register_held ex stage res ds_in_sync True ?d1 = (err2, d2)" by (meson surj_pair)
    have t: "store_inv ex U ?d1" "\<exists>x. cf_stages (ds_files ?d1) = ?stages(stage \<mapsto> x)"
        "err2 = None \<longrightarrow> store_inv ex U d2 \<and> cf_stages (ds_files d2) = ?stages" "err2 \<noteq> None \<longrightarrow> d2 = ?d1"
      using adopt_tail [OF env ae e0 fits ad fresh fin U reg] by auto
    then have disc: "store_inv ex U (?d1\<lparr>ds_files := discard_staging stage (ds_files ?d1)\<rparr>)
        \<and> cf_stages (ds_files (?d1\<lparr>ds_files := discard_staging stage (ds_files ?d1)\<rparr>)) = ?stages"
      using discard_back [of ex U ?d1 ?stages stage] fresh by blast
    have "ds' = (if er_descriptor res = wanted \<and> content_digest (er_header res) = content_digest hdr \<and> err2 = None then d2
        else ?d1\<lparr>ds_files := discard_staging stage (ds_files ?d1)\<rparr>)"
      using run True e0 st None fin reg t(4) by (auto simp: adopt_content_def Let_def split: option.splits if_splits)
    then show ?thesis using t(3) disc by simp
  qed
qed (use run inv in \<open>auto simp: adopt_content_def\<close>)

section \<open>Runs of the store\<close>

text \<open>
  A run interleaves the calls of the store with the pieces of any number of chunks on their way in.
  A new staging area has a name that is not in use, a data that is written gets an identifier nothing
  is held of, and the manifests that occur belong to the set the digest has no collision on. Restarting
  the program opens the store on the files and the table that are there.
\<close>

inductive store_step ::
  "externals \<Rightarrow> aead \<Rightarrow> octets set \<Rightarrow> data_store \<times> incoming_chunk list \<Rightarrow> data_store \<times> incoming_chunk list \<Rightarrow> bool"
  for ex ae U where
  step_read: "store_step ex ae U (ds, ics) (snd (read_chunk ex io i c ds), ics)"
| step_piece: "store_step ex ae U (ds, ics) (snd (read_piece ex io i c offset sz ds), ics)"
| step_handle: "store_step ex ae U (ds, ics) (snd (snd (handle_read ex ae io offset sz (h, ds))), ics)"
| step_state: "store_step ex ae U (ds, ics) (store_set_state ex i state ds, ics)"
| step_evict: "store_step ex ae U (ds, ics) (snd (evict_data ex i ds), ics)"
| step_prune: "store_step ex ae U (ds, ics) (snd (store_prune ex i ds), ics)"
| step_remove: "store_step ex ae U (ds, ics) (snd (store_remove ex ids ds), ics)"
| step_manifest: "manifest_octets m \<in> U \<Longrightarrow> store_step ex ae U (ds, ics) (snd (store_set_manifest ex i m ds), ics)"
| step_register_manifest: "manifest_octets m \<in> U \<Longrightarrow> register_data_manifest ex d m ds = Inr (row, ds') \<Longrightarrow>
    store_step ex ae U (ds, ics) (ds', ics)"
| step_register: "register_data ex d ds = Inr (row, ds') \<Longrightarrow> store_step ex ae U (ds, ics) (ds', ics)"
| step_open: "store_open ex ae keys d hdr ds = Inr (h, ds') \<Longrightarrow> store_step ex ae U (ds, ics) (ds', ics)"
| step_reference: "data_reference (ex_tag_size ex) d (ds_table ds) = Inr (k, t) \<Longrightarrow>
    store_step ex ae U (ds, ics) (ds\<lparr>ds_table := t\<rparr>, ics)"
| step_store: "store_step ex ae U (ds, ics) (snd (store_chunk ex i c x ds), ics)"
| step_begin: "cf_stages (ds_files ds) stage = None \<Longrightarrow> stage \<notin> set (open_stages ics) \<Longrightarrow>
    begin_chunk ex stage i c ds = (Some ic, ds') \<Longrightarrow> store_step ex ae U (ds, ics) (ds', ic # ics)"
| step_append: "n < length ics \<Longrightarrow> chunk_append io offset piece (ics ! n) ds = (r, ic, ds') \<Longrightarrow>
    store_step ex ae U (ds, ics) (ds', ics[n := ic])"
| step_finish: "n < length ics \<Longrightarrow> chunk_finish ex (ics ! n) ds = (r, ic, ds') \<Longrightarrow>
    store_step ex ae U (ds, ics) (ds', ics[n := ic])"
| step_discard: "n < length ics \<Longrightarrow> chunk_discard (ics ! n) ds = (ic, ds') \<Longrightarrow> store_step ex ae U (ds, ics) (ds', ics[n := ic])"
| step_write: "cf_stages (ds_files ds) stage = None \<Longrightarrow> stream_fits (ex_tag_size ex) content \<Longrightarrow>
    (\<And>res. data_result ex ae key cs nonce content = Some res \<Longrightarrow>
      cf_dirs (ds_files ds) (manifest_digest (er_descriptor res)) = None \<and> manifest_octets (er_manifest res) \<in> U) \<Longrightarrow>
    store_write_data ex ae stage nonce key cs content ds = (r, ds') \<Longrightarrow> store_step ex ae U (ds, ics) (ds', ics)"
| step_adopt: "cf_stages (ds_files ds) stage = None \<Longrightarrow> (2 * unat (plain_size hdr) + 4096) * (1 + ex_tag_size ex) < 2 ^ 63 \<Longrightarrow>
    (\<And>content res. data_result ex ae key (dd_chunk_size wanted) (dh_nonce hdr) content = Some res \<Longrightarrow> manifest_octets (er_manifest res) \<in> U) \<Longrightarrow>
    adopt_content ex ae io stage source key wanted hdr ds = (r, source', ds') \<Longrightarrow> store_step ex ae U (ds, ics) (ds', ics)"
| step_restart: "store_step ex ae U (ds, ics) (record_data_store_of (ds_table ds) (ds_files ds), [])"

lemma world_step:
  assumes "store_step ex ae U w w'" "store_env ex U" "aead_ok ae" "chunk_tag_size ae = ex_tag_size ex" "world_inv ex U w"
  shows "world_inv ex U w'"
  using assms
proof (induction rule: store_step.induct)
  case (step_handle ds ics io offset sz h)
  then show ?case using world_keeps [OF _ handle_read_keeps(1) [of ex U "(h, ds)" ae io offset sz]] by simp
next
  case (step_write ds stage content key cs nonce r ds' ics)
  then have "store_inv ex U ds" by (simp add: world_inv_def)
  from write_data_cases [OF this step_write.prems(1-3) step_write.hyps(2,1,3,4)]
  show ?case using world_keeps [OF step_write.prems(4)] by (simp add: keeps_def)
next
  case (step_adopt ds stage hdr key wanted io source r source' ds' ics)
  then have "store_inv ex U ds" by (simp add: world_inv_def)
  from adopt_content_ok [OF this step_adopt.prems(1-3) step_adopt.hyps(2,1,3,4)]
  show ?case using world_keeps [OF step_adopt.prems(4)] by (simp add: keeps_def)
next
  case (step_restart ds ics)
  then show ?case
    by (simp add: world_inv_def record_data_store_of_def clear_staging_def store_inv_def row_ok_def cf_file_def)
next
  case (step_discard n ics ds ic ds')
  then show ?case using world_discard [of ex U ds ics n] by simp
qed (auto intro: world_keeps keeps_reads keeps_remove keeps_manifests keeps_registers keeps_store_chunk world_begin world_append world_finish)

lemma world_run:
  assumes "(store_step ex ae U)\<^sup>*\<^sup>* w w'" "store_env ex U" "aead_ok ae" "chunk_tag_size ae = ex_tag_size ex" "world_inv ex U w"
  shows "world_inv ex U w'"
  using assms(1,5) by (induction rule: rtranclp_induct) (auto intro: world_step [OF _ assms(2-4)])

lemma held_verifies:
  assumes "store_inv ex U ds" "store_env ex U" "store_find ex i ds = Some row" "bm_test (dr_have row) c"
  shows "\<exists>x. read_chunk ex True i c ds = (Some x, ds) \<and> (\<forall>m. store_manifest ex i ds = Some m \<longrightarrow> verify_chunk (ex_cr ex) m c x)"
proof -
  let ?hs = "ex_hash_size ex"
  obtain r where r: "r \<in> set (dt_rows (ds_table ds))" "tr_data_id r = i" "row = extract_row (ex_tag_size ex) r"
    using find_row [OF assms(3)] by metis
  obtain x where x: "cf_file i c (ds_files ds) = Some x" "names_chunk ex U i c x"
    using row_bitmap(3) [OF assms(1,2) r(1)] assms(4) r(2,3) by blast
  then obtain b' where b': "b' \<in> U" "cr_hash (ex_cr ex) b' = i" "cr_hash (ex_cr ex) x = take ?hs (drop (unat c * ?hs) b')"
    by (auto simp: names_chunk_def)
  have "verify_chunk (ex_cr ex) m c x" if m: "store_manifest ex i ds = Some m" for m
  proof -
    have "table_row_at (tr_key r) (ds_table ds) = Some r" using table_row_at_mem assms(1) r(1) by (auto simp: store_inv_def)
    then obtain b where b: "tr_digests r = Some b" "chunk_digests m = split_digests ?hs b"
      using m assms(3) r(3) by (auto simp: store_manifest_def dt_manifest_def manifest_from_octets_def split: option.splits if_splits)
    have env: "inj_on (cr_hash (ex_cr ex)) U" "length (cr_hash (ex_cr ex) x) = ?hs" "0 < ?hs" using assms(2) by (auto simp: store_env_def)
    then have "b = b'" using inv_row [OF assms(1) r(1)] b(1) b'(1,2) r(2) by (auto simp: row_ok_def dest: inj_onD)
    then have "length (take ?hs (drop (unat c * ?hs) b)) = ?hs" using b'(3) env(2) by simp
    then have "unat c * ?hs < length b" using env(3) by simp
    moreover have "length b \<le> length (split_digests ?hs b) * ?hs" using ceil_div_covers [OF env(3), of "length b"] by (simp add: length_split [OF env(3)])
    ultimately have "unat c < length (split_digests ?hs b)" by (metis le_less_trans linorder_not_less mult_le_mono1)
    then show ?thesis using b'(3) \<open>b = b'\<close> split_nth [OF env(3), of "unat c" b] by (simp add: verify_chunk_def b(2) chunk_digest_def)
  qed
  then show ?thesis using assms(3,4) x(1) by (auto simp: read_chunk_def cf_read_def)
qed


subsection \<open>A small store\<close>

definition small_crypto :: crypto where
  "small_crypto = plain_crypto\<lparr>cr_hash := \<lambda>x. take 4 (x @ [0, 0, 0, 0])\<rparr>"

definition small_ex :: externals where
  "small_ex = ex_plain\<lparr>ex_cr := small_crypto, ex_tag_size := 16, ex_hash_size := 4\<rparr>"

definition small_store :: data_store where
  "small_store = record_data_store_of empty_data_table \<lparr>cf_dirs = Map.empty, cf_stages = Map.empty\<rparr>"

definition small_chunk :: octets where
  "small_chunk = replicate 20 5"

definition small_manifest :: data_manifest where
  "small_manifest = \<lparr>chunk_digests = [[5, 5, 5, 5]], dm_trailing = []\<rparr>"

definition small_descriptor :: data_descriptor where
  "small_descriptor = \<lparr>enc_size = 20, dd_chunk_size = 4096, manifest_digest = [5, 5, 5, 5], dd_trailing = []\<rparr>"

lemma small_env: "store_env small_ex {b}" "chunk_tag_size plain_aead = ex_tag_size small_ex"
proof -
  have "length (take 4 (x @ [0, 0, 0, 0])) = 4" for x :: octets unfolding length_take length_append by simp
  then show "store_env small_ex {b}" by (simp add: store_env_def small_ex_def small_crypto_def del: take_append)
qed (simp add: small_ex_def chunk_tag_size_def plain_aead_def)

definition small_registered :: data_store where
  "small_registered = (case register_data_manifest small_ex small_descriptor small_manifest small_store of
     Inr (row, ds) \<Rightarrow> ds | Inl _ \<Rightarrow> small_store)"

definition small_full :: data_store where
  "small_full = snd (store_chunk small_ex [5, 5, 5, 5] 0 small_chunk small_registered)"





lemma small_blocks: "padding_of [1, 2, 3] = 4093" "length (content_blocks 4096 [1, 2, 3]) = 1"
proof -
  show p: "padding_of [1, 2, 3] = 4093" by (simp add: padding_of_def padded_size_def min_padded_data_size_def)
  show "length (content_blocks 4096 [1, 2, 3]) = 1" by (simp add: content_blocks_def length_split p)
qed

definition small_result :: encrypted_data_result where
  "small_result = the (data_result small_ex plain_aead plain_key 4096 [2] [1, 2, 3])"

lemma small_result_usable:
  "data_result small_ex plain_aead plain_key 4096 [2] [1, 2, 3] = Some small_result"
  "usable_data_descriptor 16 (er_descriptor small_result)"
proof -
  obtain e0 where e0: "data_encryptor_of plain_aead plain_key 4096 [2] = Inr e0" by (simp add: data_encryptor_of_def)
  then show res: "data_result small_ex plain_aead plain_key 4096 [2] [1, 2, 3] = Some small_result"
    by (simp add: small_result_def data_result_def)
  obtain enc1 where fin: "encryptor_finish plain_aead (ex_cr small_ex) (encryptor_write plain_aead (ex_cr small_ex) [1, 2, 3] e0) = (small_result, enc1)"
    using res e0 by (auto simp: data_result_def prod_eq_iff)
  have sf: "stream_fits (ex_tag_size small_ex) [1, 2, 3]" by (simp add: stream_fits_def small_ex_def)
  note fr = finish_result [OF plain_aead_ok small_env(2) e0 sf fin]
  have ts: "ex_tag_size small_ex = 16" by (simp add: small_ex_def)
  have "enc_size (er_descriptor small_result) = 4112" "chunk_count 16 (er_descriptor small_result) = 1"
      "dd_chunk_size (er_descriptor small_result) = 4096"
    using fr(3,4,7) small_blocks by (simp_all add: ts)
  moreover have "length (manifest_digest (er_descriptor small_result)) = ex_hash_size small_ex"
    using fr(2) small_env(1) by (simp add: manifest_digest_of_def store_env_def)
  then have "manifest_digest (er_descriptor small_result) \<noteq> []" by (auto simp: small_ex_def)
  ultimately show "usable_data_descriptor 16 (er_descriptor small_result)"
    by (simp add: usable_data_descriptor_def Let_def chunk_enc_size_def per_chunk_def max_data_chunks_def)
qed


end
