(* ===== verification/Server_Data.thy ===== *)
theory Server_Data
  imports Data_Placement Data_Store_Run
begin

text \<open>
  The data of one storage on a data server (server/server_lib/data_store.cpp): the chunk store of a
  client with the quota, the counters a data server announces and the expiry of uploads that never
  completed. An error a member function returns and an exception it lets through are both the error
  of the result; the table of activity is the list of its rows.
\<close>

section \<open>The store\<close>

record data_quota =
  dq_max_data_size :: u64
  dq_max_storage_bytes :: u64

record server_data_store =
  sd_store :: data_store
  sd_activity :: "(data_id \<times> time_point) list"
  sd_quota :: data_quota
  sd_budget :: transfer_budget
  sd_used_bytes :: u64
  sd_uploads :: u64

definition storable_descriptor :: "nat \<Rightarrow> data_descriptor \<Rightarrow> bool" where
  "storable_descriptor ts d = (usable_data_descriptor ts d \<and> dd_chunk_size d \<le> highest chunk_size_range)"

definition server_data_store_of ::
  "data_state_table \<Rightarrow> chunk_files \<Rightarrow> (data_id \<times> time_point) list \<Rightarrow> data_quota \<Rightarrow> transfer_quota \<Rightarrow> server_data_store result" where
  "server_data_store_of t f activity quota transfer =
     bind_result (dt_total_enc_size t) (\<lambda>used. Inr
       \<lparr>sd_store = record_data_store_of t f, sd_activity = activity, sd_quota = quota, sd_budget = transfer_budget_of transfer,
        sd_used_bytes = used, sd_uploads = of_nat (length activity)\<rparr>)"

definition has_activity :: "data_id \<Rightarrow> server_data_store \<Rightarrow> bool" where
  "has_activity i sd = (i \<in> set (map fst (sd_activity sd)))"

definition touch :: "data_id \<Rightarrow> time_point \<Rightarrow> server_data_store \<Rightarrow> server_data_store" where
  "touch i now sd =
     (if has_activity i sd
      then sd\<lparr>sd_activity := map (\<lambda>(j, t). if j = i then (j, now) else (j, t)) (sd_activity sd)\<rparr>
      else sd\<lparr>sd_activity := sd_activity sd @ [(i, now)], sd_uploads := sd_uploads sd + 1\<rparr>)"

definition forget_activity :: "data_id \<Rightarrow> server_data_store \<Rightarrow> server_data_store" where
  "forget_activity i sd =
     (if has_activity i sd
      then sd\<lparr>sd_activity := filter (\<lambda>(j, t). j \<noteq> i) (sd_activity sd), sd_uploads := sd_uploads sd - 1\<rparr> else sd)"

section \<open>Uploads and copies\<close>

definition sd_open ::
  "externals \<Rightarrow> data_descriptor \<Rightarrow> data_manifest option \<Rightarrow> time_point \<Rightarrow> server_data_store \<Rightarrow> have_bitmap result \<times> server_data_store" where
  "sd_open ex d manifest now sd =
     (let known = (store_find ex (manifest_digest d) (sd_store sd) \<noteq> None); quota = sd_quota sd
      in if dq_max_data_size quota \<noteq> 0 \<and> dq_max_data_size quota < enc_size d then (Inl (Protocol data_too_big), sd)
         else if \<not> known \<and> dq_max_storage_bytes quota \<noteq> 0 \<and> dq_max_storage_bytes quota < sd_used_bytes sd + enc_size d
         then (Inl (Protocol data_quota_exceeded), sd)
         else case (case manifest of Some m \<Rightarrow> register_data_manifest ex d m (sd_store sd) | None \<Rightarrow> register_data ex d (sd_store sd)) of
             Inl e \<Rightarrow> (Inl e, sd)
           | Inr (row, ds) \<Rightarrow>
               (case row of
                  Some r \<Rightarrow>
                    (let sd1 = sd\<lparr>sd_store := ds, sd_used_bytes := (if known then sd_used_bytes sd else sd_used_bytes sd + enc_size d)\<rparr>
                     in (Inr (dr_have r), if dr_state r \<noteq> ds_in_sync then touch (manifest_digest d) now sd1 else sd1))
                | None \<Rightarrow> (Inl (Protocol invalid_data_manifest), sd\<lparr>sd_store := ds\<rparr>)))"

definition open_upload ::
  "externals \<Rightarrow> data_descriptor \<Rightarrow> data_manifest \<Rightarrow> time_point \<Rightarrow> server_data_store \<Rightarrow> have_bitmap result \<times> server_data_store" where
  "open_upload ex d m = sd_open ex d (Some m)"

definition open_replica ::
  "externals \<Rightarrow> data_descriptor \<Rightarrow> time_point \<Rightarrow> server_data_store \<Rightarrow> have_bitmap result \<times> server_data_store" where
  "open_replica ex d = sd_open ex d None"

text \<open>A chunk was kept: the upload goes on, or the data is complete now.\<close>

definition chunk_kept :: "externals \<Rightarrow> data_id \<Rightarrow> time_point \<Rightarrow> server_data_store \<Rightarrow> bool \<times> server_data_store" where
  "chunk_kept ex i now sd =
     (let complete = (case store_find ex i (sd_store sd) of Some row \<Rightarrow> dr_state row = ds_in_sync | None \<Rightarrow> False)
      in (complete, if complete then forget_activity i sd else touch i now sd))"

definition replica_pulled :: "externals \<Rightarrow> data_id \<Rightarrow> time_point \<Rightarrow> server_data_store \<Rightarrow> bool \<times> server_data_store" where
  "replica_pulled = chunk_kept"

definition sd_begin_chunk ::
  "externals \<Rightarrow> stage_name \<Rightarrow> data_id \<Rightarrow> u64 \<Rightarrow> time_point \<Rightarrow> server_data_store \<Rightarrow> incoming_chunk result \<times> server_data_store" where
  "sd_begin_chunk ex stage i chunk_no now sd =
     (if \<not> store_has_manifest ex i (sd_store sd) then (Inl (Protocol no_such_upload), sd)
      else if (case store_find ex i (sd_store sd) of Some row \<Rightarrow> bm_test (dr_have row) chunk_no | None \<Rightarrow> False)
      then (Inl (Protocol invalid_data_chunk), sd)
      else case begin_chunk ex stage i chunk_no (sd_store sd) of
          (None, ds) \<Rightarrow> (Inl (Protocol invalid_data_chunk), sd\<lparr>sd_store := ds\<rparr>)
        | (Some ic, ds) \<Rightarrow> (Inr ic, touch i now (sd\<lparr>sd_store := ds\<rparr>)))"

definition sd_finish_chunk ::
  "externals \<Rightarrow> data_id \<Rightarrow> incoming_chunk \<Rightarrow> time_point \<Rightarrow> server_data_store \<Rightarrow> bool result \<times> incoming_chunk \<times> server_data_store" where
  "sd_finish_chunk ex i ic now sd =
     (case chunk_finish ex ic (sd_store sd) of
        (Inl e, ic1, ds) \<Rightarrow> (Inl e, ic1, sd\<lparr>sd_store := ds\<rparr>)
      | (Inr ok, ic1, ds) \<Rightarrow>
          (if ok then let (complete, sd1) = chunk_kept ex i now (sd\<lparr>sd_store := ds\<rparr>) in (Inr complete, ic1, sd1)
           else (Inl (Protocol invalid_data_chunk), ic1, sd\<lparr>sd_store := ds\<rparr>)))"

section \<open>Serving\<close>

record served_data =
  sv_manifest :: data_manifest
  sv_have :: have_bitmap

definition open_download :: "externals \<Rightarrow> data_descriptor \<Rightarrow> server_data_store \<Rightarrow> served_data result" where
  "open_download ex d sd =
     (case (store_find ex (manifest_digest d) (sd_store sd), store_manifest ex (manifest_digest d) (sd_store sd)) of
        (Some row, Some m) \<Rightarrow>
          (if dr_descriptor row = d then Inr \<lparr>sv_manifest = m, sv_have = dr_have row\<rparr> else Inl (Protocol data_not_held))
      | _ \<Rightarrow> Inl (Protocol data_not_held))"

definition max_data_piece_size :: u32 where
  "max_data_piece_size = 1048576"

definition serve_piece ::
  "externals \<Rightarrow> bool \<Rightarrow> data_id \<Rightarrow> u64 \<Rightarrow> u64 \<Rightarrow> u32 \<Rightarrow> time_point \<Rightarrow> bool \<Rightarrow> server_data_store \<Rightarrow> octets result \<times> server_data_store" where
  "serve_piece ex io i chunk_no offset sz now charged sd =
     (let held = (case store_find ex i (sd_store sd) of
            Some row \<Rightarrow> bm_test (dr_have row) chunk_no \<and> sz \<noteq> 0 \<and> sz \<le> max_data_piece_size
              \<and> chunk_holds_range (ex_tag_size ex) (dr_descriptor row) chunk_no offset (ucast sz)
          | None \<Rightarrow> False)
      in if \<not> held then (Inl (Protocol data_not_held), sd)
         else let (ok, b) = (if charged then charge (ucast sz) now (sd_budget sd) else (True, sd_budget sd)); sd1 = sd\<lparr>sd_budget := b\<rparr>
           in if \<not> ok then (Inl (Protocol data_transfer_quota_exceeded), sd1)
              else let (piece, ds) = read_piece ex io i chunk_no offset (ucast sz) (sd_store sd1); sd2 = sd1\<lparr>sd_store := ds\<rparr>
                in (case piece of Some b \<Rightarrow> Inr b | None \<Rightarrow> Inl (Protocol data_not_held), sd2))"

definition complete_data :: "externals \<Rightarrow> server_data_store \<Rightarrow> data_state_row list" where
  "complete_data ex sd =
     filter (\<lambda>row. dr_state row = ds_in_sync)
       (List.map_filter (\<lambda>k. dt_find_local (ex_tag_size ex) k (ds_table (sd_store sd))) (dt_all_ids (ds_table (sd_store sd))))"

section \<open>Dropping\<close>

definition freed_bytes :: "externals \<Rightarrow> data_id list \<Rightarrow> server_data_store \<Rightarrow> u64" where
  "freed_bytes ex ids sd =
     fold (\<lambda>i freed. case store_find ex i (sd_store sd) of Some row \<Rightarrow> freed + enc_size (dr_descriptor row) | None \<Rightarrow> freed) ids 0"

definition sd_drop :: "externals \<Rightarrow> data_id list \<Rightarrow> server_data_store \<Rightarrow> nat \<times> server_data_store" where
  "sd_drop ex ids sd =
     (let freed = freed_bytes ex ids sd; (removed, ds) = store_remove ex ids (sd_store sd)
      in (removed, sd\<lparr>sd_store := ds, sd_used_bytes := sd_used_bytes sd - min freed (sd_used_bytes sd)\<rparr>))"

definition sd_release :: "externals \<Rightarrow> data_id list \<Rightarrow> server_data_store \<Rightarrow> nat \<times> server_data_store" where
  "sd_release ex ids sd = sd_drop ex ids (fold forget_activity ids sd)"

definition expire_incomplete :: "externals \<Rightarrow> time_point \<Rightarrow> server_data_store \<Rightarrow> nat \<times> server_data_store" where
  "expire_incomplete ex untouched_since sd =
     (let untouched = map fst (filter (\<lambda>(i, t). t < untouched_since) (sd_activity sd));
          expired = filter (\<lambda>i. case store_find ex i (sd_store sd) of Some row \<Rightarrow> dr_state row \<noteq> ds_in_sync | None \<Rightarrow> False) untouched
      in sd_drop ex expired (fold forget_activity untouched sd))"

section \<open>What is reserved\<close>

definition sizes :: "data_store \<Rightarrow> (data_id \<times> u64) list" where
  "sizes ds = map (\<lambda>r. (tr_data_id r, tr_enc_size r)) (dt_rows (ds_table ds))"

definition reserved :: "data_store \<Rightarrow> nat" where
  "reserved ds = sum_list (map (unat \<circ> snd) (sizes ds))"

definition same_sizes :: "externals \<Rightarrow> data_store \<Rightarrow> data_store \<Rightarrow> bool" where
  "same_sizes ex a b = (sizes b = sizes a \<and> (dt_wf (ex_tag_size ex) (ds_table a) \<longrightarrow> dt_wf (ex_tag_size ex) (ds_table b)))"

named_theorems size_rules \<open>operations of the store that keep the sizes of its data\<close>

lemma same_sizes_refl [simp, size_rules]: "same_sizes ex a a"
  by (simp add: same_sizes_def)

lemma same_sizes_trans: "same_sizes ex a b \<Longrightarrow> same_sizes ex b c \<Longrightarrow> same_sizes ex a c"
  by (simp add: same_sizes_def)

lemma sizes_update:
  assumes "\<And>r. tr_data_id (f r) = tr_data_id r \<and> tr_enc_size (f r) = tr_enc_size r"
  shows "map (\<lambda>r. (tr_data_id r, tr_enc_size r)) (dt_rows (dt_update k f t)) = map (\<lambda>r. (tr_data_id r, tr_enc_size r)) (dt_rows t)"
  using assms by (auto simp: dt_update_def)

lemma sizes_setters [simp]:
  "map (\<lambda>r. (tr_data_id r, tr_enc_size r)) (dt_rows (dt_set_state k s t)) = map (\<lambda>r. (tr_data_id r, tr_enc_size r)) (dt_rows t)"
  "map (\<lambda>r. (tr_data_id r, tr_enc_size r)) (dt_rows (dt_set_have k b t)) = map (\<lambda>r. (tr_data_id r, tr_enc_size r)) (dt_rows t)"
  "map (\<lambda>r. (tr_data_id r, tr_enc_size r)) (dt_rows (dt_set_manifest k m t)) = map (\<lambda>r. (tr_data_id r, tr_enc_size r)) (dt_rows t)"
  unfolding dt_set_state_def dt_set_have_def dt_set_manifest_def by (rule sizes_update; simp)+

lemma sizes_store [size_rules]:
  "same_sizes ex ds (drop_chunk row c ds)" "same_sizes ex ds (drop_if_lost ex row c ds)" "same_sizes ex ds (mark_held row c ds)"
  "same_sizes ex ds (snd (store_set_manifest ex i m ds))"
  by (auto simp: same_sizes_def sizes_def drop_chunk_def drop_if_lost_def mark_held_def store_set_manifest_def Let_def dt_wf_setters split: option.splits)

lemma sizes_files [simp]: "same_sizes ex a (b\<lparr>ds_files := f\<rparr>) = same_sizes ex a b" "same_sizes ex (a\<lparr>ds_files := f\<rparr>) b = same_sizes ex a b"
  by (simp_all add: same_sizes_def sizes_def)

lemma sizes_begin: "begin_chunk ex stage i c ds = (r, ds') \<Longrightarrow> same_sizes ex ds ds'"
  by (auto simp: begin_chunk_def split: option.splits if_splits)

lemma sizes_discard: "same_sizes ex ds (snd (chunk_discard ic ds))"
  by (simp add: chunk_discard_def)

lemma sizes_append: "chunk_append io off piece ic ds = (r, ic', ds') \<Longrightarrow> same_sizes ex ds ds'"
  using sizes_discard [of ex ds ic] by (auto simp: chunk_append_def split: if_splits)

lemma sizes_finish: "chunk_finish ex ic ds = (r, ic', ds') \<Longrightarrow> same_sizes ex ds ds'"
  using sizes_discard [of ex ds ic] sizes_store(3) [of ex "ds\<lparr>ds_files := f\<rparr>" for f]
  by (auto simp: chunk_finish_def adopt_chunk_def Let_def bind_result_def split: if_splits sum.splits option.splits)

lemma sizes_read: "read_piece ex io i c off sz ds = (r, ds') \<Longrightarrow> same_sizes ex ds ds'"
  by (auto simp: read_piece_def intro: size_rules split: option.splits if_splits)

lemma sizes_insert:
  "map (\<lambda>r. (tr_data_id r, tr_enc_size r)) (dt_rows (dt_insert ts d t)) = map (\<lambda>r. (tr_data_id r, tr_enc_size r)) (dt_rows t)
    @ (if table_row (manifest_digest d) t = None then [(manifest_digest d, enc_size d)] else [])"
  by (auto simp: dt_insert_def split: option.splits)

lemma find_filter_key: "i \<notin> S \<Longrightarrow> find (\<lambda>r. f r = i) (filter (\<lambda>r. f r \<notin> S) xs) = find (\<lambda>r. f r = i) xs"
  by (induction xs) auto

lemma table_row_None: "table_row i t = None \<longleftrightarrow> (\<forall>r\<in>set (dt_rows t). tr_data_id r \<noteq> i)"
  by (auto simp: table_row_def find_None_iff)

lemma register_cases:
  assumes "dt_wf (ex_tag_size ex) (ds_table ds)"
    "(case manifest of Some m \<Rightarrow> register_data_manifest ex d m ds | None \<Rightarrow> register_data ex d ds) = Inr (row, ds')"
  obtains (refused) "row = None" "ds' = ds"
  | (inserted) r where "usable_data_descriptor (ex_tag_size ex) d" "same_sizes ex (ds\<lparr>ds_table := dt_insert (ex_tag_size ex) d (ds_table ds)\<rparr>) ds'"
      "table_row (manifest_digest d) (dt_insert (ex_tag_size ex) d (ds_table ds)) = Some r"
      "dr_descriptor (extract_row (ex_tag_size ex) r) = d \<Longrightarrow> row \<noteq> None"
proof (cases "usable_data_descriptor (ex_tag_size ex) d \<and> (\<forall>m. manifest = Some m \<longrightarrow> manifest_matches (ex_cr ex) (ex_tag_size ex) d m)")
  case False
  then show thesis using assms(2) refused by (auto simp: register_data_manifest_def register_data_def split: option.splits)
next
  case True
  let ?ts = "ex_tag_size ex" and ?t = "dt_insert (ex_tag_size ex) d (ds_table ds)"
  have wf: "dt_wf ?ts ?t" using dt_wf_insert [OF assms(1)] True by simp
  obtain k t where e: "dt_ensure ?ts d (ds_table ds) = Inr (k, t)"
    using True assms(2) by (cases "dt_ensure ?ts d (ds_table ds)") (auto simp: register_data_manifest_def register_data_def bind_result_def split: option.splits)
  then obtain r where r: "t = ?t" "table_row (manifest_digest d) ?t = Some r" "k = tr_key r" using dt_ensure_cases [OF e] by auto
  have f: "dt_find_local ?ts k t = Some (extract_row ?ts r)"
    using table_row_at_mem [OF wf, of r] table_row_SomeD [OF r(2)] r by (simp add: dt_find_local_def)
  have m: "same_sizes ex (ds\<lparr>ds_table := ?t\<rparr>) (ds\<lparr>ds_table := dt_set_manifest j m ?t\<rparr>)" for j m
    by (simp add: same_sizes_def sizes_def dt_wf_setters)
  obtain x where x: "extract_row ?ts r = x" by blast
  have "row = (if dr_descriptor x = d then Some x else None) \<and> same_sizes ex (ds\<lparr>ds_table := ?t\<rparr>) ds'"
  proof (cases "dr_descriptor x = d")
    case same: True
    then show ?thesis
      using True assms(2) e f [unfolded x] m r(1)
      by (cases manifest) (clarsimp simp: register_data_manifest_def register_data_def bind_result_def same)+
  next
    case False
    then show ?thesis
      using True assms(2) e f [unfolded x] m r(1)
      by (cases manifest) (clarsimp simp: register_data_manifest_def register_data_def bind_result_def)+
  qed
  then have "same_sizes ex (ds\<lparr>ds_table := ?t\<rparr>) ds'" "dr_descriptor (extract_row ?ts r) = d \<Longrightarrow> row \<noteq> None"
    unfolding x by auto
  then show thesis using inserted r(2) True by blast
qed

lemma registered:
  assumes "dt_wf (ex_tag_size ex) (ds_table ds)" "dd_trailing d = []"
    "(case manifest of Some m \<Rightarrow> register_data_manifest ex d m ds | None \<Rightarrow> register_data ex d ds) = Inr (row, ds')"
  shows "dt_wf (ex_tag_size ex) (ds_table ds')"
    "store_find ex (manifest_digest d) ds \<noteq> None \<Longrightarrow> sizes ds' = sizes ds"
    "store_find ex (manifest_digest d) ds = None \<Longrightarrow> row = None \<Longrightarrow> sizes ds' = sizes ds"
    "store_find ex (manifest_digest d) ds = None \<Longrightarrow> row \<noteq> None \<Longrightarrow> sizes ds' = sizes ds @ [(manifest_digest d, enc_size d)]"
    "row \<noteq> None \<Longrightarrow> usable_data_descriptor (ex_tag_size ex) d"
proof -
  let ?ts = "ex_tag_size ex" and ?t = "dt_insert (ex_tag_size ex) d (ds_table ds)"
  have known: "store_find ex (manifest_digest d) ds = None \<longleftrightarrow> table_row (manifest_digest d) (ds_table ds) = None"
    by (simp add: dt_find_def)
  have "dt_wf ?ts (ds_table ds') \<and> (row \<noteq> None \<longrightarrow> usable_data_descriptor ?ts d) \<and> (if row = None \<or> table_row (manifest_digest d) (ds_table ds) \<noteq> None then sizes ds' = sizes ds
      else sizes ds' = sizes ds @ [(manifest_digest d, enc_size d)])"
    using assms(1,3)
  proof (cases rule: register_cases)
    case refused
    then show ?thesis using assms(1) by simp
  next
    case (inserted r)
    have "dr_descriptor (extract_row ?ts r) = d" if none: "table_row (manifest_digest d) (ds_table ds) = None"
    proof -
      have "r \<in> set (dt_rows ?t)" "tr_data_id r = manifest_digest d" using table_row_SomeD [OF inserted(3)] by auto
      moreover have "\<forall>x\<in>set (dt_rows (ds_table ds)). tr_data_id x \<noteq> manifest_digest d"
        using none by (simp add: table_row_None)
      ultimately have "tr_enc_size r = enc_size d \<and> tr_chunk_size r = dd_chunk_size d"
        using none by (auto simp: dt_insert_def)
      then show ?thesis using \<open>tr_data_id r = manifest_digest d\<close> assms(2) by (cases d) simp
    qed
    then show ?thesis
      using inserted(1,2,4) dt_wf_insert [OF assms(1) inserted(1)] by (auto simp: same_sizes_def sizes_def sizes_insert)
  qed
  then show "dt_wf (ex_tag_size ex) (ds_table ds')"
    "store_find ex (manifest_digest d) ds \<noteq> None \<Longrightarrow> sizes ds' = sizes ds"
    "store_find ex (manifest_digest d) ds = None \<Longrightarrow> row = None \<Longrightarrow> sizes ds' = sizes ds"
    "store_find ex (manifest_digest d) ds = None \<Longrightarrow> row \<noteq> None \<Longrightarrow> sizes ds' = sizes ds @ [(manifest_digest d, enc_size d)]"
    "row \<noteq> None \<Longrightarrow> usable_data_descriptor (ex_tag_size ex) d"
    using known by (auto split: if_splits)
qed

lemma dt_remove_id:
  assumes "dt_wf ts t" "table_row i t = Some r"
  shows "dt_rows (dt_remove (tr_key r) t) = filter (\<lambda>x. tr_data_id x \<noteq> i) (dt_rows t)"
proof -
  have r: "r \<in> set (dt_rows t)" "tr_data_id r = i" using table_row_SomeD [OF assms(2)] by auto
  have "tr_key x = tr_key r \<longleftrightarrow> tr_data_id x = i" if x: "x \<in> set (dt_rows t)" for x
  proof
    assume "tr_key x = tr_key r"
    then have "x = r" using table_row_at_mem [OF assms(1) x] table_row_at_mem [OF assms(1) r(1)] by (metis option.inject)
    then show "tr_data_id x = i" using r(2) by simp
  next
    assume "tr_data_id x = i"
    then have "x = r" using table_row_mem [OF assms(1) x] assms(2) by (metis option.inject)
    then show "tr_key x = tr_key r" by simp
  qed
  then show ?thesis unfolding dt_remove_def by (simp cong: filter_cong)
qed

lemma store_removed:
  assumes "dt_wf (ex_tag_size ex) (ds_table ds)"
  shows "dt_wf (ex_tag_size ex) (ds_table (snd (store_remove ex ids ds)))"
    "dt_rows (ds_table (snd (store_remove ex ids ds))) = filter (\<lambda>r. tr_data_id r \<notin> set ids) (dt_rows (ds_table ds))"
proof -
  have "dt_wf (ex_tag_size ex) (ds_table (snd (fold (store_remove_one ex) ids s)))
    \<and> dt_rows (ds_table (snd (fold (store_remove_one ex) ids s))) = filter (\<lambda>r. tr_data_id r \<notin> set ids) (dt_rows (ds_table (snd s)))"
    if "dt_wf (ex_tag_size ex) (ds_table (snd s))" for s
    using that
  proof (induction ids arbitrary: s)
    case (Cons i ids)
    have one: "dt_wf (ex_tag_size ex) (ds_table (snd (store_remove_one ex i s)))
      \<and> dt_rows (ds_table (snd (store_remove_one ex i s))) = filter (\<lambda>r. tr_data_id r \<noteq> i) (dt_rows (ds_table (snd s)))"
    proof (cases "table_row i (ds_table (snd s))")
      case None
      moreover have "filter (\<lambda>r. tr_data_id r \<noteq> i) (dt_rows (ds_table (snd s))) = dt_rows (ds_table (snd s))"
        using None by (simp add: table_row_None)
      ultimately show ?thesis using Cons.prems by (simp add: store_remove_one_def dt_find_def)
    next
      case (Some r)
      then show ?thesis
        using dt_remove_id [OF Cons.prems Some] dt_wf_remove [OF Cons.prems]
        by (simp add: store_remove_one_def dt_find_def extract_row_def Let_def)
    qed
    then show ?case using Cons.IH by (simp add: conj_commute)
  qed simp
  then show "dt_wf (ex_tag_size ex) (ds_table (snd (store_remove ex ids ds)))"
    "dt_rows (ds_table (snd (store_remove ex ids ds))) = filter (\<lambda>r. tr_data_id r \<notin> set ids) (dt_rows (ds_table ds))"
    using assms unfolding store_remove_def by auto
qed

definition size_of :: "externals \<Rightarrow> data_store \<Rightarrow> data_id \<Rightarrow> nat" where
  "size_of ex ds i = (case store_find ex i ds of Some row \<Rightarrow> unat (enc_size (dr_descriptor row)) | None \<Rightarrow> 0)"

lemma filter_distinct_key: "distinct (map f xs) \<Longrightarrow> x \<in> set xs \<Longrightarrow> filter (\<lambda>y. f y = f x) xs = [x]"
  by (induction xs) (auto simp: filter_empty_conv image_iff)

lemma size_of_row:
  assumes "dt_wf (ex_tag_size ex) (ds_table ds)"
  shows "sum_list (map (unat \<circ> tr_enc_size) (filter (\<lambda>r. tr_data_id r = i) (dt_rows (ds_table ds)))) = size_of ex ds i"
proof (cases "table_row i (ds_table ds)")
  case None
  moreover have "filter (\<lambda>r. tr_data_id r = i) (dt_rows (ds_table ds)) = []" using None by (simp add: table_row_None filter_empty_conv)
  ultimately show ?thesis by (simp add: size_of_def dt_find_def)
next
  case (Some r)
  have "r \<in> set (dt_rows (ds_table ds))" "tr_data_id r = i" using table_row_SomeD [OF Some] by auto
  then have "filter (\<lambda>x. tr_data_id x = i) (dt_rows (ds_table ds)) = [r]"
    using assms filter_distinct_key [of tr_data_id "dt_rows (ds_table ds)" r] by (simp add: dt_wf_def)
  then show ?thesis using Some by (simp add: size_of_def dt_find_def)
qed

lemma sum_filter_Cons:
  assumes "x \<notin> set ks"
  shows "sum_list (map (g :: 'a \<Rightarrow> nat) (filter (\<lambda>r. f r = x \<or> f r \<in> set ks) xs))
    = sum_list (map g (filter (\<lambda>r. f r = x) xs)) + sum_list (map g (filter (\<lambda>r. f r \<in> set ks) xs))"
  using assms by (induction xs) auto

lemma sum_filter_compl: "sum_list (map (g :: 'a \<Rightarrow> nat) xs) = sum_list (map g (filter P xs)) + sum_list (map g (filter (\<lambda>x. \<not> P x) xs))"
  by (induction xs) auto

text \<open>What the removal of distinct data frees is the sum of their sizes.\<close>

lemma reserved_split:
  "reserved ds = sum_list (map (unat \<circ> tr_enc_size) (filter (\<lambda>r. tr_data_id r \<in> set ids) (dt_rows (ds_table ds))))
     + sum_list (map (unat \<circ> tr_enc_size) (filter (\<lambda>r. tr_data_id r \<notin> set ids) (dt_rows (ds_table ds))))"
  using sum_filter_compl [of "unat \<circ> tr_enc_size" "dt_rows (ds_table ds)" "\<lambda>r. tr_data_id r \<in> set ids"]
  by (simp add: reserved_def sizes_def comp_def)

lemma freed_rows:
  assumes "dt_wf (ex_tag_size ex) (ds_table ds)" "distinct ids"
  shows "sum_list (map (unat \<circ> tr_enc_size) (filter (\<lambda>r. tr_data_id r \<in> set ids) (dt_rows (ds_table ds)))) = sum_list (map (size_of ex ds) ids)"
  using assms(2) by (induction ids) (simp_all add: sum_filter_Cons size_of_row [OF assms(1)])

lemma reserved_removed:
  assumes "dt_wf (ex_tag_size ex) (ds_table ds)" "distinct ids"
  shows "reserved ds = sum_list (map (size_of ex ds) ids) + reserved (snd (store_remove ex ids ds))"
  using reserved_split [of ds ids] freed_rows [OF assms] store_removed(2) [OF assms(1), of ids]
  by (simp add: reserved_def sizes_def comp_def)

lemma freed_sum:
  "freed_bytes ex ids sd = of_nat (sum_list (map (size_of ex (sd_store sd)) ids))"
proof -
  have "fold (\<lambda>i freed. case store_find ex i (sd_store sd) of Some row \<Rightarrow> freed + enc_size (dr_descriptor row) | None \<Rightarrow> freed) ids z
    = z + of_nat (sum_list (map (size_of ex (sd_store sd)) ids))" for z
    by (induction ids arbitrary: z) (auto simp: size_of_def split: option.splits)
  then show ?thesis by (simp add: freed_bytes_def)
qed

section \<open>The counters\<close>

definition activity_ok :: "server_data_store \<Rightarrow> bool" where
  "activity_ok sd = (distinct (map fst (sd_activity sd)) \<and> sd_uploads sd = of_nat (length (sd_activity sd)))"

definition bytes_ok :: "server_data_store \<Rightarrow> bool" where
  "bytes_ok sd = (unat (sd_used_bytes sd) = reserved (sd_store sd) \<and> reserved (sd_store sd) \<le> unat (dq_max_storage_bytes (sd_quota sd)))"

definition sd_wf :: "externals \<Rightarrow> server_data_store \<Rightarrow> bool" where
  "sd_wf ex sd = (dt_wf (ex_tag_size ex) (ds_table (sd_store sd)) \<and> activity_ok sd \<and> bytes_ok sd)"

lemma length_forget:
  "distinct (map fst xs) \<Longrightarrow> i \<in> set (map fst xs) \<Longrightarrow> length xs = Suc (length (filter (\<lambda>(j, t). j \<noteq> i) xs))"
proof (induction xs)
  case (Cons x xs)
  have "filter (\<lambda>(j, t). j \<noteq> i) xs = xs" if "i \<notin> set (map fst xs)" using that by (force simp: filter_id_conv)
  then show ?case using Cons by (cases "fst x = i") (auto split: prod.splits)
qed simp

lemma activity_touch: "activity_ok sd \<Longrightarrow> activity_ok (touch i now sd)"
proof -
  have "map fst (map (\<lambda>(j, t). if j = i then (j, now) else (j, t)) xs) = map fst xs" for xs :: "(data_id \<times> time_point) list"
    by auto
  then show "activity_ok sd \<Longrightarrow> activity_ok (touch i now sd)"
    by (simp add: activity_ok_def touch_def has_activity_def add.commute del: map_map)
qed

lemma activity_forget: "activity_ok sd \<Longrightarrow> activity_ok (forget_activity i sd)"
  using length_forget [of "sd_activity sd" i]
  by (auto simp: activity_ok_def forget_activity_def has_activity_def distinct_map intro: inj_on_subset)

lemma activity_kept [simp]:
  "sd_store (touch i now sd) = sd_store sd" "sd_quota (touch i now sd) = sd_quota sd" "sd_used_bytes (touch i now sd) = sd_used_bytes sd"
  "sd_store (forget_activity i sd) = sd_store sd" "sd_quota (forget_activity i sd) = sd_quota sd"
  "sd_used_bytes (forget_activity i sd) = sd_used_bytes sd"
  by (simp_all add: touch_def forget_activity_def)

lemma wf_touch [intro]: "sd_wf ex sd \<Longrightarrow> sd_wf ex (touch i now sd)"
  by (simp add: sd_wf_def bytes_ok_def activity_touch)

lemma wf_forget [intro]: "sd_wf ex sd \<Longrightarrow> sd_wf ex (forget_activity i sd)"
  by (simp add: sd_wf_def bytes_ok_def activity_forget)

lemma wf_forget_all: "sd_wf ex sd \<Longrightarrow> sd_wf ex (fold forget_activity ids sd)"
  by (induction ids arbitrary: sd) auto

lemma forget_all_store [simp]: "sd_store (fold forget_activity ids sd) = sd_store sd" "sd_quota (fold forget_activity ids sd) = sd_quota sd"
  by (induction ids arbitrary: sd) auto

lemma activity_ok_store [simp]:
  "activity_ok (sd\<lparr>sd_store := ds\<rparr>) = activity_ok sd" "activity_ok (sd\<lparr>sd_used_bytes := n\<rparr>) = activity_ok sd"
  "activity_ok (sd\<lparr>sd_budget := b\<rparr>) = activity_ok sd"
  by (simp_all add: activity_ok_def)

lemma wf_same_sizes: "sd_wf ex sd \<Longrightarrow> same_sizes ex (sd_store sd) ds \<Longrightarrow> sd_wf ex (sd\<lparr>sd_store := ds\<rparr>)"
  by (simp add: sd_wf_def bytes_ok_def same_sizes_def reserved_def)

lemma wf_drop:
  assumes "sd_wf ex sd" "distinct ids"
  shows "sd_wf ex (snd (sd_drop ex ids sd))"
proof -
  let ?F = "sum_list (map (size_of ex (sd_store sd)) ids)" and ?ds = "snd (store_remove ex ids (sd_store sd))"
  have wf: "dt_wf (ex_tag_size ex) (ds_table (sd_store sd))" and used: "unat (sd_used_bytes sd) = reserved (sd_store sd)"
    using assms(1) by (auto simp: sd_wf_def bytes_ok_def)
  have r: "reserved (sd_store sd) = ?F + reserved ?ds" by (rule reserved_removed [OF wf assms(2)])
  then have "?F < 2 ^ LENGTH(64)" using used unat_less_2_64 [of "sd_used_bytes sd"] by simp
  then have f: "unat (freed_bytes ex ids sd) = ?F" unfolding freed_sum by (simp only: unat_of_nat_small)
  then have le: "freed_bytes ex ids sd \<le> sd_used_bytes sd" using r used by (simp add: word_le_nat_alt)
  then have "unat (sd_used_bytes sd - min (freed_bytes ex ids sd) (sd_used_bytes sd)) = reserved ?ds"
    using f r used by (simp add: min_def unat_sub)
  then show ?thesis
    using assms(1) r store_removed(1) [OF wf] by (simp add: sd_drop_def sd_wf_def bytes_ok_def split_beta Let_def)
qed

lemma usable_size:
  assumes "usable_data_descriptor ts d" "tag_ok ts"
  shows "unat (enc_size d) < 2 ^ 63"
proof -
  let ?p = "unat (dd_chunk_size d) + ts"
  have n: "unat (chunk_count ts d) \<le> 200000" "dd_chunk_size d \<noteq> 0" using usable_chunks [OF assms] by auto
  have "0 < ?p" using n(2) by (simp add: unat_gt_0)
  then have "unat (enc_size d) \<le> unat (chunk_count ts d) * ?p" unfolding unat_chunk_count [OF assms(2) n(2)] by (rule ceil_div_covers)
  also have "\<dots> \<le> 200000 * 2 ^ 33" using n(1) unat_less_2_32 [of "dd_chunk_size d"] assms(2) by (intro mult_le_mono) auto
  finally show ?thesis by simp
qed

lemma sd_open_result:
  assumes "(case manifest of Some m \<Rightarrow> register_data_manifest ex d m (sd_store sd) | None \<Rightarrow> register_data ex d (sd_store sd)) = Inr (row, ds)"
  defines "sd1 \<equiv> sd\<lparr>sd_store := ds, sd_used_bytes := (if store_find ex (manifest_digest d) (sd_store sd) \<noteq> None \<or> row = None
      then sd_used_bytes sd else sd_used_bytes sd + enc_size d)\<rparr>"
  shows "snd (sd_open ex d manifest now sd) = sd \<or> snd (sd_open ex d manifest now sd) = sd1
    \<or> snd (sd_open ex d manifest now sd) = touch (manifest_digest d) now sd1"
proof (cases row)
  case None
  then have "sd1 = sd\<lparr>sd_store := ds\<rparr>" by (simp add: sd1_def)
  then show ?thesis unfolding sd_open_def Let_def assms(1) None by simp
next
  case (Some r)
  then have "sd1 = sd\<lparr>sd_store := ds, sd_used_bytes := (if store_find ex (manifest_digest d) (sd_store sd) \<noteq> None
      then sd_used_bytes sd else sd_used_bytes sd + enc_size d)\<rparr>" by (simp add: sd1_def)
  then show ?thesis unfolding sd_open_def Let_def assms(1) Some sum.case prod.case option.case by (simp split: if_split del: split_paired_Ex)
qed

lemma wf_open:
  assumes "sd_wf ex sd" "dd_trailing d = []" "tag_ok (ex_tag_size ex)"
    "dq_max_storage_bytes (sd_quota sd) \<noteq> 0" "unat (dq_max_storage_bytes (sd_quota sd)) < 2 ^ 63"
  shows "sd_wf ex (snd (sd_open ex d manifest now sd))"
proof -
  let ?known = "store_find ex (manifest_digest d) (sd_store sd) \<noteq> None" and ?max = "dq_max_storage_bytes (sd_quota sd)"
  let ?reg = "case manifest of Some m \<Rightarrow> register_data_manifest ex d m (sd_store sd) | None \<Rightarrow> register_data ex d (sd_store sd)"
  have wf: "dt_wf (ex_tag_size ex) (ds_table (sd_store sd))" "activity_ok sd"
    and used: "unat (sd_used_bytes sd) = reserved (sd_store sd)" "reserved (sd_store sd) \<le> unat ?max"
    using assms(1) by (auto simp: sd_wf_def bytes_ok_def)
  consider (refused) "snd (sd_open ex d manifest now sd) = sd"
    | (accepted) row ds where "?reg = Inr (row, ds)" "?known \<or> sd_used_bytes sd + enc_size d \<le> ?max"
  proof (cases "?known \<or> sd_used_bytes sd + enc_size d \<le> ?max")
    case True
    then show ?thesis using that by (cases ?reg) (auto simp: sd_open_def Let_def)
  next
    case False
    then show ?thesis using assms(4) by (intro refused) (simp add: sd_open_def Let_def not_le)
  qed
  then show ?thesis
  proof cases
    case refused
    then show ?thesis using assms(1) by simp
  next
    case accepted
    note reg = registered [OF wf(1) assms(2) accepted(1)]
    let ?used = "if ?known \<or> row = None then sd_used_bytes sd else sd_used_bytes sd + enc_size d"
    have "sd_wf ex (sd\<lparr>sd_store := ds, sd_used_bytes := ?used\<rparr>)"
    proof (cases "?known \<or> row = None")
      case True
      then have "same_sizes ex (sd_store sd) ds" using reg(1-3) by (auto simp: same_sizes_def)
      then show ?thesis using wf_same_sizes [OF assms(1)] True by (simp add: sd_wf_def bytes_ok_def)
    next
      case False
      then have "unat (enc_size d) < 2 ^ 63" using usable_size [OF reg(5) assms(3)] by simp
      then have "unat (sd_used_bytes sd + enc_size d) = unat (sd_used_bytes sd) + unat (enc_size d)"
        using used assms(5) by (simp add: unat_word_ariths(1))
      moreover have "reserved ds = reserved (sd_store sd) + unat (enc_size d)" using reg(4) False by (simp add: reserved_def)
      ultimately show ?thesis
        using False accepted(2) used wf(2) reg(1) by (auto simp: sd_wf_def bytes_ok_def word_le_nat_alt)
    qed
    then show ?thesis using sd_open_result [OF accepted(1), of now] assms(1) by (elim disjE) auto
  qed
qed

lemma sint_small: "unat (w :: u64) < 2 ^ 63 \<Longrightarrow> sint w = int (unat w)"
proof -
  assume "unat w < 2 ^ 63"
  then have "int (unat w) < int (2 ^ 63)" unfolding of_nat_less_iff .
  then have "uint w < 2 ^ 63" by simp
  then have "signed_take_bit 63 (uint w) = uint w" by (intro signed_take_bit_int_eq_self) (auto intro: order_trans [OF _ uint_ge_0])
  then show ?thesis by (simp add: sint_uint)
qed

lemma total_rows:
  "n + sum_list (map (unat \<circ> tr_enc_size) rs) < 2 ^ 63 \<Longrightarrow>
   fold (\<lambda>r. add_signed (sint (tr_enc_size r))) rs (Inr (int n)) = Inr (int (n + sum_list (map (unat \<circ> tr_enc_size) rs)))"
proof (induction rs arbitrary: n)
  case (Cons r rs)
  then have k: "n + unat (tr_enc_size r) < 2 ^ 63" by simp
  then have sint: "sint (tr_enc_size r) = int (unat (tr_enc_size r))" by (intro sint_small) simp
  have "add_signed (int k) (Inr (int n)) = Inr (int (n + k))" if "n + k < 2 ^ 63" for k
    using that by (simp add: add_signed_def bind_result_def)
  then have "add_signed (sint (tr_enc_size r)) (Inr (int n)) = Inr (int (n + unat (tr_enc_size r)))"
    unfolding sint using k by blast
  then show ?case using Cons.IH [of "n + unat (tr_enc_size r)"] Cons.prems by (simp add: add.assoc)
qed simp

text \<open>The counters a store opens with are exact, as long as the sizes fit a signed column.\<close>

lemma wf_opened:
  assumes "dt_wf (ex_tag_size ex) t" "distinct (map fst activity)" "reserved (record_data_store_of t f) \<le> unat (dq_max_storage_bytes quota)"
    "unat (dq_max_storage_bytes quota) < 2 ^ 63" "server_data_store_of t f activity quota transfer = Inr sd"
  shows "sd_wf ex sd \<and> sd_quota sd = quota"
proof -
  let ?n = "sum_list (map (unat \<circ> tr_enc_size) (dt_rows t))"
  have n: "reserved (record_data_store_of t f) = ?n" by (simp add: reserved_def sizes_def record_data_store_of_def comp_def)
  then have "?n < 2 ^ 63" using assms(3,4) by simp
  then have "dt_total_enc_size t = Inr (of_nat ?n)" "?n < 2 ^ LENGTH(64)"
    using total_rows [of 0 "dt_rows t"] by (simp_all add: dt_total_enc_size_def bind_result_def)
  then have "sd = \<lparr>sd_store = record_data_store_of t f, sd_activity = activity, sd_quota = quota, sd_budget = transfer_budget_of transfer,
      sd_used_bytes = of_nat ?n, sd_uploads = of_nat (length activity)\<rparr>" "unat (of_nat ?n :: u64) = ?n"
    using assms(5) by (simp_all add: server_data_store_of_def bind_result_def unat_of_nat_small)
  then show ?thesis
    using assms(1-3) n by (simp add: sd_wf_def activity_ok_def bytes_ok_def) (simp add: record_data_store_of_def)
qed

section \<open>Runs\<close>

text \<open>
  What members, record servers and the timers of a data server make of the store, in any order: uploads and
  copies are opened, chunks arrive in pieces, a pull writes into the chunk store beside the counters, pieces
  are served, data is released and expired, and the server starts again. A descriptor carries no trailing
  octets (of a newer version), and a release names each data once.
\<close>

inductive sd_step :: "externals \<Rightarrow> octets set \<Rightarrow> server_data_store \<times> incoming_chunk list \<Rightarrow> server_data_store \<times> incoming_chunk list \<Rightarrow> bool"
  for ex U where
  sd_upload: "manifest_octets m \<in> U \<Longrightarrow> dd_trailing d = [] \<Longrightarrow> sd_step ex U (sd, ics) (snd (open_upload ex d m now sd), ics)"
| sd_replica: "dd_trailing d = [] \<Longrightarrow> sd_step ex U (sd, ics) (snd (open_replica ex d now sd), ics)"
| sd_begin: "cf_stages (ds_files (sd_store sd)) stage = None \<Longrightarrow> stage \<notin> set (open_stages ics) \<Longrightarrow>
    sd_begin_chunk ex stage i c now sd = (Inr ic, sd') \<Longrightarrow> sd_step ex U (sd, ics) (sd', ic # ics)"
| sd_append: "n < length ics \<Longrightarrow> chunk_append io offset piece (ics ! n) (sd_store sd) = (r, ic, ds) \<Longrightarrow>
    sd_step ex U (sd, ics) (sd\<lparr>sd_store := ds\<rparr>, ics[n := ic])"
| sd_finish: "n < length ics \<Longrightarrow> sd_finish_chunk ex i (ics ! n) now sd = (r, ic, sd') \<Longrightarrow> sd_step ex U (sd, ics) (sd', ics[n := ic])"
| pull_manifest: "manifest_octets m \<in> U \<Longrightarrow> sd_step ex U (sd, ics) (sd\<lparr>sd_store := snd (store_set_manifest ex i m (sd_store sd))\<rparr>, ics)"
| pull_begin: "cf_stages (ds_files (sd_store sd)) stage = None \<Longrightarrow> stage \<notin> set (open_stages ics) \<Longrightarrow>
    begin_chunk ex stage i c (sd_store sd) = (Some ic, ds) \<Longrightarrow> sd_step ex U (sd, ics) (sd\<lparr>sd_store := ds\<rparr>, ic # ics)"
| pull_finish: "n < length ics \<Longrightarrow> chunk_finish ex (ics ! n) (sd_store sd) = (r, ic, ds) \<Longrightarrow>
    sd_step ex U (sd, ics) (sd\<lparr>sd_store := ds\<rparr>, ics[n := ic])"
| pull_ended: "sd_step ex U (sd, ics) (snd (replica_pulled ex i now sd), ics)"
| sd_serve: "sd_step ex U (sd, ics) (snd (serve_piece ex io i c offset sz now charged sd), ics)"
| sd_released: "distinct ids \<Longrightarrow> sd_step ex U (sd, ics) (snd (sd_release ex ids sd), ics)"
| sd_expired: "sd_step ex U (sd, ics) (snd (expire_incomplete ex since sd), ics)"
| sd_restart: "server_data_store_of (ds_table (sd_store sd)) (ds_files (sd_store sd)) (sd_activity sd) (sd_quota sd) transfer = Inr sd' \<Longrightarrow>
    sd_step ex U (sd, ics) (sd', [])"

lemma wf_kept: "sd_wf ex sd \<Longrightarrow> sd_wf ex (snd (chunk_kept ex i now sd))"
  by (auto simp: chunk_kept_def Let_def)

lemma wf_begin: "sd_wf ex sd \<Longrightarrow> sd_begin_chunk ex stage i c now sd = (r, sd') \<Longrightarrow> sd_wf ex sd'"
  by (auto simp: sd_begin_chunk_def dest: sizes_begin wf_same_sizes split: if_splits prod.splits option.splits)

lemma wf_finish:
  assumes "sd_wf ex sd" "sd_finish_chunk ex i ic now sd = (r, ic', sd')"
  shows "sd_wf ex sd'"
proof -
  obtain q ic1 ds where f: "chunk_finish ex ic (sd_store sd) = (q, ic1, ds)" using prod_cases3 by blast
  have "sd_wf ex (sd\<lparr>sd_store := ds\<rparr>)" using wf_same_sizes [OF assms(1) sizes_finish [OF f]] .
  then show ?thesis using assms(2) f wf_kept [of ex "sd\<lparr>sd_store := ds\<rparr>" i now]
    by (auto simp: sd_finish_chunk_def split_beta Let_def split: sum.splits if_splits)
qed

lemma wf_serve: "sd_wf ex sd \<Longrightarrow> sd_wf ex (snd (serve_piece ex io i c offset sz now charged sd))"
proof -
  assume wf: "sd_wf ex sd"
  obtain q ds where r: "read_piece ex io i c offset (ucast sz) (sd_store sd) = (q, ds)" by fastforce
  have b: "sd_wf ex (s\<lparr>sd_budget := b\<rparr>) = sd_wf ex s" for s b by (simp add: sd_wf_def bytes_ok_def)
  have "sd_wf ex (sd\<lparr>sd_store := ds\<rparr>)" using wf_same_sizes [OF wf sizes_read [OF r]] .
  then have "sd_wf ex (sd\<lparr>sd_budget := b, sd_store := ds\<rparr>)" for b by (simp add: sd_wf_def bytes_ok_def)
  then show ?thesis using wf b r by (simp add: serve_piece_def Let_def split_beta)
qed

lemma wf_expire: "sd_wf ex sd \<Longrightarrow> sd_wf ex (snd (expire_incomplete ex since sd))"
proof -
  assume wf: "sd_wf ex sd"
  then have "distinct (map fst (filter (\<lambda>(i, t). t < since) (sd_activity sd)))"
    by (auto simp: sd_wf_def activity_ok_def distinct_map intro: inj_on_subset)
  then show ?thesis unfolding expire_incomplete_def Let_def by (intro wf_drop wf_forget_all [OF wf]) simp
qed

definition quota_limits :: "server_data_store \<Rightarrow> bool" where
  "quota_limits sd = (dq_max_storage_bytes (sd_quota sd) \<noteq> 0 \<and> unat (dq_max_storage_bytes (sd_quota sd)) < 2 ^ 63)"

lemma step_wf:
  assumes "sd_step ex U w w'" "tag_ok (ex_tag_size ex)" "sd_wf ex (fst w)" "quota_limits (fst w)"
  shows "sd_wf ex (fst w')"
  using assms
proof (induction rule: sd_step.induct)
  case (sd_upload m d sd ics now)
  then show ?case using wf_open [of ex sd d "Some m" now] by (simp add: open_upload_def quota_limits_def)
next
  case (sd_replica d sd ics now)
  then show ?case using wf_open [of ex sd d None now] by (simp add: open_replica_def quota_limits_def)
next
  case (sd_released ids sd ics)
  then show ?case using wf_drop [OF wf_forget_all] by (simp add: sd_release_def)
next
  case (sd_restart sd transfer sd' ics)
  then have "reserved (record_data_store_of (ds_table (sd_store sd)) (ds_files (sd_store sd))) = reserved (sd_store sd)"
    by (simp add: reserved_def sizes_def record_data_store_of_def)
  then have "sd_wf ex sd' \<and> sd_quota sd' = sd_quota sd"
    using sd_restart by (intro wf_opened [OF _ _ _ _ sd_restart(1)]) (auto simp: sd_wf_def activity_ok_def bytes_ok_def quota_limits_def)
  then show ?case by simp
qed (auto intro: wf_begin wf_finish wf_kept wf_serve wf_expire wf_same_sizes sizes_append sizes_finish sizes_begin size_rules simp: replica_pulled_def)

lemma step_quota: "sd_step ex U w w' \<Longrightarrow> sd_quota (fst w') = sd_quota (fst w)"
proof (induction rule: sd_step.induct)
  case (sd_upload m d sd ics now)
  show ?case by (auto simp: open_upload_def sd_open_def Let_def split: sum.splits option.splits)
next
  case (sd_replica d sd ics now)
  show ?case by (auto simp: open_replica_def sd_open_def Let_def split: sum.splits option.splits)
next
  case (sd_restart sd transfer sd' ics)
  then show ?case by (auto simp: server_data_store_of_def bind_result_Inr)
qed (auto simp: sd_begin_chunk_def sd_finish_chunk_def replica_pulled_def chunk_kept_def serve_piece_def sd_release_def expire_incomplete_def
    sd_drop_def Let_def split_beta split: if_splits sum.splits prod.splits option.splits)

lemma run_wf:
  assumes "(sd_step ex U)\<^sup>*\<^sup>* w w'" "tag_ok (ex_tag_size ex)" "sd_wf ex (fst w)" "quota_limits (fst w)"
  shows "sd_wf ex (fst w') \<and> sd_quota (fst w') = sd_quota (fst w)"
  using assms(1)
proof (induction rule: rtranclp_induct)
  case (step v v')
  then have "quota_limits (fst v)" using assms(4) by (simp add: quota_limits_def)
  then show ?case using step step_wf [OF step(2) assms(2)] step_quota [OF step(2)] by simp
qed (use assms(3) in simp)

section \<open>Properties\<close>


definition small_quota :: data_quota where
  "small_quota = \<lparr>dq_max_data_size = 0, dq_max_storage_bytes = 30\<rparr>"

definition small_transfer :: transfer_quota where
  "small_transfer = \<lparr>tq_bytes_per_window = 0, tq_window = 60\<rparr>"

definition small_server :: server_data_store where
  "small_server = \<lparr>sd_store = small_store, sd_activity = [], sd_quota = small_quota,
     sd_budget = transfer_budget_of small_transfer, sd_used_bytes = 0, sd_uploads = 0\<rparr>"

definition small_uploading :: server_data_store where
  "small_uploading = snd (open_upload small_ex small_descriptor small_manifest 7 small_server)"

definition other_descriptor :: data_descriptor where
  "other_descriptor = small_descriptor\<lparr>manifest_digest := [6, 6, 6, 6]\<rparr>"

lemma small_opened: "server_data_store_of empty_data_table \<lparr>cf_dirs = Map.empty, cf_stages = Map.empty\<rparr> [] small_quota small_transfer = Inr small_server"
  by (simp add: server_data_store_of_def dt_total_enc_size_def empty_data_table_def bind_result_def small_server_def small_store_def)

lemma small_step: "sd_step small_ex {[5, 5, 5, 5]} (small_server, []) (small_uploading, [])"
  unfolding small_uploading_def
  by (rule sd_upload) (simp_all add: manifest_octets_def small_manifest_def small_descriptor_def)

lemma small_run: "(sd_step small_ex {[5, 5, 5, 5]})\<^sup>*\<^sup>* (small_server, []) (small_uploading, [])"
  using small_step by (rule r_into_rtranclp)

lemma small_wf: "sd_wf small_ex small_server" "sd_wf small_ex small_uploading"
proof -
  have e: "dt_wf (ex_tag_size small_ex) empty_data_table" by (rule dt_wf_empty)
  show wf: "sd_wf small_ex small_server" using wf_opened [OF e _ _ _ small_opened]
    by (simp add: reserved_def sizes_def record_data_store_of_def empty_data_table_def small_quota_def)
  have "quota_limits small_server" "tag_ok (ex_tag_size small_ex)" by (simp_all add: quota_limits_def small_server_def small_quota_def small_ex_def)
  then show "sd_wf small_ex small_uploading" using step_wf [OF small_step] wf by simp
qed


text \<open>C34. Expiry drops what never completed and nothing else: a data goes exactly when it is incomplete and its
  activity is older than the given time.\<close>

theorem expiry_exact:
  assumes "dt_wf (ex_tag_size ex) (ds_table (sd_store sd))"
  shows "store_find ex i (sd_store (snd (expire_incomplete ex since sd))) =
    (case store_find ex i (sd_store sd) of
       Some row \<Rightarrow> if dr_state row \<noteq> ds_in_sync \<and> (\<exists>t < since. (i, t) \<in> set (sd_activity sd)) then None else Some row
     | None \<Rightarrow> None)"
proof -
  let ?gone = "filter (\<lambda>i. case store_find ex i (sd_store sd) of Some row \<Rightarrow> dr_state row \<noteq> ds_in_sync | None \<Rightarrow> False)
      (map fst (filter (\<lambda>(i, t). t < since) (sd_activity sd)))"
  have "sd_store (snd (expire_incomplete ex since sd)) = snd (store_remove ex ?gone (sd_store sd))"
    by (simp add: expire_incomplete_def sd_drop_def Let_def split_beta)
  moreover have "table_row i (ds_table (snd (store_remove ex ids ds))) = (if i \<in> set ids then None else table_row i (ds_table ds))"
    if "dt_wf (ex_tag_size ex) (ds_table ds)" for ids ds
    using store_removed(2) [OF that, of ids] by (auto simp: table_row_def find_filter_key find_None_iff)
  ultimately have "store_find ex i (sd_store (snd (expire_incomplete ex since sd))) = (if i \<in> set ?gone then None else store_find ex i (sd_store sd))"
    using assms by (simp add: dt_find_def)
  moreover have "i \<in> set (map fst (filter (\<lambda>(i, t). t < since) (sd_activity sd))) \<longleftrightarrow> (\<exists>t < since. (i, t) \<in> set (sd_activity sd))"
    by force
  ultimately show ?thesis by (auto split: option.splits)
qed

theorem expiry_exact_witness:
  "dt_wf 16 (ds_table (sd_store small_uploading)) \<and> store_find small_ex [5, 5, 5, 5] (sd_store small_uploading) \<noteq> None
    \<and> store_find small_ex [5, 5, 5, 5] (sd_store (snd (expire_incomplete small_ex 8 small_uploading))) = None
    \<and> store_find small_ex [5, 5, 5, 5] (sd_store (snd (expire_incomplete small_ex 7 small_uploading)))
      = store_find small_ex [5, 5, 5, 5] (sd_store small_uploading)"
proof -
  have wf: "dt_wf (ex_tag_size small_ex) (ds_table (sd_store small_uploading))"
    using small_wf(2) by (simp add: sd_wf_def)
  have "(case store_find small_ex [5, 5, 5, 5] (sd_store small_uploading) of Some row \<Rightarrow> dr_state row \<noteq> ds_in_sync | None \<Rightarrow> False) = True"
    by code_simp
  then obtain row where row: "store_find small_ex [5, 5, 5, 5] (sd_store small_uploading) = Some row" "dr_state row \<noteq> ds_in_sync"
    by (auto split: option.splits)
  have "sd_activity small_uploading = [([5, 5, 5, 5], 7)]" by code_simp
  then show ?thesis
    using expiry_exact [OF wf, of "[5, 5, 5, 5]" 8] expiry_exact [OF wf, of "[5, 5, 5, 5]" 7] row wf by (simp add: small_ex_def)
qed

lemma store_opens:
  "(store_step ex ae U)\<^sup>*\<^sup>* (sd_store sd, ics) (sd_store (snd (sd_open ex d manifest now sd)), ics)"
  if "\<And>m. manifest = Some m \<Longrightarrow> manifest_octets m \<in> U"
proof -
  let ?reg = "case manifest of Some m \<Rightarrow> register_data_manifest ex d m (sd_store sd) | None \<Rightarrow> register_data ex d (sd_store sd)"
  show ?thesis
  proof (cases ?reg)
    case (Inl e)
    then have "snd (sd_open ex d manifest now sd) = sd" unfolding sd_open_def Let_def Inl by simp
    then show ?thesis by simp
  next
    case (Inr p)
    obtain row ds where p: "p = (row, ds)" by fastforce
    have "store_step ex ae U (sd_store sd, ics) (ds, ics)"
      using Inr p that by (cases manifest) (auto intro: step_register step_register_manifest)
    then show ?thesis using sd_open_result [OF Inr [unfolded p], of now] by (elim disjE) auto
  qed
qed

text \<open>Every step of the server's store is a run of steps of the chunk store a client keeps.\<close>

lemma store_simulates:
  assumes "sd_step ex U w w'"
  shows "(store_step ex ae U)\<^sup>*\<^sup>* (sd_store (fst w), snd w) (sd_store (fst w'), snd w')"
  using assms
proof (induction rule: sd_step.induct)
  case (sd_upload m d sd ics now)
  then show ?case by (auto simp: open_upload_def intro: store_opens)
next
  case (sd_replica d sd ics now)
  then show ?case by (auto simp: open_replica_def intro: store_opens)
next
  case (sd_begin sd stage ics i c now ic sd')
  then obtain ds where "begin_chunk ex stage i c (sd_store sd) = (Some ic, ds)" "sd_store sd' = ds"
    by (auto simp: sd_begin_chunk_def split: if_splits prod.splits option.splits)
  then show ?case using sd_begin(1,2) by (auto simp del: set_map set_filter intro!: r_into_rtranclp step_begin)
next
  case (sd_finish n ics i now sd r ic sd')
  obtain q ic1 ds where f: "chunk_finish ex (ics ! n) (sd_store sd) = (q, ic1, ds)" using prod_cases3 by blast
  then have "ic1 = ic" "ds = sd_store sd'"
    using sd_finish(2) by (auto simp: sd_finish_chunk_def chunk_kept_def Let_def split: if_splits sum.splits)
  then show ?case using sd_finish(1) f by (auto intro: step_finish)
next
  case (sd_serve sd ics io i c offset sz now charged)
  have "sd_store (snd (serve_piece ex io i c offset sz now charged sd)) \<in> {sd_store sd, snd (read_piece ex io i c offset (ucast sz) (sd_store sd))}"
    by (simp add: serve_piece_def Let_def split_beta)
  then show ?case using step_piece [of ex ae U "sd_store sd" ics io i c offset "ucast sz"] by auto
next
  case (pull_begin sd stage ics i c ic ds)
  then show ?case by (auto simp del: set_map set_filter intro!: r_into_rtranclp step_begin)
next
  case (pull_ended sd ics i now)
  then show ?case by (simp add: replica_pulled_def chunk_kept_def Let_def)
next
  case (sd_restart sd transfer sd' ics)
  then have "sd_store sd' = record_data_store_of (ds_table (sd_store sd)) (ds_files (sd_store sd))"
    by (auto simp: server_data_store_of_def bind_result_Inr)
  then show ?case by (auto intro: step_restart)
qed (auto simp: sd_release_def expire_incomplete_def sd_drop_def Let_def split_beta intro: step_append step_manifest step_begin step_finish step_remove)

lemma run_simulates:
  "(sd_step ex U)\<^sup>*\<^sup>* w w' \<Longrightarrow> (store_step ex ae U)\<^sup>*\<^sup>* (sd_store (fst w), snd w) (sd_store (fst w'), snd w')"
  by (induction rule: rtranclp_induct) (auto intro: store_simulates rtranclp_trans)

text \<open>C12. A data server holds what it claims: its store refines the chunk store of a client, so that after every
  run of uploads, pulls, releases, expiries and restarts a chunk its bitmap marks can be read back and is the
  chunk the manifest of the data names.\<close>

theorem server_chunks_verify:
  assumes "store_env ex U" "aead_ok ae" "chunk_tag_size ae = ex_tag_size ex"
    and "server_data_store_of empty_data_table f [] quota transfer = Inr sd0"
    and "(sd_step ex U)\<^sup>*\<^sup>* (sd0, []) (sd, ics)"
    and "store_find ex i (sd_store sd) = Some row" "bm_test (dr_have row) c"
  shows "\<exists>x. read_chunk ex True i c (sd_store sd) = (Some x, sd_store sd)
    \<and> (\<forall>m. store_manifest ex i (sd_store sd) = Some m \<longrightarrow> verify_chunk (ex_cr ex) m c x)"
proof -
  have "sd_store sd0 = record_data_store_of empty_data_table f" using assms(4) by (auto simp: server_data_store_of_def bind_result_Inr)
  then have "world_inv ex U (sd_store sd0, [])"
    by (simp add: world_inv_def record_data_store_of_def store_inv_def dt_wf_empty) (simp add: empty_data_table_def)
  then have "store_inv ex U (sd_store sd)"
    using world_run [OF run_simulates [OF assms(5)] assms(1-3)] by (simp add: world_inv_def)
  from held_verifies [OF this assms(1,6,7)] show ?thesis .
qed

definition small_begun :: "incoming_chunk \<times> server_data_store" where
  "small_begun = (case sd_begin_chunk small_ex [1] [5, 5, 5, 5] 0 8 small_uploading of (r, sd) \<Rightarrow> (projr r, sd))"

definition small_received :: "incoming_chunk \<times> data_store" where
  "small_received = snd (chunk_append True 0 small_chunk (fst small_begun) (sd_store (snd small_begun)))"

definition small_held :: "bool result \<times> incoming_chunk \<times> server_data_store" where
  "small_held = sd_finish_chunk small_ex [5, 5, 5, 5] (fst small_received) 9 ((snd small_begun)\<lparr>sd_store := snd small_received\<rparr>)"

lemma small_held_run: "(sd_step small_ex {[5, 5, 5, 5]})\<^sup>*\<^sup>* (small_server, []) (snd (snd small_held), [fst (snd small_held)])"
proof -
  let ?step = "sd_step small_ex {[5, 5, 5, 5]}" and ?ic = "fst small_begun" and ?sd = "snd small_begun"
  have "isl (fst (sd_begin_chunk small_ex [1] [5, 5, 5, 5] 0 8 small_uploading)) = False" by code_simp
  then have b: "sd_begin_chunk small_ex [1] [5, 5, 5, 5] 0 8 small_uploading = (Inr ?ic, ?sd)"
    by (cases "sd_begin_chunk small_ex [1] [5, 5, 5, 5] 0 8 small_uploading") (auto simp: small_begun_def isl_def)
  have "Option.is_none (cf_stages (ds_files (sd_store small_uploading)) [1]) = True" by code_simp
  then have "?step (small_uploading, []) (?sd, [?ic])" by (intro sd_begin [OF _ _ b]) (simp_all add: Option.is_none_def)
  moreover have "?step (?sd, [?ic]) (?sd\<lparr>sd_store := snd small_received\<rparr>, [?ic][0 := fst small_received])"
    by (rule sd_append [of 0 _ True 0 small_chunk _ "fst (chunk_append True 0 small_chunk ?ic (sd_store ?sd))"]) (simp_all add: small_received_def)
  moreover have "?step (?sd\<lparr>sd_store := snd small_received\<rparr>, [fst small_received]) (snd (snd small_held), [fst small_received][0 := fst (snd small_held)])"
    by (rule sd_finish [of 0 _ _ "[5, 5, 5, 5]" 9 _ "fst small_held"]) (simp_all add: small_held_def)
  ultimately show ?thesis using small_step by (simp add: rtranclp.rtrancl_into_rtrancl)
qed

theorem server_chunks_verify_witness:
  "sd_uploads (snd (snd small_held)) = 0
    \<and> (\<exists>x. read_chunk small_ex True [5, 5, 5, 5] 0 (sd_store (snd (snd small_held))) = (Some x, sd_store (snd (snd small_held)))
    \<and> (\<forall>m. store_manifest small_ex [5, 5, 5, 5] (sd_store (snd (snd small_held))) = Some m \<longrightarrow> verify_chunk small_crypto m 0 x))"
proof -
  have "(case store_find small_ex [5, 5, 5, 5] (sd_store (snd (snd small_held))) of Some row \<Rightarrow> bm_test (dr_have row) 0 | None \<Rightarrow> False) = True"
    by code_simp
  then obtain row where "store_find small_ex [5, 5, 5, 5] (sd_store (snd (snd small_held))) = Some row" "bm_test (dr_have row) 0"
    by (auto split: option.splits)
  note held = server_chunks_verify [OF small_env(1) plain_aead_ok small_env(2) small_opened small_held_run this]
  have "sd_uploads (snd (snd small_held)) = 0" by code_simp
  then show ?thesis using held by (simp add: small_ex_def)
qed

text \<open>A release that names a data twice takes its size off the counter twice: the other data is still there, and
  counts for nothing.\<close>

definition two_copies :: server_data_store where
  "two_copies = snd (open_replica small_ex other_descriptor 7 (snd (open_replica small_ex small_descriptor 7
     (small_server\<lparr>sd_quota := \<lparr>dq_max_data_size = 0, dq_max_storage_bytes = 100\<rparr>\<rparr>))))"

lemma duplicate_release_undercounts:
  "sd_used_bytes two_copies = 40 \<and> (case sd_release small_ex [[5, 5, 5, 5], [5, 5, 5, 5]] two_copies of (removed, sd) \<Rightarrow>
     removed = 1 \<and> sizes (sd_store sd) = [([6, 6, 6, 6], 20)] \<and> sd_used_bytes sd = 0)"
  by code_simp

end
