(* ===== verification/Actions.thy ===== *)
theory Actions
  imports Prelude
begin

text \<open>
  Code that changes a state and may throw: an action maps a state to a result and the state it left,
  also when it throws (what was done before the exception stays done). The combinators are the
  statements of the source: sequencing, reading, changing, a check that throws, a loop over a list.

  \<open>preserves I m\<close> says that an action leaves an invariant standing however it ends,
  \<open>triple P m Q R\<close> what holds after it, with and without an exception. The rules for the
  combinators are collected in \<open>pres_intros\<close>.
\<close>

section \<open>Combinators\<close>

type_synonym ('s, 'a) action = "'s \<Rightarrow> 'a result \<times> 's"

definition ret :: "'a \<Rightarrow> ('s, 'a) action" where
  "ret x s = (Inr x, s)"

definition raise :: "error \<Rightarrow> ('s, 'a) action" where
  "raise e s = (Inl e, s)"

definition bind_act :: "('s, 'a) action \<Rightarrow> ('a \<Rightarrow> ('s, 'b) action) \<Rightarrow> ('s, 'b) action" where
  "bind_act m f s = (case m s of (Inl e, s1) \<Rightarrow> (Inl e, s1) | (Inr x, s1) \<Rightarrow> f x s1)"

definition gets :: "('s \<Rightarrow> 'a) \<Rightarrow> ('s, 'a) action" where
  "gets f s = (Inr (f s), s)"

definition modify :: "('s \<Rightarrow> 's) \<Rightarrow> ('s, unit) action" where
  "modify f s = (Inr (), f s)"

definition lift_result :: "'a result \<Rightarrow> ('s, 'a) action" where
  "lift_result r s = (r, s)"

definition from_option :: "error \<Rightarrow> 'a option \<Rightarrow> ('s, 'a) action" where
  "from_option e x = (case x of None \<Rightarrow> raise e | Some y \<Rightarrow> ret y)"

definition when_act :: "bool \<Rightarrow> ('s, unit) action \<Rightarrow> ('s, unit) action" where
  "when_act b m = (if b then m else ret ())"

fun for_each :: "'a list \<Rightarrow> ('a \<Rightarrow> ('s, unit) action) \<Rightarrow> ('s, unit) action" where
  "for_each [] f = ret ()"
| "for_each (x # xs) f = bind_act (f x) (\<lambda>_. for_each xs f)"

text \<open>A try block with its handler; the handler sees the state the block left.\<close>

definition try_catch :: "('s, 'a) action \<Rightarrow> (error \<Rightarrow> ('s, 'a) action) \<Rightarrow> ('s, 'a) action" where
  "try_catch m h s = (case m s of (Inl e, s1) \<Rightarrow> h e s1 | (Inr x, s1) \<Rightarrow> (Inr x, s1))"

lemmas act_prims = ret_def raise_def gets_def modify_def lift_result_def

lemmas act_simps = act_prims bind_act_def

section \<open>What an action preserves\<close>

definition preserves :: "('s \<Rightarrow> bool) \<Rightarrow> ('s, 'a) action \<Rightarrow> bool" where
  "preserves I m = (\<forall>s. I s \<longrightarrow> I (snd (m s)))"

named_theorems pres_intros \<open>rules for what an action preserves, one for each combinator\<close>

lemma presI: "(\<And>s. I s \<Longrightarrow> I (snd (m s))) \<Longrightarrow> preserves I m"
  by (simp add: preserves_def)

lemma presD: "preserves I m \<Longrightarrow> I s \<Longrightarrow> I (snd (m s))"
  by (simp add: preserves_def)

lemma pres_ret [pres_intros]: "preserves I (ret x)"
  by (simp add: preserves_def ret_def)

lemma pres_raise [pres_intros]: "preserves I (raise e)"
  by (simp add: preserves_def raise_def)

lemma pres_gets [pres_intros]: "preserves I (gets f)"
  by (simp add: preserves_def gets_def)

lemma pres_lift [pres_intros]: "preserves I (lift_result r)"
  by (simp add: preserves_def lift_result_def)

lemma pres_from_option [pres_intros]: "preserves I (from_option e x)"
  by (cases x) (simp_all add: from_option_def pres_intros)

lemma pres_bind [pres_intros]: "preserves I m \<Longrightarrow> (\<And>x. preserves I (f x)) \<Longrightarrow> preserves I (bind_act m f)"
  by (fastforce simp: preserves_def bind_act_def split: prod.splits sum.splits)

lemma pres_when [pres_intros]: "(b \<Longrightarrow> preserves I m) \<Longrightarrow> preserves I (when_act b m)"
  by (simp add: when_act_def pres_intros)

lemma pres_if [pres_intros]: "(b \<Longrightarrow> preserves I m) \<Longrightarrow> (\<not> b \<Longrightarrow> preserves I n) \<Longrightarrow> preserves I (if b then m else n)"
  by simp

lemma pres_option [pres_intros]:
  "(x = None \<Longrightarrow> preserves I m) \<Longrightarrow> (\<And>y. x = Some y \<Longrightarrow> preserves I (f y)) \<Longrightarrow> preserves I (case x of None \<Rightarrow> m | Some y \<Rightarrow> f y)"
  by (cases x) simp_all

lemma pres_sum [pres_intros]:
  "(\<And>y. x = Inl y \<Longrightarrow> preserves I (f y)) \<Longrightarrow> (\<And>y. x = Inr y \<Longrightarrow> preserves I (g y)) \<Longrightarrow> preserves I (case x of Inl y \<Rightarrow> f y | Inr y \<Rightarrow> g y)"
  by (cases x) simp_all

lemma pres_prod [pres_intros]: "(\<And>a b. x = (a, b) \<Longrightarrow> preserves I (f a b)) \<Longrightarrow> preserves I (case x of (a, b) \<Rightarrow> f a b)"
  by (cases x) simp

lemma pres_Let [pres_intros]: "(\<And>x. x = t \<Longrightarrow> preserves I (f x)) \<Longrightarrow> preserves I (let x = t in f x)"
  by simp

lemma pres_try [pres_intros]: "preserves I m \<Longrightarrow> (\<And>e. preserves I (h e)) \<Longrightarrow> preserves I (try_catch m h)"
  by (fastforce simp: preserves_def try_catch_def split: prod.splits sum.splits)

lemma pres_modify: "(\<And>s. I s \<Longrightarrow> I (f s)) \<Longrightarrow> preserves I (modify f)"
  by (simp add: preserves_def modify_def)

lemma pres_for_each [pres_intros]: "(\<And>x. x \<in> set xs \<Longrightarrow> preserves I (f x)) \<Longrightarrow> preserves I (for_each xs f)"
  by (induction xs) (simp_all add: pres_intros)

text \<open>An action that reads the state before it goes on.\<close>

lemma pres_gets_bind: "(\<And>s. I s \<Longrightarrow> I (snd (f (g s) s))) \<Longrightarrow> preserves I (bind_act (gets g) f)"
  by (simp add: preserves_def bind_act_def gets_def)

lemma bind_gets: "bind_act (gets g) f s = f (g s) s"
  by (simp add: bind_act_def gets_def)

lemma bind_modify: "bind_act (modify g) f s = f () (g s)"
  by (simp add: bind_act_def modify_def)

lemma bind_ret: "bind_act (ret x) f s = f x s"
  by (simp add: bind_act_def ret_def)

lemma bind_lift: "bind_act (lift_result (Inr x)) f s = f x s" "bind_act (lift_result (Inl e)) f s = (Inl e, s)"
  by (simp_all add: bind_act_def lift_result_def)

section \<open>Before and after\<close>

text \<open>
  \<open>triple P m Q R\<close>: started where \<open>P\<close> holds, the action ends with a value and a state of \<open>Q\<close>, or
  throws in a state of \<open>R\<close>.
\<close>

definition triple :: "('s \<Rightarrow> bool) \<Rightarrow> ('s, 'a) action \<Rightarrow> ('a \<Rightarrow> 's \<Rightarrow> bool) \<Rightarrow> ('s \<Rightarrow> bool) \<Rightarrow> bool" where
  "triple P m Q R = (\<forall>s. P s \<longrightarrow> (case m s of (Inr x, s') \<Rightarrow> Q x s' | (Inl e, s') \<Rightarrow> R s'))"

lemma bind_act_Inr:
  "bind_act m f s = (Inr y, s') \<longleftrightarrow> (\<exists>x s1. m s = (Inr x, s1) \<and> f x s1 = (Inr y, s'))"
  by (auto simp: bind_act_def split: prod.splits sum.splits)

lemma tripleI: "(\<And>s x s'. P s \<Longrightarrow> m s = (Inr x, s') \<Longrightarrow> Q x s') \<Longrightarrow> (\<And>s e s'. P s \<Longrightarrow> m s = (Inl e, s') \<Longrightarrow> R s') \<Longrightarrow> triple P m Q R"
  by (auto simp: triple_def split: prod.splits sum.splits)

lemma triple_bind: "triple P m S R \<Longrightarrow> (\<And>x. triple (S x) (f x) Q R) \<Longrightarrow> triple P (bind_act m f) Q R"
  by (fastforce simp: triple_def bind_act_def split: prod.splits sum.splits)

lemma triple_gets: "(\<And>x. triple (\<lambda>s. P s \<and> x = g s) (f x) Q R) \<Longrightarrow> triple P (bind_act (gets g) f) Q R"
  by (simp add: triple_def bind_act_def gets_def)

lemma triple_ret: "(\<And>s. P s \<Longrightarrow> Q x s) \<Longrightarrow> triple P (ret x) Q R"
  by (simp add: triple_def ret_def)

lemma triple_modify: "(\<And>s. P s \<Longrightarrow> Q () (f s)) \<Longrightarrow> triple P (modify f) Q R"
  by (simp add: triple_def modify_def)

lemma triple_pre: "triple P' m Q R \<Longrightarrow> (\<And>s. P s \<Longrightarrow> P' s) \<Longrightarrow> triple P m Q R"
  by (simp add: triple_def)

lemma triple_post: "triple P m Q' R \<Longrightarrow> (\<And>x s. Q' x s \<Longrightarrow> Q x s) \<Longrightarrow> triple P m Q R"
  by (fastforce simp: triple_def split: prod.splits sum.splits)

lemma triple_pres: "triple I m (\<lambda>_. I) I \<longleftrightarrow> preserves I m"
proof -
  have "(case y of (Inr x, s') \<Rightarrow> I s' | (Inl e, s') \<Rightarrow> I s') = I (snd y)" for y :: "'b result \<times> 'a"
    by (cases y; cases "fst y") auto
  then show ?thesis by (simp add: triple_def preserves_def)
qed

lemma triple_when: "triple (\<lambda>s. P s \<and> b) m (\<lambda>_. Q) R \<Longrightarrow> (\<And>s. P s \<Longrightarrow> \<not> b \<Longrightarrow> Q s) \<Longrightarrow> triple P (when_act b m) (\<lambda>_. Q) R"
  by (simp add: triple_def when_act_def ret_def)

end
