(* ===== verification/Comm.thy ===== *)
theory Comm
  imports Records
begin

text \<open>
  The connection of one storage (comm/comm.cpp over the requests of comm/net_connection_impl.hpp):
  requests leave as packets with a fresh call number, answers come back as events for the engine.

  What leaves and what is emitted are lists in order. The call number is shared by the storages of a
  connection; \<open>other_requests\<close> is what the others take of it. The transfers behind
  \<open>upload_data\<close> and \<open>fetch_data\<close> are started here and report their end through
  \<open>on_upload_done\<close> and \<open>on_download_done\<close>. The callback of a ticket request is a
  number, its call an entry of \<open>cm_granted\<close>. An error that may be absent is an option.
\<close>

section \<open>Requests, answers and events\<close>

type_synonym request_handle = u32

datatype c2s_packet =
    Request_sequence_number request_handle storage_id u32 u32 u32
  | Request_records request_handle storage_id sequence_number sequence_number
  | Request_data_ticket request_handle storage_id data_id u32
  | Request_commit request_handle storage_id chain_block

record sequence_info =
  si_sequence :: sequence_number
  si_server_id :: public_key_id
  si_limits :: storage_limits
  si_data_endpoints :: "data_endpoint list"

record record_response =
  re_requested_max :: sequence_number
  re_server_max :: sequence_number
  re_data :: "chain_block list result"

record commit_response =
  co_server_max :: sequence_number
  co_data :: "chain_block result"
  co_envelope :: "block_envelope option"

record data_grant =
  dg_ticket :: data_ticket
  dg_holders :: "data_endpoint list"

datatype comm_event =
    Ev_connected
  | Ev_disconnected "error option"
  | Ev_sequence_number request_handle "sequence_info result"
  | Ev_records request_handle record_response
  | Ev_downloaded request_handle "error option"
  | Ev_data_available data_id bool
  | Ev_equivocation storage_id equivocation_proof
  | Ev_commit request_handle commit_response
  | Ev_uploaded request_handle "error option"
  | Ev_record chain_block "block_envelope option"

datatype transfer_start = Start_upload data_id | Start_fetch data_id

record comm =
  cm_sid :: storage_id
  cm_expected_modes :: "storage_modes option"
  cm_remote_key :: "public_key_id option"
  cm_call_id :: request_handle
  cm_connected :: bool
  cm_transfers :: bool
  cm_uploads :: "(data_id \<times> request_handle) list"
  cm_downloads :: "(data_id \<times> request_handle) list"
  cm_ticket_requests :: "(request_handle \<times> nat) list"
  cm_granted :: "(nat \<times> data_grant result) list"
  cm_started :: "transfer_start list"
  cm_sent :: "c2s_packet list"
  cm_emitted :: "comm_event list"

definition emit :: "comm_event \<Rightarrow> comm \<Rightarrow> comm" where
  "emit e c = c\<lparr>cm_emitted := cm_emitted c @ [e]\<rparr>"

definition next_call :: "comm \<Rightarrow> request_handle \<times> comm" where
  "next_call c = (let h = cm_call_id c + 1 in (h, c\<lparr>cm_call_id := h\<rparr>))"

definition other_requests :: "u32 \<Rightarrow> comm \<Rightarrow> comm" where
  "other_requests n c = c\<lparr>cm_call_id := cm_call_id c + n\<rparr>"

definition send_packet :: "c2s_packet \<Rightarrow> comm \<Rightarrow> comm" where
  "send_packet p c = c\<lparr>cm_sent := cm_sent c @ [p]\<rparr>"

section \<open>Requests to the record server\<close>

definition fetch_sequence_number :: "comm \<Rightarrow> request_handle \<times> comm" where
  "fetch_sequence_number c =
     (let (h, c1) = next_call c; w = to_wire (cm_expected_modes c)
      in (h, send_packet (Request_sequence_number h (cm_sid c) (wm_mode w) (wm_amode w) (wm_repl w)) c1))"

definition fetch_records :: "sequence_number \<Rightarrow> sequence_number \<Rightarrow> comm \<Rightarrow> request_handle \<times> comm" where
  "fetch_records start end' c =
     (let (h, c1) = next_call c in (h, send_packet (Request_records h (cm_sid c) start end') c1))"

definition comm_commit_record :: "chain_block \<Rightarrow> comm \<Rightarrow> request_handle \<times> comm" where
  "comm_commit_record block c =
     (let (h, c1) = next_call c in (h, send_packet (Request_commit h (cm_sid c) block) c1))"

section \<open>Transfers\<close>

text \<open>The running transfer of a data, or a new one; the Boolean says which.\<close>

definition start_transfer ::
  "data_id \<Rightarrow> (data_id \<times> request_handle) list \<times> comm
    \<Rightarrow> request_handle \<times> bool \<times> (data_id \<times> request_handle) list \<times> comm" where
  "start_transfer i s =
     (let (running, c) = s
      in case map_of running i of
          Some h \<Rightarrow> (h, False, running, c)
        | None \<Rightarrow> (let (h, c1) = next_call c in (h, True, map_put i h running, c1)))"

definition end_transfer :: "data_id \<Rightarrow> (data_id \<times> request_handle) list \<Rightarrow> request_handle option \<times> (data_id \<times> request_handle) list" where
  "end_transfer i running =
     (case map_of running i of Some h \<Rightarrow> (Some h, map_del i running) | None \<Rightarrow> (None, running))"

definition on_upload_done :: "data_id \<Rightarrow> error option \<Rightarrow> comm \<Rightarrow> comm" where
  "on_upload_done i err c =
     (case end_transfer i (cm_uploads c) of
        (Some h, running) \<Rightarrow> emit (Ev_uploaded h err) (c\<lparr>cm_uploads := running\<rparr>)
      | (None, _) \<Rightarrow> c)"

definition on_download_done :: "data_id \<Rightarrow> error option \<Rightarrow> comm \<Rightarrow> comm" where
  "on_download_done i err c =
     (case end_transfer i (cm_downloads c) of
        (Some h, running) \<Rightarrow> emit (Ev_downloaded h err) (c\<lparr>cm_downloads := running\<rparr>)
      | (None, _) \<Rightarrow> c)"

definition upload_data :: "data_id \<Rightarrow> comm \<Rightarrow> request_handle \<times> comm" where
  "upload_data i c =
     (let (h, is_new, running, c1) = start_transfer i (cm_uploads c, c);
          c2 = c1\<lparr>cm_uploads := running\<rparr>
      in (h, if is_new \<and> cm_transfers c then c2\<lparr>cm_started := cm_started c2 @ [Start_upload i]\<rparr>
             else if is_new then on_upload_done i (Some (General general_not_supported)) c2
             else c2))"

definition fetch_data :: "data_id \<Rightarrow> comm \<Rightarrow> request_handle \<times> comm" where
  "fetch_data i c =
     (let (h, is_new, running, c1) = start_transfer i (cm_downloads c, c);
          c2 = c1\<lparr>cm_downloads := running\<rparr>
      in (h, if is_new \<and> cm_transfers c then c2\<lparr>cm_started := cm_started c2 @ [Start_fetch i]\<rparr>
             else if is_new then on_download_done i (Some (General general_not_supported)) c2
             else c2))"

section \<open>Tickets\<close>

definition request_ticket :: "data_descriptor \<Rightarrow> data_right \<Rightarrow> nat \<Rightarrow> comm \<Rightarrow> comm" where
  "request_ticket d right cb c =
     (if \<not> cm_connected c
      then c\<lparr>cm_granted := cm_granted c @ [(cb, Inl (General general_invalid_state))]\<rparr>
      else let (h, c1) = next_call c;
               c2 = send_packet (Request_data_ticket h (cm_sid c) (manifest_digest d) (data_right_value right)) c1
           in c2\<lparr>cm_ticket_requests := map_put h cb (cm_ticket_requests c2)\<rparr>)"

definition handle_data_ticket :: "request_handle \<Rightarrow> data_grant result \<Rightarrow> comm \<Rightarrow> comm" where
  "handle_data_ticket cid answer c =
     (case map_of (cm_ticket_requests c) cid of
        Some cb \<Rightarrow> c\<lparr>cm_ticket_requests := map_del cid (cm_ticket_requests c), cm_granted := cm_granted c @ [(cb, answer)]\<rparr>
      | None \<Rightarrow> c)"

definition fail_ticket_requests :: "error \<Rightarrow> comm \<Rightarrow> comm" where
  "fail_ticket_requests err c =
     c\<lparr>cm_ticket_requests := [], cm_granted := cm_granted c @ map (\<lambda>(h, cb). (cb, Inl err)) (cm_ticket_requests c)\<rparr>"

section \<open>The connection and its packets\<close>

definition comm_on_connected :: "comm \<Rightarrow> comm" where
  "comm_on_connected c = emit Ev_connected (c\<lparr>cm_connected := True\<rparr>)"

definition comm_on_disconnected :: "error option \<Rightarrow> comm \<Rightarrow> comm" where
  "comm_on_disconnected err c =
     emit (Ev_disconnected err) (fail_ticket_requests (value_or err (General general_invalid_state))
       (c\<lparr>cm_connected := False, cm_uploads := [], cm_downloads := []\<rparr>))"

text \<open>
  The answer to the attach. A replica that is still catching up is left: the connection is closed,
  which disconnects the storage.
\<close>

definition handle_sequence_number ::
  "request_handle \<Rightarrow> error option \<Rightarrow> sequence_number \<Rightarrow> wire_modes \<Rightarrow> data_endpoint list \<Rightarrow> comm \<Rightarrow> comm" where
  "handle_sequence_number cid err sequence modes endpoints c =
     (let arg = (case err of
            Some e \<Rightarrow> Inl e
          | None \<Rightarrow> Inr \<lparr>si_sequence = sequence, si_server_id = value_or (cm_remote_key c) [], si_limits = wire_limits modes,
              si_data_endpoints = endpoints\<rparr>);
          c1 = emit (Ev_sequence_number cid arg) c
      in if err = Some (Protocol storage_syncing) then comm_on_disconnected err c1 else c1)"

definition handle_records ::
  "request_handle \<Rightarrow> error option \<Rightarrow> chain_block list \<Rightarrow> sequence_number \<Rightarrow> sequence_number \<Rightarrow> comm \<Rightarrow> comm" where
  "handle_records cid err blocks requested_max server_max c =
     emit (Ev_records cid \<lparr>re_requested_max = requested_max, re_server_max = server_max,
       re_data = (case err of Some e \<Rightarrow> Inl e | None \<Rightarrow> Inr blocks)\<rparr>) c"

definition handle_commit ::
  "request_handle \<Rightarrow> error option \<Rightarrow> chain_block option \<Rightarrow> block_envelope option \<Rightarrow> sequence_number \<Rightarrow> comm \<Rightarrow> comm" where
  "handle_commit cid err block envelope server_max c =
     emit (Ev_commit cid \<lparr>co_server_max = server_max,
       co_data = (case err of
           Some e \<Rightarrow> Inl e
         | None \<Rightarrow> (case block of Some b \<Rightarrow> Inr b | None \<Rightarrow> Inl (General general_unknown_error))),
       co_envelope = envelope\<rparr>) c"

definition handle_notify_data :: "data_id \<Rightarrow> bool \<Rightarrow> comm \<Rightarrow> comm" where
  "handle_notify_data i complete c = emit (Ev_data_available i complete) c"

definition handle_notify_equivocation :: "storage_id \<Rightarrow> equivocation_proof \<Rightarrow> comm \<Rightarrow> comm" where
  "handle_notify_equivocation sid p c = emit (Ev_equivocation sid p) c"

definition handle_notify_record :: "chain_block \<Rightarrow> block_envelope option \<Rightarrow> comm \<Rightarrow> comm" where
  "handle_notify_record block envelope c = emit (Ev_record block envelope) c"

section \<open>What the engine relies on\<close>

text \<open>The commits that left, in order.\<close>

definition sent_commits :: "comm \<Rightarrow> chain_block list" where
  "sent_commits c = List.map_filter (\<lambda>p. case p of Request_commit _ _ b \<Rightarrow> Some b | _ \<Rightarrow> None) (cm_sent c)"

lemma map_filter_append: "List.map_filter f (xs @ ys) = List.map_filter f xs @ List.map_filter f ys"
  by (simp add: List.map_filter_def)

lemma sent_commits_requests [simp]:
  "sent_commits (snd (fetch_sequence_number c)) = sent_commits c"
  "sent_commits (snd (fetch_records a b c)) = sent_commits c"
  "sent_commits (snd (comm_commit_record block c)) = sent_commits c @ [block]"
  by (simp_all add: sent_commits_def fetch_sequence_number_def fetch_records_def comm_commit_record_def next_call_def
      send_packet_def map_filter_append List.map_filter_simps Let_def)

lemma sent_commits_transfers [simp]:
  "sent_commits (snd (upload_data i c)) = sent_commits c" "sent_commits (snd (fetch_data i c)) = sent_commits c"
  by (simp_all add: sent_commits_def upload_data_def fetch_data_def start_transfer_def next_call_def on_upload_done_def
      on_download_done_def end_transfer_def emit_def Let_def split: option.splits prod.splits)

end
