(* ===== verification/Data_Sync.thy ===== *)
theory Data_Sync
  imports Comm Data_Store History_Verifier
begin

text \<open>
  The record data half of the engine (engine/data_sync.cpp): which uploads and downloads the storage
  owes once its records moved, what their answers do, the adoption of held content, the retention
  policy and the sweep of data no record names.

  The state is \<open>sync_host\<close>, which the engine extends: the connection, the record storage with the
  data table in it, the files of the data store, the keys and what was reported to the application.
  Members with random octets take them from \<open>ev_random\<close> in the order they are drawn.
\<close>

section \<open>State\<close>

datatype conflict_policy = rebase_on_top | ask_application

record sync_engine_config =
  ec_mode :: sync_mode
  ec_auth_mode :: auth_mode
  ec_conflicts :: conflict_policy
  ec_verification :: history_verification
  ec_trusted_anchor :: chain_block_id
  ec_replication :: replication_mode
  ec_auto_fetch_max_size :: u64

datatype engine_event =
    Object_data_changed nat
  | User_changed nat
  | Object_conflict nat nat
  | Fork_suspected nat chain_block
  | Equivocation_shown equivocation_proof
  | Anchor_mismatch chain_block
  | Record_rejected nat error
  | Data_state_changed data_id record_data_state
  | Data_transfer_failed data_id error

record data_sync =
  dy_uploads :: "(request_handle \<times> data_id) list"
  dy_failed_uploads :: "data_id set"
  dy_downloads :: "(request_handle \<times> data_id) list"
  dy_failed_downloads :: "data_id set"

definition no_data_sync :: data_sync where
  "no_data_sync = \<lparr>dy_uploads = [], dy_failed_uploads = {}, dy_downloads = [], dy_failed_downloads = {}\<rparr>"

record sync_host =
  sh_comm :: comm
  sh_records :: record_storage
  sh_keys :: key_storage
  sh_config :: sync_engine_config
  sh_files :: chunk_files
  sh_drops :: u64
  sh_data :: data_sync
  sh_output :: bool
  sh_events :: "engine_event list"
  sh_draws :: nat

text \<open>
  What the client does not decide itself: the codecs and ciphers, the keys of others, its own signing
  key, the random octets, the clock, whether a file can be read, and which exceptions of the base
  library are values of the class \<open>error\<close>.
\<close>

record engine_env =
  ev_cx :: client_codec
  ev_ae :: aead
  ev_public_keys :: key_access
  ev_my_key :: "private_key result"
  ev_random :: "nat \<Rightarrow> octets"
  ev_now :: int
  ev_io :: bool
  ev_base_error :: "error \<Rightarrow> bool"

abbreviation ev_ex :: "engine_env \<Rightarrow> externals" where
  "ev_ex env \<equiv> cx_ex (ev_cx env)"

definition host_store :: "'a sync_host_scheme \<Rightarrow> data_store" where
  "host_store h = \<lparr>ds_table = rs_data (sh_records h), ds_files = sh_files h, ds_drops = sh_drops h\<rparr>"

definition put_store :: "data_store \<Rightarrow> 'a sync_host_scheme \<Rightarrow> 'a sync_host_scheme" where
  "put_store ds h = h\<lparr>sh_records := (sh_records h)\<lparr>rs_data := ds_table ds\<rparr>, sh_files := ds_files ds, sh_drops := ds_drops ds\<rparr>"

definition notify :: "engine_event \<Rightarrow> 'a sync_host_scheme \<Rightarrow> 'a sync_host_scheme" where
  "notify e h = (if sh_output h then h\<lparr>sh_events := sh_events h @ [e]\<rparr> else h)"

definition draw :: "engine_env \<Rightarrow> 'a sync_host_scheme \<Rightarrow> octets \<times> 'a sync_host_scheme" where
  "draw env h = (ev_random env (sh_draws h), h\<lparr>sh_draws := Suc (sh_draws h)\<rparr>)"

abbreviation host_find :: "engine_env \<Rightarrow> data_id \<Rightarrow> 'a sync_host_scheme \<Rightarrow> data_state_row option" where
  "host_find env i h \<equiv> dt_find (ex_tag_size (ev_ex env)) i (rs_data (sh_records h))"

abbreviation change_data_sync :: "(data_sync \<Rightarrow> data_sync) \<Rightarrow> 'a sync_host_scheme \<Rightarrow> 'a sync_host_scheme" where
  "change_data_sync f h \<equiv> h\<lparr>sh_data := f (sh_data h)\<rparr>"

definition in_transfer :: "record_data_state \<Rightarrow> bool" where
  "in_transfer s = (s = ds_upload_pending \<or> s = ds_download_pending \<or> s = ds_remote_not_complete)"

section \<open>Connection\<close>

definition data_on_connected :: "'a sync_host_scheme \<Rightarrow> 'a sync_host_scheme" where
  "data_on_connected = change_data_sync (\<lambda>_. no_data_sync)"

definition data_on_disconnected :: "'a sync_host_scheme \<Rightarrow> 'a sync_host_scheme" where
  "data_on_disconnected = change_data_sync (\<lambda>d. d\<lparr>dy_uploads := [], dy_downloads := []\<rparr>)"

section \<open>Asking for transfers\<close>

definition data_set_state :: "engine_env \<Rightarrow> data_id \<Rightarrow> record_data_state \<Rightarrow> 'a sync_host_scheme \<Rightarrow> 'a sync_host_scheme" where
  "data_set_state env i state h =
     notify (Data_state_changed i state) (put_store (store_set_state (ev_ex env) i state (host_store h)) h)"

definition upload_one :: "data_id \<Rightarrow> 'a sync_host_scheme \<Rightarrow> 'a sync_host_scheme" where
  "upload_one i h =
     (let d = sh_data h
      in if i \<notin> snd ` set (dy_uploads d) \<and> i \<notin> dy_failed_uploads d
         then let (hd, c) = upload_data i (sh_comm h)
              in h\<lparr>sh_comm := c, sh_data := d\<lparr>dy_uploads := map_put hd i (dy_uploads d)\<rparr>\<rparr>
         else h)"

definition download_one :: "data_id \<Rightarrow> 'a sync_host_scheme \<Rightarrow> 'a sync_host_scheme" where
  "download_one i h =
     (let d = sh_data h
      in if i \<notin> snd ` set (dy_downloads d) \<and> i \<notin> dy_failed_downloads d
         then let (hd, c) = fetch_data i (sh_comm h)
              in h\<lparr>sh_comm := c, sh_data := d\<lparr>dy_downloads := map_put hd i (dy_downloads d)\<rparr>\<rparr>
         else h)"

definition request_uploads :: "'a sync_host_scheme \<Rightarrow> 'a sync_host_scheme" where
  "request_uploads h = fold upload_one (confirmed_in_state (sh_records h) ds_upload_pending) h"

definition request_downloads :: "'a sync_host_scheme \<Rightarrow> 'a sync_host_scheme" where
  "request_downloads h = fold download_one (confirmed_in_state (sh_records h) ds_download_pending) h"

definition auto_fetch_one :: "engine_env \<Rightarrow> data_id \<Rightarrow> 'a sync_host_scheme \<Rightarrow> 'a sync_host_scheme" where
  "auto_fetch_one env i h =
     (case host_find env i h of
        Some row \<Rightarrow>
          (if enc_size (dr_descriptor row) \<le> ec_auto_fetch_max_size (sh_config h) \<and> i \<notin> dy_failed_downloads (sh_data h)
           then data_set_state env i ds_download_pending h else h)
      | None \<Rightarrow> h)"

definition mark_auto_fetch :: "engine_env \<Rightarrow> 'a sync_host_scheme \<Rightarrow> 'a sync_host_scheme" where
  "mark_auto_fetch env h =
     (if ec_auto_fetch_max_size (sh_config h) \<noteq> 0
      then fold (auto_fetch_one env) (confirmed_in_state (sh_records h) ds_deferred) h else h)"

definition data_request_transfers :: "engine_env \<Rightarrow> 'a sync_host_scheme \<Rightarrow> 'a sync_host_scheme" where
  "data_request_transfers env h = request_downloads (mark_auto_fetch env (request_uploads h))"

section \<open>Answers\<close>

definition mark_uploaded :: "engine_env \<Rightarrow> data_id \<Rightarrow> 'a sync_host_scheme \<Rightarrow> 'a sync_host_scheme" where
  "mark_uploaded env i h =
     (case host_find env i h of
        Some row \<Rightarrow> (if dr_state row = ds_upload_pending then data_set_state env i ds_in_sync h else h)
      | None \<Rightarrow> h)"

definition on_data_pruned :: "engine_env \<Rightarrow> data_id \<Rightarrow> error \<Rightarrow> 'a sync_host_scheme \<Rightarrow> 'a sync_host_scheme" where
  "on_data_pruned env i err h =
     notify (Data_transfer_failed i err)
       (case host_find env i h of
          Some row \<Rightarrow>
            (if dr_state row \<noteq> ds_in_sync
             then notify (Data_state_changed i ds_pruned) (put_store (snd (store_prune (ev_ex env) i (host_store h))) h)
             else h)
        | None \<Rightarrow> h)"

definition on_upload_answer :: "engine_env \<Rightarrow> request_handle \<Rightarrow> error option \<Rightarrow> 'a sync_host_scheme \<Rightarrow> 'a sync_host_scheme" where
  "on_upload_answer env handle err h =
     (case map_of (dy_uploads (sh_data h)) handle of
        None \<Rightarrow> h
      | Some i \<Rightarrow>
          (let h1 = change_data_sync (\<lambda>d. d\<lparr>dy_uploads := map_del handle (dy_uploads d)\<rparr>) h
           in case err of
               None \<Rightarrow> mark_uploaded env i h1
             | Some e \<Rightarrow>
                 (if e = Protocol data_pruned then on_data_pruned env i e h1
                  else notify (Data_transfer_failed i e)
                    (change_data_sync (\<lambda>d. d\<lparr>dy_failed_uploads := insert i (dy_failed_uploads d)\<rparr>) h1))))"

definition on_download_failed :: "engine_env \<Rightarrow> data_id \<Rightarrow> error option \<Rightarrow> 'a sync_host_scheme \<Rightarrow> 'a sync_host_scheme" where
  "on_download_failed env i err h =
     (let refused = change_data_sync (\<lambda>d. d\<lparr>dy_failed_downloads := insert i (dy_failed_downloads d)\<rparr>)
      in if err = Some (Protocol unknown_data)
         then notify (Data_transfer_failed i (Protocol unknown_data)) (refused (data_set_state env i ds_deferred h))
         else notify (Data_transfer_failed i (value_or err (General general_invalid_state))) (refused h))"

definition on_download_answer :: "engine_env \<Rightarrow> request_handle \<Rightarrow> error option \<Rightarrow> 'a sync_host_scheme \<Rightarrow> 'a sync_host_scheme" where
  "on_download_answer env handle err h =
     (case map_of (dy_downloads (sh_data h)) handle of
        None \<Rightarrow> h
      | Some i \<Rightarrow>
          (let h1 = change_data_sync (\<lambda>d. d\<lparr>dy_downloads := map_del handle (dy_downloads d)\<rparr>) h;
               held = (case host_find env i h1 of Some row \<Rightarrow> dr_state row = ds_in_sync | None \<Rightarrow> False)
           in if err = None \<and> held then notify (Data_state_changed i ds_in_sync) h1
              else if err = Some (Protocol data_pruned) then on_data_pruned env i (Protocol data_pruned) h1
              else if err = Some (Protocol data_not_held) then data_set_state env i ds_remote_not_complete h1
              else on_download_failed env i err h1))"

definition forget_failed_download :: "data_id \<Rightarrow> 'a sync_host_scheme \<Rightarrow> 'a sync_host_scheme" where
  "forget_failed_download i = change_data_sync (\<lambda>d. d\<lparr>dy_failed_downloads := dy_failed_downloads d - {i}\<rparr>)"

definition on_data_announced :: "engine_env \<Rightarrow> data_id \<Rightarrow> 'a sync_host_scheme \<Rightarrow> 'a sync_host_scheme" where
  "on_data_announced env i h =
     request_downloads (forget_failed_download i
       (case host_find env i h of
          Some row \<Rightarrow> (if dr_state row = ds_remote_not_complete then data_set_state env i ds_download_pending h else h)
        | None \<Rightarrow> h))"

definition want_data :: "engine_env \<Rightarrow> data_id \<Rightarrow> 'a sync_host_scheme \<Rightarrow> bool \<times> 'a sync_host_scheme" where
  "want_data env i h =
     (let state = map_option dr_state (host_find env i h);
          fetchable = (state \<in> {Some ds_deferred, Some ds_removed, Some ds_remote_not_complete, Some ds_pruned})
      in (fetchable \<or> state = Some ds_download_pending,
          forget_failed_download i (if fetchable then data_set_state env i ds_download_pending h else h)))"

section \<open>Writing, pruning and the sweep\<close>

text \<open>The source is its size and what it reads; the writer is left to be finished.\<close>

definition data_stream ::
  "engine_env \<Rightarrow> encryption_key \<Rightarrow> u32 \<Rightarrow> (u64 \<Rightarrow> u64 \<Rightarrow> octets) \<Rightarrow> u64 \<Rightarrow> 'a sync_host_scheme \<Rightarrow> data_writer result \<times> 'a sync_host_scheme" where
  "data_stream env key chunk_size rd total_size h =
     (let (stage, h1) = draw env h; (nonce, h2) = draw env h1
      in case store_create (ev_ae env) stage nonce key chunk_size (host_store h2) of
          (Inl e, ds) \<Rightarrow> (Inl e, put_store ds h2)
        | (Inr w, ds) \<Rightarrow>
            (case copy_record_data (ev_ex env) (ev_ae env) rd total_size (w, ds) of
               (Some e, w1, ds1) \<Rightarrow> (Inl e, put_store (writer_drop w1 ds1) h2)
             | (None, w1, ds1) \<Rightarrow> (Inr w1, put_store ds1 h2)))"

definition prune_one :: "engine_env \<Rightarrow> data_id \<Rightarrow> 'a sync_host_scheme \<Rightarrow> 'a sync_host_scheme" where
  "prune_one env i h =
     (case host_find env i h of
        Some row \<Rightarrow>
          (if in_transfer (dr_state row) then h
           else case store_prune (ev_ex env) i (host_store h) of
               (True, ds) \<Rightarrow> notify (Data_state_changed i ds_pruned) (put_store ds h)
             | (False, ds) \<Rightarrow> put_store ds h)
      | None \<Rightarrow> h)"

definition prune_superseded :: "engine_env \<Rightarrow> sequence_number \<Rightarrow> u32 \<Rightarrow> 'a sync_host_scheme \<Rightarrow> 'a sync_host_scheme" where
  "prune_superseded env anchor kept h =
     fold (prune_one env) (superseded_data_below (ex_tag_size (ev_ex env)) anchor kept (sh_records h)) h"

definition sweep :: "engine_env \<Rightarrow> 'a sync_host_scheme \<Rightarrow> 'a sync_host_scheme" where
  "sweep env h = put_store (snd (store_remove (ev_ex env) (unreferenced (sh_records h)) (host_store h))) h"

section \<open>Reading and adopting\<close>

type_synonym opened_change = "plain_single_change_data \<times> data_change_header"

record adoption =
  ad_source :: "stored_record_data option"
  ad_keys :: "encryption_key list"
  ad_wanted :: data_descriptor
  ad_header :: data_header

definition host_open ::
  "engine_env \<Rightarrow> encryption_key list \<Rightarrow> data_descriptor \<Rightarrow> data_header \<Rightarrow> 'a sync_host_scheme
    \<Rightarrow> stored_record_data option result \<times> 'a sync_host_scheme" where
  "host_open env keys d info h =
     (case store_open (ev_ex env) (ev_ae env) keys d info (host_store h) of
        Inl e \<Rightarrow> (Inl e, h)
      | Inr (handle, ds) \<Rightarrow> (Inr handle, put_store ds h))"

definition open_change_data ::
  "engine_env \<Rightarrow> opened_change \<Rightarrow> 'a sync_host_scheme \<Rightarrow> stored_record_data option result \<times> 'a sync_host_scheme" where
  "open_change_data env c h =
     (case (pc_data (fst c), dch_data (snd c)) of
        (Some d, Some info) \<Rightarrow>
          (case find_all_keys (cx_kc (ev_cx env)) (key_seq info) (sh_keys h) of
             Inl e \<Rightarrow> (Inl e, h)
           | Inr keys \<Rightarrow> (if keys = [] then (Inr None, h) else host_open env keys d info h))
      | _ \<Rightarrow> (Inr None, h))"

definition plan_adoption ::
  "engine_env \<Rightarrow> opened_change option \<Rightarrow> 'a sync_host_scheme \<Rightarrow> adoption option result \<times> 'a sync_host_scheme" where
  "plan_adoption env read h =
     (case read of
        None \<Rightarrow> (Inr None, h)
      | Some c \<Rightarrow>
          (case (pc_data (fst c), dch_data (snd c)) of
             (Some wanted, Some info) \<Rightarrow>
               (let held = (case host_find env (manifest_digest wanted) h of Some row \<Rightarrow> bm_complete (dr_have row) | None \<Rightarrow> False)
                in case (if held then None else find_content (ev_ex env) (content_digest info) (manifest_digest wanted) (host_store h)) of
                    None \<Rightarrow> (Inr None, h)
                  | Some content \<Rightarrow>
                      (case find_all_keys (cx_kc (ev_cx env)) (key_seq (hc_header content)) (sh_keys h) of
                         Inl e \<Rightarrow> (Inl e, h)
                       | Inr source_keys \<Rightarrow>
                           (if source_keys = [] then (Inr None, h)
                            else case host_open env source_keys (hc_descriptor content) (hc_header content) h of
                                (Inl e, h1) \<Rightarrow> (Inl e, h1)
                              | (Inr source, h1) \<Rightarrow>
                                  (case find_all_keys (cx_kc (ev_cx env)) (key_seq info) (sh_keys h1) of
                                     Inl e \<Rightarrow> (Inl e, h1)
                                   | Inr keys \<Rightarrow>
                                       (Inr (Some \<lparr>ad_source = source, ad_keys = keys, ad_wanted = wanted, ad_header = info\<rparr>), h1)))))
           | _ \<Rightarrow> (Inr None, h)))"

text \<open>The keys are tried in order until one rebuilds the data; an exception ends the attempt.\<close>

fun adopt_with ::
  "engine_env \<Rightarrow> data_descriptor \<Rightarrow> data_header \<Rightarrow> encryption_key list \<Rightarrow> stored_record_data option \<Rightarrow> 'a sync_host_scheme
    \<Rightarrow> bool \<times> 'a sync_host_scheme" where
  "adopt_with env wanted header [] source h = (False, h)"
| "adopt_with env wanted header (key # keys) source h =
     (case source of
        None \<Rightarrow> (False, h)
      | Some s \<Rightarrow>
          (let (stage, h1) = draw env h
           in case adopt_content (ev_ex env) (ev_ae env) (ev_io env) stage s key wanted header (host_store h1) of
               (Inl e, s1, ds) \<Rightarrow> (False, put_store ds h1)
             | (Inr True, s1, ds) \<Rightarrow> (True, put_store ds h1)
             | (Inr False, s1, ds) \<Rightarrow> adopt_with env wanted header keys (Some s1) (put_store ds h1)))"

definition adopt :: "engine_env \<Rightarrow> adoption \<Rightarrow> 'a sync_host_scheme \<Rightarrow> bool \<times> 'a sync_host_scheme" where
  "adopt env plan h = adopt_with env (ad_wanted plan) (ad_header plan) (ad_keys plan) (ad_source plan) h"

definition fetch_change_data ::
  "engine_env \<Rightarrow> opened_change option \<Rightarrow> 'a sync_host_scheme \<Rightarrow> stored_record_data option result \<times> 'a sync_host_scheme" where
  "fetch_change_data env read h =
     (case read of
        None \<Rightarrow> (Inr None, h)
      | Some c \<Rightarrow>
          (case open_change_data env c h of
             (Inr (Some handle), h1) \<Rightarrow>
               (let (wanted, h2) = want_data env (sd_id handle) h1
                in (Inr (Some handle), if wanted then request_downloads h2 else h2))
           | r \<Rightarrow> r))"

end
