(* ===== verification/Sync_Engine.thy ===== *)
theory Sync_Engine
  imports Actions Data_Sync Rebase_Policy
begin

text \<open>
  The client engine (engine/sync_engine.cpp): it creates records for local changes, commits them,
  follows the server's chain and decides what a record the server shows may become.

  A member function is an action on \<open>engine\<close>. The engine's mutex makes each handler one step. A
  record handle is the key of its row. Exceptions reach the event loop, which drops them
  (\<open>engine_do\<close>). Log output is left out.
\<close>

section \<open>State\<close>

record rejection =
  rj_hash :: octets
  rj_duplicate :: bool

record engine = sync_host +
  en_has_data :: bool
  en_server_seq :: sequence_number
  en_pushing :: request_handle
  en_limits :: storage_limits
  en_in_flight :: "(request_handle \<times> record_tag) list"
  en_fetch_starts :: "(request_handle \<times> sequence_number) list"
  en_rejected :: "(record_tag \<times> rejection) list"
  en_fork :: bool
  en_anchor_contradicted :: bool

type_synonym 'a act = "(engine, 'a) action"

definition permanent_commit_rejection :: "error \<Rightarrow> bool" where
  "permanent_commit_rejection err =
     (err = Protocol record_too_big \<or> err = Protocol invalid_record \<or> err = Protocol conflicting_record)"

text \<open>An operation of the record storage: a transaction that fails leaves it as it was.\<close>

definition on_records :: "(record_storage \<Rightarrow> ('a \<times> record_storage) result) \<Rightarrow> 'a act" where
  "on_records f en = (case f (sh_records en) of Inl e \<Rightarrow> (Inl e, en) | Inr (x, st) \<Rightarrow> (Inr x, en\<lparr>sh_records := st\<rparr>))"

definition update_records :: "(record_storage \<Rightarrow> record_storage result) \<Rightarrow> unit act" where
  "update_records f en = (case f (sh_records en) of Inl e \<Rightarrow> (Inl e, en) | Inr st \<Rightarrow> (Inr (), en\<lparr>sh_records := st\<rparr>))"

definition set_row_state :: "nat \<Rightarrow> record_state \<Rightarrow> unit act" where
  "set_row_state k state = update_records (rs_set_state k state no_block [])"

abbreviation thrown :: error where
  "thrown \<equiv> General general_exception_occurred"

text \<open>A handle reads its row.\<close>

definition handle_row :: "nat \<Rightarrow> record_row act" where
  "handle_row k = bind_act (gets (\<lambda>en. rs_row k (sh_records en))) (from_option (General general_invalid_data))"

definition record_of :: "engine_env \<Rightarrow> chain_block \<Rightarrow> change_record act" where
  "record_of env block = from_option thrown (deserialise_record (ev_ex env) block)"

section \<open>Limits and endpoints\<close>

definition learn_limits :: "storage_limits \<Rightarrow> engine \<Rightarrow> engine" where
  "learn_limits reported en =
     (if max_record_size reported \<noteq> 0
      then if max_record_size (en_limits en) = 0 \<or> limits_or (en_limits en) reported = reported
           then if en_limits en \<noteq> reported
                then en\<lparr>en_limits := reported, sh_records := set_limits reported (sh_records en)\<rparr> else en
           else en
      else en)"

definition learn_data_endpoints :: "data_endpoint list \<Rightarrow> engine \<Rightarrow> engine" where
  "learn_data_endpoints reported en =
     (if reported \<noteq> [] \<and> reported \<noteq> rs_data_endpoints (sh_records en)
      then en\<lparr>sh_records := set_data_endpoints reported (sh_records en)\<rparr> else en)"

definition check_record_size :: "engine_env \<Rightarrow> change_record \<times> content_auth \<Rightarrow> unit act" where
  "check_record_size env rec =
     bind_act (gets en_limits) (\<lambda>limits.
       if max_record_size limits \<noteq> 0
          \<and> unat (max_record_size limits) < length (cb_record (chain_block_of (ev_ex env) (fst rec) (snd rec)))
       then raise (Sync sync_record_too_big) else ret ())"

section \<open>Requests\<close>

definition commit_record :: "nat \<Rightarrow> request_handle act" where
  "commit_record k =
     bind_act (gets en_fork) (\<lambda>fork.
       if fork then ret 0
       else bind_act (handle_row k) (\<lambda>row en.
         let (h, c) = comm_commit_record (rr_record row) (sh_comm en)
         in (Inr h, en\<lparr>sh_comm := c, en_pushing := h, en_in_flight := map_put h (rr_tag row) (en_in_flight en)\<rparr>)))"

definition take_in_flight :: "request_handle \<Rightarrow> record_tag act" where
  "take_in_flight handle en =
     (case map_of (en_in_flight en) handle of
        Some tag \<Rightarrow> (Inr tag, en\<lparr>en_in_flight := map_del handle (en_in_flight en)\<rparr>)
      | None \<Rightarrow> (Inr [], en))"

definition held_anchor :: "engine \<Rightarrow> record_row option" where
  "held_anchor en = find_hash (bid_hash (ec_trusted_anchor (sh_config en))) rs_in_sync (sh_records en)"

definition fetch_cursor :: "engine \<Rightarrow> sequence_number" where
  "fetch_cursor en =
     (let from = (if bid_is_valid (ec_trusted_anchor (sh_config en))
                  then case held_anchor en of Some anchor \<Rightarrow> rr_seq anchor | None \<Rightarrow> 1 else 1);
          gap = first_missing_sequence from (sh_records en)
      in if seq_is_valid gap then gap - 1 else highest_sequence_number (sh_records en))"

definition fetch_from :: "sequence_number \<Rightarrow> sequence_number \<Rightarrow> request_handle act" where
  "fetch_from start end' en =
     (let (h, c) = fetch_records start end' (sh_comm en)
      in (Inr h, en\<lparr>sh_comm := c, en_fetch_starts := map_put h start (en_fetch_starts en)\<rparr>))"

definition fetch_missing :: "bool act" where
  "fetch_missing =
     bind_act (gets fetch_cursor) (\<lambda>cursor. bind_act (gets (\<lambda>en. cursor < en_server_seq en)) (\<lambda>behind.
       if behind then bind_act (fetch_from cursor 0) (\<lambda>_. ret True) else ret False))"

definition fetch_progressed :: "request_handle \<Rightarrow> sequence_number \<Rightarrow> bool act" where
  "fetch_progressed handle last_received en =
     (case map_of (en_fetch_starts en) handle of
        Some start \<Rightarrow> (Inr (\<not> seq_is_valid start \<or> start < last_received),
          en\<lparr>en_fetch_starts := map_del handle (en_fetch_starts en)\<rparr>)
      | None \<Rightarrow> (Inr True, en))"

definition update_server_seq :: "sequence_number \<Rightarrow> engine \<Rightarrow> engine" where
  "update_server_seq q en = (if en_server_seq en < q then en\<lparr>en_server_seq := q\<rparr> else en)"

section \<open>Notifications and keys\<close>

definition notify_on_record :: "record_row \<Rightarrow> engine \<Rightarrow> engine" where
  "notify_on_record h en =
     (case rr_type h of
        user_change_tag \<Rightarrow> notify (User_changed (rr_key h)) en
      | data_change_tag \<Rightarrow> notify (Object_data_changed (rr_key h)) en
      | segment_tag \<Rightarrow> en)"

text \<open>The keys of an envelope one by one; an exception ends the loop, what was inserted stays.\<close>

fun insert_envelope_keys :: "engine_env \<Rightarrow> record_tag \<Rightarrow> encryption_key list \<Rightarrow> bool \<Rightarrow> engine \<Rightarrow> bool \<times> engine" where
  "insert_envelope_keys env carrier [] learned en = (learned, en)"
| "insert_envelope_keys env carrier (v # vs) learned en =
     (case find_all_keys (cx_kc (ev_cx env)) (ek_seq v) (sh_keys en) of
        Inl e \<Rightarrow> (learned, en)
      | Inr known \<Rightarrow> insert_envelope_keys env carrier vs (learned \<or> known = [])
          (en\<lparr>sh_keys := insert_key (cx_kc (ev_cx env)) v carrier (sh_keys en)\<rparr>))"

definition extract_encryption_key :: "engine_env \<Rightarrow> chain_block \<Rightarrow> bool act" where
  "extract_encryption_key env block =
     bind_act (record_of env block) (\<lambda>rec.
       case rec of
         User_change _ data _ \<Rightarrow> (\<lambda>en.
           if uc_enveloped data = [] then (Inr False, en)
           else case cx_open_envelope (ev_cx env) (uc_enveloped data) of
               None \<Rightarrow> (Inr False, en)
             | Some ks \<Rightarrow> (let (learned, en1) = insert_envelope_keys env (cb_tag block) ks False en in (Inr learned, en1)))
       | _ \<Rightarrow> raise thrown)"

definition authenticates :: "engine_env \<Rightarrow> change_record \<Rightarrow> content_auth \<Rightarrow> encryption_key \<Rightarrow> bool" where
  "authenticates env rec auth key =
     (case verifier_of (cx_rx (ev_cx env)) key rec auth of Some v \<Rightarrow> is_authentic (cx_rx (ev_cx env)) v | None \<Rightarrow> False)"

definition find_record_key :: "engine_env \<Rightarrow> change_record \<Rightarrow> chain_block \<Rightarrow> encryption_key option act" where
  "find_record_key env rec block =
     bind_act (gets (\<lambda>en. find_all_keys (cx_kc (ev_cx env)) (rb_encryption_key (record_base_part rec)) (sh_keys en))) (\<lambda>keys.
       bind_act (lift_result keys) (\<lambda>ks. ret (find (authenticates env rec (cb_auth block)) ks)))"

definition open_verifier :: "engine_env \<Rightarrow> encryption_key \<Rightarrow> change_record \<Rightarrow> chain_block \<Rightarrow> record_verifier act" where
  "open_verifier env key rec block = from_option thrown (verifier_of (cx_rx (ev_cx env)) key rec (cb_auth block))"

section \<open>What a block may become\<close>

definition contradicts_anchor :: "engine_env \<Rightarrow> chain_block \<Rightarrow> engine \<Rightarrow> bool" where
  "contradicts_anchor env block en =
     (let anchor = ec_trusted_anchor (sh_config en)
      in bid_is_valid anchor \<and> cb_sequence block = bid_sequence anchor \<and> block_hash (ev_ex env) block \<noteq> bid_hash anchor)"

definition anchor_mismatch :: "chain_block \<Rightarrow> engine \<Rightarrow> engine" where
  "anchor_mismatch block en = notify (Anchor_mismatch block) (en\<lparr>en_fork := True, en_anchor_contradicted := True\<rparr>)"

definition anchor_gate :: "engine_env \<Rightarrow> chain_block \<Rightarrow> engine \<Rightarrow> record_state option \<times> engine" where
  "anchor_gate env block en =
     (if bid_is_valid (ec_trusted_anchor (sh_config en)) \<and> held_anchor en = None
      then if block_hash (ev_ex env) block = bid_hash (ec_trusted_anchor (sh_config en)) then (Some rs_in_sync, en)
           else if contradicts_anchor env block en then (Some rs_invalid, anchor_mismatch block en)
           else (Some rs_pending_sync, en)
      else (None, en))"

definition check_chain_block_weak :: "chain_block \<Rightarrow> engine \<Rightarrow> record_state" where
  "check_chain_block_weak block en =
     (case find_seq (cb_sequence block) rs_in_sync (sh_records en) of None \<Rightarrow> rs_in_sync | Some _ \<Rightarrow> rs_invalid)"

definition check_anchor_chain_block :: "chain_block \<Rightarrow> engine \<Rightarrow> record_state option" where
  "check_anchor_chain_block block en =
     (if bid_is_valid (ec_trusted_anchor (sh_config en)) \<and> find_seq (cb_sequence block) rs_in_sync (sh_records en) = None
      then case held_anchor en of
          Some anchor \<Rightarrow> (if cb_sequence block < rr_seq anchor then Some rs_in_sync else None)
        | None \<Rightarrow> None
      else None)"

definition check_chain_block_strict :: "chain_block \<Rightarrow> engine \<Rightarrow> record_state" where
  "check_chain_block_strict block en =
     (case check_anchor_chain_block block en of
        Some state \<Rightarrow> state
      | None \<Rightarrow>
          (let head = last_block False (sh_records en)
           in if bid_sequence head < cb_sequence block
              then if cb_sequence block = 1 \<and> cb_parent_hash block = [] then rs_in_sync
                   else case find_hash (cb_parent_hash block) rs_in_sync (sh_records en) of
                       Some parent \<Rightarrow> (if rr_seq parent + 1 = cb_sequence block then rs_in_sync else rs_invalid)
                     | None \<Rightarrow> (if bid_sequence head + 1 < cb_sequence block then rs_pending_sync else rs_invalid)
              else rs_invalid))"

definition check_chain_block :: "engine_env \<Rightarrow> chain_block \<Rightarrow> record_state act" where
  "check_chain_block env block en =
     (if en_anchor_contradicted en then (Inr rs_invalid, en)
      else case anchor_gate env block en of
          (Some state, en1) \<Rightarrow> (Inr state, en1)
        | (None, en1) \<Rightarrow>
            (Inr (if ec_mode (sh_config en1) = require_all_seen then check_chain_block_strict block en1
                  else check_chain_block_weak block en1), en1))"

section \<open>Confirming and promoting records\<close>

definition update_record_commit_state :: "engine_env \<Rightarrow> record_row \<Rightarrow> chain_block \<Rightarrow> unit act" where
  "update_record_commit_state env h block =
     (if rr_state h = rs_in_sync \<or> rr_state h = rs_acked then ret ()
      else bind_act (check_chain_block env block) (\<lambda>state.
        if check_matches_without_server_data block (rr_record h) \<and> is_valid_state state
        then bind_act (update_records (rs_set_state (rr_key h) state (block_id (ev_ex env) block) (cb_parent_hash block))) (\<lambda>_.
               when_act (state = rs_in_sync) (modify (notify_on_record h)))
        else set_row_state (rr_key h) rs_invalid))"

definition promote_row :: "record_row \<Rightarrow> unit act" where
  "promote_row h = bind_act (set_row_state (rr_key h) rs_in_sync) (\<lambda>_. modify (notify_on_record h))"

definition pending_sync_count :: "engine \<Rightarrow> nat" where
  "pending_sync_count en = length (of_state rs_pending_sync (sh_records en))"

lemma set_row_state_Inr:
  assumes "set_row_state k s en = (Inr x, en')"
  shows "sh_records en' = (sh_records en)\<lparr>rs_records :=
      map (\<lambda>r. if rr_key r = k then r\<lparr>rr_state := s, rr_useq := is_server_confirmed s\<rparr> else r) (rs_records (sh_records en))\<rparr>"
    "en' = en\<lparr>sh_records := sh_records en'\<rparr>"
  using assms
  by (auto simp: set_row_state_def update_records_def rs_set_state_def rs_update_def no_block_def bid_is_valid_def seq_is_valid_def Let_def
      split: sum.splits if_splits)

lemma count_filter_map_le: "(\<And>y. P (f y) \<Longrightarrow> P y) \<Longrightarrow> length (filter P (map f xs)) \<le> length (filter P xs)"
  by (induction xs) (auto simp: le_Suc_eq)

lemma count_filter_map_less:
  assumes "x \<in> set xs" "P x" "\<And>y. P (f y) \<Longrightarrow> P y" "\<not> P (f x)"
  shows "length (filter P (map f xs)) < length (filter P xs)"
  using assms(1)
proof (induction xs)
  case (Cons a xs)
  have le: "length (filter P (map f ys)) \<le> length (filter P ys)" for ys
    using assms(3) by (rule count_filter_map_le)
  show ?case
  proof (cases "a = x")
    case True
    then show ?thesis using assms(2,4) le [of xs] by simp
  next
    case False
    then show ?thesis using Cons assms(3) by (auto simp: less_Suc_eq)
  qed
qed simp

lemma promote_row_less:
  assumes "promote_row h en = (Inr x, en')" "h \<in> set (of_state rs_pending_sync (sh_records en))"
  shows "pending_sync_count en' < pending_sync_count en"
proof -
  obtain en1 where en1: "set_row_state (rr_key h) rs_in_sync en = (Inr (), en1)" "en' = notify_on_record h en1"
    using assms(1) by (auto simp: promote_row_def bind_act_Inr modify_def)
  have "sh_records en' = sh_records en1"
    by (simp add: en1(2) notify_on_record_def notify_def split: record_type_tag.splits)
  moreover have "length (filter (\<lambda>r. rr_state r = rs_pending_sync) (map (\<lambda>r. if rr_key r = rr_key h
      then r\<lparr>rr_state := rs_in_sync, rr_useq := is_server_confirmed rs_in_sync\<rparr> else r) (rs_records (sh_records en))))
    < length (filter (\<lambda>r. rr_state r = rs_pending_sync) (rs_records (sh_records en)))"
    using assms(2) by (intro count_filter_map_less [where x = h]) (auto simp: of_state_def split: if_splits)
  ultimately show ?thesis
    by (simp add: pending_sync_count_def of_state_def set_row_state_Inr(1) [OF en1(1)] del: filter_map)
qed

text \<open>The blocks that waited for this one, in order.\<close>

function check_pending_records :: "chain_block_id \<Rightarrow> unit act" where
  "check_pending_records i en =
     (case find_seq (bid_sequence i + 1) rs_pending_sync (sh_records en) of
        None \<Rightarrow> (Inr (), en)
      | Some nxt \<Rightarrow>
          (if rr_parent_hash nxt = bid_hash i
           then case promote_row nxt en of
               (Inl e, en1) \<Rightarrow> (Inl e, en1)
             | (Inr _, en1) \<Rightarrow> check_pending_records (row_block_id nxt) en1
           else (Inr (), en)))"
  by pat_completeness auto
termination
proof (relation "measure (\<lambda>(i, en). pending_sync_count en)", goal_cases)
  case (2 i en nxt)
  then show ?case
    using promote_row_less [of nxt en] by (fastforce simp: find_seq_def of_state_def dest!: find_SomeD)
qed simp

declare check_pending_records.simps [simp del]

definition promote_pre_anchor_records :: "chain_block_id \<Rightarrow> unit act" where
  "promote_pre_anchor_records i =
     bind_act (gets (\<lambda>en. let anchor = ec_trusted_anchor (sh_config en); st = sh_records en
         in if bid_is_valid anchor \<and> bid_hash i = bid_hash anchor
            then find_range 1 (bid_sequence i - 1) rs_pending_sync (length (rs_records st)) st else []))
       (\<lambda>rows. for_each rows promote_row)"

section \<open>Rebuilding pending records\<close>

definition draw_act :: "engine_env \<Rightarrow> octets act" where
  "draw_act env en = (let (x, en1) = draw env en in (Inr x, en1))"

definition record_signer :: "engine_env \<Rightarrow> private_key option act" where
  "record_signer env =
     bind_act (gets (\<lambda>en. ec_auth_mode (sh_config en))) (\<lambda>mode.
       if mode = sign_records then bind_act (lift_result (ev_my_key env)) (\<lambda>key. ret (Some key)) else ret None)"

definition new_creator :: "engine_env \<Rightarrow> encryption_key \<Rightarrow> chain_block_id \<Rightarrow> octets \<Rightarrow> record_creator act" where
  "new_creator env key last_seen op_id =
     bind_act (record_signer env) (\<lambda>signer. bind_act (draw_act env) (\<lambda>iv. bind_act (draw_act env) (\<lambda>fresh.
       bind_act (gets (\<lambda>en. last_special_tag (sh_records en))) (\<lambda>special.
         ret (record_creator_of (cx_rx (ev_cx env)) iv fresh key last_seen signer op_id special)))))"

definition rebase_change :: "record_storage \<Rightarrow> opened_change \<Rightarrow> opened_change" where
  "rebase_change st c =
     (let data = fst c
      in if pc_previous_tag data \<noteq> []
         then case find_last_object (pc_id data) st of
             Some current \<Rightarrow> (if rr_tag current \<noteq> pc_previous_tag data then (data\<lparr>pc_previous_tag := rr_tag current\<rparr>, snd c) else c)
           | None \<Rightarrow> c
         else c)"

definition make_segment_data :: "engine_env \<Rightarrow> chain_block_id \<Rightarrow> plain_segment_data act" where
  "make_segment_data env base =
     bind_act (gets sh_records) (\<lambda>st.
       bind_act (case find_last_of_type segment_tag st of
           Some previous \<Rightarrow> bind_act (lift_result (segment_data_of (ev_ex env) (rr_record previous))) (\<lambda>d. ret (segment_end d, rr_tag previous))
         | None \<Rightarrow> ret (1, [])) (\<lambda>(start, previous_tag).
         ret \<lparr>segment_start = start, segment_end = bid_sequence base + 1, sg_tags = tags_in_range start (bid_sequence base) st,
           previous_segment_tag = previous_tag, sg_trailing = []\<rparr>))"

text \<open>An authentic verifier has its header, which the source asserts.\<close>

definition update_record :: "engine_env \<Rightarrow> encryption_key \<Rightarrow> record_verifier \<Rightarrow> (change_record \<times> content_auth) act" where
  "update_record env key ver =
     (let ex = ev_ex env; rx = cx_rx (ev_cx env)
      in bind_act (gets (\<lambda>en. last_block False (sh_records en))) (\<lambda>head.
        bind_act (new_creator env key head (rb_op_id (rv_base ver))) (\<lambda>creator.
          case rv_opened ver of
            Opened_data hs \<Rightarrow> bind_act (gets sh_records) (\<lambda>st. ret (create_data_change ex rx creator (map (rebase_change st) hs)))
          | Opened_user data h \<Rightarrow> bind_act (from_option thrown h) (\<lambda>header. ret (user_change_result ex rx creator header data))
          | Opened_segment _ h \<Rightarrow> bind_act (from_option thrown h) (\<lambda>header.
              bind_act (make_segment_data env head) (\<lambda>data. ret (segment_result ex rx creator header data))))))"

text \<open>\<open>None\<close> is the empty block: the record stands on the head already.\<close>

definition on_head :: "change_record \<Rightarrow> engine \<Rightarrow> bool" where
  "on_head rec en = (rb_last_seen_block (record_base_part rec) = last_block False (sh_records en)
     \<and> rb_last_seen_special_tag (record_base_part rec) = last_special_tag (sh_records en))"

definition update_pending_commit :: "engine_env \<Rightarrow> chain_block \<Rightarrow> bool \<Rightarrow> chain_block option act" where
  "update_pending_commit env block has_conflicts =
     bind_act (record_of env block) (\<lambda>rec. bind_act (gets (on_head rec)) (\<lambda>on_the_head.
       if on_the_head \<and> \<not> has_conflicts then ret None
       else bind_act (find_record_key env rec block) (\<lambda>key.
         case key of
           None \<Rightarrow> raise (Sync no_encryption_key_found)
         | Some k \<Rightarrow>
             bind_act (open_verifier env k rec block) (\<lambda>ver.
               if \<not> is_authentic (cx_rx (ev_cx env)) ver then raise (Sync not_authentic)
               else bind_act (update_record env k ver) (\<lambda>(new_rec, auth).
                 ret (Some (chain_block_of (ev_ex env) new_rec auth)))))))"

definition base_block :: "engine \<Rightarrow> chain_block_id" where
  "base_block en =
     (let b = last_block (ec_mode (sh_config en) = require_all_seen) (sh_records en)
      in if bid_is_valid b then b else last_block True (sh_records en))"

definition oid_conflicts :: "record_storage \<Rightarrow> change_record \<Rightarrow> record_row list" where
  "oid_conflicts st rec =
     (case rec of
        Data_change _ changes _ \<Rightarrow>
          List.map_filter (\<lambda>c. let data = sc_data c
            in if pc_previous_tag data \<noteq> []
               then case find_last_object (pc_id data) st of
                   Some current \<Rightarrow> (if rr_tag current \<noteq> pc_previous_tag data then Some current else None)
                 | None \<Rightarrow> None
               else None) changes
      | _ \<Rightarrow> [])"

definition find_oid_conflicts :: "engine_env \<Rightarrow> chain_block \<Rightarrow> record_row list act" where
  "find_oid_conflicts env block =
     bind_act (record_of env block) (\<lambda>rec. gets (\<lambda>en. oid_conflicts (sh_records en) rec))"

definition notify_conflicts :: "nat \<Rightarrow> record_row list \<Rightarrow> engine \<Rightarrow> engine" where
  "notify_conflicts k conflicts = fold (\<lambda>remote. notify (Object_conflict k (rr_key remote))) conflicts"

definition cancel_conflicting :: "nat \<Rightarrow> record_row list \<Rightarrow> unit act" where
  "cancel_conflicting k conflicts = bind_act (set_row_state k rs_invalid) (\<lambda>_. modify (notify_conflicts k conflicts))"

text \<open>What \<open>catch(error const&)\<close> catches.\<close>

definition is_error_value :: "engine_env \<Rightarrow> error \<Rightarrow> bool" where
  "is_error_value env e = (if e = Database \<or> e = Io \<or> e = thrown then ev_base_error env e else True)"

definition rebuild_pending :: "engine_env \<Rightarrow> record_row \<Rightarrow> record_row list \<Rightarrow> bool act" where
  "rebuild_pending env h conflicts =
     bind_act (update_pending_commit env (rr_record h) (conflicts \<noteq> [])) (\<lambda>block.
       bind_act (case block of
           Some b \<Rightarrow> when_act (block_is_valid b) (update_records (rs_set_record (ev_ex env) (rr_key h) b))
         | None \<Rightarrow> ret ()) (\<lambda>_.
         bind_act (modify (notify_conflicts (rr_key h) conflicts)) (\<lambda>_. ret True)))"

definition rebase_if_needed :: "engine_env \<Rightarrow> record_row \<Rightarrow> record_row list \<Rightarrow> bool act" where
  "rebase_if_needed env h conflicts =
     bind_act (record_of env (rr_record h)) (\<lambda>rec.
       bind_act (gets (\<lambda>en. conflicts \<noteq> [] \<or> pending_needs_rebase (ec_mode (sh_config en)) (sh_records en) rec)) (\<lambda>needed.
         if needed
         then try_catch (rebuild_pending env h conflicts) (\<lambda>e.
                if is_error_value env e then bind_act (set_row_state (rr_key h) rs_invalid) (\<lambda>_. ret False) else raise e)
         else ret True))"

definition is_rejected_unchanged :: "engine_env \<Rightarrow> nat \<Rightarrow> engine \<Rightarrow> bool" where
  "is_rejected_unchanged env k en =
     (case rs_row k (sh_records en) of
        Some h \<Rightarrow> (case map_of (en_rejected en) (rr_tag h) of
            Some r \<Rightarrow> rj_hash r = block_hash (ev_ex env) (rr_record h) | None \<Rightarrow> False)
      | None \<Rightarrow> False)"

section \<open>Committing pending records\<close>

text \<open>One round of the loop: a commit was sent, the loop starts over, or it goes on behind the record.\<close>

datatype commit_turn = Turn_committed | Turn_first | Turn_next

definition commit_one :: "engine_env \<Rightarrow> record_row \<Rightarrow> commit_turn act" where
  "commit_one env h =
     bind_act (find_oid_conflicts env (rr_record h)) (\<lambda>conflicts.
       bind_act (gets (\<lambda>en. ec_conflicts (sh_config en))) (\<lambda>policy.
         if conflicts \<noteq> [] \<and> policy = ask_application
         then bind_act (cancel_conflicting (rr_key h) conflicts) (\<lambda>_. ret Turn_first)
         else bind_act (rebase_if_needed env h conflicts) (\<lambda>usable.
           if \<not> usable then ret Turn_first
           else bind_act (gets (is_rejected_unchanged env (rr_key h))) (\<lambda>rejected.
             if rejected then ret Turn_next
             else bind_act (commit_record (rr_key h)) (\<lambda>_. ret Turn_committed)))))"

definition next_pending :: "nat option \<Rightarrow> engine \<Rightarrow> record_row option" where
  "next_pending after en =
     (case after of
        None \<Rightarrow> find_first_pending_commit (sh_records en)
      | Some k \<Rightarrow> find_next_pending_commit k (sh_records en))"

definition row_states :: "record_storage \<Rightarrow> (nat \<times> record_state) list" where
  "row_states st = map (\<lambda>r. (rr_key r, rr_state r)) (rs_records st)"

definition pending_left :: "nat option \<Rightarrow> (nat \<times> record_state) list \<Rightarrow> nat" where
  "pending_left after rows =
     length (filter (\<lambda>(k, s). s = rs_pending_commit \<and> (case after of None \<Rightarrow> True | Some a \<Rightarrow> a < k)) rows)"

lemma create_object_records_states: "create_object_records ts tag cs st = Inr st' \<Longrightarrow> rs_records st' = rs_records st"
proof (induction ts tag cs st rule: create_object_records.induct)
  case (2 ts tag obj objs st)
  from "2.prems" obtain st1 where st1: "create_object_record ts tag obj st = Inr st1" "create_object_records ts tag objs st1 = Inr st'"
    by (auto simp: bind_result_Inr)
  then have "rs_records st1 = rs_records st"
    by (auto simp: create_object_record_def Let_def bind_result_Inr split: option.splits if_splits)
  then show ?case using "2.IH" st1 by simp
qed simp

abbreviation rebuilt_row :: "externals \<Rightarrow> chain_block \<Rightarrow> record_row \<Rightarrow> record_row" where
  "rebuilt_row ex b r \<equiv> r\<lparr>rr_tag := cb_tag b, rr_seq := cb_sequence b, rr_hash := block_hash ex b,
     rr_parent_hash := cb_parent_hash b, rr_record := b, rr_useq := False\<rparr>"

lemma set_record_Inr:
  assumes "rs_set_record ex k b st = Inr st'"
  shows "\<exists>old. rs_row k st = Some old \<and> \<not> is_server_confirmed (rr_state old)"
    "rs_records st' = map (\<lambda>r. if rr_key r = k then rebuilt_row ex b r else r) (rs_records st)"
proof -
  obtain old st1 where old: "rs_row k st = Some old" "\<not> is_server_confirmed (rr_state old)"
    and st1: "rs_update k (rebuilt_row ex b) (remove_object_records (rr_tag old) st) = Inr st1"
    and rest: "(case deserialise_record ex b of None \<Rightarrow> Inl (General general_exception_occurred)
      | Some (Data_change _ changes _) \<Rightarrow> create_object_records (ex_tag_size ex) (cb_tag b) changes st1 | Some _ \<Rightarrow> Inr st1) = Inr st'"
    using assms by (fastforce simp: rs_set_record_def bind_result_Inr split: option.splits if_splits)
  have "rs_records st' = rs_records st1"
    using rest by (auto dest: create_object_records_states split: option.splits change_record.splits)
  then show "rs_records st' = map (\<lambda>r. if rr_key r = k then rebuilt_row ex b r else r) (rs_records st)"
    using st1 by (auto simp: rs_update_def remove_object_records_def Let_def split: if_splits)
  show "\<exists>old. rs_row k st = Some old \<and> \<not> is_server_confirmed (rr_state old)" using old by blast
qed

lemma set_record_states: "rs_set_record ex k b st = Inr st' \<Longrightarrow> row_states st' = row_states st"
  by (auto simp: row_states_def set_record_Inr(2))

lemma pres_update_records:
  "(\<And>en st. I en \<Longrightarrow> f (sh_records en) = Inr st \<Longrightarrow> I (en\<lparr>sh_records := st\<rparr>)) \<Longrightarrow> preserves I (update_records f)"
  by (auto intro!: presI simp: update_records_def split: sum.splits)

lemma notify_more [simp]:
  "sh_records (notify e en) = sh_records en" "sh_comm (notify e en) = sh_comm en" "sh_config (notify e en) = sh_config en"
  "sh_keys (notify e en) = sh_keys en" "sh_data (notify e en) = sh_data en" "sh_files (notify e en) = sh_files en"
  "sh_drops (notify e en) = sh_drops en" "sh_output (notify e en) = sh_output en" "sh_draws (notify e en) = sh_draws en"
  "sync_host.more (notify e en) = sync_host.more en"
  by (simp_all add: notify_def)

definition same_but_draws :: "engine \<Rightarrow> engine \<Rightarrow> bool" where
  "same_but_draws en0 en = (\<exists>n. en = en0\<lparr>sh_draws := n\<rparr>)"

lemma pres_draw_act: "preserves (same_but_draws en0) (draw_act env)"
  by (rule presI) (auto simp: same_but_draws_def draw_act_def draw_def)

lemma pres_record_signer [pres_intros]: "preserves I (record_signer env)"
  unfolding record_signer_def by (intro pres_intros)

lemma pres_record_of [pres_intros]: "preserves I (record_of env b)"
  unfolding record_of_def by (intro pres_intros)

lemma pres_find_record_key [pres_intros]: "preserves I (find_record_key env rec b)"
  unfolding find_record_key_def by (intro pres_intros)

lemma pres_open_verifier [pres_intros]: "preserves I (open_verifier env k rec b)"
  unfolding open_verifier_def by (intro pres_intros)

lemma pres_make_segment_data [pres_intros]: "preserves I (make_segment_data env base)"
  unfolding make_segment_data_def by (intro pres_intros)

lemma pres_find_oid_conflicts [pres_intros]: "preserves I (find_oid_conflicts env b)"
  unfolding find_oid_conflicts_def by (intro pres_intros)

lemma pres_opened [pres_intros]:
  "(\<And>hs. preserves I (f hs)) \<Longrightarrow> (\<And>d h. preserves I (g d h)) \<Longrightarrow> (\<And>d h. preserves I (j d h))
    \<Longrightarrow> preserves I (case v of Opened_data hs \<Rightarrow> f hs | Opened_user d h \<Rightarrow> g d h | Opened_segment d h \<Rightarrow> j d h)"
  by (cases v) simp_all

lemma pres_new_creator: "preserves (same_but_draws en0) (new_creator env key ls op)"
  unfolding new_creator_def by (intro pres_intros pres_draw_act)

lemma pres_update_record: "preserves (same_but_draws en0) (update_record env key ver)"
  unfolding update_record_def by (intro pres_intros pres_new_creator)

lemma pres_update_pending_commit: "preserves (same_but_draws en0) (update_pending_commit env b c)"
  unfolding update_pending_commit_def by (intro pres_intros pres_update_record)

lemma update_pending_commit_draws:
  assumes "update_pending_commit env b c en = (r, en')"
  shows "\<exists>n. en' = en\<lparr>sh_draws := n\<rparr>"
proof -
  have "same_but_draws en en" unfolding same_but_draws_def by (rule exI [of _ "sh_draws en"]) simp
  then have "same_but_draws en en'" using presD [OF pres_update_pending_commit, of en en env b c] assms by simp
  then show ?thesis by (simp add: same_but_draws_def)
qed

lemma notify_conflicts_records [simp]:
  "sh_records (notify_conflicts k cs en) = sh_records en" "sh_comm (notify_conflicts k cs en) = sh_comm en"
  "sh_config (notify_conflicts k cs en) = sh_config en" "sync_host.more (notify_conflicts k cs en) = sync_host.more en"
  unfolding notify_conflicts_def by (induction cs arbitrary: en) simp_all

lemma pres_rebuild_states: "preserves (\<lambda>en. row_states (sh_records en) = rows) (rebuild_pending env h cs)"
proof (rule presI)
  fix en :: engine assume "row_states (sh_records en) = rows"
  obtain b en1 where b: "update_pending_commit env (rr_record h) (cs \<noteq> []) en = (b, en1)" by fastforce
  then obtain n where n: "en1 = en\<lparr>sh_draws := n\<rparr>" using update_pending_commit_draws by blast
  show "row_states (sh_records (snd (rebuild_pending env h cs en))) = rows"
    using \<open>row_states (sh_records en) = rows\<close> n
    by (auto simp: rebuild_pending_def bind_act_def b act_simps when_act_def update_records_def
        dest: set_record_states split: sum.splits option.splits)
qed

lemma set_row_state_left:
  assumes "set_row_state k rs_invalid en = (Inr x, en')" "(k, rs_pending_commit) \<in> set (row_states (sh_records en))"
  shows "pending_left None (row_states (sh_records en')) < pending_left None (row_states (sh_records en))"
proof -
  let ?f = "\<lambda>(j, s). (j, if j = k then rs_invalid else s)"
  have "row_states (sh_records en') = map ?f (row_states (sh_records en))"
    by (simp add: set_row_state_Inr(1) [OF assms(1)] row_states_def)
  moreover have "length (filter (\<lambda>(k, s). s = rs_pending_commit) (map ?f (row_states (sh_records en))))
      < length (filter (\<lambda>(k, s). s = rs_pending_commit) (row_states (sh_records en)))"
    by (rule count_filter_map_less [OF assms(2)]) (auto split: if_splits)
  ultimately show ?thesis by (simp only: pending_left_def option.case simp_thms)
qed

lemma rebase_if_needed_states:
  assumes "rebase_if_needed env h cs en = (Inr usable, en')"
  shows "usable \<Longrightarrow> row_states (sh_records en') = row_states (sh_records en)"
    and "\<not> usable \<Longrightarrow> \<exists>en1 x. row_states (sh_records en1) = row_states (sh_records en)
      \<and> set_row_state (rr_key h) rs_invalid en1 = (Inr x, en')"
proof -
  obtain r en1 where r: "rebuild_pending env h cs en = (r, en1)" by fastforce
  have same: "row_states (sh_records en1) = row_states (sh_records en)"
    using presD [OF pres_rebuild_states [of "row_states (sh_records en)"], of en env h cs] r by simp
  have b: "rebuild_pending env h cs en = (Inr x, en1) \<Longrightarrow> x" for x
    by (auto simp: rebuild_pending_def bind_act_Inr ret_def)
  show "usable \<Longrightarrow> row_states (sh_records en') = row_states (sh_records en)"
    using assms r same by (auto simp: rebase_if_needed_def bind_act_Inr gets_def record_of_def from_option_def act_simps try_catch_def
        bind_act_def split: if_splits sum.splits option.splits prod.splits)
  show "\<exists>en1 x. row_states (sh_records en1) = row_states (sh_records en)
      \<and> set_row_state (rr_key h) rs_invalid en1 = (Inr x, en')" if "\<not> usable"
    using assms r same that b
    by (auto simp: rebase_if_needed_def bind_act_Inr record_of_def from_option_def act_prims try_catch_def
        split: if_splits sum.splits option.splits)
qed

lemma commit_one_first:
  assumes "commit_one env h en = (Inr Turn_first, en')" "h \<in> set (rs_records (sh_records en))" "rr_state h = rs_pending_commit"
  shows "pending_left None (row_states (sh_records en')) < pending_left None (row_states (sh_records en))"
proof -
  have k: "(rr_key h, rs_pending_commit) \<in> set (row_states (sh_records en))" using assms(2,3) by (force simp: row_states_def)
  obtain cs where cs: "find_oid_conflicts env (rr_record h) en = (Inr cs, en)"
    using assms(1) by (auto simp: commit_one_def bind_act_Inr find_oid_conflicts_def record_of_def from_option_def act_prims split: option.splits)
  consider en2 where "cancel_conflicting (rr_key h) cs en = (Inr (), en2)" "en' = en2"
    | "rebase_if_needed env h cs en = (Inr False, en')"
    using assms(1) cs by (auto simp: commit_one_def bind_act_Inr act_prims split: if_splits)
  then show ?thesis
  proof cases
    case 1
    then obtain en3 where "set_row_state (rr_key h) rs_invalid en = (Inr (), en3)" "en' = notify_conflicts (rr_key h) cs en3"
      by (auto simp: cancel_conflicting_def bind_act_Inr modify_def)
    then show ?thesis using set_row_state_left k by fastforce
  next
    case 2
    then obtain en1 x where "row_states (sh_records en1) = row_states (sh_records en)" "set_row_state (rr_key h) rs_invalid en1 = (Inr x, en')"
      using rebase_if_needed_states(2) by blast
    then show ?thesis using set_row_state_left [of "rr_key h" en1 x en'] k by simp
  qed
qed

lemma commit_one_next:
  assumes "commit_one env h en = (Inr Turn_next, en')"
  shows "row_states (sh_records en') = row_states (sh_records en)"
proof -
  obtain cs where cs: "find_oid_conflicts env (rr_record h) en = (Inr cs, en)"
    using assms by (auto simp: commit_one_def bind_act_Inr find_oid_conflicts_def record_of_def from_option_def act_prims split: option.splits)
  then have "rebase_if_needed env h cs en = (Inr True, en')"
    using assms by (auto simp: commit_one_def bind_act_Inr act_prims split: if_splits)
  then show ?thesis using rebase_if_needed_states(1) by blast
qed

lemma next_pending_row:
  assumes "next_pending after en = Some h"
  shows "h \<in> set (rs_records (sh_records en))" "rr_state h = rs_pending_commit"
    "pending_left (Some (rr_key h)) (row_states (sh_records en)) < pending_left after (row_states (sh_records en))"
proof -
  have h: "h \<in> set (rs_records (sh_records en)) \<and> rr_state h = rs_pending_commit \<and> (case after of None \<Rightarrow> True | Some a \<Rightarrow> a < rr_key h)"
    using assms by (auto simp: next_pending_def find_first_pending_commit_def find_next_pending_commit_def dest!: find_SomeD split: option.splits)
  then show "h \<in> set (rs_records (sh_records en))" "rr_state h = rs_pending_commit" by blast+
  have mem: "(rr_key h, rs_pending_commit) \<in> set (row_states (sh_records en))" using h by (force simp: row_states_def)
  have less: "length (filter P xs) < length (filter Q xs)" if "\<And>x. P x \<Longrightarrow> Q x" "y \<in> set xs" "Q y" "\<not> P y" for P Q y and xs :: "(nat \<times> record_state) list"
  proof -
    have "filter P xs = filter P (filter Q xs)" using that(1) by (metis (mono_tags, lifting) filter_cong filter_filter)
    moreover have "length (filter P (filter Q xs)) < length (filter Q xs)"
      using that(2-4) by (intro length_filter_less [of y]) auto
    ultimately show ?thesis by simp
  qed
  show "pending_left (Some (rr_key h)) (row_states (sh_records en)) < pending_left after (row_states (sh_records en))"
    unfolding pending_left_def by (rule less [OF _ mem]) (use h in \<open>auto split: option.splits\<close>)
qed

function commit_loop :: "engine_env \<Rightarrow> nat option \<Rightarrow> unit act" where
  "commit_loop env after en =
     (case next_pending after en of
        None \<Rightarrow> (Inr (), en)
      | Some h \<Rightarrow>
          (case commit_one env h en of
             (Inl e, en1) \<Rightarrow> (Inl e, en1)
           | (Inr turn, en1) \<Rightarrow>
               (case turn of
                  Turn_committed \<Rightarrow> (Inr (), en1)
                | Turn_first \<Rightarrow> commit_loop env None en1
                | Turn_next \<Rightarrow> commit_loop env (Some (rr_key h)) en1)))"
  by pat_completeness auto
termination
proof (relation "measures [\<lambda>(env, after, en). pending_left None (row_states (sh_records en)),
    \<lambda>(env, after, en). pending_left after (row_states (sh_records en))]", goal_cases)
  case (2 env after en h r en1 turn)
  then show ?case using commit_one_first [of env h en en1] next_pending_row by auto
next
  case (3 env after en h r en1 turn)
  then show ?case using commit_one_next [of env h en en1] next_pending_row(3) by auto
qed simp

declare commit_loop.simps [simp del]

definition try_commit_pending :: "engine_env \<Rightarrow> unit act" where
  "try_commit_pending env =
     bind_act (gets (\<lambda>en. en_pushing en = 0 \<and> \<not> en_fork en)) (\<lambda>idle. when_act idle (commit_loop env None))"

section \<open>Refused commits\<close>

definition mark_rejected :: "engine_env \<Rightarrow> record_tag \<Rightarrow> bool \<Rightarrow> engine \<Rightarrow> engine" where
  "mark_rejected env tag duplicate en =
     (if tag \<noteq> []
      then case find_tag tag (sh_records en) of
          Some h \<Rightarrow> en\<lparr>en_rejected := map_put tag \<lparr>rj_hash = block_hash (ev_ex env) (rr_record h), rj_duplicate = duplicate\<rparr> (en_rejected en)\<rparr>
        | None \<Rightarrow> en
      else en)"

text \<open>Whether a mark goes; the committed twin of a rejected duplicate drops the pending record.\<close>

definition resolve_one :: "engine_env \<Rightarrow> record_tag \<times> rejection \<Rightarrow> bool act" where
  "resolve_one env entry =
     bind_act (gets (\<lambda>en. find_tag (fst entry) (sh_records en))) (\<lambda>found.
       case found of
         None \<Rightarrow> ret True
       | Some h \<Rightarrow>
           (if rr_state h \<noteq> rs_pending_commit then ret True
            else if \<not> rj_duplicate (snd entry) then ret False
            else bind_act (record_of env (rr_record h)) (\<lambda>rec.
              let op = rb_op_id (record_base_part rec)
              in bind_act (gets (\<lambda>en. if op = [] then None else find_op_id op (sh_records en))) (\<lambda>twin.
                case twin of
                  Some t \<Rightarrow>
                    (if rr_key t \<noteq> rr_key h \<and> is_server_confirmed (rr_state t)
                     then bind_act (set_row_state (rr_key h) rs_invalid) (\<lambda>_. ret True) else ret False)
                | None \<Rightarrow> ret False))))"

definition resolve_rejected_duplicates :: "engine_env \<Rightarrow> unit act" where
  "resolve_rejected_duplicates env =
     bind_act (gets en_rejected) (\<lambda>entries. for_each entries (\<lambda>entry.
       bind_act (resolve_one env entry) (\<lambda>resolved.
         when_act resolved (modify (\<lambda>en. en\<lparr>en_rejected := map_del (fst entry) (en_rejected en)\<rparr>)))))"

definition on_duplicate_rejected :: "engine_env \<Rightarrow> record_tag \<Rightarrow> unit act" where
  "on_duplicate_rejected env tag =
     bind_act (modify (mark_rejected env tag True)) (\<lambda>_. bind_act fetch_missing (\<lambda>fetching.
       when_act (\<not> fetching) (bind_act (resolve_rejected_duplicates env) (\<lambda>_. try_commit_pending env))))"

definition drop_rejected :: "engine_env \<Rightarrow> record_tag \<Rightarrow> error \<Rightarrow> unit act" where
  "drop_rejected env tag err =
     bind_act (gets (\<lambda>en. find_tag tag (sh_records en))) (\<lambda>found.
       bind_act (case found of
           Some h \<Rightarrow> when_act (rr_state h = rs_pending_commit)
             (bind_act (set_row_state (rr_key h) rs_invalid) (\<lambda>_. modify (notify (Record_rejected (rr_key h) err))))
         | None \<Rightarrow> ret ()) (\<lambda>_. try_commit_pending env))"

definition hold_rejected :: "engine_env \<Rightarrow> record_tag \<Rightarrow> unit act" where
  "hold_rejected env tag = bind_act (modify (mark_rejected env tag False)) (\<lambda>_. try_commit_pending env)"

definition on_out_of_sync_rejected :: "engine_env \<Rightarrow> record_tag \<Rightarrow> unit act" where
  "on_out_of_sync_rejected env tag =
     bind_act fetch_missing (\<lambda>fetching. when_act (\<not> fetching)
       (bind_act (modify (mark_rejected env tag False)) (\<lambda>_. try_commit_pending env)))"

definition on_commit_rejected :: "engine_env \<Rightarrow> record_tag \<Rightarrow> error \<Rightarrow> sequence_number \<Rightarrow> unit act" where
  "on_commit_rejected env tag err server_max =
     bind_act (modify (update_server_seq server_max)) (\<lambda>_.
       if err = Protocol record_out_of_sync then on_out_of_sync_rejected env tag
       else if err = Protocol record_already_committed then on_duplicate_rejected env tag
       else if permanent_commit_rejection err then drop_rejected env tag err
       else hold_rejected env tag)"

definition clear_rejections :: "engine \<Rightarrow> engine" where
  "clear_rejections en = en\<lparr>en_rejected := []\<rparr>"

definition on_fetch_complete :: "engine_env \<Rightarrow> unit act" where
  "on_fetch_complete env =
     bind_act (gets (\<lambda>en. en_rejected en \<noteq> [])) (\<lambda>any.
       when_act any (bind_act (modify clear_rejections) (\<lambda>_. try_commit_pending env)))"

section \<open>Records from the server\<close>

definition create_row :: "engine_env \<Rightarrow> chain_block \<Rightarrow> record_state \<Rightarrow> record_row act" where
  "create_row env block state = bind_act (on_records (rs_create (ev_ex env) block state)) handle_row"

definition handle_block_chain :: "engine_env \<Rightarrow> chain_block \<Rightarrow> bool act" where
  "handle_block_chain env block =
     bind_act (check_chain_block env block) (\<lambda>state. bind_act (create_row env block state) (\<lambda>h.
       bind_act (when_act (state = rs_in_sync) (modify (notify_on_record h))) (\<lambda>_. ret (state = rs_in_sync))))"

definition engine_equivocation :: "engine_env \<Rightarrow> storage_id \<Rightarrow> equivocation_proof \<Rightarrow> engine \<Rightarrow> engine" where
  "engine_equivocation env sid p en =
     (case proof_verify (ev_ex env) sid (ev_public_keys env) p of
        Some err \<Rightarrow> en
      | None \<Rightarrow> notify (Equivocation_shown p)
          (if ec_mode (sh_config en) = require_all_seen then en\<lparr>en_fork := True\<rparr> else en))"

definition check_fork :: "chain_block \<Rightarrow> change_record \<Rightarrow> engine \<Rightarrow> engine" where
  "check_fork block rec en =
     (let ls = rb_last_seen_block (record_base_part rec)
      in if ec_mode (sh_config en) = require_all_seen \<and> \<not> en_fork en \<and> bid_is_valid ls
         then case find_seq (bid_sequence ls) rs_in_sync (sh_records en) of
             Some ours \<Rightarrow> (if rr_hash ours \<noteq> bid_hash ls then notify (Fork_suspected (rr_key ours) block) (en\<lparr>en_fork := True\<rparr>) else en)
           | None \<Rightarrow> en
         else en)"

definition verify_block :: "engine_env \<Rightarrow> encryption_key \<Rightarrow> chain_block \<Rightarrow> change_record \<Rightarrow> unit act" where
  "verify_block env key block rec =
     bind_act (open_verifier env key rec block) (\<lambda>ver.
       if is_authentic (cx_rx (ev_cx env)) ver
       then bind_act (modify (check_fork block rec)) (\<lambda>_. bind_act (modify (update_server_seq (cb_sequence block))) (\<lambda>_.
              bind_act (handle_block_chain env block) (\<lambda>in_chain. when_act in_chain
                (bind_act (promote_pre_anchor_records (block_id (ev_ex env) block)) (\<lambda>_.
                 bind_act (check_pending_records (block_id (ev_ex env) block)) (\<lambda>_.
                 bind_act (gets (\<lambda>en. bid_sequence (last_block False (sh_records en)) = en_server_seq en)) (\<lambda>up_to_date.
                   when_act up_to_date (try_commit_pending env))))))))
       else ret ())"

definition retry_one :: "engine_env \<Rightarrow> record_row \<Rightarrow> bool act" where
  "retry_one env h =
     (let block = rr_record h
      in bind_act (record_of env block) (\<lambda>rec. bind_act (find_record_key env rec block) (\<lambda>key.
        case key of
          None \<Rightarrow> ret False
        | Some k \<Rightarrow>
            bind_act (open_verifier env k rec block) (\<lambda>ver.
              if \<not> is_authentic (cx_rx (ev_cx env)) ver then ret False
              else bind_act (if record_type rec = user_change_tag then extract_encryption_key env block else ret False) (\<lambda>_.
                bind_act (check_chain_block env block) (\<lambda>state.
                  if state = rs_in_sync then bind_act (promote_row h) (\<lambda>_. ret True) else ret False))))))"

fun retry_pass :: "engine_env \<Rightarrow> record_row list \<Rightarrow> bool act" where
  "retry_pass env [] = ret False"
| "retry_pass env (h # hs) =
     bind_act (retry_one env h) (\<lambda>promoted. bind_act (retry_pass env hs) (\<lambda>more. ret (promoted \<or> more)))"

definition waiting_rows :: "engine \<Rightarrow> record_row list" where
  "waiting_rows en = find_range 1 (- 1) rs_pending_sync (length (rs_records (sh_records en))) (sh_records en)"

lemma record_of_Inr: "record_of env b en = (Inr rec, en') \<Longrightarrow> en' = en \<and> deserialise_record (ev_ex env) b = Some rec"
  by (auto simp: record_of_def from_option_def act_prims split: option.splits)

lemma find_record_key_Inr: "find_record_key env rec b en = (Inr k, en') \<Longrightarrow> en' = en"
  by (auto simp: find_record_key_def bind_act_Inr act_prims)

lemma open_verifier_Inr:
  "open_verifier env k rec b en = (Inr v, en') \<Longrightarrow> en' = en \<and> verifier_of (cx_rx (ev_cx env)) k rec (cb_auth b) = Some v"
  by (auto simp: open_verifier_def from_option_def act_prims split: option.splits)

lemma check_chain_block_records:
  assumes "check_chain_block env block en = (r, en')"
  shows "sh_records en' = sh_records en" "sh_comm en' = sh_comm en" "sh_config en' = sh_config en" "sh_data en' = sh_data en"
  using assms by (auto simp: check_chain_block_def anchor_gate_def anchor_mismatch_def split: if_splits prod.splits option.splits)

lemma insert_envelope_keys_records:
  "insert_envelope_keys env tag vs l en = (r, en') \<Longrightarrow> \<exists>ks. en' = en\<lparr>sh_keys := ks\<rparr>"
proof (induction env tag vs l en rule: insert_envelope_keys.induct)
  case (1 env carrier learned en)
  then show ?case by (auto intro: exI [of _ "sh_keys en"])
next
  case (2 env carrier v vs learned en)
  then show ?case by (auto intro: exI [of _ "sh_keys en"] split: sum.splits)
qed

lemma extract_records: "extract_encryption_key env b en = (r, en') \<Longrightarrow> \<exists>ks. en' = en\<lparr>sh_keys := ks\<rparr>"
  by (auto simp: extract_encryption_key_def bind_act_def record_of_def from_option_def act_prims Let_def
      intro: exI [of _ "sh_keys en"] insert_envelope_keys_records
      split: option.splits change_record.splits if_splits prod.splits)

lemma retry_one_cases:
  assumes "retry_one env h en = (Inr p, en')"
  shows "if p then \<exists>en1. sh_records en1 = sh_records en \<and> promote_row h en1 = (Inr (), en') else sh_records en' = sh_records en"
proof -
  obtain rec key where rec: "record_of env (rr_record h) en = (Inr rec, en)" "find_record_key env rec (rr_record h) en = (Inr key, en)"
    using assms by (auto simp: retry_one_def Let_def bind_act_Inr dest: record_of_Inr find_record_key_Inr)
  show ?thesis
  proof (cases key)
    case None
    then show ?thesis using assms rec by (simp add: retry_one_def Let_def bind_act_def ret_def)
  next
    case (Some k)
    let ?learn = "if record_type rec = user_change_tag then extract_encryption_key env (rr_record h) else ret False"
    have "?thesis \<or> (\<exists>x en1 state en2. ?learn en = (Inr x, en1) \<and> check_chain_block env (rr_record h) en1 = (Inr state, en2)
        \<and> (if state = rs_in_sync then bind_act (promote_row h) (\<lambda>_. ret True) else ret False) en2 = (Inr p, en'))"
      using assms rec Some by (auto simp: retry_one_def Let_def bind_act_Inr ret_def dest!: open_verifier_Inr split: if_splits)
    moreover have "?learn en = (Inr x, en1) \<Longrightarrow> sh_records en1 = sh_records en" for x en1
      using extract_records by (fastforce simp: ret_def split: if_splits)
    ultimately show ?thesis
      using check_chain_block_records(1) by (fastforce simp: bind_act_Inr ret_def split: if_splits)
  qed
qed

lemma promote_row_le: "promote_row h en = (Inr x, en') \<Longrightarrow> pending_sync_count en' \<le> pending_sync_count en"
proof -
  assume "promote_row h en = (Inr x, en')"
  then obtain en1 where en1: "set_row_state (rr_key h) rs_in_sync en = (Inr (), en1)" "en' = notify_on_record h en1"
    by (auto simp: promote_row_def bind_act_Inr modify_def)
  have "sh_records en' = sh_records en1" by (simp add: en1(2) notify_on_record_def split: record_type_tag.splits)
  moreover have "length (filter (\<lambda>r. rr_state r = rs_pending_sync) (map (\<lambda>r. if rr_key r = rr_key h
      then r\<lparr>rr_state := rs_in_sync, rr_useq := is_server_confirmed rs_in_sync\<rparr> else r) (rs_records (sh_records en))))
    \<le> length (filter (\<lambda>r. rr_state r = rs_pending_sync) (rs_records (sh_records en)))"
    by (rule count_filter_map_le) (auto split: if_splits)
  ultimately show ?thesis
    by (simp add: pending_sync_count_def of_state_def set_row_state_Inr(1) [OF en1(1)])
qed

lemma retry_pass_less:
  "retry_pass env hs en = (Inr p, en') \<Longrightarrow> pending_sync_count en' \<le> pending_sync_count en
    \<and> (set hs \<subseteq> set (of_state rs_pending_sync (sh_records en)) \<longrightarrow> p \<longrightarrow> pending_sync_count en' < pending_sync_count en)"
proof (induction env hs arbitrary: en p rule: retry_pass.induct)
  case (2 env h hs)
  from "2.prems" obtain p1 en1 p2 where r: "retry_one env h en = (Inr p1, en1)" "retry_pass env hs en1 = (Inr p2, en')" "p = (p1 \<or> p2)"
    by (auto simp: bind_act_Inr ret_def)
  note IH = "2.IH" [OF r(2)]
  show ?case
  proof (cases p1)
    case True
    then obtain en0 where en0: "sh_records en0 = sh_records en" "promote_row h en0 = (Inr (), en1)"
      using retry_one_cases [OF r(1)] by auto
    then have "pending_sync_count en0 = pending_sync_count en" by (simp add: pending_sync_count_def)
    then show ?thesis using IH promote_row_le [OF en0(2)] promote_row_less [OF en0(2)] en0(1) by auto
  next
    case False
    then have "sh_records en1 = sh_records en" using retry_one_cases [OF r(1)] by simp
    then show ?thesis using IH r(3) False by (auto simp: pending_sync_count_def)
  qed
qed (simp add: ret_def)

function retry_undecrypted_pending :: "engine_env \<Rightarrow> unit act" where
  "retry_undecrypted_pending env en =
     (case retry_pass env (waiting_rows en) en of
        (Inl e, en1) \<Rightarrow> (Inl e, en1)
      | (Inr True, en1) \<Rightarrow> retry_undecrypted_pending env en1
      | (Inr False, en1) \<Rightarrow> (Inr (), en1))"
  by pat_completeness auto
termination
proof (relation "measure (\<lambda>(env, en). pending_sync_count en)", goal_cases)
  case (2 env en r en1)
  have "set (waiting_rows en) \<subseteq> set (of_state rs_pending_sync (sh_records en))"
    by (auto simp: waiting_rows_def find_range_def of_state_def dest!: in_set_takeD)
  then show ?case using 2 retry_pass_less [of env "waiting_rows en" en True en1] by auto
qed simp

declare retry_undecrypted_pending.simps [simp del]

definition handle_block :: "engine_env \<Rightarrow> chain_block \<Rightarrow> change_record \<Rightarrow> unit act" where
  "handle_block env block rec =
     bind_act (find_record_key env rec block) (\<lambda>key.
       bind_act (if key = None \<and> record_type rec = user_change_tag
           then bind_act (extract_encryption_key env block) (\<lambda>learned.
                  bind_act (find_record_key env rec block) (\<lambda>key1. ret (key1, learned)))
           else ret (key, False)) (\<lambda>(key1, learned).
         bind_act (case key1 of
             Some k \<Rightarrow> verify_block env k block rec
           | None \<Rightarrow> bind_act (create_row env block rs_pending_sync) (\<lambda>_. ret ())) (\<lambda>_.
           when_act learned (retry_undecrypted_pending env))))"

definition is_structurally_valid :: "chain_block \<Rightarrow> engine \<Rightarrow> bool" where
  "is_structurally_valid block en = (ec_auth_mode (sh_config en) \<noteq> sign_records \<or> has_signature (cb_auth block))"

definition find_pending_by_op :: "change_record \<Rightarrow> engine \<Rightarrow> record_row option" where
  "find_pending_by_op rec en =
     (let op = rb_op_id (record_base_part rec)
      in if op \<noteq> []
         then case find_op_id op (sh_records en) of
             Some h \<Rightarrow> (if rr_state h = rs_pending_commit then Some h else None)
           | None \<Rightarrow> None
         else None)"

definition adopt_committed :: "engine_env \<Rightarrow> record_row \<Rightarrow> chain_block \<Rightarrow> unit act" where
  "adopt_committed env h block =
     bind_act (check_chain_block env block) (\<lambda>state.
       when_act (is_valid_state state)
         (bind_act (update_records (rs_set_record (ev_ex env) (rr_key h) block)) (\<lambda>_.
          bind_act (update_records (rs_set_state (rr_key h) state (block_id (ev_ex env) block) (cb_parent_hash block))) (\<lambda>_.
            when_act (state = rs_in_sync) (modify (notify_on_record h))))))"

definition keep_assignment :: "record_tag \<Rightarrow> block_envelope option \<Rightarrow> engine \<Rightarrow> engine" where
  "keep_assignment tag envelope en =
     (case envelope of
        Some e \<Rightarrow> (case find_tag tag (sh_records en) of
            Some h \<Rightarrow> en\<lparr>sh_records := rs_set_assignment (rr_key h) (Some e) [] 0 (sh_records en)\<rparr> | None \<Rightarrow> en)
      | None \<Rightarrow> en)"

definition handle_new_record :: "engine_env \<Rightarrow> chain_block \<Rightarrow> unit act" where
  "handle_new_record env block =
     bind_act (modify clear_rejections) (\<lambda>_. bind_act (record_of env block) (\<lambda>rec.
       bind_act (gets (find_pending_by_op rec)) (\<lambda>own.
         case own of Some h \<Rightarrow> adopt_committed env h block | None \<Rightarrow> handle_block env block rec)))"

definition handle_incoming_record :: "engine_env \<Rightarrow> chain_block \<Rightarrow> block_envelope option \<Rightarrow> unit act" where
  "handle_incoming_record env block envelope =
     bind_act (gets (is_structurally_valid block)) (\<lambda>valid.
       if bid_is_valid (block_id (ev_ex env) block) \<and> valid
       then bind_act (gets (\<lambda>en. find_tag (cb_tag block) (sh_records en))) (\<lambda>found.
              bind_act (case found of
                  None \<Rightarrow> handle_new_record env block
                | Some h \<Rightarrow>
                    (if rr_state h = rs_pending_commit
                     then bind_act (update_record_commit_state env h block) (\<lambda>_.
                            modify (\<lambda>en. en\<lparr>en_rejected := map_del (cb_tag block) (en_rejected en)\<rparr>))
                     else ret ())) (\<lambda>_.
                modify (keep_assignment (cb_tag block) envelope)))
       else ret ())"

section \<open>Another replica\<close>

definition demote_rows :: "record_state \<Rightarrow> unit act" where
  "demote_rows state =
     bind_act (gets (\<lambda>en. find_range 1 (- 1) state (length (rs_records (sh_records en))) (sh_records en))) (\<lambda>rows.
       for_each rows (\<lambda>h. set_row_state (rr_key h) rs_pending_commit))"

definition data_step :: "(engine \<Rightarrow> engine) \<Rightarrow> engine \<Rightarrow> engine" where
  "data_step f en = (if en_has_data en then f en else en)"

definition begin_replica_resync :: "engine_env \<Rightarrow> public_key_id \<Rightarrow> unit act" where
  "begin_replica_resync env owner =
     bind_act (demote_rows rs_in_sync) (\<lambda>_. bind_act (demote_rows rs_acked) (\<lambda>_.
       bind_act (on_records (truncate_from 1 False)) (\<lambda>_.
         bind_act (modify (data_step (sweep env))) (\<lambda>_.
           modify (\<lambda>en. en\<lparr>sh_records := set_cursor_owner owner (sh_records en), en_server_seq := 0\<rparr>)))))"

definition check_cursor_owner :: "engine_env \<Rightarrow> public_key_id \<Rightarrow> unit act" where
  "check_cursor_owner env server_id =
     bind_act (gets (\<lambda>en. (rs_cursor_owner (sh_records en), ec_mode (sh_config en)))) (\<lambda>(owner, mode).
       if \<not> cr_key_id_valid (ex_cr (ev_ex env)) server_id then ret ()
       else if owner = [] then modify (\<lambda>en. en\<lparr>sh_records := set_cursor_owner server_id (sh_records en)\<rparr>)
       else if owner \<noteq> server_id \<and> mode \<noteq> require_all_seen then begin_replica_resync env server_id
       else ret ())"

section \<open>Handlers of the connection's events\<close>

definition request_transfers :: "engine_env \<Rightarrow> engine \<Rightarrow> engine" where
  "request_transfers env = data_step (data_request_transfers env)"

definition engine_on_connected :: "engine_env \<Rightarrow> unit act" where
  "engine_on_connected env =
     modify (\<lambda>en.
       let en1 = data_step data_on_connected (clear_rejections (en\<lparr>en_pushing := 0\<rparr>));
           (h, c) = fetch_sequence_number (sh_comm en1)
       in en1\<lparr>sh_comm := c\<rparr>)"

definition engine_on_disconnected :: "unit act" where
  "engine_on_disconnected = modify (\<lambda>en. data_step data_on_disconnected (en\<lparr>en_pushing := 0, en_in_flight := [], en_fetch_starts := []\<rparr>))"

definition on_sequence_number_response :: "engine_env \<Rightarrow> sequence_info result \<Rightarrow> unit act" where
  "on_sequence_number_response env res =
     (case res of
        Inl _ \<Rightarrow> ret ()
      | Inr info \<Rightarrow>
          bind_act (check_cursor_owner env (si_server_id info)) (\<lambda>_.
            bind_act (modify (\<lambda>en. learn_data_endpoints (si_data_endpoints info)
                (learn_limits (si_limits info) (update_server_seq (si_sequence info) en)))) (\<lambda>_.
              bind_act fetch_missing (\<lambda>fetching.
                bind_act (when_act (\<not> fetching) (try_commit_pending env)) (\<lambda>_.
                  modify (request_transfers env))))))"

definition on_record_response :: "engine_env \<Rightarrow> request_handle \<Rightarrow> record_response \<Rightarrow> unit act" where
  "on_record_response env handle res =
     (case re_data res of
        Inl _ \<Rightarrow> ret ()
      | Inr blocks \<Rightarrow>
          (if blocks \<noteq> []
           then bind_act (for_each blocks (\<lambda>b. handle_incoming_record env b None)) (\<lambda>_.
             let last_seq = cb_sequence (last blocks);
                 more = (last_seq < re_requested_max res \<or> (\<not> seq_is_valid (re_requested_max res) \<and> last_seq < re_server_max res))
             in bind_act (if more then fetch_progressed handle last_seq else ret False) (\<lambda>go_on.
                  bind_act (if go_on then bind_act (fetch_from last_seq (re_requested_max res)) (\<lambda>_. ret ()) else on_fetch_complete env) (\<lambda>_.
                    modify (request_transfers env))))
           else on_fetch_complete env))"

definition on_commit_response :: "engine_env \<Rightarrow> request_handle \<Rightarrow> commit_response \<Rightarrow> unit act" where
  "on_commit_response env handle res =
     bind_act (modify (\<lambda>en. if handle = en_pushing en then en\<lparr>en_pushing := 0\<rparr> else en)) (\<lambda>_.
       bind_act (take_in_flight handle) (\<lambda>committed_tag.
         case co_data res of
           Inl err \<Rightarrow> on_commit_rejected env committed_tag err (co_server_max res)
         | Inr block \<Rightarrow>
             (if bid_is_valid (block_id (ev_ex env) block)
              then bind_act (gets (\<lambda>en. find_tag (cb_tag block) (sh_records en))) (\<lambda>found.
                case found of
                  None \<Rightarrow> ret ()
                | Some h \<Rightarrow>
                    bind_act (update_record_commit_state env h block) (\<lambda>_.
                      bind_act (modify (keep_assignment (cb_tag block) (co_envelope res))) (\<lambda>_.
                        bind_act (modify (request_transfers env)) (\<lambda>_. try_commit_pending env))))
              else ret ())))"

definition on_record_received :: "engine_env \<Rightarrow> chain_block \<Rightarrow> block_envelope option \<Rightarrow> unit act" where
  "on_record_received env block envelope =
     bind_act (handle_incoming_record env block envelope) (\<lambda>_. modify (request_transfers env))"

fun handle_event :: "engine_env \<Rightarrow> comm_event \<Rightarrow> unit act" where
  "handle_event env Ev_connected = engine_on_connected env"
| "handle_event env (Ev_disconnected _) = engine_on_disconnected"
| "handle_event env (Ev_sequence_number _ res) = on_sequence_number_response env res"
| "handle_event env (Ev_records h res) = on_record_response env h res"
| "handle_event env (Ev_downloaded h err) = modify (data_step (on_download_answer env h err))"
| "handle_event env (Ev_data_available i complete) = modify (if complete then data_step (on_data_announced env i) else id)"
| "handle_event env (Ev_equivocation sid p) = modify (engine_equivocation env sid p)"
| "handle_event env (Ev_commit h res) = on_commit_response env h res"
| "handle_event env (Ev_uploaded h err) = modify (data_step (on_upload_answer env h err))"
| "handle_event env (Ev_record block envelope) = on_record_received env block envelope"

section \<open>The application's calls\<close>

definition check_engine_config :: "sync_engine_config \<Rightarrow> unit result" where
  "check_engine_config config =
     (if \<not> valid_storage_modes \<lparr>sm_mode = ec_mode config, sm_auth = ec_auth_mode config, sm_replication = ec_replication config,
            sm_limits = no_limits\<rparr>
      then Inl (Sync invalid_configuration) else Inr ())"

definition sync_engine_of ::
  "comm \<Rightarrow> record_storage \<Rightarrow> key_storage \<Rightarrow> chunk_files option \<Rightarrow> sync_engine_config \<Rightarrow> engine result" where
  "sync_engine_of c st keys files config =
     bind_result (check_engine_config config) (\<lambda>_. Inr
       \<lparr>sh_comm = c, sh_records = st, sh_keys = keys, sh_config = config,
        sh_files = value_or files \<lparr>cf_dirs = Map.empty, cf_stages = Map.empty\<rparr>, sh_drops = 0, sh_data = no_data_sync, sh_output = False,
        sh_events = [], sh_draws = 0, en_has_data = (files \<noteq> None), en_server_seq = 0, en_pushing = 0, en_limits = rs_limits st,
        en_in_flight = [], en_fetch_starts = [], en_rejected = [], en_fork = False, en_anchor_contradicted = False\<rparr>)"

definition set_output :: "bool \<Rightarrow> engine \<Rightarrow> engine" where
  "set_output out en = en\<lparr>sh_output := out\<rparr>"

definition set_config :: "sync_engine_config \<Rightarrow> unit act" where
  "set_config config = bind_act (lift_result (check_engine_config config)) (\<lambda>_. modify (\<lambda>en. en\<lparr>sh_config := config\<rparr>))"

definition data_chunk_size :: "engine \<Rightarrow> u32" where
  "data_chunk_size en = (if lim_chunk_size (en_limits en) \<noteq> 0 then lim_chunk_size (en_limits en) else default_chunk_size)"

definition engine_current_key :: "engine_env \<Rightarrow> encryption_key act" where
  "engine_current_key env = bind_act (gets (\<lambda>en. current_key (cx_kc (ev_cx env)) (sh_keys en))) lift_result"

type_synonym data_source = "(u64 \<Rightarrow> u64 \<Rightarrow> octets) \<times> u64"

definition stream_source :: "engine_env \<Rightarrow> data_source \<Rightarrow> data_writer act" where
  "stream_source env source =
     bind_act (gets en_has_data) (\<lambda>has_data.
       if \<not> has_data then raise (Sync invalid_configuration)
       else bind_act (engine_current_key env) (\<lambda>key. bind_act (gets data_chunk_size) (\<lambda>chunk_size.
         data_stream env key chunk_size (fst source) (snd source))))"

text \<open>The writer finished; one that could not be finished is dropped.\<close>

definition finish_writer :: "engine_env \<Rightarrow> data_writer \<Rightarrow> encrypted_data_result act" where
  "finish_writer env w en =
     (case writer_finish (ev_ex env) (ev_ae env) (w, host_store en) of
        (Inr res, _, ds) \<Rightarrow> (Inr res, put_store ds en)
      | (Inl e, w1, ds) \<Rightarrow> (Inl e, put_store (writer_drop w1 ds) en))"

definition create_and_commit :: "engine_env \<Rightarrow> change_record \<times> content_auth \<Rightarrow> nat act" where
  "create_and_commit env rec =
     bind_act (check_record_size env rec) (\<lambda>_.
       bind_act (create_row env (chain_block_of (ev_ex env) (fst rec) (snd rec)) rs_pending_commit) (\<lambda>h.
         bind_act (commit_record (rr_key h)) (\<lambda>_. ret (rr_key h))))"

definition create_object_change ::
  "engine_env \<Rightarrow> object_id \<Rightarrow> metadata \<Rightarrow> encrypted_data_result option \<Rightarrow> nat act" where
  "create_object_change env oid mdata change_data =
     bind_act (gets (\<lambda>en. (find_last_object oid (sh_records en), base_block en))) (\<lambda>(last_record, base).
       if \<not> bid_is_valid base then raise (Sync invalid_record_chain_state)
       else bind_act (engine_current_key env) (\<lambda>key. bind_act (new_creator env key base []) (\<lambda>creator.
         create_and_commit env (create_data_change (ev_ex env) (cx_rx (ev_cx env)) creator
           [(\<lparr>pc_id = oid, pc_previous_tag = (case last_record of Some r \<Rightarrow> rr_tag r | None \<Rightarrow> []),
              pc_data = map_option er_descriptor change_data, pc_trailing = []\<rparr>,
             \<lparr>dch_creation_time = ev_now env, dch_data = map_option er_header change_data, dch_metadata = mdata, dch_trailing = []\<rparr>)]))))"

definition sync_object_change :: "engine_env \<Rightarrow> object_id \<Rightarrow> metadata \<Rightarrow> data_source option \<Rightarrow> nat act" where
  "sync_object_change env oid mdata source =
     bind_act (case source of
         Some src \<Rightarrow> bind_act (stream_source env src) (\<lambda>w. bind_act (finish_writer env w) (\<lambda>res. ret (Some res)))
       | None \<Rightarrow> ret None) (\<lambda>change_data.
       try_catch (create_object_change env oid mdata change_data) (\<lambda>e.
         bind_act (when_act (change_data \<noteq> None) (modify (data_step (sweep env)))) (\<lambda>_. raise e)))"

definition sync_user_change :: "engine_env \<Rightarrow> plain_user_change_data \<Rightarrow> metadata \<Rightarrow> nat act" where
  "sync_user_change env change_data mdata =
     bind_act (gets base_block) (\<lambda>base. bind_act (engine_current_key env) (\<lambda>key.
       bind_act (new_creator env key base []) (\<lambda>creator.
         create_and_commit env (user_change_result (ev_ex env) (cx_rx (ev_cx env)) creator
           \<lparr>uch_info = [], uch_metadata = mdata, uch_trailing = []\<rparr> change_data))))"

definition sync_segment_end :: "engine_env \<Rightarrow> metadata \<Rightarrow> nat act" where
  "sync_segment_end env mdata =
     bind_act (gets (\<lambda>en. (base_block en, find_first_pending_commit (sh_records en)))) (\<lambda>(base, pending).
       if \<not> bid_is_valid base then raise (Sync invalid_record_chain_state)
       else if pending \<noteq> None then raise (Sync invalid_record_chain_state)
       else bind_act (engine_current_key env) (\<lambda>key. bind_act (new_creator env key base []) (\<lambda>creator.
         bind_act (make_segment_data env base) (\<lambda>data.
           create_and_commit env (segment_result (ev_ex env) (cx_rx (ev_cx env)) creator
             \<lparr>sgh_creation_time = ev_now env, sgh_metadata = mdata, sgh_trailing = []\<rparr> data)))))"

definition read_change :: "engine_env \<Rightarrow> nat \<Rightarrow> nat \<Rightarrow> opened_change option act" where
  "read_change env k i =
     bind_act (handle_row k) (\<lambda>h.
       if rr_type h \<noteq> data_change_tag then ret None
       else bind_act (record_of env (rr_record h)) (\<lambda>rec. bind_act (find_record_key env rec (rr_record h)) (\<lambda>key.
         case key of
           None \<Rightarrow> ret None
         | Some key1 \<Rightarrow>
             bind_act (open_verifier env key1 rec (rr_record h)) (\<lambda>ver.
               case rv_opened ver of
                 Opened_data headers \<Rightarrow>
                   ret (if is_authentic (cx_rx (ev_cx env)) ver \<and> i < length headers then Some (headers ! i) else None)
               | _ \<Rightarrow> raise thrown))))"

definition open_object_data :: "engine_env \<Rightarrow> nat \<Rightarrow> nat \<Rightarrow> stored_record_data option act" where
  "open_object_data env k i =
     bind_act (gets en_has_data) (\<lambda>has_data.
       if \<not> has_data then ret None
       else bind_act (read_change env k i) (\<lambda>read.
         case read of Some c \<Rightarrow> open_change_data env c | None \<Rightarrow> ret None))"

definition fetch_object_data :: "engine_env \<Rightarrow> nat \<Rightarrow> nat \<Rightarrow> stored_record_data option act" where
  "fetch_object_data env k i =
     bind_act (gets en_has_data) (\<lambda>has_data.
       if \<not> has_data then ret None
       else bind_act (read_change env k i) (\<lambda>read. bind_act (plan_adoption env read) (\<lambda>plan.
         bind_act (case plan of
             Some p \<Rightarrow> modify (\<lambda>en. let (adopted, en1) = adopt env p en
               in if adopted then notify (Data_state_changed (manifest_digest (ad_wanted p)) ds_in_sync) en1 else en1)
           | None \<Rightarrow> ret ()) (\<lambda>_. fetch_change_data env read))))"

definition prune_history :: "engine_env \<Rightarrow> record_tag \<Rightarrow> chain_block_id act" where
  "prune_history env segment_tag' =
     bind_act (gets (\<lambda>en. if segment_tag' = [] then find_last_of_type segment_tag (sh_records en) else find_tag segment_tag' (sh_records en))) (\<lambda>found.
       case found of
         None \<Rightarrow> raise (Sync constraint_violation)
       | Some segment \<Rightarrow>
           (if rr_type segment \<noteq> segment_tag \<or> rr_state segment \<noteq> rs_in_sync then raise (Sync constraint_violation)
            else let anchor = row_block_id segment
              in bind_act (gets (\<lambda>en. object_chain_tags_below (bid_sequence anchor) (sh_records en))) (\<lambda>retained.
                bind_act (on_records (truncate_prefix (bid_sequence anchor) retained)) (\<lambda>_.
                bind_act (modify (data_step (sweep env))) (\<lambda>_.
                bind_act (modify (\<lambda>en. data_step (prune_superseded env (bid_sequence anchor) (kept_data_versions (en_limits en))) en)) (\<lambda>_.
                bind_act (modify (\<lambda>en. en\<lparr>sh_config := (sh_config en)\<lparr>ec_trusted_anchor := anchor\<rparr>\<rparr>)) (\<lambda>_. ret anchor)))))))"

definition engine_verify_history :: "engine_env \<Rightarrow> engine \<Rightarrow> history_verify_report result option" where
  "engine_verify_history env en =
     verify_history (ev_cx env) (sh_records en) (sh_keys en) (ec_verification (sh_config en)) (bid_hash (ec_trusted_anchor (sh_config en)))"

section \<open>Runs\<close>

text \<open>
  What happens to an engine: an event of the connection, a call of the application, or the other
  storages of the connection taking call numbers. An exception is dropped with its call.
\<close>

datatype engine_call =
    Deliver comm_event
  | Object_change object_id metadata "data_source option"
  | User_change_call plain_user_change_data metadata
  | Segment_end metadata
  | Object_data nat nat
  | Fetch_object_data nat nat
  | Prune_history record_tag
  | Set_output bool
  | Other_requests u32

fun engine_do :: "engine_env \<Rightarrow> engine_call \<Rightarrow> engine \<Rightarrow> engine" where
  "engine_do env (Deliver e) en = snd (handle_event env e en)"
| "engine_do env (Object_change oid mdata source) en = snd (sync_object_change env oid mdata source en)"
| "engine_do env (User_change_call data mdata) en = snd (sync_user_change env data mdata en)"
| "engine_do env (Segment_end mdata) en = snd (sync_segment_end env mdata en)"
| "engine_do env (Object_data k i) en = snd (open_object_data env k i en)"
| "engine_do env (Fetch_object_data k i) en = snd (fetch_object_data env k i en)"
| "engine_do env (Prune_history tag) en = snd (prune_history env tag en)"
| "engine_do env (Set_output out) en = set_output out en"
| "engine_do env (Other_requests n) en = en\<lparr>sh_comm := other_requests n (sh_comm en)\<rparr>"

definition engine_run :: "engine_env \<Rightarrow> engine_call list \<Rightarrow> engine \<Rightarrow> engine" where
  "engine_run env calls en = fold (engine_do env) calls en"

end
