(* ===== verification/Engine_Frame.thy ===== *)
theory Engine_Frame
  imports Sync_Engine Data_Store_Run
begin

text \<open>
  What the parts of the engine leave alone. An operation of the data store keeps the data table well
  formed and the rows the records refer to (\<open>table_step\<close>); the record data half of the engine
  leaves the records, the configuration and the commits alone (\<open>host_frame\<close>). \<open>benign\<close> is the
  same for a step of the engine.
\<close>

section \<open>The data table\<close>

definition table_step :: "nat \<Rightarrow> data_state_table \<Rightarrow> data_state_table \<Rightarrow> bool" where
  "table_step ts t t' = (dt_wf ts t \<longrightarrow> dt_wf ts t' \<and> (\<forall>k. table_row_at k t \<noteq> None \<longrightarrow> table_row_at k t' \<noteq> None))"

named_theorems table_steps \<open>operations that keep the data table\<close>

lemma table_step_refl [simp, table_steps]: "table_step ts t t"
  by (simp add: table_step_def)

lemma table_step_trans: "table_step ts a b \<Longrightarrow> table_step ts b c \<Longrightarrow> table_step ts a c"
  by (simp add: table_step_def)

lemma table_row_at_update:
  assumes "\<And>r. tr_key (f r) = tr_key r"
  shows "table_row_at j (dt_update k f t) = map_option (\<lambda>r. if tr_key r = k then f r else r) (table_row_at j t)"
proof -
  have "find (\<lambda>r. tr_key r = j) (map (\<lambda>r. if tr_key r = k then f r else r) rows) =
      map_option (\<lambda>r. if tr_key r = k then f r else r) (find (\<lambda>r. tr_key r = j) rows)" for rows
    using assms by (induction rows) auto
  then show ?thesis by (simp add: table_row_at_def dt_update_def)
qed

lemma table_step_update:
  assumes "\<And>r. tr_key (f r) = tr_key r \<and> tr_data_id (f r) = tr_data_id r \<and> tr_enc_size (f r) = tr_enc_size r \<and> tr_chunk_size (f r) = tr_chunk_size r"
  shows "table_step ts t (dt_update k f t)"
  using assms by (auto simp: table_step_def table_row_at_update intro!: dt_wf_update)

lemma table_step_setters [table_steps]:
  "table_step ts t (dt_set_state k s t)" "table_step ts t (dt_set_have k b t)" "table_step ts t (dt_set_manifest k m t)"
  "table_step ts t (dt_set_header k h t)"
  unfolding table_setters by (rule table_step_update; simp)+

lemma table_step_ensure: "dt_ensure ts d t = Inr (k, t') \<Longrightarrow> table_step ts t t'"
  using table_row_at_insert
  by (auto simp: table_step_def dt_ensure_def Let_def intro!: dt_wf_insert split: if_splits option.splits)

lemmas table_step_setters' = table_step_trans [OF _ table_step_setters(1)] table_step_trans [OF _ table_step_setters(2)]
  table_step_trans [OF _ table_step_setters(3)] table_step_trans [OF _ table_step_setters(4)]

section \<open>The data store\<close>

abbreviation keeps_table :: "externals \<Rightarrow> data_store \<Rightarrow> data_store \<Rightarrow> bool" where
  "keeps_table ex a b \<equiv> table_step (ex_tag_size ex) (ds_table a) (ds_table b)"

lemma table_store_simple [table_steps]:
  "keeps_table ex ds (store_set_state ex i state ds)" "keeps_table ex ds (drop_chunks row state ds)"
  "keeps_table ex ds (drop_chunk row c ds)" "keeps_table ex ds (drop_if_lost ex row c ds)" "keeps_table ex ds (chunk_failed ex i c e ds)"
  by (auto simp: store_set_state_def drop_chunks_def drop_chunk_def drop_if_lost_def chunk_failed_def Let_def
      intro!: table_steps table_step_setters' split: option.splits)

lemma table_store_prune [table_steps]: "keeps_table ex ds (snd (store_prune ex i ds))"
  by (auto simp: store_prune_def intro: table_steps split: option.splits)

lemma table_read_chunk: "read_chunk ex io i c ds = (r, ds') \<Longrightarrow> keeps_table ex ds ds'"
  by (auto simp: read_chunk_def intro: table_steps split: option.splits if_splits)

lemma table_handle_load: "handle_load ex ae io c s = (ok, h, ds') \<Longrightarrow> keeps_table ex (snd s) ds'"
  by (auto simp: handle_load_def Let_def dest!: table_read_chunk intro: table_steps table_step_trans
      split: if_splits prod.splits option.splits)

lemma table_read_at: "keeps_table ex (snd s) (snd (snd (read_at ex ae io pos mx s)))"
  by (auto simp: read_at_def Let_def dest: table_handle_load split: prod.splits)

lemma table_handle_read_loop: "keeps_table ex (snd s) (snd (snd (handle_read_loop ex ae io offset buf sz s)))"
proof (induction ex ae io offset buf sz s rule: handle_read_loop.induct)
  case (1 ex ae io offset buf sz s)
  let ?r = "read_at ex ae io (offset + of_nat (length buf)) (sz - of_nat (length buf)) s"
  have "keeps_table ex (snd s) (snd (snd ?r))" by (rule table_read_at)
  then show ?case
    using "1.IH" [OF _ refl] by (subst handle_read_loop.simps) (auto simp: Let_def intro: table_step_trans)
qed

lemma table_handle_read: "handle_read ex ae io offset sz s = (b, h, ds') \<Longrightarrow> keeps_table ex (snd s) ds'"
  using table_handle_read_loop [of ex s ae io offset "[]" sz] by (auto simp: handle_read_def split: if_splits)

lemma table_open: "store_open ex ae keys d h ds = Inr (r, ds') \<Longrightarrow> keeps_table ex ds ds'"
  by (auto simp: store_open_def bind_result_Inr dest!: table_step_ensure intro: table_steps table_step_setters'
      split: if_splits option.splits)

lemma table_register: "register_held ex stage res state replace ds = (e, ds') \<Longrightarrow> keeps_table ex ds ds'"
  by (auto simp: register_held_def Let_def dest!: table_step_ensure intro!: table_step_setters'
      split: sum.splits prod.splits)

lemma table_staged [simp]:
  "ds_table (stage_emitted stage a b ds) = ds_table ds" "ds_table (writer_drop w ds) = ds_table ds"
  by (simp_all add: stage_emitted_def writer_drop_def)

lemma table_create: "store_create ae stage nonce key cs ds = (r, ds') \<Longrightarrow> ds_table ds' = ds_table ds"
  by (auto simp: store_create_def Let_def split: sum.splits)

lemma table_writer_write: "ds_table (snd (snd (writer_write ex ae p s))) = ds_table (snd s)"
  by (simp add: writer_write_def Let_def split: option.splits)

lemma table_writer_finish: "writer_finish ex ae s = (r, w, ds') \<Longrightarrow> keeps_table ex (snd s) ds'"
  using table_register by (fastforce simp: writer_finish_def Let_def split: option.splits prod.splits)

lemma stream_loop_keeps:
  assumes "Q st" "\<And>a b st. Q st \<Longrightarrow> Q (snd (rd a b st))" "\<And>p st. Q st \<Longrightarrow> Q (wr p st)"
  shows "Q (snd (stream_loop rd wr piece n pos st))"
  using assms(1)
proof (induction "n - pos" arbitrary: pos st rule: less_induct)
  case less
  let ?r = "rd (of_nat pos) (of_nat (min piece (n - pos))) st"
  show ?case
  proof (cases "pos < n \<and> fst ?r \<noteq> []")
    case True
    have "Q (snd (stream_loop rd wr piece n (pos + length (fst ?r)) (wr (fst ?r) (snd ?r))))"
      using True less.prems assms(2,3) by (intro less.hyps advance_less) auto
    then show ?thesis using True by (subst stream_loop.simps) (simp add: Let_def)
  next
    case False
    then show ?thesis using less.prems assms(2) by (subst stream_loop.simps) (auto simp: Let_def)
  qed
qed

lemma stream_record_data_keeps:
  assumes "stream_record_data rd wr n st = (e, st')" "Q st" "\<And>a b st. Q st \<Longrightarrow> Q (snd (rd a b st))" "\<And>p st. Q st \<Longrightarrow> Q (wr p st)"
  shows "Q st'"
proof -
  have "Q (snd (stream_loop rd wr (min (unat n) (256 * 1024)) (unat n) 0 st))"
    using assms(2-4) by (rule stream_loop_keeps)
  then show ?thesis using assms(1) by (auto simp: stream_record_data_def split: prod.splits bool.splits)
qed

lemma table_copy: "copy_record_data ex ae rd n s = (e, w, ds') \<Longrightarrow> ds_table ds' = ds_table (snd s)"
proof -
  assume c: "copy_record_data ex ae rd n s = (e, w, ds')"
  have "ds_table (snd (w, ds')) = ds_table (snd s)"
    if "stream_record_data (\<lambda>pos n st. (rd pos n, st)) (\<lambda>piece st. snd (writer_write ex ae piece st)) n s = (e, w, ds')"
    by (rule stream_record_data_keeps [where Q = "\<lambda>st. ds_table (snd st) = ds_table (snd s)", OF that])
      (simp_all add: table_writer_write)
  then show ?thesis using c by (auto simp: copy_record_data_def split: if_splits)
qed

lemma table_adopt:
  assumes "adopt_content ex ae io stage source key wanted header ds = (r, s1, ds')"
  shows "keeps_table ex ds ds'"
proof -
  let ?rd = "\<lambda>pos n (h, en, d). let (b, h1, d1) = handle_read ex ae io pos n (h, d) in (b, h1, en, d1)"
  let ?wr = "\<lambda>piece (h, en, d). let en1 = encryptor_write ae (ex_cr ex) piece en in (h, en1, stage_emitted stage en en1 d)"
  let ?Q = "\<lambda>(h, en, d). keeps_table ex ds d"
  have stream: "keeps_table ex ds d" if "keeps_table ex ds d0" "stream_record_data ?rd ?wr n (h0, e0, d0) = (e, h, en, d)" for n h0 e0 d0 e h en d
  proof -
    have "?Q (h, en, d)"
    proof (rule stream_record_data_keeps [where Q = ?Q, OF that(2)])
      show "?Q (h0, e0, d0)" using that(1) by simp
      show "?Q st \<Longrightarrow> ?Q (snd (?rd a b st))" for a b st
        by (cases st) (auto simp: Let_def dest!: table_handle_read intro: table_step_trans split: prod.splits)
      show "?Q st \<Longrightarrow> ?Q (?wr p st)" for p st by (cases st) (simp add: Let_def)
    qed
    then show ?thesis by simp
  qed
  show ?thesis
  proof (cases "data_encryptor_of ae key (dd_chunk_size wanted) (dh_nonce header)")
    case (Inl e)
    then show ?thesis using assms by (auto simp: adopt_content_def Let_def split: if_splits)
  next
    case (Inr enc)
    let ?ds1 = "ds\<lparr>ds_files := begin_staging stage (ds_files ds)\<rparr>"
    obtain e h en d where st: "stream_record_data ?rd ?wr (sd_plain_size source) (source, enc, ?ds1) = (e, h, en, d)"
      by (cases "stream_record_data ?rd ?wr (sd_plain_size source) (source, enc, ?ds1)") auto
    have k: "keeps_table ex ds d" by (rule stream [OF _ st]) simp
    obtain res en1 where f: "encryptor_finish ae (ex_cr ex) en = (res, en1)" by fastforce
    obtain e2 d2 where r: "register_held ex stage res ds_in_sync True (stage_emitted stage en en1 d) = (e2, d2)" by fastforce
    have k2: "keeps_table ex ds d2" using table_step_trans [OF k, of "ds_table d2"] table_register [OF r] by simp
    show ?thesis using assms Inr st f r k k2 by (auto simp: adopt_content_def Let_def split: option.splits if_splits)
  qed
qed

section \<open>The record data half of the engine\<close>

definition same_records :: "nat \<Rightarrow> record_storage \<Rightarrow> record_storage \<Rightarrow> bool" where
  "same_records ts st st' = (rs_records st' = rs_records st \<and> rs_objects st' = rs_objects st \<and> (rs_wf ts st \<longrightarrow> rs_wf ts st'))"

definition host_frame :: "engine_env \<Rightarrow> 'a sync_host_scheme \<Rightarrow> 'a sync_host_scheme \<Rightarrow> bool" where
  "host_frame env a b = (same_records (ex_tag_size (ev_ex env)) (sh_records a) (sh_records b) \<and> sh_config b = sh_config a
     \<and> sent_commits (sh_comm b) = sent_commits (sh_comm a) \<and> sync_host.more b = sync_host.more a)"

named_theorems host_frames \<open>parts of the record data half\<close>

lemma host_frame_refl [simp, host_frames]: "host_frame env h h"
  by (simp add: host_frame_def same_records_def)

lemma host_frame_trans [trans]: "host_frame env a b \<Longrightarrow> host_frame env b c \<Longrightarrow> host_frame env a c"
  by (auto simp: host_frame_def same_records_def)

lemma frame_put_store [host_frames]:
  assumes "keeps_table (ev_ex env) (host_store h) ds"
  shows "host_frame env h (put_store ds h)"
  using assms
  by (auto simp: host_frame_def same_records_def put_store_def host_store_def rs_wf_def objects_wf_def table_step_def)

lemma frame_simps [simp]:
  "host_frame env h (notify e g) \<longleftrightarrow> host_frame env h g" "host_frame env h (g\<lparr>sh_data := d\<rparr>) \<longleftrightarrow> host_frame env h g"
  "host_frame env (h\<lparr>sh_data := d\<rparr>) g \<longleftrightarrow> host_frame env h g" "host_frame env h (snd (draw env g)) \<longleftrightarrow> host_frame env h g"
  by (simp_all add: host_frame_def same_records_def notify_def draw_def)

lemma frame_fold: "(\<And>x h. host_frame env h (f x h)) \<Longrightarrow> host_frame env h (fold f xs h)"
proof (induction xs arbitrary: h)
  case (Cons x xs)
  then show ?case using host_frame_trans [of env h "f x h"] by simp
qed simp

lemma frame_set_state [host_frames]: "host_frame env h (data_set_state env i s h)"
  unfolding data_set_state_def by (simp add: frame_put_store table_steps)

lemma frame_prune [host_frames]: "host_frame env h (put_store (snd (store_prune (ev_ex env) i (host_store h))) h)"
  by (intro frame_put_store table_steps)

lemma frame_transfers [host_frames]: "host_frame env h (upload_one i h)" "host_frame env h (download_one i h)"
  by (auto simp: upload_one_def download_one_def Let_def host_frame_def same_records_def split: prod.splits)
    (metis sent_commits_transfers snd_conv)+

lemma frame_requests [host_frames]:
  "host_frame env h (request_uploads h)" "host_frame env h (request_downloads h)" "host_frame env h (mark_auto_fetch env h)"
  by (auto simp: request_uploads_def request_downloads_def mark_auto_fetch_def auto_fetch_one_def
      intro!: frame_fold host_frames split: option.splits)

lemma frame_request_transfers [host_frames]: "host_frame env h (data_request_transfers env h)"
  unfolding data_request_transfers_def by (rule host_frame_trans [OF host_frame_trans]) (rule host_frames)+

lemma frame_pruned [host_frames]: "host_frame env h (on_data_pruned env i e h)"
  by (auto simp: on_data_pruned_def intro: host_frames split: option.splits)

lemma frame_ends [host_frames]: "host_frame env h (mark_uploaded env i h)" "host_frame env h (on_download_failed env i err h)"
  by (auto simp: mark_uploaded_def on_download_failed_def Let_def intro: host_frames split: option.splits)

lemma frame_data_first: "host_frame env (h\<lparr>sh_data := d\<rparr>) g \<Longrightarrow> host_frame env h g"
  by simp

lemma frame_answers [host_frames]:
  "host_frame env h (on_upload_answer env req err h)" "host_frame env h (on_download_answer env req err h)"
  by (auto simp: on_upload_answer_def on_download_answer_def Let_def intro: host_frames frame_data_first split: option.splits)

lemma frame_announced [host_frames]: "host_frame env h (on_data_announced env i h)"
  unfolding on_data_announced_def forget_failed_download_def
  by (rule host_frame_trans [OF _ frame_requests(2)]) (auto intro: host_frames split: option.splits)

lemma frame_want [host_frames]: "host_frame env h (snd (want_data env i h))"
  by (auto simp: want_data_def forget_failed_download_def Let_def intro: host_frames)

lemma frame_connection [host_frames]: "host_frame env h (data_on_connected h)" "host_frame env h (data_on_disconnected h)"
  by (simp_all add: data_on_connected_def data_on_disconnected_def)

lemma frame_stream [host_frames]: "host_frame env h (snd (data_stream env key cs rd n h))"
proof -
  obtain stage h1 nonce h2 where d: "draw env h = (stage, h1)" "draw env h1 = (nonce, h2)" by fastforce
  have h2: "host_frame env h h2" using frame_simps(4) [of env h h1] frame_simps(4) [of env h h] d by simp
  obtain r ds where c: "store_create (ev_ae env) stage nonce key cs (host_store h2) = (r, ds)" by fastforce
  have put: "host_frame env h (put_store ds' h2)" if "ds_table ds' = ds_table (host_store h2)" for ds'
    by (rule host_frame_trans [OF h2 frame_put_store]) (simp add: that)
  show ?thesis
  proof (cases r)
    case (Inl e)
    then show ?thesis using put [OF table_create [OF c]] by (simp add: data_stream_def d c)
  next
    case (Inr w)
    obtain e w1 ds1 where w1: "copy_record_data (ev_ex env) (ev_ae env) rd n (w, ds) = (e, w1, ds1)" by (metis prod_cases3)
    then have "ds_table ds1 = ds_table (host_store h2)" using table_copy [OF w1] table_create [OF c] by simp
    then show ?thesis using put [of ds1] put [of "writer_drop w1 ds1"]
      by (cases e) (simp_all add: data_stream_def d c Inr w1)
  qed
qed

lemma frame_prune_one: "host_frame env h (prune_one env i h)"
proof -
  have "store_prune (ev_ex env) i (host_store h) = (b, ds) \<Longrightarrow> host_frame env h (put_store ds h)" for b ds
    using frame_prune [of env h i] by simp
  then show ?thesis by (auto simp: prune_one_def split: option.splits prod.splits bool.splits)
qed

lemma frame_prune_superseded [host_frames]: "host_frame env h (prune_superseded env q kept h)"
  unfolding prune_superseded_def by (intro frame_fold frame_prune_one)

lemma frame_open: "host_open env keys d info h = (r, h') \<Longrightarrow> host_frame env h h'"
  by (auto simp: host_open_def intro!: frame_put_store dest: table_open split: sum.splits prod.splits)

lemma frame_open_change: "open_change_data env c h = (r, h') \<Longrightarrow> host_frame env h h'"
  by (auto simp: open_change_data_def dest: frame_open split: option.splits sum.splits if_splits prod.splits)

lemma frame_plan: "plan_adoption env read h = (r, h') \<Longrightarrow> host_frame env h h'"
  by (auto simp: plan_adoption_def Let_def dest: frame_open split: option.splits sum.splits if_splits prod.splits)

lemma frame_adopt_with: "adopt_with env wanted header keys source h = (r, h') \<Longrightarrow> host_frame env h h'"
proof (induction keys arbitrary: source h)
  case (Cons key keys)
  show ?case
  proof (cases source)
    case (Some s)
    obtain stage h1 where d: "draw env h = (stage, h1)" by fastforce
    obtain res s1 ds where a: "adopt_content (ev_ex env) (ev_ae env) (ev_io env) stage s key wanted header (host_store h1) = (res, s1, ds)"
      by (metis prod_cases3)
    have "host_frame env h h1" using frame_simps(4) [of env h h] d by simp
    then have put: "host_frame env h (put_store ds h1)" by (rule host_frame_trans) (rule frame_put_store [OF table_adopt [OF a]])
    show ?thesis
    proof (cases "res = Inr False")
      case True
      then have "adopt_with env wanted header keys (Some s1) (put_store ds h1) = (r, h')" using Cons.prems Some d a by simp
      then show ?thesis using Cons.IH host_frame_trans [OF put] by blast
    next
      case False
      then show ?thesis using Cons.prems Some d a put by (auto split: sum.splits bool.splits)
    qed
  qed (use Cons.prems in simp)
qed simp

lemma frame_adopt: "host_frame env h (snd (adopt env plan h))"
  unfolding adopt_def by (metis frame_adopt_with prod.collapse)

lemma frame_fetch_change: "fetch_change_data env read h = (r, h') \<Longrightarrow> host_frame env h h'"
proof -
  have downloads: "host_frame env a (request_downloads b)" if "host_frame env a b" for a b :: "'a sync_host_scheme"
    by (rule host_frame_trans [OF that frame_requests(2)])
  have want: "host_frame env a b" if "host_frame env a c" "want_data env i c = (w, b)" for a b c :: "'a sync_host_scheme" and i w
    using host_frame_trans [OF that(1) frame_want [of env c i]] that(2) by simp
  assume "fetch_change_data env read h = (r, h')"
  then show ?thesis
    by (auto simp: fetch_change_data_def Let_def dest!: frame_open_change dest: want intro: downloads
        split: option.splits prod.splits sum.splits if_splits)
qed

lemma remove_one_keeps:
  assumes "dt_wf (ex_tag_size ex) (ds_table (snd s))" "table_row_at k (ds_table (snd s)) = Some r" "tr_data_id r \<noteq> i"
  shows "dt_wf (ex_tag_size ex) (ds_table (snd (store_remove_one ex i s)))"
    "table_row_at k (ds_table (snd (store_remove_one ex i s))) = Some r"
proof -
  let ?t = "ds_table (snd s)"
  show "dt_wf (ex_tag_size ex) (ds_table (snd (store_remove_one ex i s)))"
    using assms(1) by (simp add: store_remove_one_def dt_wf_remove split: option.splits)
  have "tr_key q \<noteq> k" if "table_row i ?t = Some q" for q
    using that assms table_row_SomeD [OF that] table_row_at_mem [OF assms(1), of q] by auto
  moreover have "find (\<lambda>r. tr_key r = k) (filter (\<lambda>r. tr_key r \<noteq> j) rows) = find (\<lambda>r. tr_key r = k) rows" if "j \<noteq> k" for j and rows :: "data_table_row list"
    using that by (induction rows) auto
  then have "table_row_at k (dt_remove j ?t) = Some r" if "j \<noteq> k" for j
    using that assms(2) by (simp add: table_row_at_def dt_remove_def)
  ultimately show "table_row_at k (ds_table (snd (store_remove_one ex i s))) = Some r"
    using assms(2) by (auto simp: store_remove_one_def dt_find_def split: option.splits)
qed

lemma remove_keeps:
  assumes "dt_wf (ex_tag_size ex) (ds_table ds)"
  shows "dt_wf (ex_tag_size ex) (ds_table (snd (store_remove ex ids ds)))"
    "table_row_at k (ds_table ds) = Some r \<Longrightarrow> tr_data_id r \<notin> set ids \<Longrightarrow> table_row_at k (ds_table (snd (store_remove ex ids ds))) = Some r"
proof -
  have wf: "dt_wf (ex_tag_size ex) (ds_table (snd s)) \<Longrightarrow> dt_wf (ex_tag_size ex) (ds_table (snd (fold (store_remove_one ex) ids s)))" for s
    by (induction ids arbitrary: s) (simp_all add: store_remove_one_def dt_wf_remove split: option.splits)
  have row: "dt_wf (ex_tag_size ex) (ds_table (snd s)) \<Longrightarrow> table_row_at k (ds_table (snd s)) = Some r \<Longrightarrow> tr_data_id r \<notin> set ids
      \<Longrightarrow> table_row_at k (ds_table (snd (fold (store_remove_one ex) ids s))) = Some r" for s
    by (induction ids arbitrary: s) (simp_all add: remove_one_keeps)
  show "dt_wf (ex_tag_size ex) (ds_table (snd (store_remove ex ids ds)))"
    "table_row_at k (ds_table ds) = Some r \<Longrightarrow> tr_data_id r \<notin> set ids \<Longrightarrow> table_row_at k (ds_table (snd (store_remove ex ids ds))) = Some r"
    using assms wf [of "(0, ds)"] row [of "(0, ds)"] by (simp_all add: store_remove_def)
qed

lemma frame_sweep [host_frames]: "host_frame env h (sweep env h)"
proof -
  let ?st = "sh_records h" and ?ex = "ev_ex env"
  let ?ds = "snd (store_remove ?ex (unreferenced ?st) (host_store h))"
  have "rs_wf (ex_tag_size ?ex) (?st\<lparr>rs_data := ds_table ?ds\<rparr>)" if wf: "rs_wf (ex_tag_size ?ex) ?st"
  proof (rule rs_wfI)
    have dt: "dt_wf (ex_tag_size ?ex) (ds_table (host_store h))" using rs_wfD(3) [OF wf] by (simp add: host_store_def)
    note keep = remove_keeps [OF dt, where ids = "unreferenced ?st"]
    show "dt_wf (ex_tag_size ?ex) (rs_data (?st\<lparr>rs_data := ds_table ?ds\<rparr>))" using keep(1) by simp
    have "table_row_at k (ds_table ?ds) \<noteq> None" if ob: "ob \<in> set (rs_objects ?st)" "or_data_ref ob = Some k" "table_row_at k (rs_data ?st) = Some r" for ob k r
    proof -
      have "r \<in> set (dt_rows (rs_data ?st))" "tr_key r = k" using table_row_at_SomeD [OF ob(3)] by auto
      then have "tr_data_id r \<notin> set (unreferenced ?st)" using unreferenced_not_referenced [OF wf] ob(1,2) by auto
      then show ?thesis using keep(2) [of k r] ob(3) by (simp add: host_store_def)
    qed
    then show "objects_wf (?st\<lparr>rs_data := ds_table ?ds\<rparr>)" using rs_wfD(2) [OF wf] by (fastforce simp: objects_wf_def)
  qed (use rs_wfD(1) [OF wf] in simp)
  then show ?thesis by (simp add: host_frame_def same_records_def sweep_def put_store_def)
qed

section \<open>The engine\<close>

definition benign :: "engine_env \<Rightarrow> engine \<Rightarrow> engine \<Rightarrow> bool" where
  "benign env a b = (same_records (ex_tag_size (ev_ex env)) (sh_records a) (sh_records b) \<and> sh_config b = sh_config a
     \<and> sent_commits (sh_comm b) = sent_commits (sh_comm a) \<and> en_fork b = en_fork a \<and> en_anchor_contradicted b = en_anchor_contradicted a)"

lemma benign_frame: "host_frame env a b \<Longrightarrow> benign env a b"
  by (cases a; cases b) (auto simp: host_frame_def benign_def)

lemma benign_refl [simp]: "benign env a a"
  by (simp add: benign_def same_records_def)

lemma benign_data_step: "(\<And>en. host_frame env en (f en)) \<Longrightarrow> benign env en (data_step f en)"
  by (simp add: data_step_def benign_frame)

end
