(* ===== verification/Engine_Invariant.thy ===== *)
theory Engine_Invariant
  imports Engine_Frame
begin

text \<open>
  Invariants of the engine. The locale \<open>engine_invariant\<close> names the changes of state the engine is
  made of, each with the condition under which the code makes it; an invariant that survives these
  survives every event and every call. The conditions are where the code earns them: a record enters
  in sync only by the verdict of \<open>check_chain_block\<close>, behind its parent, or below the held anchor.
\<close>

section \<open>The verdict on a block\<close>

definition verdict :: "engine_env \<Rightarrow> chain_block \<Rightarrow> engine \<Rightarrow> record_state" where
  "verdict env block en =
     (if en_anchor_contradicted en then rs_invalid
      else if bid_is_valid (ec_trusted_anchor (sh_config en)) \<and> held_anchor en = None
      then if block_hash (ev_ex env) block = bid_hash (ec_trusted_anchor (sh_config en)) then rs_in_sync
           else if contradicts_anchor env block en then rs_invalid else rs_pending_sync
      else if ec_mode (sh_config en) = require_all_seen then check_chain_block_strict block en
      else check_chain_block_weak block en)"

lemma check_verdict: "fst (check_chain_block env block en) = Inr (verdict env block en)"
  by (simp add: check_chain_block_def anchor_gate_def verdict_def)

lemma chain_checks_range:
  "check_chain_block_strict block en \<in> {rs_invalid, rs_pending_sync, rs_in_sync}"
  "check_chain_block_weak block en \<in> {rs_invalid, rs_pending_sync, rs_in_sync}"
  by (simp_all add: check_chain_block_strict_def check_anchor_chain_block_def check_chain_block_weak_def Let_def split: option.splits)

lemma check_chain_block_cases:
  "check_chain_block env block en = (Inr rs_invalid, anchor_mismatch block en)
    \<or> (\<exists>s\<in>{rs_invalid, rs_pending_sync, rs_in_sync}. check_chain_block env block en = (Inr s, en))"
proof -
  have "check_chain_block env block en = (Inr rs_invalid, anchor_mismatch block en)
    \<or> (\<exists>s. check_chain_block env block en = (Inr s, en)
      \<and> (s \<in> {rs_invalid, rs_pending_sync, rs_in_sync} \<or> s = check_chain_block_strict block en \<or> s = check_chain_block_weak block en))"
    by (auto simp: check_chain_block_def anchor_gate_def)
  then show ?thesis using chain_checks_range [of block en] by blast
qed

lemma check_chain_block_verdict:
  assumes "check_chain_block env block en = (r, en')"
  shows "r = Inr (verdict env block en)" "verdict env block en' = verdict env block en"
    "verdict env block en \<in> {rs_invalid, rs_pending_sync, rs_in_sync}" "verdict env block en \<noteq> rs_invalid \<Longrightarrow> en' = en"
    "en' = en \<or> en' = anchor_mismatch block en"
proof -
  have "check_chain_block env block (anchor_mismatch block en) = (Inr rs_invalid, anchor_mismatch block en)"
    by (simp add: check_chain_block_def anchor_mismatch_def notify_def)
  then show "r = Inr (verdict env block en)" "verdict env block en' = verdict env block en"
    "verdict env block en \<in> {rs_invalid, rs_pending_sync, rs_in_sync}" "verdict env block en \<noteq> rs_invalid \<Longrightarrow> en' = en"
    "en' = en \<or> en' = anchor_mismatch block en"
    using assms check_chain_block_cases [of env block en] check_verdict [of env block en] check_verdict [of env block en'] by auto
qed

lemma filter_map_same: "(\<And>x. x \<in> set xs \<Longrightarrow> P (f x) = P x \<and> (P x \<longrightarrow> f x = x)) \<Longrightarrow> filter P (map f xs) = filter P xs"
  by (induction xs) auto

lemma find_in_sync: "find (\<lambda>r. P r \<and> rr_state r = s) rows = find P (filter (\<lambda>r. rr_state r = s) rows)"
  by (induction rows) auto

lemma verdict_cong:
  assumes "of_state rs_in_sync (sh_records en') = of_state rs_in_sync (sh_records en)" "sh_config en' = sh_config en"
    "en_anchor_contradicted en' = en_anchor_contradicted en"
  shows "verdict env block en' = verdict env block en"
proof -
  have seq: "find_seq q rs_in_sync (sh_records en') = find_seq q rs_in_sync (sh_records en)" for q
    using assms(1) by (simp add: find_seq_def find_in_sync of_state_def)
  have hash: "find_hash h rs_in_sync (sh_records en') = find_hash h rs_in_sync (sh_records en)" for h
    using assms(1) by (simp add: find_hash_def find_in_sync of_state_def)
  have "local_rows False st = of_state rs_in_sync st" for st by (simp add: local_rows_def of_state_def)
  then have head: "last_block False (sh_records en') = last_block False (sh_records en)"
    using assms(1) by (simp add: last_block_def find_last_def)
  have held: "held_anchor en' = held_anchor en" by (simp add: held_anchor_def hash assms(2))
  show ?thesis
    unfolding verdict_def contradicts_anchor_def check_chain_block_strict_def check_chain_block_weak_def check_anchor_chain_block_def
      held seq hash head assms(2,3) by (rule refl)
qed

section \<open>New rows\<close>

definition new_row :: "externals \<Rightarrow> chain_block \<Rightarrow> record_state \<Rightarrow> record_row \<Rightarrow> bool" where
  "new_row ex block state r = (rr_tag r = cb_tag block \<and> rr_seq r = cb_sequence block \<and> rr_hash r = block_hash ex block
     \<and> rr_parent_hash r = cb_parent_hash block \<and> rr_state r = state \<and> rr_record r = block)"

lemma rs_create_new_row:
  assumes "rs_create ex block state st = Inr (k, st')"
  shows "\<exists>r. rs_records st' = rs_records st @ [r] \<and> new_row ex block state r \<and> rr_key r = k"
proof -
  obtain rec where rec: "deserialise_record ex block = Some rec"
    using assms by (cases "deserialise_record ex block") (simp_all add: rs_create_def)
  have "\<exists>st1. insert_to_db ex block state (record_type rec) (rb_op_id (record_base_part rec)) st = Inr (k, st1) \<and> rs_records st' = rs_records st1"
    using assms rec by (cases rec) (auto simp: rs_create_def bind_result_Inr dest: create_object_records_states)
  then show ?thesis by (auto simp: insert_to_db_def new_row_def Let_def split: if_splits)
qed

lemma handle_row_Inr: "handle_row k en = (Inr h, en') \<longleftrightarrow> rs_row k (sh_records en) = Some h \<and> en' = en"
  by (auto simp: handle_row_def bind_act_def act_prims from_option_def split: option.splits)

lemma on_records_Inr: "on_records f en = (Inr x, en') \<longleftrightarrow> (\<exists>st. f (sh_records en) = Inr (x, st) \<and> en' = en\<lparr>sh_records := st\<rparr>)"
  by (auto simp: on_records_def split: sum.splits)

lemma update_records_Inr: "update_records f en = (Inr x, en') \<longleftrightarrow> (\<exists>st. f (sh_records en) = Inr st \<and> en' = en\<lparr>sh_records := st\<rparr>)"
  by (auto simp: update_records_def split: sum.splits)

lemma records_Inl: "on_records f en = (Inl e, en') \<Longrightarrow> en' = en" "update_records g en = (Inl e, en') \<Longrightarrow> en' = en"
  "handle_row k en = (Inl e, en') \<Longrightarrow> en' = en"
  by (auto simp: on_records_def update_records_def handle_row_def bind_act_def act_prims from_option_def split: sum.splits option.splits)

lemma create_row_Inr:
  assumes "create_row env block state en = (Inr h, en')"
  shows "\<exists>k st. rs_create (ev_ex env) block state (sh_records en) = Inr (k, st) \<and> en' = en\<lparr>sh_records := st\<rparr>
    \<and> h \<in> set (rs_records st) \<and> rr_key h = k"
  using assms by (auto simp: create_row_def bind_act_Inr on_records_Inr handle_row_Inr dest: rs_row_SomeD)

section \<open>The changes the engine is made of\<close>

abbreviation rows_of :: "engine \<Rightarrow> record_row set" where
  "rows_of en \<equiv> set (rs_records (sh_records en))"

fun prunes :: "engine_call \<Rightarrow> bool" where
  "prunes (Prune_history _) = True"
| "prunes _ = False"

locale engine_invariant =
  fixes env :: engine_env and I :: "engine \<Rightarrow> bool"
  assumes rows: "I en \<Longrightarrow> rows_wf (rs_records (sh_records en))"
    and benign: "I en \<Longrightarrow> benign env en en' \<Longrightarrow> I en'"
    and commit: "I en \<Longrightarrow> \<not> en_fork en \<Longrightarrow> I (en\<lparr>sh_comm := c, en_pushing := h, en_in_flight := m\<rparr>)"
    and suspect: "I en \<Longrightarrow> I (en\<lparr>en_fork := True\<rparr>)"
    and contradict: "I en \<Longrightarrow> I (en\<lparr>en_fork := True, en_anchor_contradicted := True\<rparr>)"
    and invalidate: "I en \<Longrightarrow> r \<in> rows_of en \<Longrightarrow> \<not> is_server_confirmed (rr_state r)
      \<Longrightarrow> set_row_state (rr_key r) rs_invalid en = (Inr (), en') \<Longrightarrow> I en'"
    and confirm: "I en \<Longrightarrow> r \<in> rows_of en \<Longrightarrow> \<not> is_server_confirmed (rr_state r) \<Longrightarrow> bid_is_valid (block_id (ev_ex env) block)
      \<Longrightarrow> verdict env block en \<noteq> rs_invalid \<Longrightarrow> check_matches_without_server_data block (rr_record r)
      \<Longrightarrow> rs_set_state (rr_key r) (verdict env block en) (block_id (ev_ex env) block) (cb_parent_hash block) (sh_records en) = Inr st
      \<Longrightarrow> I (en\<lparr>sh_records := st\<rparr>)"
    and rebuild: "I en \<Longrightarrow> r \<in> rows_of en \<Longrightarrow> rr_state r = rs_pending_commit
      \<Longrightarrow> rs_set_record (ev_ex env) (rr_key r) block (sh_records en) = Inr st \<Longrightarrow> I (en\<lparr>sh_records := st\<rparr>)"
    and receive: "I en \<Longrightarrow> bid_is_valid (block_id (ev_ex env) block)
      \<Longrightarrow> rs_create (ev_ex env) block (verdict env block en) (sh_records en) = Inr (k, st) \<Longrightarrow> I (en\<lparr>sh_records := st\<rparr>)"
    and wait: "I en \<Longrightarrow> bid_is_valid (block_id (ev_ex env) block)
      \<Longrightarrow> rs_create (ev_ex env) block rs_pending_sync (sh_records en) = Inr (k, st) \<Longrightarrow> I (en\<lparr>sh_records := st\<rparr>)"
    and submit: "I en \<Longrightarrow> rs_create (ev_ex env) (chain_block_of (ev_ex env) rec auth) rs_pending_commit (sh_records en) = Inr (k, st)
      \<Longrightarrow> I (en\<lparr>sh_records := st\<rparr>)"
    and promote_next: "I en \<Longrightarrow> p \<in> rows_of en \<Longrightarrow> rr_state p = rs_in_sync \<Longrightarrow> r \<in> rows_of en \<Longrightarrow> rr_state r = rs_pending_sync
      \<Longrightarrow> rr_seq r = rr_seq p + 1 \<Longrightarrow> rr_parent_hash r = rr_hash p \<Longrightarrow> en_anchor_contradicted en = False
      \<Longrightarrow> set_row_state (rr_key r) rs_in_sync en = (Inr (), en') \<Longrightarrow> I en'"
    and promote_retained: "I en \<Longrightarrow> a \<in> rows_of en \<Longrightarrow> rr_state a = rs_in_sync \<Longrightarrow> r \<in> rows_of en \<Longrightarrow> rr_state r = rs_pending_sync
      \<Longrightarrow> bid_is_valid (ec_trusted_anchor (sh_config en)) \<Longrightarrow> rr_hash a = bid_hash (ec_trusted_anchor (sh_config en))
      \<Longrightarrow> rr_seq r < rr_seq a \<Longrightarrow> en_anchor_contradicted en = False
      \<Longrightarrow> set_row_state (rr_key r) rs_in_sync en = (Inr (), en') \<Longrightarrow> I en'"
    and promote_retry: "I en \<Longrightarrow> r \<in> rows_of en \<Longrightarrow> rr_state r = rs_pending_sync \<Longrightarrow> verdict env (rr_record r) en = rs_in_sync
      \<Longrightarrow> set_row_state (rr_key r) rs_in_sync en = (Inr (), en') \<Longrightarrow> I en'"
    and assign: "I en \<Longrightarrow> I (en\<lparr>sh_records := rs_set_assignment k e [] 0 (sh_records en)\<rparr>)"
    and demote: "I en \<Longrightarrow> ec_mode (sh_config en) \<noteq> require_all_seen \<Longrightarrow> r \<in> rows_of en \<Longrightarrow> is_server_confirmed (rr_state r)
      \<Longrightarrow> set_row_state (rr_key r) rs_pending_commit en = (Inr (), en') \<Longrightarrow> I en'"
    and truncate: "I en \<Longrightarrow> ec_mode (sh_config en) \<noteq> require_all_seen
      \<Longrightarrow> truncate_from 1 False (sh_records en) = Inr (removed, st) \<Longrightarrow> I (en\<lparr>sh_records := st\<rparr>)"
begin

lemma pres_benign: "(\<And>en. benign env en (f en)) \<Longrightarrow> preserves I (modify f)"
  by (auto intro!: pres_modify dest: benign)

lemma keep_notify: "I en \<Longrightarrow> I (notify e en)"
  by (erule benign) (rule benign_frame, simp)

lemma pres_notify_on_record: "preserves I (modify (notify_on_record h))"
  by (intro pres_modify) (auto simp: notify_on_record_def keep_notify split: record_type_tag.splits)


lemma keep_draws: "I en \<Longrightarrow> I (en\<lparr>sh_draws := n\<rparr>)"
  by (erule benign) (simp add: benign_def same_records_def)

lemma keep_invalidate:
  assumes "I en" "r \<in> rows_of en" "\<not> is_server_confirmed (rr_state r)"
  shows "I (snd (set_row_state (rr_key r) rs_invalid en))"
proof (cases "set_row_state (rr_key r) rs_invalid en")
  case (Pair x en')
  then show ?thesis using invalidate [OF assms] assms(1) records_Inl(2) by (cases x) (auto simp: set_row_state_def)
qed

lemma pres_check: "preserves I (check_chain_block env block)"
proof (rule presI)
  fix en assume "I en"
  then show "I (snd (check_chain_block env block en))"
    using check_chain_block_cases [of env block en] keep_notify [OF contradict, of en] unfolding anchor_mismatch_def
    by (metis snd_conv)
qed

lemma keep_confirm:
  assumes "I en" "r \<in> rows_of en" "\<not> is_server_confirmed (rr_state r)" "bid_is_valid (block_id (ev_ex env) block)"
    "verdict env block en = s" "s \<noteq> rs_invalid" "check_matches_without_server_data block (rr_record r)"
  shows "I (snd (update_records (rs_set_state (rr_key r) s (block_id (ev_ex env) block) (cb_parent_hash block)) en))"
  using assms confirm [OF assms(1-4)] by (auto simp: update_records_def split: sum.splits)

lemma is_valid_verdict: "is_valid_state (verdict env block en) \<longleftrightarrow> verdict env block en \<noteq> rs_invalid"
  using check_chain_block_verdict(3) [of env block en] by (cases "check_chain_block env block en") (auto simp: is_valid_state_def)

lemma pres_bind_state:
  "I (snd (m en)) \<Longrightarrow> (\<And>x en'. m en = (Inr x, en') \<Longrightarrow> I en' \<Longrightarrow> I (snd (f x en'))) \<Longrightarrow> I (snd (bind_act m f en))"
  by (auto simp: bind_act_def split: prod.splits sum.splits)

lemma keep_commit_state:
  assumes "I en" "h \<in> rows_of en" "bid_is_valid (block_id (ev_ex env) block)"
  shows "I (snd (update_record_commit_state env h block en))"
proof (cases "rr_state h = rs_in_sync \<or> rr_state h = rs_acked")
  case True
  then show ?thesis using assms(1) by (simp add: update_record_commit_state_def ret_def)
next
  case False
  then have unconfirmed: "\<not> is_server_confirmed (rr_state h)" by (simp add: is_server_confirmed_def)
  obtain x en1 where c: "check_chain_block env block en = (x, en1)" by fastforce
  note v = check_chain_block_verdict [OF c]
  have I1: "I en1" using presD [OF pres_check assms(1), of block] c by simp
  have h1: "h \<in> rows_of en1" using assms(2) check_chain_block_records(1) [OF c] by simp
  let ?s = "verdict env block en"
  have "I (snd (bind_act (update_records (rs_set_state (rr_key h) ?s (block_id (ev_ex env) block) (cb_parent_hash block))) (\<lambda>_.
      when_act (?s = rs_in_sync) (modify (notify_on_record h))) en1))"
    if "check_matches_without_server_data block (rr_record h)" "?s \<noteq> rs_invalid"
    by (rule pres_bind_state, rule keep_confirm [OF I1 h1 unconfirmed assms(3) v(2) that(2,1)])
      (use keep_confirm [OF I1 h1 unconfirmed assms(3) v(2) that(2,1)] in
        \<open>auto intro!: presD [OF pres_when] presD [OF pres_notify_on_record] pres_notify_on_record\<close>)
  then show ?thesis
    using False v(1) keep_invalidate [OF I1 h1 unconfirmed]
    by (auto simp: update_record_commit_state_def bind_act_def c is_valid_verdict)
qed

lemma promoted_rows:
  assumes "set_row_state k s en = (Inr x, en')" "r \<in> rows_of en" "rr_key r \<noteq> k"
  shows "r \<in> rows_of en'"
  using assms(2,3) by (auto simp: set_row_state_Inr(1) [OF assms(1)] intro!: image_eqI [of _ _ r])

lemma promoted_row:
  assumes "set_row_state (rr_key r) s en = (Inr x, en')" "r \<in> rows_of en"
  shows "r\<lparr>rr_state := s, rr_useq := is_server_confirmed s\<rparr> \<in> rows_of en'"
  using assms(2) by (auto simp: set_row_state_Inr(1) [OF assms(1)] intro!: image_eqI [of _ _ r])

lemma set_row_state_frame:
  assumes "set_row_state k s en = (Inr x, en')"
  shows "sh_config en' = sh_config en" "en_anchor_contradicted en' = en_anchor_contradicted en" "en_fork en' = en_fork en"
  using set_row_state_Inr(2) [OF assms] by (metis engine.surjective engine.update_convs sync_host.select_convs engine.select_convs sync_host.update_convs)+

lemma notify_on_record_frame [simp]:
  "sh_records (notify_on_record h en) = sh_records en" "sh_config (notify_on_record h en) = sh_config en"
  "en_anchor_contradicted (notify_on_record h en) = en_anchor_contradicted en" "en_fork (notify_on_record h en) = en_fork en"
  by (auto simp: notify_on_record_def notify_def split: record_type_tag.splits)

lemma promote_row_Inr:
  assumes "promote_row h en = (Inr x, en')"
  obtains en1 where "set_row_state (rr_key h) rs_in_sync en = (Inr (), en1)" "en' = notify_on_record h en1"
  using assms by (auto simp: promote_row_def bind_act_Inr modify_def)

lemma keep_promote:
  assumes "I en" "\<And>en'. set_row_state (rr_key r) rs_in_sync en = (Inr (), en') \<Longrightarrow> I en'"
  shows "I (snd (promote_row r en))"
proof (cases "set_row_state (rr_key r) rs_in_sync en")
  case (Pair x en')
  then show ?thesis
    using assms presD [OF pres_notify_on_record, of en' r] records_Inl(2)
    by (cases x) (auto simp: promote_row_def bind_act_def set_row_state_def)
qed

lemma promoted_state:
  assumes "promote_row h en = (Inr x, en')"
  shows "sh_config en' = sh_config en" "en_anchor_contradicted en' = en_anchor_contradicted en"
    "r \<in> rows_of en \<Longrightarrow> rr_key r \<noteq> rr_key h \<Longrightarrow> r \<in> rows_of en'"
    "h \<in> rows_of en \<Longrightarrow> h\<lparr>rr_state := rs_in_sync, rr_useq := is_server_confirmed rs_in_sync\<rparr> \<in> rows_of en'"
proof -
  obtain en1 where en1: "set_row_state (rr_key h) rs_in_sync en = (Inr (), en1)" "en' = notify_on_record h en1"
    using assms by (rule promote_row_Inr)
  show "sh_config en' = sh_config en" "en_anchor_contradicted en' = en_anchor_contradicted en"
    "r \<in> rows_of en \<Longrightarrow> rr_key r \<noteq> rr_key h \<Longrightarrow> r \<in> rows_of en'"
    "h \<in> rows_of en \<Longrightarrow> h\<lparr>rr_state := rs_in_sync, rr_useq := is_server_confirmed rs_in_sync\<rparr> \<in> rows_of en'"
    using en1 set_row_state_frame(1,2) [OF en1(1)] promoted_rows [OF en1(1)] promoted_row [OF en1(1)] by simp_all
qed

lemma keep_pending:
  assumes "I en" "p \<in> rows_of en" "rr_state p = rs_in_sync" "row_block_id p = i" "\<not> en_anchor_contradicted en"
  shows "I (snd (check_pending_records i en))"
  using assms
proof (induction i en arbitrary: p rule: check_pending_records.induct)
  case (1 i en)
  show ?case
  proof (cases "find_seq (bid_sequence i + 1) rs_pending_sync (sh_records en)")
    case None
    then show ?thesis using "1.prems"(1) by (simp add: check_pending_records.simps)
  next
    case (Some nxt)
    then have nxt: "nxt \<in> rows_of en" "rr_seq nxt = bid_sequence i + 1" "rr_state nxt = rs_pending_sync"
      by (auto simp: find_seq_def dest!: find_SomeD)
    have i: "rr_seq p = bid_sequence i" "rr_hash p = bid_hash i" using "1.prems"(4) by (auto simp: row_block_id_def)
    show ?thesis
    proof (cases "rr_parent_hash nxt = bid_hash i")
      case True
      have keep: "I (snd (promote_row nxt en))"
        using promote_next [OF "1.prems"(1-3) nxt(1,3)] nxt(2) i True "1.prems"(1,5) by (intro keep_promote) auto
      obtain x en1 where x: "promote_row nxt en = (x, en1)" by fastforce
      show ?thesis
      proof (cases x)
        case (Inr u)
        note st = promoted_state [OF x [unfolded Inr]]
        have "I (snd (check_pending_records (row_block_id nxt) en1))"
          by (rule "1.IH" [OF Some True x [symmetric] Inr _ st(4) [OF nxt(1)]])
            (use keep x st(2) "1.prems"(5) in \<open>auto simp: row_block_id_def\<close>)
        then show ?thesis using Some True x Inr by (subst check_pending_records.simps) simp
      next
        case (Inl e)
        then show ?thesis using Some True x keep by (subst check_pending_records.simps) simp
      qed
    next
      case False
      then show ?thesis using Some "1.prems"(1) by (subst check_pending_records.simps) simp
    qed
  qed
qed

lemma keep_pre_anchor:
  assumes "I en" "a \<in> rows_of en" "rr_state a = rs_in_sync" "row_block_id a = i" "\<not> en_anchor_contradicted en"
    "bid_sequence i \<noteq> 0"
  shows "I (snd (promote_pre_anchor_records i en))"
proof -
  have loop: "I (snd (for_each hs promote_row en))"
    if "I en" "a \<in> rows_of en" "\<not> en_anchor_contradicted en" "bid_is_valid (ec_trusted_anchor (sh_config en))"
      "rr_hash a = bid_hash (ec_trusted_anchor (sh_config en))"
      "distinct hs" "\<forall>h\<in>set hs. h \<in> rows_of en \<and> rr_state h = rs_pending_sync \<and> rr_seq h < rr_seq a" for hs en
    using that
  proof (induction hs arbitrary: en)
    case (Cons h hs)
    have h: "h \<in> rows_of en" "rr_state h = rs_pending_sync" "rr_seq h < rr_seq a" using Cons.prems(7) by auto
    have keep: "I (snd (promote_row h en))"
      by (rule keep_promote [OF Cons.prems(1)], rule promote_retained [OF Cons.prems(1,2) assms(3) h(1,2) Cons.prems(4,5) h(3)])
        (use Cons.prems(3) in auto)
    obtain x en1 where x: "promote_row h en = (x, en1)" by fastforce
    show ?case
    proof (cases x)
      case (Inr u)
      note st = promoted_state [OF x [unfolded Inr]]
      have keys: "rr_key r \<noteq> rr_key h" if "r \<in> rows_of en" "r \<noteq> h" for r
        using same_key_row [OF rows [OF Cons.prems(1)] that(1) h(1)] that(2) by auto
      have "I (snd (for_each hs promote_row en1))"
        using Cons.prems keep x keys h(2) assms(3) by (intro Cons.IH) (auto simp: st(1,2) intro!: st(3))
      then show ?thesis by (simp add: bind_act_def x Inr)
    qed (use keep x in \<open>simp add: bind_act_def\<close>)
  qed (simp add: ret_def)
  have i: "rr_seq a = bid_sequence i" "rr_hash a = bid_hash i" using assms(4) by (auto simp: row_block_id_def)
  have dist: "distinct (rs_records (sh_records en))"
    using rows_wfD(3) [OF rows [OF assms(1)]] by (simp add: distinct_map)
  have "0 < unat (bid_sequence i)" using assms(6) unat_gt_0 by blast
  then have below: "q < bid_sequence i" if "q \<le> bid_sequence i - 1" for q
    using that assms(6) by (simp add: word_le_nat_alt word_less_nat_alt unat_minus_one)
  have "I (snd (for_each (find_range 1 (bid_sequence i - 1) rs_pending_sync n (sh_records en)) promote_row en))"
    if "bid_is_valid (ec_trusted_anchor (sh_config en))" "bid_hash i = bid_hash (ec_trusted_anchor (sh_config en))" for n
    using that i dist assms(1-3,5) by (intro loop) (auto simp: find_range_def of_state_def distinct_take dest!: in_set_takeD intro: below)
  then show ?thesis
    using assms(1) by (auto simp: promote_pre_anchor_records_def bind_gets Let_def ret_def)
qed

section \<open>Pending records\<close>

lemma keep_conflicts: "I en \<Longrightarrow> I (notify_conflicts k cs en)"
  unfolding notify_conflicts_def by (induction cs arbitrary: en) (simp_all add: keep_notify)

lemma keep_rebuild:
  assumes "I en" "h \<in> rows_of en" "rr_state h = rs_pending_commit"
  shows "I (snd (rebuild_pending env h cs en))"
    "rebuild_pending env h cs en = (Inl e, en') \<Longrightarrow> rows_of en' = rows_of en"
proof -
  obtain b en1 where b: "update_pending_commit env (rr_record h) (cs \<noteq> []) en = (b, en1)" by fastforce
  then obtain n where n: "en1 = en\<lparr>sh_draws := n\<rparr>" using update_pending_commit_draws by blast
  have I1: "I en1" unfolding n by (rule keep_draws [OF assms(1)])
  have I2: "I (en1\<lparr>sh_records := st\<rparr>)" if "rs_set_record (ev_ex env) (rr_key h) block (sh_records en1) = Inr st" for block st
    using rebuild [OF I1 _ assms(3)] that assms(2) n by simp
  show "I (snd (rebuild_pending env h cs en))"
    using I1 I2 by (auto simp: rebuild_pending_def bind_act_def b act_prims when_act_def update_records_def
        intro: keep_conflicts split: sum.splits option.splits)
  show "rebuild_pending env h cs en = (Inl e, en') \<Longrightarrow> rows_of en' = rows_of en"
    using n by (auto simp: rebuild_pending_def bind_act_def b act_prims when_act_def update_records_def
        split: sum.splits option.splits if_splits)
qed

lemma keep_rebase:
  assumes "I en" "h \<in> rows_of en" "rr_state h = rs_pending_commit"
  shows "I (snd (rebase_if_needed env h cs en))"
proof -
  obtain r en1 where r: "rebuild_pending env h cs en = (r, en1)" by fastforce
  have I1: "I en1" using keep_rebuild(1) [OF assms, of cs] r by simp
  have "r = Inl e \<Longrightarrow> I (snd (set_row_state (rr_key h) rs_invalid en1))" for e
    using keep_rebuild(2) [OF assms] r assms by (intro keep_invalidate [OF I1]) (auto simp: is_server_confirmed_def)
  then show ?thesis
    using I1 assms(1)
    by (auto simp: rebase_if_needed_def bind_act_def record_of_def from_option_def act_prims try_catch_def r split: sum.splits option.splits prod.splits)
qed

lemma keep_commit_record: "I en \<Longrightarrow> I (snd (commit_record k en))"
  by (auto simp: commit_record_def bind_act_def act_prims Let_def handle_row_def from_option_def split: prod.splits option.splits intro: commit)

lemma keep_commit_one:
  assumes "I en" "h \<in> rows_of en" "rr_state h = rs_pending_commit"
  shows "I (snd (commit_one env h en))"
proof -
  obtain cs en1 where cs: "find_oid_conflicts env (rr_record h) en = (cs, en1)" by fastforce
  then have en1: "en1 = en"
    by (auto simp: find_oid_conflicts_def bind_act_def record_of_def from_option_def act_prims split: option.splits)
  have cancel: "I (snd (cancel_conflicting (rr_key h) c en))" for c
    unfolding cancel_conflicting_def
    by (rule pres_bind_state) (use keep_invalidate [OF assms(1,2)] assms(3) in \<open>auto simp: is_server_confirmed_def modify_def intro: keep_conflicts\<close>)
  have go: "I (snd (bind_act (rebase_if_needed env h c) (\<lambda>usable. if \<not> usable then ret Turn_first
      else bind_act (gets (is_rejected_unchanged env (rr_key h))) (\<lambda>rejected. if rejected then ret Turn_next
        else bind_act (commit_record (rr_key h)) (\<lambda>_. ret Turn_committed))) en))" for c
    by (rule pres_bind_state, rule keep_rebase [OF assms])
      (use keep_rebase [OF assms, of c] in \<open>auto simp: bind_gets ret_def intro!: pres_bind_state keep_commit_record\<close>)
  show ?thesis
    using cancel go assms(1) cs unfolding en1
    by (cases cs) (auto simp: commit_one_def bind_act_def [of "find_oid_conflicts env (rr_record h)"] bind_gets intro!: pres_bind_state
        simp: ret_def)
qed

lemma keep_commit_loop: "e = env \<Longrightarrow> I en \<Longrightarrow> I (snd (commit_loop e after en))"
proof (induction e after en rule: commit_loop.induct)
  case (1 e after en)
  show ?case
  proof (cases "next_pending after en")
    case None
    then show ?thesis using "1.prems" by (simp add: commit_loop.simps)
  next
    case (Some h)
    obtain x en1 where x: "commit_one env h en = (x, en1)" by fastforce
    have I1: "I en1" using keep_commit_one [OF "1.prems"(2) next_pending_row(1,2) [OF Some]] x by simp
    show ?thesis
    proof (cases x)
      case (Inr turn)
      have "turn = Turn_first \<Longrightarrow> I (snd (commit_loop e None en1))" "turn = Turn_next \<Longrightarrow> I (snd (commit_loop e (Some (rr_key h)) en1))"
        using "1.IH" [OF Some x [symmetric, unfolded Inr, folded "1.prems"(1)] refl] I1 "1.prems"(1) by auto
      then show ?thesis using Some x Inr I1 "1.prems"(1) by (subst commit_loop.simps) (auto split: commit_turn.splits)
    qed (use Some x I1 "1.prems"(1) in \<open>subst commit_loop.simps, simp\<close>)
  qed
qed

lemma pres_commit_loop: "preserves I (commit_loop env after)"
  using keep_commit_loop by (auto intro: presI)

lemma pres_try_commit [pres_intros]: "preserves I (try_commit_pending env)"
  unfolding try_commit_pending_def by (intro pres_intros pres_commit_loop)

section \<open>Refused commits\<close>

lemma pres_record [pres_intros]: "preserves I (modify (\<lambda>en. en\<lparr>en_rejected := f en\<rparr>))" "preserves I (modify (\<lambda>en. en\<lparr>en_pushing := 0\<rparr>))"
  by (intro pres_benign, simp add: benign_def same_records_def)+

lemma pres_marks [pres_intros]: "preserves I (modify (mark_rejected env tag d))" "preserves I (modify clear_rejections)"
  "preserves I (modify (update_server_seq q))"
  by (intro pres_benign, simp add: mark_rejected_def clear_rejections_def update_server_seq_def benign_def same_records_def
      split: option.splits)+

lemma fetch_commits: "fetch_records a b c = (h, c') \<Longrightarrow> sent_commits c' = sent_commits c"
  using sent_commits_requests by (metis snd_conv)

lemma pres_fetch [pres_intros]: "preserves I (fetch_from a b)"
  by (rule presI, erule benign)
    (auto simp: fetch_from_def benign_def same_records_def dest: fetch_commits split: prod.splits)

lemma pres_fetch_missing [pres_intros]: "preserves I fetch_missing"
  unfolding fetch_missing_def by (intro pres_intros)

lemma pres_progressed [pres_intros]: "preserves I (fetch_progressed h q)" "preserves I (take_in_flight h)"
  by (rule presI, erule benign, auto simp: fetch_progressed_def take_in_flight_def benign_def same_records_def split: option.splits)+

lemma find_tag_row: "find_tag t (sh_records en) = Some h \<Longrightarrow> h \<in> rows_of en \<and> rr_tag h = t"
  by (auto simp: find_tag_def dest: find_SomeD)

lemma keep_drop: "I en \<Longrightarrow> find_tag t (sh_records en) = Some h \<Longrightarrow> rr_state h = rs_pending_commit
  \<Longrightarrow> I (snd (set_row_state (rr_key h) rs_invalid en))"
  by (rule keep_invalidate) (auto dest: find_tag_row simp: is_server_confirmed_def)

lemma pres_resolve_one [pres_intros]: "preserves I (resolve_one env entry)"
proof (rule presI)
  fix en assume I: "I en"
  show "I (snd (resolve_one env entry en))"
  proof (cases "find_tag (fst entry) (sh_records en)")
    case (Some h)
    have "rr_state h = rs_pending_commit \<Longrightarrow> I (snd (set_row_state (rr_key h) rs_invalid en))" using keep_drop [OF I Some] .
    then show ?thesis
      using I Some by (auto simp: resolve_one_def bind_gets record_of_def from_option_def act_prims Let_def bind_act_def split: option.splits prod.splits sum.splits)
  qed (simp add: resolve_one_def bind_gets ret_def I)
qed

lemma pres_resolve [pres_intros]: "preserves I (resolve_rejected_duplicates env)"
  unfolding resolve_rejected_duplicates_def by (intro pres_intros)

lemma pres_drop [pres_intros]: "preserves I (drop_rejected env tag err)"
proof (rule presI)
  fix en assume I: "I en"
  have "I (snd (bind_act (set_row_state (rr_key h) rs_invalid) (\<lambda>_. modify (notify (Record_rejected (rr_key h) err))) en))"
    if "find_tag tag (sh_records en) = Some h" "rr_state h = rs_pending_commit" for h
    by (rule pres_bind_state) (use keep_drop [OF I that] in \<open>auto simp: modify_def intro: keep_notify\<close>)
  then have "I (snd ((case find_tag tag (sh_records en) of None \<Rightarrow> ret () | Some h \<Rightarrow> when_act (rr_state h = rs_pending_commit)
      (bind_act (set_row_state (rr_key h) rs_invalid) (\<lambda>_. modify (notify (Record_rejected (rr_key h) err))))) en))"
    using I by (auto simp: when_act_def ret_def split: option.splits)
  then show "I (snd (drop_rejected env tag err en))"
    unfolding drop_rejected_def bind_gets by (rule pres_bind_state) (rule presD [OF pres_try_commit])
qed

lemma pres_commit_rejected [pres_intros]: "preserves I (on_commit_rejected env tag err q)"
  unfolding on_commit_rejected_def on_out_of_sync_rejected_def on_duplicate_rejected_def hold_rejected_def
  by (intro pres_intros)

lemma pres_fetch_complete [pres_intros]: "preserves I (on_fetch_complete env)"
  unfolding on_fetch_complete_def by (intro pres_intros)

section \<open>Records from the server\<close>

lemma verdict_in_sync: "verdict env block en = rs_in_sync \<Longrightarrow> \<not> en_anchor_contradicted en"
  by (auto simp: verdict_def)

lemma keep_create:
  assumes "I en" "bid_is_valid (block_id (ev_ex env) block)" "s = verdict env block en \<or> s = rs_pending_sync"
  shows "I (snd (create_row env block s en))"
proof -
  have "I (en\<lparr>sh_records := st\<rparr>)" if "rs_create (ev_ex env) block s (sh_records en) = Inr (k, st)" for k st
    using receive [OF assms(1,2)] wait [OF assms(1,2)] that assms(3) by blast
  then show ?thesis
    using assms(1) by (auto simp: create_row_def bind_act_def on_records_def handle_row_def from_option_def act_prims split: sum.splits option.splits)
qed

lemma created_row:
  assumes "I (snd (create_row env block s en))" "create_row env block s en = (Inr h, en')"
  shows "h \<in> rows_of en'" "rr_state h = s" "row_block_id h = block_id (ev_ex env) block"
    "en_anchor_contradicted en' = en_anchor_contradicted en" "sh_config en' = sh_config en"
proof -
  obtain k st where st: "rs_create (ev_ex env) block s (sh_records en) = Inr (k, st)" "en' = en\<lparr>sh_records := st\<rparr>"
    "h \<in> set (rs_records st)" "rr_key h = k"
    using create_row_Inr [OF assms(2)] by blast
  obtain r where r: "rs_records st = rs_records (sh_records en) @ [r]" "new_row (ev_ex env) block s r" "rr_key r = k"
    using rs_create_new_row [OF st(1)] by blast
  have "rows_wf (rs_records st)" using rows [OF assms(1)] assms(2) st(2) by simp
  then have "h = r" using same_key_row [of "rs_records st" h r] st(3,4) r(1,3) by simp
  then show "rr_state h = s" "row_block_id h = block_id (ev_ex env) block"
    using r(2) by (auto simp: new_row_def row_block_id_def block_id_def)
  show "h \<in> rows_of en'" "en_anchor_contradicted en' = en_anchor_contradicted en" "sh_config en' = sh_config en"
    using st by simp_all
qed

lemma keep_handle_chain:
  assumes "I en" "bid_is_valid (block_id (ev_ex env) block)"
  shows "I (snd (handle_block_chain env block en))"
    "handle_block_chain env block en = (Inr True, en') \<Longrightarrow>
      \<exists>p\<in>rows_of en'. rr_state p = rs_in_sync \<and> row_block_id p = block_id (ev_ex env) block \<and> \<not> en_anchor_contradicted en'"
proof -
  obtain x en1 where c: "check_chain_block env block en = (x, en1)" by fastforce
  note v = check_chain_block_verdict [OF c]
  have I1: "I en1" using presD [OF pres_check assms(1), of block] c by simp
  let ?s = "verdict env block en"
  have I2: "I (snd (create_row env block ?s en1))" using keep_create [OF I1 assms(2)] v(2) by simp
  show "I (snd (handle_block_chain env block en))"
    unfolding handle_block_chain_def bind_act_def [of "check_chain_block env block"] c v(1) prod.case sum.case
    by (rule pres_bind_state, rule I2, erule presD [rotated], intro pres_intros pres_notify_on_record)
  assume "handle_block_chain env block en = (Inr True, en')"
  then obtain h en2 where h: "create_row env block ?s en1 = (Inr h, en2)" "?s = rs_in_sync" "en' = notify_on_record h en2"
    using c v(1) by (auto simp: handle_block_chain_def bind_act_Inr act_prims when_act_def split: if_splits)
  then show "\<exists>p\<in>rows_of en'. rr_state p = rs_in_sync \<and> row_block_id p = block_id (ev_ex env) block \<and> \<not> en_anchor_contradicted en'"
    using created_row [OF I2 h(1)] v(4) verdict_in_sync [of block en] by (auto intro!: bexI [of _ h])
qed

lemma keep_check_fork: "I en \<Longrightarrow> I (check_fork block rec en)"
  by (auto simp: check_fork_def Let_def intro!: keep_notify suspect split: option.splits)

lemma promote_pre_anchor_state:
  assumes "I en" "a \<in> rows_of en" "rr_state a = rs_in_sync" "promote_pre_anchor_records i en = (Inr x, en')"
  shows "a \<in> rows_of en'" "en_anchor_contradicted en' = en_anchor_contradicted en"
proof -
  have loop: "a \<in> rows_of en' \<and> en_anchor_contradicted en' = en_anchor_contradicted en"
    if "for_each hs promote_row en = (Inr x, en')" "a \<in> rows_of en" "\<forall>h\<in>set hs. rr_key h \<noteq> rr_key a" for hs en
    using that
  proof (induction hs arbitrary: en)
    case (Cons h hs)
    from Cons.prems(1) obtain u en1 where u: "promote_row h en = (Inr u, en1)" "for_each hs promote_row en1 = (Inr x, en')"
      by (auto simp: bind_act_Inr)
    have "a \<in> rows_of en1" using promoted_state(3) [OF u(1) Cons.prems(2)] Cons.prems(3) by auto
    then show ?case using Cons.IH [OF u(2)] Cons.prems(3) promoted_state(2) [OF u(1)] by simp
  qed (simp add: ret_def)
  have "\<forall>h\<in>set (find_range 1 (bid_sequence i - 1) rs_pending_sync n (sh_records en)). rr_key h \<noteq> rr_key a" for n
    using same_key_row [OF rows [OF assms(1)] assms(2)] assms(3) by (fastforce simp: find_range_def of_state_def dest!: in_set_takeD)
  then show "a \<in> rows_of en'" "en_anchor_contradicted en' = en_anchor_contradicted en"
    using assms(2,4) loop by (auto simp: promote_pre_anchor_records_def bind_gets Let_def ret_def split: if_splits)
qed

lemma keep_promotions:
  assumes "I en" "p \<in> rows_of en" "rr_state p = rs_in_sync" "row_block_id p = i" "\<not> en_anchor_contradicted en" "bid_sequence i \<noteq> 0"
  shows "I (snd (bind_act (promote_pre_anchor_records i) (\<lambda>_. check_pending_records i) en))"
proof (rule pres_bind_state, rule keep_pre_anchor [OF assms])
  fix x en' assume e: "promote_pre_anchor_records i en = (Inr x, en')" "I en'"
  show "I (snd (check_pending_records i en'))"
    using promote_pre_anchor_state [OF assms(1-3) e(1)] assms(3-5) by (intro keep_pending [OF e(2)]) auto
qed

lemma bind_act_assoc: "bind_act (bind_act m f) g en = bind_act m (\<lambda>x. bind_act (f x) g) en"
  by (auto simp: bind_act_def split: prod.splits sum.splits)

lemma pres_verify_block:
  assumes valid: "bid_is_valid (block_id (ev_ex env) block)"
  shows "preserves I (verify_block env key block rec)"
proof -
  let ?i = "block_id (ev_ex env) block"
  have chain: "preserves I (bind_act (handle_block_chain env block) (\<lambda>in_chain. when_act in_chain
                (bind_act (promote_pre_anchor_records ?i) (\<lambda>_. bind_act (check_pending_records ?i) (\<lambda>_.
                 bind_act (gets (\<lambda>en. bid_sequence (last_block False (sh_records en)) = en_server_seq en)) (\<lambda>up_to_date.
                   when_act up_to_date (try_commit_pending env)))))))"
  proof (rule presI, rule pres_bind_state)
    fix en assume I: "I en"
    show "I (snd (handle_block_chain env block en))" using keep_handle_chain(1) [OF I valid] .
    fix in_chain en1 assume h: "handle_block_chain env block en = (Inr in_chain, en1)" "I en1"
    show "I (snd (when_act in_chain (bind_act (promote_pre_anchor_records ?i) (\<lambda>_. bind_act (check_pending_records ?i) (\<lambda>_.
         bind_act (gets (\<lambda>en. bid_sequence (last_block False (sh_records en)) = en_server_seq en)) (\<lambda>up_to_date.
           when_act up_to_date (try_commit_pending env))))) en1))"
    proof (cases in_chain)
      case True
      then obtain p where p: "p \<in> rows_of en1" "rr_state p = rs_in_sync" "row_block_id p = ?i" "\<not> en_anchor_contradicted en1"
        using keep_handle_chain(2) [OF I valid] h(1) by auto
      have "bid_sequence ?i \<noteq> 0" using valid by (simp add: bid_is_valid_def seq_is_valid_def)
      then have base: "I (snd (bind_act (promote_pre_anchor_records ?i) (\<lambda>_. check_pending_records ?i) en1))"
        using keep_promotions [OF h(2) p] by simp
      show ?thesis
        unfolding when_act_def if_P [OF True] bind_act_assoc [symmetric]
        by (rule pres_bind_state, rule pres_bind_state, rule base) (auto simp: gets_def ret_def intro!: presD [OF pres_try_commit])
    qed (simp add: when_act_def ret_def h(2))
  qed
  show ?thesis
    unfolding verify_block_def
    by (rule pres_bind, rule pres_open_verifier, rule pres_if, rule pres_bind, rule pres_modify, erule keep_check_fork,
        rule pres_bind, rule pres_marks, rule chain, rule pres_ret)
qed

lemma pure_reads:
  "snd (record_of env b en) = en" "snd (find_record_key env rec b en) = en" "snd (open_verifier env k rec b en) = en"
  by (simp_all add: record_of_def find_record_key_def open_verifier_def from_option_def bind_act_def act_prims split: option.splits sum.splits)

lemma keep_read:
  assumes "snd (m en) = en" "I en" "\<And>x. m en = (Inr x, en) \<Longrightarrow> I (snd (f x en))"
  shows "I (snd (bind_act m f en))"
  using assms by (cases "m en") (auto simp: bind_act_def split: sum.splits)

lemma keep_if: "I (snd (m en)) \<Longrightarrow> I (snd (n en)) \<Longrightarrow> I (snd ((if b then m else n) en))"
  by simp

lemma keep_option: "I (snd (m en)) \<Longrightarrow> (\<And>y. I (snd (f y en))) \<Longrightarrow> I (snd ((case x of None \<Rightarrow> m | Some y \<Rightarrow> f y) en))"
  by (cases x) simp_all

lemma keep_keys: "I en \<Longrightarrow> I (en\<lparr>sh_keys := ks\<rparr>)"
  by (erule benign) (simp add: benign_def same_records_def)

lemma pres_extract [pres_intros]: "preserves I (extract_encryption_key env b)"
proof (rule presI)
  fix en assume I: "I en"
  obtain r en' where e: "extract_encryption_key env b en = (r, en')" by fastforce
  then obtain ks where "en' = en\<lparr>sh_keys := ks\<rparr>" using extract_records by blast
  then show "I (snd (extract_encryption_key env b en))" using keep_keys [OF I] e by simp
qed

lemma keep_retry_one:
  assumes "I en" "h \<in> rows_of en" "rr_state h = rs_pending_sync"
  shows "I (snd (retry_one env h en))"
proof -
  let ?b = "rr_record h"
  have promote: "I (snd (bind_act (check_chain_block env ?b) (\<lambda>state.
      if state = rs_in_sync then bind_act (promote_row h) (\<lambda>_. ret True) else ret False) en1))"
    if "I en1" "h \<in> rows_of en1" for en1
  proof (cases "check_chain_block env ?b en1")
    case (Pair x en2)
    note v = check_chain_block_verdict [OF Pair]
    have I2: "I en2" using presD [OF pres_check that(1), of ?b] Pair by simp
    have "I (snd (promote_row h en1))" if "verdict env ?b en1 = rs_in_sync"
      using promote_retry [OF \<open>I en1\<close> \<open>h \<in> rows_of en1\<close> assms(3) that] by (rule keep_promote [OF \<open>I en1\<close>])
    then have "I (snd (bind_act (promote_row h) (\<lambda>_. ret True) en2))" if "verdict env ?b en1 = rs_in_sync"
      using that v(4) by (intro pres_bind_state) (simp_all add: ret_def)
    then show ?thesis using I2 by (simp add: bind_act_def [of "check_chain_block env ?b"] Pair v(1) ret_def)
  qed
  have keys: "I (snd (bind_act (if c then extract_encryption_key env ?b else ret False) (\<lambda>_.
      bind_act (check_chain_block env ?b) (\<lambda>state. if state = rs_in_sync then bind_act (promote_row h) (\<lambda>_. ret True) else ret False)) en))"
    (is "I (snd (bind_act ?learn _ en))") for c
  proof (rule pres_bind_state)
    show "I (snd (?learn en))" using presD [OF pres_extract assms(1)] assms(1) by (simp add: ret_def)
    fix x en1 assume e: "?learn en = (Inr x, en1)" "I en1"
    then have "rows_of en1 = rows_of en" by (auto simp: ret_def dest!: extract_records split: if_splits)
    then show "I (snd (bind_act (check_chain_block env ?b) (\<lambda>state.
        if state = rs_in_sync then bind_act (promote_row h) (\<lambda>_. ret True) else ret False) en1))"
      using promote [OF e(2)] assms(2) by simp
  qed
  have authentic: "I (snd (bind_act (open_verifier env k rec ?b) (\<lambda>ver. if \<not> is_authentic (cx_rx (ev_cx env)) ver then ret False
      else bind_act (if c then extract_encryption_key env ?b else ret False) (\<lambda>_. bind_act (check_chain_block env ?b) (\<lambda>state.
        if state = rs_in_sync then bind_act (promote_row h) (\<lambda>_. ret True) else ret False))) en))" for k rec c
    by (rule keep_read, rule pure_reads, rule assms, rule keep_if) (simp add: ret_def assms(1), rule keys)
  show ?thesis
    unfolding retry_one_def Let_def
    by (rule keep_read, rule pure_reads, rule assms, rule keep_read, rule pure_reads, rule assms, rule keep_option)
      (simp add: ret_def assms(1), rule authentic)
qed

lemma retried_rows:
  assumes "retry_one env h en = (Inr p, en')" "r \<in> rows_of en" "rr_key r \<noteq> rr_key h"
  shows "r \<in> rows_of en'"
proof (cases p)
  case True
  then obtain en1 where en1: "sh_records en1 = sh_records en" "promote_row h en1 = (Inr (), en')"
    using retry_one_cases [OF assms(1)] by auto
  then show ?thesis using promoted_state(3) [OF en1(2) _ assms(3)] assms(2) by simp
next
  case False
  then show ?thesis using retry_one_cases [OF assms(1)] assms(2) by simp
qed

lemma keep_retry_pass:
  assumes "I en" "distinct hs" "\<forall>h\<in>set hs. h \<in> rows_of en \<and> rr_state h = rs_pending_sync"
  shows "I (snd (retry_pass env hs en))"
  using assms
proof (induction hs arbitrary: en)
  case (Cons h hs)
  have h: "h \<in> rows_of en" "rr_state h = rs_pending_sync" using Cons.prems(3) by auto
  have "I (snd (bind_act (retry_pass env hs) (\<lambda>more. ret (p \<or> more)) en1))" if "retry_one env h en = (Inr p, en1)" "I en1" for p en1
  proof (rule pres_bind_state)
    have "r \<in> rows_of en1" if "r \<in> set hs" for r
    proof (rule retried_rows [OF \<open>retry_one env h en = (Inr p, en1)\<close>])
      show "r \<in> rows_of en" using Cons.prems(3) that by simp
      then show "rr_key r \<noteq> rr_key h" using same_key_row [OF rows [OF Cons.prems(1)] _ h(1)] Cons.prems(2) that by auto
    qed
    then show "I (snd (retry_pass env hs en1))" using Cons.prems that(2) by (intro Cons.IH) auto
  qed (simp add: ret_def)
  then show ?case by (simp only: retry_pass.simps) (rule pres_bind_state, rule keep_retry_one [OF Cons.prems(1) h], simp)
qed (simp add: ret_def)

lemma keep_retry: "e = env \<Longrightarrow> I en \<Longrightarrow> I (snd (retry_undecrypted_pending e en))"
proof (induction e en rule: retry_undecrypted_pending.induct)
  case (1 e en)
  obtain x en1 where x: "retry_pass env (waiting_rows en) en = (x, en1)" by fastforce
  have "distinct (rs_records (sh_records en))" using rows_wfD(3) [OF rows [OF "1.prems"(2)]] by (simp add: distinct_map)
  then have "I (snd (retry_pass env (waiting_rows en) en))"
    by (intro keep_retry_pass [OF "1.prems"(2)]) (auto simp: waiting_rows_def find_range_def of_state_def distinct_take dest!: in_set_takeD)
  then have I1: "I en1" using x by simp
  show ?case
  proof (cases x)
    case (Inr p)
    then have "p \<Longrightarrow> I (snd (retry_undecrypted_pending e en1))"
      using "1.IH" [of x en1] x I1 "1.prems"(1) by auto
    then show ?thesis using I1 x Inr "1.prems"(1) by (subst retry_undecrypted_pending.simps) (auto split: bool.splits)
  qed (use I1 x "1.prems"(1) in \<open>subst retry_undecrypted_pending.simps, simp\<close>)
qed

lemma pres_retry [pres_intros]: "preserves I (retry_undecrypted_pending env)"
  using keep_retry by (auto intro: presI)

lemma pres_handle_block:
  assumes "bid_is_valid (block_id (ev_ex env) block)"
  shows "preserves I (handle_block env block rec)"
proof -
  have "preserves I (create_row env block rs_pending_sync)" using keep_create [OF _ assms] by (intro presI) simp
  then show ?thesis
    unfolding handle_block_def by (intro pres_intros pres_verify_block [OF assms])
qed

lemma keep_adopt:
  assumes "I en" "h \<in> rows_of en" "rr_state h = rs_pending_commit" "bid_is_valid (block_id (ev_ex env) block)"
  shows "I (snd (adopt_committed env h block en))"
proof -
  let ?ex = "ev_ex env"
  obtain x en1 where c: "check_chain_block env block en = (x, en1)" by fastforce
  note v = check_chain_block_verdict [OF c]
  have I1: "I en1" using presD [OF pres_check assms(1), of block] c by simp
  have h1: "h \<in> rows_of en1" using assms(2) check_chain_block_records(1) [OF c] by simp
  let ?s = "verdict env block en"
  let ?confirm = "bind_act (update_records (rs_set_state (rr_key h) ?s (block_id ?ex block) (cb_parent_hash block))) (\<lambda>_.
      when_act (?s = rs_in_sync) (modify (notify_on_record h)))"
  have "I (snd (bind_act (update_records (rs_set_record ?ex (rr_key h) block)) (\<lambda>_. ?confirm) en1))" if "?s \<noteq> rs_invalid"
  proof (rule pres_bind_state)
    show "I (snd (update_records (rs_set_record ?ex (rr_key h) block) en1))"
      using rebuild [OF I1 h1 assms(3)] I1 by (auto simp: update_records_def split: sum.splits)
    fix u en2 assume u: "update_records (rs_set_record ?ex (rr_key h) block) en1 = (Inr u, en2)" "I en2"
    then obtain st where st: "rs_set_record ?ex (rr_key h) block (sh_records en1) = Inr st" "en2 = en1\<lparr>sh_records := st\<rparr>"
      by (auto simp: update_records_Inr)
    have pend: "rr_key r \<noteq> rr_key h" if "r \<in> rows_of en1" "rr_state r = rs_in_sync" for r
      using same_key_row [OF rows [OF I1] that(1) h1] that(2) assms(3) by auto
    have rows2: "rs_records st = map (\<lambda>r. if rr_key r = rr_key h then rebuilt_row ?ex block r else r) (rs_records (sh_records en1))"
      using set_record_Inr(2) [OF st(1)] .
    have "of_state rs_in_sync st = of_state rs_in_sync (sh_records en1)"
      unfolding of_state_def rows2 using pend by (intro filter_map_same) auto
    then have v2: "verdict env block en2 = ?s" using verdict_cong [of en2 en1 env block] st(2) v(2) by simp
    have h2: "rebuilt_row ?ex block h \<in> rows_of en2" using h1 by (auto simp: st(2) rows2)
    have "I (snd (update_records (rs_set_state (rr_key (rebuilt_row ?ex block h)) ?s (block_id ?ex block) (cb_parent_hash block)) en2))"
      by (rule keep_confirm [OF u(2) h2 _ assms(4) v2 that]) (simp_all add: assms(3) is_server_confirmed_def check_matches_without_server_data_def)
    then show "I (snd (?confirm en2))"
      by (intro pres_bind_state) (auto intro!: presD [OF pres_when] pres_notify_on_record)
  qed
  then show ?thesis
    using I1 by (simp add: adopt_committed_def bind_act_def [of "check_chain_block env block"] c v(1) is_valid_verdict when_act_def ret_def)
qed

lemma pres_new_record:
  assumes "bid_is_valid (block_id (ev_ex env) block)"
  shows "preserves I (handle_new_record env block)"
proof -
  have own: "preserves I (bind_act (gets (find_pending_by_op rec)) (\<lambda>own.
      case own of Some h \<Rightarrow> adopt_committed env h block | None \<Rightarrow> handle_block env block rec))" for rec
  proof (rule pres_gets_bind)
    fix en assume I: "I en"
    show "I (snd ((case find_pending_by_op rec en of Some h \<Rightarrow> adopt_committed env h block | None \<Rightarrow> handle_block env block rec) en))"
    proof (cases "find_pending_by_op rec en")
      case (Some h)
      then have "h \<in> rows_of en" "rr_state h = rs_pending_commit"
        by (auto simp: find_pending_by_op_def find_op_id_def Let_def dest: find_SomeD split: if_splits option.splits)
      then show ?thesis using keep_adopt [OF I _ _ assms] Some by simp
    qed (simp add: presD [OF pres_handle_block [OF assms] I])
  qed
  show ?thesis
    unfolding handle_new_record_def by (rule pres_bind, rule pres_marks, rule pres_bind, rule pres_record_of, rule own)
qed

lemma keep_assigned: "I en \<Longrightarrow> I (keep_assignment tag envelope en)"
  by (auto simp: keep_assignment_def intro: assign split: option.splits)

lemma pres_incoming [pres_intros]: "preserves I (handle_incoming_record env block envelope)"
proof -
  have known: "preserves I (bind_act (gets (\<lambda>en. find_tag (cb_tag block) (sh_records en))) (\<lambda>found.
      bind_act (case found of None \<Rightarrow> handle_new_record env block
        | Some h \<Rightarrow> (if rr_state h = rs_pending_commit
            then bind_act (update_record_commit_state env h block) (\<lambda>_. modify (\<lambda>en. en\<lparr>en_rejected := map_del (cb_tag block) (en_rejected en)\<rparr>))
            else ret ())) (\<lambda>_. modify (keep_assignment (cb_tag block) envelope))))"
    if valid: "bid_is_valid (block_id (ev_ex env) block)"
  proof (rule pres_gets_bind, rule pres_bind_state)
    fix en assume I: "I en"
    show "I (snd ((case find_tag (cb_tag block) (sh_records en) of None \<Rightarrow> handle_new_record env block
        | Some h \<Rightarrow> (if rr_state h = rs_pending_commit
            then bind_act (update_record_commit_state env h block) (\<lambda>_. modify (\<lambda>en. en\<lparr>en_rejected := map_del (cb_tag block) (en_rejected en)\<rparr>))
            else ret ())) en))"
    proof (cases "find_tag (cb_tag block) (sh_records en)")
      case (Some h)
      have "I (snd (bind_act (update_record_commit_state env h block) (\<lambda>_. modify (\<lambda>en. en\<lparr>en_rejected := map_del (cb_tag block) (en_rejected en)\<rparr>)) en))"
        using keep_commit_state [OF I _ valid] find_tag_row [OF Some] by (intro pres_bind_state) (auto intro: presD [OF pres_record(1)])
      then show ?thesis using Some I by (simp add: ret_def)
    qed (simp add: presD [OF pres_new_record [OF valid] I])
  qed (simp add: modify_def keep_assigned)
  show ?thesis
    unfolding handle_incoming_record_def by (rule pres_bind, rule pres_gets, rule pres_if, rule known) (simp, rule pres_ret)
qed

section \<open>Another replica\<close>

lemma keep_demote:
  assumes "I en" "ec_mode (sh_config en) \<noteq> require_all_seen" "is_server_confirmed s"
  shows "I (snd (demote_rows s en))" "demote_rows s en = (x, en') \<Longrightarrow> sh_config en' = sh_config en"
proof -
  have loop: "I (snd (for_each hs (\<lambda>h. set_row_state (rr_key h) rs_pending_commit) en))
      \<and> sh_config (snd (for_each hs (\<lambda>h. set_row_state (rr_key h) rs_pending_commit) en)) = sh_config en"
    if "I en" "ec_mode (sh_config en) \<noteq> require_all_seen" "distinct hs" "\<forall>h\<in>set hs. h \<in> rows_of en \<and> is_server_confirmed (rr_state h)" for hs en
    using that
  proof (induction hs arbitrary: en)
    case (Cons h hs)
    obtain x en1 where x: "set_row_state (rr_key h) rs_pending_commit en = (x, en1)" by fastforce
    show ?case
    proof (cases x)
      case (Inr u)
      have I1: "I en1" using demote [OF Cons.prems(1,2)] Cons.prems(4) x Inr by auto
      have c1: "sh_config en1 = sh_config en" using set_row_state_frame(1) x Inr by blast
      have "r \<in> rows_of en1" if "r \<in> set hs" for r
        using promoted_rows [OF x [unfolded Inr], of r] same_key_row [OF rows [OF Cons.prems(1)], of r h] Cons.prems(3,4) that by auto
      then show ?thesis using Cons.IH [OF I1] Cons.prems c1 by (simp add: bind_act_def x Inr)
    next
      case (Inl e)
      then have "en1 = en" using x records_Inl(2) by (simp add: set_row_state_def)
      then show ?thesis using Cons.prems by (simp add: bind_act_def x Inl)
    qed
  qed (simp add: ret_def)
  have dist: "distinct (rs_records (sh_records en))" using rows_wfD(3) [OF rows [OF assms(1)]] by (simp add: distinct_map)
  have "I (snd (demote_rows s en)) \<and> sh_config (snd (demote_rows s en)) = sh_config en"
    unfolding demote_rows_def bind_gets using dist assms
    by (intro loop) (auto simp: find_range_def of_state_def distinct_take dest!: in_set_takeD)
  then show "I (snd (demote_rows s en))" "demote_rows s en = (x, en') \<Longrightarrow> sh_config en' = sh_config en" by auto
qed

lemma pres_data [pres_intros]: "(\<And>en. host_frame env en (f en)) \<Longrightarrow> preserves I (modify (data_step f))"
  by (intro pres_benign benign_data_step)

lemma owner_benign: "benign env en (en\<lparr>sh_records := set_cursor_owner o' (sh_records en), en_server_seq := q\<rparr>)"
  "benign env en (en\<lparr>sh_records := set_cursor_owner o' (sh_records en)\<rparr>)"
  by (auto simp: benign_def same_records_def set_cursor_owner_def rs_wf_def objects_wf_def)

lemma keep_resync:
  assumes "I en" "ec_mode (sh_config en) \<noteq> require_all_seen"
  shows "I (snd (begin_replica_resync env owner en))"
  unfolding begin_replica_resync_def
proof (rule pres_bind_state)
  show "I (snd (demote_rows rs_in_sync en))" using keep_demote(1) [OF assms] by (simp add: is_server_confirmed_def)
  fix x en1 assume d1: "demote_rows rs_in_sync en = (Inr x, en1)" "I en1"
  have m1: "ec_mode (sh_config en1) \<noteq> require_all_seen"
    using keep_demote(2) [OF assms _ d1(1)] assms(2) by (simp add: is_server_confirmed_def)
  show "I (snd (bind_act (demote_rows rs_acked) (\<lambda>_. bind_act (on_records (truncate_from 1 False)) (\<lambda>_.
       bind_act (modify (data_step (sweep env))) (\<lambda>_.
         modify (\<lambda>en. en\<lparr>sh_records := set_cursor_owner owner (sh_records en), en_server_seq := 0\<rparr>)))) en1))"
  proof (rule pres_bind_state)
    show "I (snd (demote_rows rs_acked en1))" using keep_demote(1) [OF d1(2) m1] by (simp add: is_server_confirmed_def)
    fix y en2 assume d2: "demote_rows rs_acked en1 = (Inr y, en2)" "I en2"
    have m2: "ec_mode (sh_config en2) \<noteq> require_all_seen"
      using keep_demote(2) [OF d1(2) m1 _ d2(1)] m1 by (simp add: is_server_confirmed_def)
    have t: "I (snd (on_records (truncate_from 1 False) en2))"
      using truncate [OF d2(2) m2] d2(2) by (auto simp: on_records_def split: sum.splits)
    have rest: "preserves I (bind_act (modify (data_step (sweep env))) (\<lambda>_.
         modify (\<lambda>en. en\<lparr>sh_records := set_cursor_owner owner (sh_records en), en_server_seq := 0\<rparr>)))"
      by (intro pres_intros host_frames pres_benign owner_benign)
    show "I (snd (bind_act (on_records (truncate_from 1 False)) (\<lambda>_. bind_act (modify (data_step (sweep env))) (\<lambda>_.
         modify (\<lambda>en. en\<lparr>sh_records := set_cursor_owner owner (sh_records en), en_server_seq := 0\<rparr>))) en2))"
      by (rule pres_bind_state, rule t, erule presD [OF rest])
  qed
qed

lemma pres_owner [pres_intros]: "preserves I (check_cursor_owner env server_id)"
  unfolding check_cursor_owner_def
proof (rule pres_gets_bind, simp only: prod.case)
  fix en assume I: "I en"
  have "I (snd (modify (\<lambda>en. en\<lparr>sh_records := set_cursor_owner server_id (sh_records en)\<rparr>) en))"
    using presD [OF pres_benign [OF owner_benign(2)] I] .
  then show "I (snd ((if \<not> cr_key_id_valid (ex_cr (ev_ex env)) server_id then ret ()
      else if rs_cursor_owner (sh_records en) = [] then modify (\<lambda>en. en\<lparr>sh_records := set_cursor_owner server_id (sh_records en)\<rparr>)
      else if rs_cursor_owner (sh_records en) \<noteq> server_id \<and> ec_mode (sh_config en) \<noteq> require_all_seen then begin_replica_resync env server_id
      else ret ()) en))"
    using I keep_resync [OF I] by (simp add: ret_def)
qed

section \<open>Events\<close>

lemma pres_transfers [pres_intros]: "preserves I (modify (request_transfers env))"
  unfolding request_transfers_def by (intro pres_data host_frames)

lemma pres_connected [pres_intros]: "preserves I (engine_on_connected env)"
proof -
  have commits: "fetch_sequence_number c = (h, c') \<Longrightarrow> sent_commits c' = sent_commits c" for c h c'
    using sent_commits_requests by (metis snd_conv)
  have "benign env en (data_step data_on_connected (clear_rejections (en\<lparr>en_pushing := 0\<rparr>)))" for en
    by (simp add: data_step_def data_on_connected_def clear_rejections_def benign_def same_records_def)
  then show ?thesis
    unfolding engine_on_connected_def Let_def
    by (intro pres_benign) (auto simp: benign_def same_records_def dest!: commits split: prod.splits)
qed

lemma pres_disconnected [pres_intros]: "preserves I engine_on_disconnected"
  unfolding engine_on_disconnected_def
  by (intro pres_benign) (simp add: data_step_def data_on_disconnected_def benign_def same_records_def)

lemma learned_benign: "benign env en (learn_data_endpoints es (learn_limits l (update_server_seq q en)))"
  by (auto simp: benign_def same_records_def learn_data_endpoints_def learn_limits_def update_server_seq_def set_limits_def
      set_data_endpoints_def rs_wf_def objects_wf_def)

lemma pres_sequence [pres_intros]: "preserves I (on_sequence_number_response env res)"
  unfolding on_sequence_number_response_def by (intro pres_intros pres_benign learned_benign)

lemma pres_records [pres_intros]: "preserves I (on_record_response env handle res)"
  unfolding on_record_response_def by (intro pres_intros)

lemma pres_commit_response [pres_intros]: "preserves I (on_commit_response env handle res)"
proof -
  have confirm: "preserves I (bind_act (gets (\<lambda>en. find_tag (cb_tag block) (sh_records en))) (\<lambda>found. case found of None \<Rightarrow> ret ()
      | Some h \<Rightarrow> bind_act (update_record_commit_state env h block) (\<lambda>_. bind_act (modify (keep_assignment (cb_tag block) (co_envelope res))) (\<lambda>_.
          bind_act (modify (request_transfers env)) (\<lambda>_. try_commit_pending env)))))"
    if valid: "bid_is_valid (block_id (ev_ex env) block)" for block
  proof (rule pres_gets_bind)
    fix en assume I: "I en"
    have rest: "preserves I (bind_act (modify (keep_assignment (cb_tag block) (co_envelope res))) (\<lambda>_.
          bind_act (modify (request_transfers env)) (\<lambda>_. try_commit_pending env)))"
      by (intro pres_intros pres_modify keep_assigned)
    show "I (snd ((case find_tag (cb_tag block) (sh_records en) of None \<Rightarrow> ret ()
      | Some h \<Rightarrow> bind_act (update_record_commit_state env h block) (\<lambda>_. bind_act (modify (keep_assignment (cb_tag block) (co_envelope res))) (\<lambda>_.
          bind_act (modify (request_transfers env)) (\<lambda>_. try_commit_pending env)))) en))"
    proof (cases "find_tag (cb_tag block) (sh_records en)")
      case (Some h)
      have "I (snd (update_record_commit_state env h block en))"
        using keep_commit_state [OF I _ valid] find_tag_row [OF Some] by blast
      then show ?thesis unfolding Some option.case by (rule pres_bind_state) (erule presD [OF rest])
    qed (simp add: ret_def I)
  qed
  have push: "preserves I (modify (\<lambda>en. if handle = en_pushing en then en\<lparr>en_pushing := 0\<rparr> else en))"
    by (intro pres_benign) (simp add: benign_def same_records_def)
  show ?thesis
    unfolding on_commit_response_def
    by (rule pres_bind, rule push, rule pres_bind, rule pres_progressed, rule pres_sum, rule pres_commit_rejected, rule pres_if,
        erule confirm, rule pres_ret)
qed

lemma pres_event [pres_intros]: "preserves I (handle_event env e)"
proof (cases e)
  case (Ev_equivocation sid p)
  have "preserves I (modify (engine_equivocation env sid p))"
    by (intro pres_modify) (auto simp: engine_equivocation_def intro!: keep_notify suspect split: option.splits)
  then show ?thesis using Ev_equivocation by simp
next
  case (Ev_data_available i complete)
  have "preserves I (modify (if complete then data_step (on_data_announced env i) else id))"
    by (cases complete) (auto intro: pres_data host_frames pres_modify)
  then show ?thesis using Ev_data_available by simp
qed (auto simp: on_record_received_def intro!: pres_intros host_frames)

section \<open>Calls of the application\<close>

lemma keep_frame: "I en \<Longrightarrow> host_frame env en en' \<Longrightarrow> I en'"
  by (erule benign) (rule benign_frame)

lemma pres_draws [pres_intros]: "preserves I (draw_act env)"
  by (intro presI) (simp add: draw_act_def draw_def keep_draws)

lemma pres_creator [pres_intros]: "preserves I (new_creator env key last_seen op_id)"
  unfolding new_creator_def by (intro pres_intros)

lemma pres_current_key [pres_intros]: "preserves I (engine_current_key env)"
  unfolding engine_current_key_def by (intro pres_intros)

lemma pres_stream [pres_intros]: "preserves I (stream_source env source)"
proof -
  have "preserves I (data_stream env key cs rd n)" for key cs rd n
    by (rule presI, erule keep_frame) (rule frame_stream)
  then show ?thesis unfolding stream_source_def by (intro pres_intros)
qed

lemma pres_finish [pres_intros]: "preserves I (finish_writer env w)"
proof (rule presI)
  fix en assume I: "I en"
  obtain r w1 ds where f: "writer_finish (ev_ex env) (ev_ae env) (w, host_store en) = (r, w1, ds)" by (metis prod_cases3)
  have "keeps_table (ev_ex env) (host_store en) ds" using table_writer_finish [OF f] by simp
  then have "I (put_store ds en)" "I (put_store (writer_drop w1 ds) en)"
    using keep_frame [OF I frame_put_store] table_staged(2) [of w1 ds] by metis+
  then show "I (snd (finish_writer env w en))" by (simp add: finish_writer_def f split: sum.splits)
qed

lemma pres_create_and_commit [pres_intros]: "preserves I (create_and_commit env rec)"
proof -
  have create: "preserves I (create_row env (chain_block_of (ev_ex env) (fst rec) (snd rec)) rs_pending_commit)"
    using submit by (auto intro!: presI simp: create_row_def bind_act_def on_records_def handle_row_def from_option_def act_prims
        split: sum.splits option.splits)
  have "preserves I (check_record_size env rec)" "\<And>k. preserves I (commit_record k)"
    unfolding check_record_size_def by (intro pres_intros) (auto intro: presI keep_commit_record)
  then show ?thesis unfolding create_and_commit_def using create by (intro pres_intros)
qed

lemma pres_object_change [pres_intros]: "preserves I (sync_object_change env oid mdata source)"
  unfolding sync_object_change_def create_object_change_def by (intro pres_intros host_frames)

lemma pres_user_change [pres_intros]: "preserves I (sync_user_change env data mdata)"
  unfolding sync_user_change_def by (intro pres_intros)

lemma pres_segment_end [pres_intros]: "preserves I (sync_segment_end env mdata)"
  unfolding sync_segment_end_def by (intro pres_intros)

lemma pres_handle_row [pres_intros]: "preserves I (handle_row k)"
  unfolding handle_row_def by (intro pres_intros)

lemma pres_read [pres_intros]: "preserves I (read_change env k i)"
  unfolding read_change_def by (intro pres_intros)

lemma pres_data_reads [pres_intros]:
  "preserves I (open_change_data env c)" "preserves I (plan_adoption env read)" "preserves I (fetch_change_data env read)"
  by (rule presI, erule keep_frame, metis frame_open_change frame_plan frame_fetch_change prod.collapse)+

lemma pres_object_data [pres_intros]: "preserves I (open_object_data env k i)"
  unfolding open_object_data_def by (intro pres_intros)

lemma pres_fetch_data [pres_intros]: "preserves I (fetch_object_data env k i)"
proof -
  have "preserves I (modify (\<lambda>en. let (adopted, en1) = adopt env p en
      in if adopted then notify (Data_state_changed (manifest_digest (ad_wanted p)) ds_in_sync) en1 else en1))" for p
  proof (rule pres_modify)
    fix en assume I: "I en"
    obtain adopted en1 where a: "adopt env p en = (adopted, en1)" by fastforce
    have "I en1" using keep_frame [OF I frame_adopt [of env en p]] a by simp
    then show "I (let (adopted, en1) = adopt env p en
      in if adopted then notify (Data_state_changed (manifest_digest (ad_wanted p)) ds_in_sync) en1 else en1)"
      by (simp add: a keep_notify)
  qed
  then show ?thesis unfolding fetch_object_data_def by (intro pres_intros)
qed

theorem engine_do_invariant:
  assumes "I en" "\<not> prunes call"
  shows "I (engine_do env call en)"
proof (cases call)
  case (Set_output out)
  then show ?thesis using benign [OF assms(1)] by (simp add: set_output_def benign_def same_records_def)
next
  case (Other_requests n)
  then show ?thesis using benign [OF assms(1)] by (simp add: benign_def same_records_def other_requests_def sent_commits_def)
next
  case (Prune_history tag)
  then show ?thesis using assms(2) by simp
qed (simp_all add: presD [OF pres_event assms(1)] presD [OF pres_object_change assms(1)] presD [OF pres_user_change assms(1)]
    presD [OF pres_segment_end assms(1)] presD [OF pres_object_data assms(1)] presD [OF pres_fetch_data assms(1)])

theorem engine_run_invariant:
  assumes "I en" "\<forall>call\<in>set calls. \<not> prunes call"
  shows "I (engine_run env calls en)"
  using assms unfolding engine_run_def by (induction calls arbitrary: en) (simp_all add: engine_do_invariant)

end

section \<open>Runs that prune\<close>

locale pruning_invariant = engine_invariant +
  assumes prune: "I en \<Longrightarrow> s \<in> rows_of en \<Longrightarrow> rr_state s = rs_in_sync \<Longrightarrow> rr_type s = segment_tag
      \<Longrightarrow> truncate_prefix (rr_seq s) (object_chain_tags_below (rr_seq s) (sh_records en)) (sh_records en) = Inr (removed, st)
      \<Longrightarrow> I (en\<lparr>sh_records := st\<rparr>)"
    and trust: "I en \<Longrightarrow> I (en\<lparr>sh_config := (sh_config en)\<lparr>ec_trusted_anchor := a\<rparr>\<rparr>)"
begin

lemma keep_pruned:
  assumes "I en" "s \<in> rows_of en" "rr_state s = rs_in_sync" "rr_type s = segment_tag"
  shows "I (snd (bind_act (gets (\<lambda>en. object_chain_tags_below (bid_sequence (row_block_id s)) (sh_records en))) (\<lambda>retained.
    bind_act (on_records (truncate_prefix (bid_sequence (row_block_id s)) retained)) (\<lambda>_.
    bind_act (modify (data_step (sweep env))) (\<lambda>_.
    bind_act (modify (\<lambda>en. data_step (prune_superseded env (bid_sequence (row_block_id s)) (kept_data_versions (en_limits en))) en)) (\<lambda>_.
    bind_act (modify (\<lambda>en. en\<lparr>sh_config := (sh_config en)\<lparr>ec_trusted_anchor := row_block_id s\<rparr>\<rparr>)) (\<lambda>_. ret (row_block_id s)))))) en))"
proof -
  have superseded: "preserves I (modify (\<lambda>en. data_step (prune_superseded env q (kept_data_versions (en_limits en))) en))" for q
    by (intro pres_benign benign_data_step host_frames)
  have "preserves I (modify (\<lambda>en. en\<lparr>sh_config := (sh_config en)\<lparr>ec_trusted_anchor := row_block_id s\<rparr>\<rparr>))"
    by (intro pres_modify trust)
  then have rest: "preserves I (bind_act (modify (data_step (sweep env))) (\<lambda>_.
    bind_act (modify (\<lambda>en. data_step (prune_superseded env (bid_sequence (row_block_id s)) (kept_data_versions (en_limits en))) en)) (\<lambda>_.
    bind_act (modify (\<lambda>en. en\<lparr>sh_config := (sh_config en)\<lparr>ec_trusted_anchor := row_block_id s\<rparr>\<rparr>)) (\<lambda>_. ret (row_block_id s)))))"
    by (intro pres_intros superseded host_frames)
  have cut: "I (snd (on_records (truncate_prefix (bid_sequence (row_block_id s))
      (object_chain_tags_below (bid_sequence (row_block_id s)) (sh_records en))) en))"
    using prune [OF assms] assms(1) by (auto simp: on_records_def row_block_id_def split: sum.splits)
  show ?thesis unfolding bind_gets by (rule pres_bind_state, rule cut, erule presD [OF rest])
qed

lemma pres_prune [pres_intros]: "preserves I (prune_history env tag)"
  unfolding prune_history_def
proof (rule pres_gets_bind)
  fix en assume I: "I en"
  let ?found = "if tag = [] then find_last_of_type segment_tag (sh_records en) else find_tag tag (sh_records en)"
  have s: "s \<in> rows_of en" if "?found = Some s" for s
    using that by (auto simp: find_last_of_type_def of_state_def dest!: argmax_SomeD find_tag_row split: if_splits)
  show "I (snd ((case ?found of None \<Rightarrow> raise (Sync constraint_violation) | Some segment \<Rightarrow>
      (if rr_type segment \<noteq> segment_tag \<or> rr_state segment \<noteq> rs_in_sync then raise (Sync constraint_violation)
       else let anchor = row_block_id segment
         in bind_act (gets (\<lambda>en. object_chain_tags_below (bid_sequence anchor) (sh_records en))) (\<lambda>retained.
           bind_act (on_records (truncate_prefix (bid_sequence anchor) retained)) (\<lambda>_.
           bind_act (modify (data_step (sweep env))) (\<lambda>_.
           bind_act (modify (\<lambda>en. data_step (prune_superseded env (bid_sequence anchor) (kept_data_versions (en_limits en))) en)) (\<lambda>_.
           bind_act (modify (\<lambda>en. en\<lparr>sh_config := (sh_config en)\<lparr>ec_trusted_anchor := anchor\<rparr>\<rparr>)) (\<lambda>_. ret anchor))))))) en))"
    using I s keep_pruned [OF I] unfolding Let_def by (cases ?found) (simp_all add: raise_def del: if_split_asm)
qed

theorem engine_run_pruning: "I en \<Longrightarrow> I (engine_run env calls en)"
proof -
  have "I (engine_do env call en)" if "I en" for call en
  proof (cases "prunes call")
    case True
    then obtain tag where "call = Prune_history tag" by (cases call) auto
    then show ?thesis using presD [OF pres_prune that] by simp
  qed (rule engine_do_invariant [OF that])
  then show "I en \<Longrightarrow> I (engine_run env calls en)"
    unfolding engine_run_def by (induction calls arbitrary: en) simp_all
qed

end

end
