(* ===== verification/Engine_Samples.thy ===== *)
theory Engine_Samples
  imports Sync_Engine
begin

text \<open>
  Concrete engines for the witnesses, over the codec of the history verifier's examples: a record is
  its kind, its tag is the kind plus one, and the key of sequence number one opens it.
\<close>

definition sample_env :: engine_env where
  "sample_env = \<lparr>ev_cx = hv_cx, ev_ae = plain_aead, ev_public_keys = (\<lambda>_. None), ev_my_key = Inl (Sync no_encryption_key_found),
     ev_random = (\<lambda>n. [of_nat n]), ev_now = 0, ev_io = True, ev_base_error = (\<lambda>_. True)\<rparr>"

definition sample_comm :: comm where
  "sample_comm = \<lparr>cm_sid = [1], cm_expected_modes = None, cm_remote_key = None, cm_call_id = 0, cm_connected = True, cm_transfers = False,
     cm_uploads = [], cm_downloads = [], cm_ticket_requests = [], cm_granted = [], cm_started = [], cm_sent = [], cm_emitted = []\<rparr>"

definition sample_config :: sync_engine_config where
  "sample_config = \<lparr>ec_mode = require_all_seen, ec_auth_mode = only_tag, ec_conflicts = rebase_on_top, ec_verification = verify_full,
     ec_trusted_anchor = no_block, ec_replication = repl_none, ec_auto_fetch_max_size = 0\<rparr>"

definition engine_with :: "record_storage \<Rightarrow> engine" where
  "engine_with st = set_output True (projr (sync_engine_of sample_comm st hv_keys None sample_config))"

definition hv_block :: "octet \<Rightarrow> octets \<Rightarrow> chain_block" where
  "hv_block b parent = \<lparr>cb_record = [b], cb_auth = content_auth_of_tag [b + 1], cb_sequence = ucast b + 1, cb_parent_hash = parent\<rparr>"

lemma engine_with_simps [simp]:
  "sh_records (engine_with st) = st" "sh_comm (engine_with st) = sample_comm" "sh_config (engine_with st) = sample_config"
  "en_fork (engine_with st) = False" "en_pushing (engine_with st) = 0" "en_rejected (engine_with st) = []"
  "sh_keys (engine_with st) = hv_keys"
proof -
  have "check_engine_config sample_config = Inr ()" by code_simp
  then show "sh_records (engine_with st) = st" "sh_comm (engine_with st) = sample_comm" "sh_config (engine_with st) = sample_config"
    "en_fork (engine_with st) = False" "en_pushing (engine_with st) = 0" "en_rejected (engine_with st) = []"
    "sh_keys (engine_with st) = hv_keys"
    by (simp_all add: engine_with_def sync_engine_of_def set_output_def)
qed

lemma hv_storage_wf: "rs_wf ts hv_storage"
  by (rule rs_wfI) (simp_all add: rows_wf_def objects_wf_def hv_storage_def empty_record_storage_def hv_row_def rows_unique_def
      is_server_confirmed_def cb_tag_def content_auth_of_tag_def dt_wf_def empty_data_table_def)

end
