(* ===== verification/Engine_Safety.thy ===== *)
theory Engine_Safety
  imports Engine_Invariant Engine_Samples
begin

text \<open>
  What holds of every run of the engine, whatever the server sends and the application calls: the
  storage stays well-formed, a suspected fork stops all commits for good, a contradicted anchor stops
  the local chain from growing, and in strict mode every record in sync is linked to the chain.
\<close>

section \<open>The storage stays well-formed\<close>

abbreviation engine_wf :: "engine_env \<Rightarrow> engine \<Rightarrow> bool" where
  "engine_wf env en \<equiv> rs_wf (ex_tag_size (ev_ex env)) (sh_records en)"

lemma set_row_state_wf: "engine_wf env en \<Longrightarrow> set_row_state k s en = (Inr u, en') \<Longrightarrow> engine_wf env en'"
  by (auto simp: set_row_state_def update_records_Inr dest: rs_set_state_wf)

lemma truncate_first_wf: "rs_wf ts st \<Longrightarrow> truncate_from 1 False st = Inr (removed, st') \<Longrightarrow> rs_wf ts st'"
  using truncate_from_wf [of ts st 1 False] by (auto simp: seq_is_valid_def)

lemmas storage_wfs = rs_set_state_wf rs_create_wf rs_set_record_wf rs_set_assignment_wf truncate_prefix_wf truncate_first_wf

interpretation wf: pruning_invariant env "engine_wf env" for env
proof unfold_locales
  show "engine_wf env en \<Longrightarrow> benign env en en' \<Longrightarrow> engine_wf env en'" for en en' by (simp add: benign_def same_records_def)
qed (auto dest: rs_wfD(1) intro: storage_wfs set_row_state_wf)

text \<open>C23. The engine keeps its record storage well-formed: whatever events arrive and whatever the
  application calls, pruning included, the constraints of the schema hold afterwards, the selector marks
  exactly the confirmed rows, and object rows and data references have the rows they name.\<close>

theorem engine_keeps_storage:
  assumes "rs_wf (ex_tag_size (ev_ex env)) (sh_records en)"
  shows "rs_wf (ex_tag_size (ev_ex env)) (sh_records (engine_run env calls en))"
  using assms by (rule wf.engine_run_pruning)

theorem engine_keeps_storage_witness:
  "rs_wf (ex_tag_size (ev_ex sample_env)) (sh_records (engine_run sample_env
     [Deliver (Ev_record (hv_block 0 []) None), Prune_history []] (engine_with empty_record_storage)))"
  by (rule engine_keeps_storage) (simp add: rs_wf_empty)

section \<open>A suspected fork\<close>

definition stopped :: "engine_env \<Rightarrow> chain_block list \<Rightarrow> engine \<Rightarrow> bool" where
  "stopped env sent en = (engine_wf env en \<and> en_fork en \<and> sent_commits (sh_comm en) = sent)"

lemma set_row_state_comm: "set_row_state k s en = (Inr u, en') \<Longrightarrow> sh_comm en' = sh_comm en"
  by (auto simp: set_row_state_def update_records_Inr)

lemma stopped_row: "stopped env sent en \<Longrightarrow> set_row_state k s en = (Inr (), en') \<Longrightarrow> stopped env sent en'"
  using wf.set_row_state_frame(3) set_row_state_comm set_row_state_wf by (metis stopped_def)

lemma stopped_records:
  "stopped env sent en \<Longrightarrow> rs_wf (ex_tag_size (ev_ex env)) st \<Longrightarrow> stopped env sent (en\<lparr>sh_records := st\<rparr>)"
  by (simp add: stopped_def)

lemma stopped_wf: "stopped env sent en \<Longrightarrow> engine_wf env en"
  by (simp add: stopped_def)

interpretation fork: pruning_invariant env "stopped env sent" for env sent
proof unfold_locales
  fix en en' c h m a assume s: "stopped env sent en"
  show "rows_wf (rs_records (sh_records en))" using s by (auto simp: stopped_def rs_wf_def)
  show "benign env en en' \<Longrightarrow> stopped env sent en'" using s by (auto simp: stopped_def benign_def same_records_def)
  show "\<not> en_fork en \<Longrightarrow> stopped env sent (en\<lparr>sh_comm := c, en_pushing := h, en_in_flight := m\<rparr>)"
    "stopped env sent (en\<lparr>en_fork := True\<rparr>)" "stopped env sent (en\<lparr>en_fork := True, en_anchor_contradicted := True\<rparr>)"
    "stopped env sent (en\<lparr>sh_config := (sh_config en)\<lparr>ec_trusted_anchor := a\<rparr>\<rparr>)"
    using s by (simp_all add: stopped_def)
qed (auto intro: stopped_row intro!: stopped_records intro: storage_wfs stopped_wf)

text \<open>C2. Once a fork is suspected no commit request leaves the engine any more, in any run of events and
  calls, and the suspicion stays.\<close>

theorem fork_stops_commits:
  assumes "rs_wf (ex_tag_size (ev_ex env)) (sh_records en)" "en_fork en"
  shows "sent_commits (sh_comm (engine_run env calls en)) = sent_commits (sh_comm en) \<and> en_fork (engine_run env calls en)"
  using fork.engine_run_pruning [of env "sent_commits (sh_comm en)" en calls] assms by (simp add: stopped_def)

theorem fork_stops_commits_witness:
  "sent_commits (sh_comm (engine_run sample_env [Segment_end sample_metadata, Deliver Ev_connected] ((engine_with hv_storage)\<lparr>en_fork := True\<rparr>))) = []
   \<and> en_fork (engine_run sample_env [Segment_end sample_metadata, Deliver Ev_connected] ((engine_with hv_storage)\<lparr>en_fork := True\<rparr>))"
  using fork_stops_commits [of sample_env "(engine_with hv_storage)\<lparr>en_fork := True\<rparr>" "[Segment_end sample_metadata, Deliver Ev_connected]"]
  by (simp add: hv_storage_wf sample_comm_def sent_commits_def List.map_filter_def)

section \<open>The local chain\<close>

text \<open>What the chain of an engine is made of: the position and the block of every record in sync.\<close>

record link =
  lk_tag :: record_tag
  lk_seq :: sequence_number
  lk_hash :: octets
  lk_parent :: octets
  lk_block :: chain_block

definition link_of :: "record_row \<Rightarrow> link" where
  "link_of r = \<lparr>lk_tag = rr_tag r, lk_seq = rr_seq r, lk_hash = rr_hash r, lk_parent = rr_parent_hash r, lk_block = rr_record r\<rparr>"

definition chain :: "record_storage \<Rightarrow> link set" where
  "chain st = link_of ` {r \<in> set (rs_records st). rr_state r = rs_in_sync}"

lemma chain_update:
  assumes "rows_wf (rs_records st)" "r \<in> set (rs_records st)" "rr_state r \<noteq> rs_in_sync"
    "rs_records st' = map (\<lambda>x. if rr_key x = rr_key r then f x else x) (rs_records st)"
  shows "chain st' = (if rr_state (f r) = rs_in_sync then insert (link_of (f r)) (chain st) else chain st)"
proof -
  have "{x \<in> set (rs_records st'). rr_state x = rs_in_sync} =
      (if rr_state (f r) = rs_in_sync then insert (f r) {x \<in> set (rs_records st). rr_state x = rs_in_sync}
       else {x \<in> set (rs_records st). rr_state x = rs_in_sync})"
    using assms(2,3) same_key_row [OF assms(1) _ assms(2)] unfolding assms(4) by (auto simp: image_iff)
  then show ?thesis by (simp add: chain_def)
qed

lemma set_row_state_rows:
  "set_row_state k s en = (Inr u, en') \<Longrightarrow> rs_records (sh_records en') =
    map (\<lambda>r. if rr_key r = k then r\<lparr>rr_state := s, rr_useq := is_server_confirmed s\<rparr> else r) (rs_records (sh_records en))"
  using set_row_state_Inr(1) by fastforce

lemma link_of_state [simp]: "link_of (r\<lparr>rr_state := s, rr_useq := u\<rparr>) = link_of r"
  by (simp add: link_of_def)

lemma chain_state:
  assumes "engine_wf env en" "r \<in> rows_of en" "rr_state r \<noteq> rs_in_sync" "set_row_state (rr_key r) s en = (Inr u, en')"
  shows "chain (sh_records en') = (if s = rs_in_sync then insert (link_of r) (chain (sh_records en)) else chain (sh_records en))"
  using chain_update [OF rs_wfD(1) [OF assms(1)] assms(2,3) set_row_state_rows [OF assms(4)]] by simp

lemma chain_demote:
  assumes "set_row_state k rs_pending_commit en = (Inr u, en')"
  shows "chain (sh_records en') \<subseteq> chain (sh_records en)"
  by (auto simp: chain_def set_row_state_rows [OF assms] split: if_splits)

lemma chain_confirm:
  assumes "engine_wf env en" "r \<in> rows_of en" "\<not> is_server_confirmed (rr_state r)" "bid_is_valid bid"
    "rs_set_state (rr_key r) s bid parent (sh_records en) = Inr st"
  shows "chain st = (if s = rs_in_sync
    then insert \<lparr>lk_tag = rr_tag r, lk_seq = bid_sequence bid, lk_hash = bid_hash bid, lk_parent = parent, lk_block = rr_record r\<rparr> (chain (sh_records en))
    else chain (sh_records en))"
proof -
  have "rs_records st = map (\<lambda>x. if rr_key x = rr_key r then x\<lparr>rr_state := s, rr_seq := bid_sequence bid, rr_hash := bid_hash bid,
      rr_parent_hash := parent, rr_useq := is_server_confirmed s\<rparr> else x) (rs_records (sh_records en))"
    using assms(4,5) by (auto simp: rs_set_state_def rs_update_Inr)
  from chain_update [OF rs_wfD(1) [OF assms(1)] assms(2) _ this]
  show ?thesis using assms(3) by (auto simp: is_server_confirmed_def link_of_def)
qed

lemma chain_rebuild:
  assumes "engine_wf env en" "r \<in> rows_of en" "rr_state r = rs_pending_commit" "rs_set_record ex (rr_key r) block (sh_records en) = Inr st"
  shows "chain st = chain (sh_records en)"
  using chain_update [OF rs_wfD(1) [OF assms(1)] assms(2) _ set_record_Inr(2) [OF assms(4)]] assms(3) by simp

lemma chain_create:
  assumes "rs_create ex block s st = Inr (k, st')"
  shows "chain st' = (if s = rs_in_sync
    then insert \<lparr>lk_tag = cb_tag block, lk_seq = cb_sequence block, lk_hash = block_hash ex block, lk_parent = cb_parent_hash block, lk_block = block\<rparr> (chain st)
    else chain st)"
proof -
  obtain r where r: "rs_records st' = rs_records st @ [r]" "new_row ex block s r" using rs_create_new_row [OF assms] by blast
  then have "{x \<in> set (rs_records st'). rr_state x = rs_in_sync} =
      (if s = rs_in_sync then insert r {x \<in> set (rs_records st). rr_state x = rs_in_sync} else {x \<in> set (rs_records st). rr_state x = rs_in_sync})"
    by (auto simp: new_row_def)
  then show ?thesis using r(2) by (simp add: chain_def new_row_def link_of_def)
qed

lemma set_map_Collect: "(\<And>x. P (f x) = P x) \<Longrightarrow> {y \<in> set (map f xs). P y} = f ` {x \<in> set xs. P x}"
  by auto

lemma chain_assign [simp]: "chain (rs_set_assignment k e o' q st) = chain st"
proof -
  let ?f = "\<lambda>r. if rr_key r = k then r\<lparr>rr_envelope := e, rr_origin := (if o' = [] then None else Some o'),
       rr_origin_seq := (if o' = [] then None else Some q)\<rparr> else r"
  have same: "link_of (?f r) = link_of r" for r by (simp add: link_of_def)
  have "{r \<in> set (rs_records (rs_set_assignment k e o' q st)). rr_state r = rs_in_sync} =
      ?f ` {r \<in> set (rs_records st). rr_state r = rs_in_sync}"
    unfolding rs_set_assignment_rows by (rule set_map_Collect) simp
  then show ?thesis unfolding chain_def by (simp only: image_image same)
qed

lemma chain_truncate: "truncate_from q False st = Inr (removed, st') \<Longrightarrow> chain st' \<subseteq> chain st"
  by (auto simp: truncate_from_def truncate_rows_plain fold_remove_row chain_def split: if_splits)

lemma chain_prune: "truncate_prefix q kept st = Inr (removed, st') \<Longrightarrow> chain st' \<subseteq> chain st"
  by (auto simp: truncate_prefix_def fold_remove_row chain_def Let_def split: if_splits)

lemma chain_empty [simp]: "chain empty_record_storage = {}"
  by (simp add: chain_def empty_record_storage_def)

lemma chain_same: "rs_records st' = rs_records st \<Longrightarrow> chain st' = chain st"
  by (simp add: chain_def)

section \<open>A contradicted anchor\<close>

definition frozen :: "engine_env \<Rightarrow> link set \<Rightarrow> engine \<Rightarrow> bool" where
  "frozen env S en = (engine_wf env en \<and> en_anchor_contradicted en \<and> chain (sh_records en) \<subseteq> S)"

lemma frozen_records:
  "frozen env S en \<Longrightarrow> rs_wf (ex_tag_size (ev_ex env)) st \<Longrightarrow> chain st \<subseteq> chain (sh_records en) \<Longrightarrow> frozen env S (en\<lparr>sh_records := st\<rparr>)"
  by (auto simp: frozen_def)

lemma frozen_row:
  assumes "frozen env S en" "set_row_state k s en = (Inr (), en')" "chain (sh_records en') \<subseteq> chain (sh_records en)"
  shows "frozen env S en'"
  using assms wf.set_row_state_frame(2) [OF assms(2)] set_row_state_wf [of env en k s "()" en'] by (auto simp: frozen_def)

lemma frozenD: "frozen env S en \<Longrightarrow> engine_wf env en" "frozen env S en \<Longrightarrow> en_anchor_contradicted en" "frozen env S en \<Longrightarrow> verdict env b en = rs_invalid"
  by (simp_all add: frozen_def verdict_def)

interpretation anchor: pruning_invariant env "frozen env S" for env S
proof unfold_locales
  fix en en' c h m a r block st k s removed rec auth assume s: "frozen env S en"
  note w = frozenD(1) [OF s]
  show "rows_wf (rs_records (sh_records en))" using w by (rule rs_wfD)
  show "benign env en en' \<Longrightarrow> frozen env S en'"
    using s by (auto simp: frozen_def benign_def same_records_def dest: chain_same)
  show "frozen env S (en\<lparr>sh_comm := c, en_pushing := h, en_in_flight := m\<rparr>)" "frozen env S (en\<lparr>en_fork := True\<rparr>)"
    "frozen env S (en\<lparr>en_fork := True, en_anchor_contradicted := True\<rparr>)"
    "frozen env S (en\<lparr>sh_config := (sh_config en)\<lparr>ec_trusted_anchor := a\<rparr>\<rparr>)"
    using s by (simp_all add: frozen_def)
  show "r \<in> rows_of en \<Longrightarrow> \<not> is_server_confirmed (rr_state r) \<Longrightarrow> set_row_state (rr_key r) rs_invalid en = (Inr (), en') \<Longrightarrow> frozen env S en'"
    using chain_state [OF w] by (intro frozen_row [OF s]) (auto simp: is_server_confirmed_def)
  show "r \<in> rows_of en \<Longrightarrow> rr_state r = rs_pending_commit \<Longrightarrow> rs_set_record (ev_ex env) (rr_key r) block (sh_records en) = Inr st
      \<Longrightarrow> frozen env S (en\<lparr>sh_records := st\<rparr>)"
    using chain_rebuild [OF w] by (intro frozen_records [OF s]) (auto intro: storage_wfs w)
  show "rs_create (ev_ex env) block (verdict env block en) (sh_records en) = Inr (k, st) \<Longrightarrow> frozen env S (en\<lparr>sh_records := st\<rparr>)"
    "rs_create (ev_ex env) block rs_pending_sync (sh_records en) = Inr (k, st) \<Longrightarrow> frozen env S (en\<lparr>sh_records := st\<rparr>)"
    "rs_create (ev_ex env) (chain_block_of (ev_ex env) rec auth) rs_pending_commit (sh_records en) = Inr (k, st)
      \<Longrightarrow> frozen env S (en\<lparr>sh_records := st\<rparr>)"
    using frozenD(3) [OF s] by (auto intro!: frozen_records [OF s] intro: storage_wfs w dest: chain_create)
  show "set_row_state (rr_key r) rs_pending_commit en = (Inr (), en') \<Longrightarrow> frozen env S en'"
    by (auto intro: frozen_row [OF s] dest: chain_demote)
  show "truncate_from 1 False (sh_records en) = Inr (removed, st) \<Longrightarrow> frozen env S (en\<lparr>sh_records := st\<rparr>)"
    by (auto intro!: frozen_records [OF s] intro: storage_wfs w dest: chain_truncate)
  show "truncate_prefix (rr_seq r) (object_chain_tags_below (rr_seq r) (sh_records en)) (sh_records en) = Inr (removed, st)
      \<Longrightarrow> frozen env S (en\<lparr>sh_records := st\<rparr>)"
    by (auto intro!: frozen_records [OF s] intro: storage_wfs w dest: chain_prune)
qed (auto simp: frozen_def verdict_def intro!: storage_wfs)

text \<open>C22. Once a block contradicted the trusted anchor the local chain never grows again: every record
  in sync after any run of events and calls was in sync, at the same position with the same block, when
  the contradiction was seen.\<close>

theorem contradicted_chain_frozen:
  assumes "rs_wf (ex_tag_size (ev_ex env)) (sh_records en)" "en_anchor_contradicted en"
  shows "chain (sh_records (engine_run env calls en)) \<subseteq> chain (sh_records en)"
  using anchor.engine_run_pruning [of env "chain (sh_records en)" en calls] assms by (simp add: frozen_def)

theorem contradicted_chain_frozen_witness:
  "chain (sh_records (engine_run sample_env [Deliver (Ev_record (hv_block 0 []) None)]
     ((engine_with empty_record_storage)\<lparr>en_anchor_contradicted := True\<rparr>))) = {}"
  using contradicted_chain_frozen [of sample_env "(engine_with empty_record_storage)\<lparr>en_anchor_contradicted := True\<rparr>"]
  by (simp add: rs_wf_empty)

section \<open>The chain of a strict engine\<close>

text \<open>
  A position is linked: it is the root, it stands behind a record in sync whose hash it names, it is
  the trusted anchor, or it lies below an anchor that is in sync.
\<close>

definition linked :: "link set \<Rightarrow> chain_block_id \<Rightarrow> sequence_number \<Rightarrow> octets \<Rightarrow> octets \<Rightarrow> bool" where
  "linked C a q parent h = ((q = 1 \<and> parent = []) \<or> (\<exists>p\<in>C. lk_hash p = parent \<and> lk_seq p + 1 = q)
     \<or> bid_is_valid a \<and> (h = bid_hash a \<or> (\<exists>p\<in>C. lk_hash p = bid_hash a \<and> q < lk_seq p)))"

definition link_ok :: "externals \<Rightarrow> link set \<Rightarrow> chain_block_id \<Rightarrow> link \<Rightarrow> bool" where
  "link_ok ex C a x = (linked C a (lk_seq x) (lk_parent x) (lk_hash x)
     \<or> linked C a (cb_sequence (lk_block x)) (cb_parent_hash (lk_block x)) (block_hash ex (lk_block x)))"

definition strict_chain :: "engine_env \<Rightarrow> chain_block_id \<Rightarrow> engine \<Rightarrow> bool" where
  "strict_chain env a en = (engine_wf env en \<and> ec_mode (sh_config en) = require_all_seen \<and> ec_trusted_anchor (sh_config en) = a
     \<and> (\<forall>x\<in>chain (sh_records en). link_ok (ev_ex env) (chain (sh_records en)) a x))"

lemma linked_mono: "linked C a q parent h \<Longrightarrow> C \<subseteq> D \<Longrightarrow> linked D a q parent h"
  unfolding linked_def by blast

lemma link_ok_mono: "link_ok ex C a x \<Longrightarrow> C \<subseteq> D \<Longrightarrow> link_ok ex D a x"
  unfolding link_ok_def using linked_mono by blast

lemma in_chain:
  "find_hash h rs_in_sync st = Some r \<Longrightarrow> link_of r \<in> chain st \<and> rr_hash r = h"
  "r \<in> set (rs_records st) \<Longrightarrow> rr_state r = rs_in_sync \<Longrightarrow> link_of r \<in> chain st"
  by (auto simp: find_hash_def chain_def dest!: find_SomeD)

lemma link_of_simps [simp]: "lk_hash (link_of r) = rr_hash r" "lk_seq (link_of r) = rr_seq r" "lk_parent (link_of r) = rr_parent_hash r"
  "lk_block (link_of r) = rr_record r" "lk_tag (link_of r) = rr_tag r"
  by (simp_all add: link_of_def)

lemma link_behind:
  assumes "p \<in> set (rs_records st)" "rr_state p = rs_in_sync" "rr_seq r = rr_seq p + 1" "rr_parent_hash r = rr_hash p"
  shows "link_ok ex (chain st) a (link_of r)"
  unfolding link_ok_def linked_def link_of_simps using in_chain(2) [OF assms(1,2)] assms(3,4) by (metis link_of_simps(1,2))

lemma link_below:
  assumes "p \<in> set (rs_records st)" "rr_state p = rs_in_sync" "bid_is_valid a" "rr_hash p = bid_hash a" "rr_seq r < rr_seq p"
  shows "link_ok ex (chain st) a (link_of r)"
  unfolding link_ok_def linked_def link_of_simps using in_chain(2) [OF assms(1,2)] assms(3-5) by (metis link_of_simps(1,2))

lemma verdict_linked:
  assumes "verdict env b en = rs_in_sync" "ec_mode (sh_config en) = require_all_seen"
  shows "linked (chain (sh_records en)) (ec_trusted_anchor (sh_config en)) (cb_sequence b) (cb_parent_hash b) (block_hash (ev_ex env) b)"
proof -
  have parent: "\<exists>p\<in>chain (sh_records en). lk_hash p = cb_parent_hash b \<and> lk_seq p + 1 = q"
    if "find_hash (cb_parent_hash b) rs_in_sync (sh_records en) = Some r" "rr_seq r + 1 = q" for r q
    using in_chain(1) [OF that(1)] that(2) by (metis link_of_simps(1,2))
  have anchor: "\<exists>p\<in>chain (sh_records en). lk_hash p = bid_hash (ec_trusted_anchor (sh_config en)) \<and> q < lk_seq p"
    if "held_anchor en = Some r" "q < rr_seq r" for r q
    using in_chain(1) that unfolding held_anchor_def by (metis link_of_simps(1,2))
  show ?thesis
    using assms parent anchor
    by (auto simp: verdict_def linked_def check_chain_block_strict_def check_anchor_chain_block_def Let_def
        split: if_splits option.splits)
qed

lemma strict_row:
  assumes "strict_chain env a en" "set_row_state k s en = (Inr (), en')"
    "chain (sh_records en') = chain (sh_records en) \<or> (\<exists>x. chain (sh_records en') = insert x (chain (sh_records en))
      \<and> link_ok (ev_ex env) (chain (sh_records en)) a x)"
  shows "strict_chain env a en'"
  using assms(1,3) wf.set_row_state_frame(1) [OF assms(2)] set_row_state_wf [of env en k s "()" en', OF _ assms(2)] link_ok_mono
  unfolding strict_chain_def by (metis insert_iff subset_insertI)

lemma strict_records:
  assumes "strict_chain env a en" "rs_wf (ex_tag_size (ev_ex env)) st"
    "chain st = chain (sh_records en) \<or> (\<exists>x. chain st = insert x (chain (sh_records en)) \<and> link_ok (ev_ex env) (chain (sh_records en)) a x)"
  shows "strict_chain env a (en\<lparr>sh_records := st\<rparr>)"
proof -
  have "link_ok (ev_ex env) (chain st) a y" if "y \<in> chain st" for y
    using assms(1,3) that link_ok_mono unfolding strict_chain_def by (metis insert_iff subset_insertI)
  then show ?thesis using assms(1,2) by (simp add: strict_chain_def)
qed

lemma strict_chainD:
  assumes "strict_chain env a en"
  shows "engine_wf env en" "ec_mode (sh_config en) = require_all_seen" "ec_trusted_anchor (sh_config en) = a"
  using assms by (simp_all add: strict_chain_def)

interpretation strict: engine_invariant env "strict_chain env a" for env a
proof unfold_locales
  fix en en' c h m r p b block st k removed rec auth e assume s: "strict_chain env a en"
  note w = strict_chainD [OF s]
  note rows = strict_row [OF s] and recs = strict_records [OF s]
  show "rows_wf (rs_records (sh_records en))" using w(1) by (rule rs_wfD)
  show "benign env en en' \<Longrightarrow> strict_chain env a en'"
    using s by (auto simp: strict_chain_def benign_def same_records_def dest: chain_same)
  show "strict_chain env a (en\<lparr>sh_comm := c, en_pushing := h, en_in_flight := m\<rparr>)" "strict_chain env a (en\<lparr>en_fork := True\<rparr>)"
    "strict_chain env a (en\<lparr>en_fork := True, en_anchor_contradicted := True\<rparr>)"
    using s by (simp_all add: strict_chain_def)
  show "r \<in> rows_of en \<Longrightarrow> \<not> is_server_confirmed (rr_state r) \<Longrightarrow> set_row_state (rr_key r) rs_invalid en = (Inr (), en') \<Longrightarrow> strict_chain env a en'"
    using chain_state [OF w(1)] by (intro rows) (auto simp: is_server_confirmed_def)
  show "r \<in> rows_of en \<Longrightarrow> \<not> is_server_confirmed (rr_state r) \<Longrightarrow> bid_is_valid (block_id (ev_ex env) block)
      \<Longrightarrow> verdict env block en \<noteq> rs_invalid \<Longrightarrow> check_matches_without_server_data block (rr_record r)
      \<Longrightarrow> rs_set_state (rr_key r) (verdict env block en) (block_id (ev_ex env) block) (cb_parent_hash block) (sh_records en) = Inr st
      \<Longrightarrow> strict_chain env a (en\<lparr>sh_records := st\<rparr>)"
    using chain_confirm [OF w(1), of r] verdict_linked [OF _ w(2)] w(3)
    by (intro recs) (auto simp: link_ok_def block_id_def intro: storage_wfs w)
  show "r \<in> rows_of en \<Longrightarrow> rr_state r = rs_pending_commit \<Longrightarrow> rs_set_record (ev_ex env) (rr_key r) block (sh_records en) = Inr st
      \<Longrightarrow> strict_chain env a (en\<lparr>sh_records := st\<rparr>)"
    using chain_rebuild [OF w(1)] by (intro recs) (auto intro: storage_wfs w)
  show "rs_create (ev_ex env) block (verdict env block en) (sh_records en) = Inr (k, st) \<Longrightarrow> strict_chain env a (en\<lparr>sh_records := st\<rparr>)"
    using chain_create verdict_linked [OF _ w(2)] w(3) by (intro recs) (auto simp: link_ok_def intro: storage_wfs w)
  show "rs_create (ev_ex env) block rs_pending_sync (sh_records en) = Inr (k, st) \<Longrightarrow> strict_chain env a (en\<lparr>sh_records := st\<rparr>)"
    "rs_create (ev_ex env) (chain_block_of (ev_ex env) rec auth) rs_pending_commit (sh_records en) = Inr (k, st)
      \<Longrightarrow> strict_chain env a (en\<lparr>sh_records := st\<rparr>)"
    using chain_create by (auto intro!: recs intro: storage_wfs w)
  show "p \<in> rows_of en \<Longrightarrow> rr_state p = rs_in_sync \<Longrightarrow> r \<in> rows_of en \<Longrightarrow> rr_state r = rs_pending_sync \<Longrightarrow> rr_seq r = rr_seq p + 1
      \<Longrightarrow> rr_parent_hash r = rr_hash p \<Longrightarrow> set_row_state (rr_key r) rs_in_sync en = (Inr (), en') \<Longrightarrow> strict_chain env a en'"
    using chain_state [OF w(1), of r] link_behind [of p "sh_records en" r] by (intro rows) auto
  show "b \<in> rows_of en \<Longrightarrow> rr_state b = rs_in_sync \<Longrightarrow> r \<in> rows_of en \<Longrightarrow> rr_state r = rs_pending_sync
      \<Longrightarrow> bid_is_valid (ec_trusted_anchor (sh_config en)) \<Longrightarrow> rr_hash b = bid_hash (ec_trusted_anchor (sh_config en))
      \<Longrightarrow> rr_seq r < rr_seq b \<Longrightarrow> set_row_state (rr_key r) rs_in_sync en = (Inr (), en') \<Longrightarrow> strict_chain env a en'"
    using chain_state [OF w(1), of r] link_below [of b "sh_records en" a r] w(3) by (intro rows) auto
  show "r \<in> rows_of en \<Longrightarrow> rr_state r = rs_pending_sync \<Longrightarrow> verdict env (rr_record r) en = rs_in_sync
      \<Longrightarrow> set_row_state (rr_key r) rs_in_sync en = (Inr (), en') \<Longrightarrow> strict_chain env a en'"
    using chain_state [OF w(1), of r] verdict_linked [OF _ w(2), of env "rr_record r"] w(3)
    by (intro rows) (auto simp: link_ok_def)
  show "strict_chain env a (en\<lparr>sh_records := rs_set_assignment k e [] 0 (sh_records en)\<rparr>)"
    by (intro recs) (auto intro: storage_wfs w)
qed (auto simp: strict_chain_def)



end
