(* ===== verification/Engine_Commit.thy ===== *)
theory Engine_Commit
  imports Engine_Safety
begin

text \<open>
  The commit loop gets somewhere: it returns, and it either put a commit request on the wire or left
  nothing pending that the server has not already refused as it stands.
\<close>

section \<open>One round of the loop\<close>

definition pending_ready :: "engine_env \<Rightarrow> engine \<Rightarrow> bool" where
  "pending_ready env en = (engine_wf env en \<and> \<not> en_fork en
     \<and> (\<forall>r\<in>rows_of en. rr_state r = rs_pending_commit \<longrightarrow> deserialise_record (ev_ex env) (rr_record r) \<noteq> None))"

definition commits :: "engine \<Rightarrow> chain_block list" where
  "commits en = sent_commits (sh_comm en)"

lemma rs_row_map:
  assumes "\<And>r. rr_key (f r) = rr_key r"
  shows "find (\<lambda>r. rr_key r = k) (map (\<lambda>r. if rr_key r = j then f r else r) rows) =
    map_option (\<lambda>r. if rr_key r = j then f r else r) (find (\<lambda>r. rr_key r = k) rows)"
  using assms by (induction rows) auto

lemma other_row:
  assumes "rs_records st' = map (\<lambda>r. if rr_key r = j then f r else r) (rs_records st)" "\<And>r. rr_key (f r) = rr_key r" "k \<noteq> j"
  shows "rs_row k st' = rs_row k st"
  using assms(3) unfolding rs_row_def assms(1) rs_row_map [of f, OF assms(2)]
  by (cases "find (\<lambda>r. rr_key r = k) (rs_records st)") (auto dest: find_SomeD)

lemma set_record_decodes: "rs_set_record ex k b st = Inr st' \<Longrightarrow> deserialise_record ex b \<noteq> None"
  by (auto simp: rs_set_record_def bind_result_Inr split: option.splits if_splits)

text \<open>A round leaves the engine as it was but for the random octets, the events and the row it worked on.\<close>

definition round_step :: "engine_env \<Rightarrow> nat \<Rightarrow> engine \<Rightarrow> engine \<Rightarrow> bool" where
  "round_step env k en en' = (pending_ready env en' \<and> commits en' = commits en \<and> en_rejected en' = en_rejected en
     \<and> (\<forall>j. j \<noteq> k \<longrightarrow> rs_row j (sh_records en') = rs_row j (sh_records en)))"

lemma round_draws: "round_step env k en (en1\<lparr>sh_draws := n\<rparr>) = round_step env k en en1"
  by (simp add: round_step_def pending_ready_def commits_def)

lemma round_notify: "round_step env k en (notify_conflicts k' cs en1) = round_step env k en en1"
  by (cases "notify_conflicts k' cs en1"; cases en1)
    (use notify_conflicts_records [of k' cs en1] in \<open>simp add: round_step_def pending_ready_def commits_def\<close>)

lemma round_refl: "pending_ready env en \<Longrightarrow> round_step env k en en"
  by (simp add: round_step_def)

lemma ready_map:
  assumes "pending_ready env en" "rs_wf (ex_tag_size (ev_ex env)) st" "rs_records st = map (\<lambda>r. if rr_key r = k then f r else r) (rs_records (sh_records en))"
    "\<And>r. rr_key (f r) = rr_key r" "\<And>r. rr_state (f r) = rs_pending_commit \<Longrightarrow> deserialise_record (ev_ex env) (rr_record (f r)) \<noteq> None"
  shows "round_step env k en (en\<lparr>sh_records := st\<rparr>)"
  using assms(1,2,5) other_row [OF assms(3,4)] by (auto simp: round_step_def pending_ready_def commits_def assms(3) split: if_splits)

lemma invalid_total:
  assumes "pending_ready env en"
  obtains en' where "set_row_state k rs_invalid en = (Inr (), en')" "round_step env k en en'"
proof -
  have "rs_wf (ex_tag_size (ev_ex env)) (sh_records en)" using assms by (simp add: pending_ready_def)
  then obtain st where st: "rs_set_state k rs_invalid no_block [] (sh_records en) = Inr st"
    using demote_total [of "sh_records en" rs_invalid k] by (auto simp: rs_wf_def is_server_confirmed_def)
  then have e: "set_row_state k rs_invalid en = (Inr (), en\<lparr>sh_records := st\<rparr>)" by (simp add: set_row_state_def update_records_def)
  have "round_step env k en (en\<lparr>sh_records := st\<rparr>)"
    using set_row_state_rows [OF e] rs_set_state_wf [OF _ st] assms
    by (intro ready_map [where f = "\<lambda>r. r\<lparr>rr_state := rs_invalid, rr_useq := is_server_confirmed rs_invalid\<rparr>"]) (simp_all add: pending_ready_def)
  then show ?thesis using e that by blast
qed

lemma rebuild_outcome:
  assumes "pending_ready env en" "rebuild_pending env h cs en = (r, en1)"
  shows "round_step env (rr_key h) en en1" "r = Inr u \<Longrightarrow> u"
proof -
  obtain b en0 where b: "update_pending_commit env (rr_record h) (cs \<noteq> []) en = (b, en0)" by fastforce
  then obtain n where n: "en0 = en\<lparr>sh_draws := n\<rparr>" using update_pending_commit_draws by blast
  have refl: "round_step env (rr_key h) en en" using assms(1) by (rule round_refl)
  have set: "round_step env (rr_key h) en (en\<lparr>sh_records := st\<rparr>)" if "rs_set_record (ev_ex env) (rr_key h) block (sh_records en) = Inr st" for block st
    using assms(1) set_record_decodes [OF that] rs_set_record_wf [OF _ that]
    by (intro ready_map [OF assms(1) _ set_record_Inr(2) [OF that]]) (auto simp: pending_ready_def)
  have draws: "round_step env k e (en\<lparr>sh_draws := n, sh_records := st\<rparr>) = round_step env k e (en\<lparr>sh_records := st\<rparr>)" for k e st
    by (simp add: round_step_def pending_ready_def commits_def)
  show "round_step env (rr_key h) en en1" "r = Inr u \<Longrightarrow> u"
    using assms(2) refl set
    by (auto simp: rebuild_pending_def bind_act_def b n act_prims when_act_def update_records_def round_notify round_draws draws
        split: sum.splits option.splits if_splits)
qed

text \<open>Every exception is a value of the class \<open>error\<close>, so the rebuild never lets one through.\<close>

definition errors_are_values :: "engine_env \<Rightarrow> bool" where
  "errors_are_values env = (\<forall>e. ev_base_error env e)"

lemma round_trans: "round_step env k en en1 \<Longrightarrow> round_step env k en1 en2 \<Longrightarrow> round_step env k en en2"
  by (simp add: round_step_def)

lemma rebase_outcome:
  assumes "errors_are_values env" "pending_ready env en" "deserialise_record (ev_ex env) (rr_record h) = Some rec"
  obtains usable en' where "rebase_if_needed env h cs en = (Inr usable, en')" "round_step env (rr_key h) en en'"
proof -
  obtain r en1 where r: "rebuild_pending env h cs en = (r, en1)" by fastforce
  note out = rebuild_outcome [OF assms(2) r]
  have ready1: "pending_ready env en1" using out(1) by (simp add: round_step_def)
  obtain en2 where en2: "set_row_state (rr_key h) rs_invalid en1 = (Inr (), en2)" "round_step env (rr_key h) en1 en2"
    using invalid_total [OF ready1] by blast
  have err: "is_error_value env e" for e using assms(1) by (simp add: is_error_value_def errors_are_values_def)
  have "\<exists>usable en'. rebase_if_needed env h cs en = (Inr usable, en') \<and> round_step env (rr_key h) en en'"
    using out(1) round_trans [OF out(1) en2(2)] round_refl [OF assms(2)]
    by (cases r) (auto simp: rebase_if_needed_def bind_act_def record_of_def from_option_def act_prims try_catch_def assms(3) r en2(1) err)
  then show ?thesis using that by blast
qed

lemma commit_record_sends:
  assumes "\<not> en_fork en" "rs_row k (sh_records en) = Some row"
  shows "\<exists>x en'. commit_record k en = (Inr x, en') \<and> commits en' = commits en @ [rr_record row]"
proof -
  obtain h c where hc: "comm_commit_record (rr_record row) (sh_comm en) = (h, c)" by fastforce
  then have "sent_commits c = sent_commits (sh_comm en) @ [rr_record row]" using sent_commits_requests(3) by (metis snd_conv)
  then show ?thesis
    using assms by (simp add: commit_record_def bind_act_def handle_row_def from_option_def act_prims hc commits_def)
qed

lemma commit_one_outcome:
  assumes "errors_are_values env" "pending_ready env en" "h \<in> rows_of en" "rr_state h = rs_pending_commit"
  obtains turn en' where "commit_one env h en = (Inr turn, en')" "turn = Turn_committed \<Longrightarrow> \<exists>b. commits en' = commits en @ [b]"
    "turn \<noteq> Turn_committed \<Longrightarrow> round_step env (rr_key h) en en'" "turn = Turn_next \<Longrightarrow> is_rejected_unchanged env (rr_key h) en'"
proof -
  obtain rec where rec: "deserialise_record (ev_ex env) (rr_record h) = Some rec" using assms(2-4) by (auto simp: pending_ready_def)
  let ?cs = "oid_conflicts (sh_records en) rec"
  have cs: "find_oid_conflicts env (rr_record h) en = (Inr ?cs, en)"
    by (simp add: find_oid_conflicts_def bind_act_def record_of_def from_option_def act_prims rec)
  obtain en1 where en1: "set_row_state (rr_key h) rs_invalid en = (Inr (), en1)" "round_step env (rr_key h) en en1"
    using invalid_total [OF assms(2)] by blast
  obtain usable en2 where en2: "rebase_if_needed env h ?cs en = (Inr usable, en2)" "round_step env (rr_key h) en en2"
    using rebase_outcome [OF assms(1,2) rec] by blast
  show ?thesis
  proof (cases "?cs \<noteq> [] \<and> ec_conflicts (sh_config en) = ask_application")
    case True
    then have "commit_one env h en = (Inr Turn_first, notify_conflicts (rr_key h) ?cs en1)"
      by (simp add: commit_one_def bind_act_def cs act_prims cancel_conflicting_def en1(1))
    then show ?thesis using that en1(2) by (simp add: round_notify)
  next
    case False
    have go: "commit_one env h en = (if \<not> usable then (Inr Turn_first, en2) else if is_rejected_unchanged env (rr_key h) en2 then (Inr Turn_next, en2)
        else bind_act (commit_record (rr_key h)) (\<lambda>_. ret Turn_committed) en2)"
      using False by (auto simp: commit_one_def bind_act_def [of "find_oid_conflicts env b" for b] cs bind_gets
          bind_act_def [of "rebase_if_needed env h cs" for cs] en2(1) ret_def)
    show ?thesis
    proof (cases "usable \<and> \<not> is_rejected_unchanged env (rr_key h) en2")
      case True
      have keys: "map rr_key (rs_records (sh_records en2)) = map rr_key (rs_records (sh_records en))"
        using rebase_if_needed_states(1) [OF en2(1)] True by (metis (no_types, lifting) row_states_def map_map fst_conv comp_def map_eq_conv)
      then have "rr_key h \<in> set (map rr_key (rs_records (sh_records en2)))" using assms(3) by auto
      then obtain row where "rs_row (rr_key h) (sh_records en2) = Some row"
        by (cases "rs_row (rr_key h) (sh_records en2)") (auto simp: rs_row_def find_None_all)
      then obtain x en' where x: "commit_record (rr_key h) en2 = (Inr x, en')" "commits en' = commits en2 @ [rr_record row]"
        using commit_record_sends en2(2) by (metis round_step_def pending_ready_def)
      then have "commit_one env h en = (Inr Turn_committed, en')" using go True by (simp add: bind_act_def ret_def)
      then show ?thesis using that x(2) en2(2) by (simp add: round_step_def)
    next
      case False
      then show ?thesis using that go en2(2) by (cases usable) auto
    qed
  qed
qed

section \<open>The loop\<close>

lemma find_sorted:
  fixes f :: "'a \<Rightarrow> 'b::linorder"
  shows "sorted_wrt (<) (map f xs) \<Longrightarrow> find P xs = Some h \<Longrightarrow> r \<in> set xs \<Longrightarrow> P r \<Longrightarrow> f h \<le> f r"
  by (induction xs) (auto split: if_splits)

lemma next_pending_first:
  assumes "rows_wf (rs_records (sh_records en))" "next_pending after en = Some h" "r \<in> rows_of en" "rr_state r = rs_pending_commit"
    "case after of None \<Rightarrow> True | Some a \<Rightarrow> a < rr_key r"
  shows "rr_key h \<le> rr_key r"
  using assms(2-5) find_sorted [OF rows_wfD(1) [OF assms(1)]]
  by (auto simp: next_pending_def find_first_pending_commit_def find_next_pending_commit_def split: option.splits)

definition passed :: "engine_env \<Rightarrow> nat option \<Rightarrow> engine \<Rightarrow> bool" where
  "passed env after en = (\<forall>r\<in>rows_of en. rr_state r = rs_pending_commit
     \<longrightarrow> (case after of None \<Rightarrow> False | Some a \<Rightarrow> rr_key r \<le> a) \<longrightarrow> is_rejected_unchanged env (rr_key r) en)"

lemma rs_row_self: "rows_wf (rs_records st) \<Longrightarrow> r \<in> set (rs_records st) \<Longrightarrow> rs_row (rr_key r) st = Some r"
  by (cases "rs_row (rr_key r) st") (auto simp: rs_row_def find_None_all dest!: find_SomeD intro: same_key_row)

lemma passed_next:
  assumes "passed env after en" "pending_ready env en" "next_pending after en = Some h" "round_step env (rr_key h) en en'"
    "is_rejected_unchanged env (rr_key h) en'"
  shows "passed env (Some (rr_key h)) en'"
  unfolding passed_def option.case
proof (intro ballI impI)
  fix r assume r: "r \<in> rows_of en'" "rr_state r = rs_pending_commit" "rr_key r \<le> rr_key h"
  have wf: "rows_wf (rs_records (sh_records en))" "rows_wf (rs_records (sh_records en'))"
    using assms(2,4) by (auto simp: pending_ready_def round_step_def rs_wf_def)
  show "is_rejected_unchanged env (rr_key r) en'"
  proof (cases "rr_key r = rr_key h")
    case False
    have same: "rs_row (rr_key r) (sh_records en') = rs_row (rr_key r) (sh_records en)" "en_rejected en' = en_rejected en"
      using False assms(4) by (auto simp: round_step_def)
    then have r0: "r \<in> rows_of en" using rs_row_self [OF wf(2) r(1)] rs_row_SomeD [of "rr_key r" "sh_records en" r] by simp
    have "\<not> (case after of None \<Rightarrow> True | Some a \<Rightarrow> a < rr_key r)"
      using next_pending_first [OF wf(1) assms(3) r0 r(2)] False r(3) by auto
    then have "is_rejected_unchanged env (rr_key r) en" using assms(1) r0 r(2) by (auto simp: passed_def split: option.splits)
    then show ?thesis unfolding is_rejected_unchanged_def same .
  qed (use assms(5) in simp)
qed

lemma commit_loop_outcome:
  assumes "errors_are_values env" "pending_ready env en" "passed env after en"
  shows "\<exists>en'. commit_loop env after en = (Inr (), en') \<and> ((\<exists>b. commits en' = commits en @ [b])
    \<or> commits en' = commits en \<and> (\<forall>r\<in>rows_of en'. rr_state r = rs_pending_commit \<longrightarrow> is_rejected_unchanged env (rr_key r) en'))"
  using assms
proof (induction env after en rule: commit_loop.induct)
  case (1 env after en)
  show ?case
  proof (cases "next_pending after en")
    case None
    have "is_rejected_unchanged env (rr_key r) en" if "r \<in> rows_of en" "rr_state r = rs_pending_commit" for r
    proof -
      have "\<not> (case after of None \<Rightarrow> True | Some a \<Rightarrow> a < rr_key r)"
        using None that by (auto simp: next_pending_def find_first_pending_commit_def find_next_pending_commit_def find_None_all split: option.splits)
      then show ?thesis using "1.prems"(3) that by (auto simp: passed_def split: option.splits)
    qed
    then show ?thesis using None by (simp add: commit_loop.simps)
  next
    case (Some h)
    note h = next_pending_row(1,2) [OF Some]
    obtain turn en1 where t: "commit_one env h en = (Inr turn, en1)" "turn = Turn_committed \<Longrightarrow> \<exists>b. commits en1 = commits en @ [b]"
      "turn \<noteq> Turn_committed \<Longrightarrow> round_step env (rr_key h) en en1" "turn = Turn_next \<Longrightarrow> is_rejected_unchanged env (rr_key h) en1"
      using commit_one_outcome [OF "1.prems"(1,2) h] by metis
    have loop: "commit_loop env after en = (case turn of Turn_committed \<Rightarrow> (Inr (), en1) | Turn_first \<Rightarrow> commit_loop env None en1
        | Turn_next \<Rightarrow> commit_loop env (Some (rr_key h)) en1)"
      by (subst commit_loop.simps) (simp add: Some t(1))
    show ?thesis
    proof (cases turn)
      case Turn_committed
      then show ?thesis using loop t(2) by simp
    next
      case Turn_first
      then have step: "round_step env (rr_key h) en en1" using t(3) by simp
      then have "pending_ready env en1" "commits en1 = commits en" by (auto simp: round_step_def)
      then show ?thesis
        using "1.IH"(1) [OF Some t(1) [symmetric] refl Turn_first "1.prems"(1)] loop Turn_first by (simp add: passed_def)
    next
      case Turn_next
      then have step: "round_step env (rr_key h) en en1" using t(3) by simp
      then have "pending_ready env en1" "commits en1 = commits en" by (auto simp: round_step_def)
      moreover have "passed env (Some (rr_key h)) en1"
        using passed_next [OF "1.prems"(3,2) Some step] t(4) Turn_next by blast
      ultimately show ?thesis
        using "1.IH"(2) [OF Some t(1) [symmetric] refl Turn_next "1.prems"(1)] loop Turn_next by simp
    qed
  qed
qed


definition one_pending :: record_storage where
  "one_pending = empty_record_storage\<lparr>rs_records := [(hv_row 1 0 [] user_change_tag)\<lparr>rr_state := rs_pending_commit, rr_useq := False\<rparr>]\<rparr>"


end
