(* ===== verification/Spec2Isabelle.thy ===== *)
theory Spec2Isabelle
  imports Sync_Mode Divergence Have_Bitmap Chain_Log Segment_Chain Replication Rebase_Policy History_Verifier Server_Data Engine_Commit
begin

text \<open>
  A verification of spsync, a synchronisation library for end-to-end encrypted data: clients sign
  and encrypt records, servers order them into a hash chain and replicate them, the data of a record
  travels beside it in encrypted chunks.

  \<^bold>\<open>Parts and how they interact.\<close> A client (src/spsync/engine) keeps its records in a record storage
  (src/spsync/core/record_storage.cpp) with a table of data and a store of chunk files
  (src/spsync/core/data). It builds records with its keys, sends them over a connection
  (src/spsync/comm) and takes the events of the connection: numbers, batches of records, answers to
  commits, records of others. A server (src/spsync/server/server_lib) checks a committed record
  against the rules of the storage's mode (chain_sync.cpp), appends it to its log (chain_log.cpp),
  signs the position it gave it, and replicates the records of other servers (storage.cpp). It issues
  tickets for the data its records name (ticket_issuer.cpp) and looks after their copies on the data
  servers, which keep the chunks of a storage under a quota (data_store.cpp).

  \<^bold>\<open>Theories and sources.\<close>
  \<^item> \<open>Prelude\<close>: machine types, error values, results, lists as database tables, word arithmetic.
    \<open>Actions\<close>: code that changes a state and may throw, with rules for what it preserves.
  \<^item> \<open>Util\<close>, \<open>Sync_Mode\<close>: src/spsync/util and core/sync_mode.hpp, protocol/wire_modes.hpp.
  \<^item> \<open>Records\<close>: core/records (bases, kinds, chain blocks, envelopes, proofs of equivocation).
    \<open>User_Merge\<close>: core/users.cpp and core/user_merge.cpp.
  \<^item> \<open>Data_Descriptor\<close>, \<open>Have_Bitmap\<close>, \<open>Data_Stream\<close>, \<open>Data_Table\<close>: core/data (descriptors, padding,
    manifests, chunk encryption, tickets, bitmaps, the streaming encryptor and decryptor, the table
    of data rows).
  \<^item> \<open>Data_Store\<close>, \<open>Data_Store_Invariant\<close>, \<open>Data_Store_Run\<close>: core/data/record_data_store.cpp over
    chunk_files.cpp; its invariant; its runs.
  \<^item> \<open>Record_Storage\<close>, \<open>Record_Invariants\<close>: core/record_storage.cpp and core/data/data_index.cpp; the
    constraints of the tables.
  \<^item> \<open>Key_Storage\<close>, \<open>Record_Crypto\<close>: core/encryption_key_storage.cpp; engine/record_creator.cpp and
    record_verifier.cpp.
  \<^item> \<open>Rebase_Policy\<close>, \<open>History_Verifier\<close>: engine/rebase_policy.cpp, engine/history_verifier.cpp.
  \<^item> \<open>Comm\<close>, \<open>Data_Sync\<close>, \<open>Sync_Engine\<close>: comm/comm.cpp, engine/data_sync.cpp, engine/sync_engine.cpp.
    The state the data half works on is \<open>sync_host\<close> (connection, storage, keys, files), the engine's is
    the extension \<open>engine\<close>; a member function is an action on it, \<open>handle_event\<close> is the dispatch of the connection's events
    and \<open>engine_do\<close> one event or call of the application.
  \<^item> \<open>Engine_Frame\<close>, \<open>Engine_Invariant\<close>, \<open>Engine_Safety\<close>, \<open>Engine_Commit\<close>: what holds of the engine.
  \<^item> \<open>Divergence\<close>: core/divergence.cpp. \<open>Chain_Log\<close>, \<open>Chain_Sync\<close>, \<open>Segment_Chain\<close>, \<open>Storage_Heads\<close>,
    \<open>Server_Storage\<close>, \<open>Replication\<close>: server/server_lib (chain_log.cpp, chain_sync.cpp, storage_heads.cpp,
    evidence_store.cpp, storage.cpp).
  \<^item> \<open>Data_Placement\<close>: server/server_lib (data_availability.cpp, data_replication_plan.cpp, data_release.cpp,
    ticket_issuer.cpp, transfer_budget.cpp). \<open>Server_Data\<close>: data_store.cpp, the chunk store of a data server
    with its quota; a run of it (\<open>sd_step\<close>) is simulated by a run of the chunk store (\<open>store_step\<close>).
  \<^item> \<open>Samples\<close>, \<open>Engine_Samples\<close>: concrete values for the examples.

  \<^bold>\<open>What is shown.\<close>
  \<^item> Server: the log is the hash chain of what was appended and the head id fixes the history; a tag or
    an operation is committed once; segments partition the chain; reopening a storage gives the same
    rules; a cut of the history keeps the versions of every object; no run of a server signs two
    records for one position, and a replica that meets such a pair condemns its origin for good.
  \<^item> Client: every run of events and calls keeps the storage well-formed; in strict mode every record in
    sync is linked to the chain; a suspected fork stops commits, a contradicted anchor freezes the
    chain; the commit loop returns and makes progress; the rebase policy asks for a rebuild exactly
    when the server would refuse; verification of the history accepts exactly intact histories.
  \<^item> Data: what is encrypted in pieces decrypts to the source; every chunk marked as held belongs to the
    manifest the data identifier commits to; what is written reads back.
  \<^item> Data servers: the counters of a store are exact and within the quota after every run, as long as a
    release names a data once (with a data named twice they are not); held chunks verify; expiry drops
    exactly stale incomplete uploads; tickets are sound; placement is rendezvous hashing, copies converge,
    a window of transfers keeps its quota.
  \<^item> Values: codecs and bitmaps round trip, sizes and batches keep their bounds, merges converge.

  \<^bold>\<open>Interfaces.\<close> \<open>chunk_set\<close> is what the transfers and tables need of a bitmap, \<open>engine_invariant\<close> and
  \<open>pruning_invariant\<close> the changes of state the engine is made of; an invariant that survives those
  survives every run. They are interpreted on the model's own definitions, the last two four times.

  \<^bold>\<open>Parameters.\<close> The base library is a submodule whose sources are not present. Its DER codec, hash,
  signatures and ciphers are the fields of \<open>externals\<close>, \<open>record_codec\<close>, \<open>key_codec\<close>, \<open>aead\<close> and
  \<open>engine_env\<close>. A property that needs something of them (the tag is checked by decryption, the digest
  has no collision on the manifests that occur) says so in a hypothesis.

  \<^bold>\<open>Bounds and termination.\<close> Sequence numbers and sizes are words of their width and wrap where the code
  does. No fuel is used: every loop is a recursion with a termination proof (the commit loop by the
  pending records left, the retry of undecrypted records and the promotion of waiting ones by the
  records not yet in sync, the walks of the history by the distance to the end).

  \<^bold>\<open>Not modelled.\<close> The transport (sockets, handshakes, timers) and everything that only schedules over
  it: transfer, the connections, streaming and coordination of the data server around its store and tables,
  the connections of clients and of servers to a server. The packet
  declarations, whose codec the submodule generates. The client library above the engine, which is
  glue over the key server and packet transport of the submodule. Configuration files, tools, the
  groupchat application and the third party JSON library. Locks: the code takes one for each
  operation, so an operation is one step. Log output. Migrations of old database layouts.
\<close>

end
